(* ===== verification/Kp_Prelude.thy ===== *)
theory Kp_Prelude
  imports Main "HOL-Library.Word"
begin

text \<open>
  Shared vocabulary of the development: the machine integer types of the C code, the
  kernel macros that several components use (\<open>ALIGN\<close>, \<open>BIT\<close>, \<open>__ffs\<close>), the error
  numbers, and the generic lemmas on words and lists that the component theories rely on.
  The target is the 32-bit little-endian ARM of the devices the patches are for, so
  \<open>unsigned long\<close> is a 32-bit word and a page has 4096 bytes.
\<close>

unbundle bit_operations_syntax

section \<open>Machine integers\<close>

type_synonym u8 = "8 word"
type_synonym u16 = "16 word"
type_synonym u32 = "32 word"
type_synonym u64 = "64 word"

named_theorems word_nat \<open>facts that carry word arithmetic over to natural numbers\<close>

abbreviation (input) PAGE_SIZE :: nat where "PAGE_SIZE \<equiv> 4096"
abbreviation (input) PAGE_SHIFT :: nat where "PAGE_SHIFT \<equiv> 12"
abbreviation (input) BITS_PER_LONG :: nat where "BITS_PER_LONG \<equiv> 32"

section \<open>Error numbers\<close>

text \<open>The C functions return 0 or a negated error number.\<close>

abbreviation (input) EIO :: int where "EIO \<equiv> 5"
abbreviation (input) ENOMEM :: int where "ENOMEM \<equiv> 12"
abbreviation (input) EFAULT :: int where "EFAULT \<equiv> 14"
abbreviation (input) EINVAL :: int where "EINVAL \<equiv> 22"
abbreviation (input) EROFS :: int where "EROFS \<equiv> 30"

section \<open>Word lemmas\<close>

lemma unat_add_lt [word_nat]:
  "unat (a :: 'a::len word) + unat b < 2 ^ LENGTH('a) \<Longrightarrow> unat (a + b) = unat a + unat b"
  by (simp add: unat_word_ariths)

lemma unat_sub_le [word_nat]:
  "unat (b :: 'a::len word) \<le> unat a \<Longrightarrow> unat (a - b) = unat a - unat b"
  by (simp add: unat_sub word_le_nat_alt)

lemma unat_ucast_16_32 [simp, word_nat]: "unat (ucast (x :: u16) :: u32) = unat x"
  by (simp add: unsigned_ucast_eq take_bit_nat_eq_self unsigned_less [THEN less_trans])

lemma unat_ucast_32_16 [word_nat]:
  "unat (x :: u32) < 65536 \<Longrightarrow> unat (ucast x :: u16) = unat x"
  by (simp add: unsigned_ucast_eq take_bit_nat_eq_self)

lemma unat_u16_lt [simp]: "unat (x :: u16) < 65536"
  using unsigned_less[of x] by simp

lemma unat_u32_lt [simp]: "unat (x :: u32) < 4294967296"
  using unsigned_less[of x] by simp

lemma unat_of_nat_u16 [word_nat]: "n < 65536 \<Longrightarrow> unat (of_nat n :: u16) = n"
  by (simp add: unat_of_nat take_bit_nat_eq_self)

lemma unat_of_nat_u32 [word_nat]: "n < 4294967296 \<Longrightarrow> unat (of_nat n :: u32) = n"
  by (simp add: unat_of_nat take_bit_nat_eq_self)

lemma word_eq_unat: "(a :: 'a::len word) = b \<longleftrightarrow> unat a = unat b"
  by (rule unsigned_word_eqI [THEN iffI [rotated]]) auto

lemma unat_word_4: "unat (4 :: u32) = 4"
  by simp

lemma unat_numeral_4096: "unat (4096 :: u32) = 4096"
  by simp

section \<open>Kernel macros\<close>

text \<open>
  \<^verbatim>\<open>ALIGN(x, a)\<close> rounds up to a multiple of the power of two \<open>a\<close>; \<^verbatim>\<open>__ffs\<close> is the
  index of the least set bit (its callers only use it on a word that is not zero).
\<close>

definition ALIGN :: "u32 \<Rightarrow> u32 \<Rightarrow> u32" where
  "ALIGN x a = (x + (a - 1)) AND NOT (a - 1)"

definition ffs :: "u32 \<Rightarrow> nat" where
  "ffs w = (case find (bit w) [0..<32] of Some n \<Rightarrow> n | None \<Rightarrow> 0)"

lemma unat_and_not_mask:
  "unat ((w :: 'a::len word) AND NOT (mask n)) = unat w div 2 ^ n * 2 ^ n"
proof -
  have "w AND NOT (mask n) = push_bit n (drop_bit n w)"
    by (rule bit_word_eqI) (auto simp: bit_simps)
  moreover have "unat (push_bit n (drop_bit n w)) = unat w div 2 ^ n * 2 ^ n"
  proof -
    have "unat (push_bit n (drop_bit n w)) = take_bit LENGTH('a) (push_bit n (drop_bit n (unat w)))"
      by (simp add: unsigned_push_bit_eq unsigned_drop_bit_eq take_bit_nat_eq_self)
    also have "push_bit n (drop_bit n (unat w)) = unat w div 2 ^ n * 2 ^ n"
      by (simp add: push_bit_eq_mult drop_bit_eq_div)
    also have "take_bit LENGTH('a) (unat w div 2 ^ n * 2 ^ n) = unat w div 2 ^ n * 2 ^ n"
    proof (rule take_bit_nat_eq_self)
      have "unat w div 2 ^ n * 2 ^ n \<le> unat w" by simp
      also have "\<dots> < 2 ^ LENGTH('a)" by (rule unsigned_less)
      finally show "unat w div 2 ^ n * 2 ^ n < 2 ^ LENGTH('a)" .
    qed
    finally show ?thesis .
  qed
  ultimately show ?thesis by simp
qed

lemma unat_ALIGN4:
  assumes "unat x < 4294967292"
  shows "unat (ALIGN x 4) = (unat x + 3) div 4 * 4"
proof -
  have "ALIGN x 4 = (x + 3) AND NOT (mask 2)"
    by (simp add: ALIGN_def mask_eq_exp_minus_1)
  then show ?thesis
    using assms by (simp add: unat_and_not_mask unat_add_lt)
qed

lemma unat_ALIGN8:
  assumes "unat x < 4294967288"
  shows "unat (ALIGN x 8) = (unat x + 7) div 8 * 8"
proof -
  have "ALIGN x 8 = (x + 7) AND NOT (mask 3)"
    by (simp add: ALIGN_def mask_eq_exp_minus_1)
  then show ?thesis
    using assms by (simp add: unat_and_not_mask unat_add_lt)
qed

lemma ffs_least:
  assumes "w \<noteq> 0"
  shows "bit w (ffs w)" and "ffs w < 32" and "\<And>i. i < ffs w \<Longrightarrow> \<not> bit w i"
proof -
  obtain n where n: "bit w n" using assms by (auto simp: bit_eq_iff)
  then have "n < 32" using bit_imp_le_length[OF n] by simp
  then have "find (bit w) [0..<32] \<noteq> None"
    using n by (auto simp: find_None_iff)
  then obtain k where k: "find (bit w) [0..<32] = Some k" by auto
  then obtain j where j: "j < 32" "k = [0..<32] ! j" "bit w k"
    and least: "\<And>i. i < j \<Longrightarrow> \<not> bit w ([0..<32] ! i)"
    by (auto simp: find_Some_iff)
  then have "k = j" by simp
  with k j least show "bit w (ffs w)" "ffs w < 32" "\<And>i. i < ffs w \<Longrightarrow> \<not> bit w i"
    by (auto simp: ffs_def)
qed

end
