(* ===== verification/Page_Mem.thy ===== *)
theory Page_Mem
  imports Kp_Prelude
begin

text \<open>
  The memory the allocator and the block device work on: page frames addressed by page
  number (\<^verbatim>\<open>pagenum\<close>, a pfn) and byte offset, as \<^verbatim>\<open>get_ptr_atomic\<close> delivers them.
  Fields of C structures are read and written little-endian, byte by byte, so that a header
  and the payload that overlaps it are the same bytes. The lemmas say what an access sees
  after a write and which bytes a write leaves alone.
\<close>

unbundle bit_operations_syntax

type_synonym pmem = "u32 \<Rightarrow> nat \<Rightarrow> u8"

definition ld16 :: "pmem \<Rightarrow> u32 \<Rightarrow> nat \<Rightarrow> u16" where
  "ld16 m p x = ucast (m p x) OR push_bit 8 (ucast (m p (x + 1)))"

definition st16 :: "pmem \<Rightarrow> u32 \<Rightarrow> nat \<Rightarrow> u16 \<Rightarrow> pmem" where
  "st16 m p x v = m(p := (m p)(x := ucast v, x + 1 := ucast (drop_bit 8 v)))"

definition ld32 :: "pmem \<Rightarrow> u32 \<Rightarrow> nat \<Rightarrow> u32" where
  "ld32 m p x = ucast (ld16 m p x) OR push_bit 16 (ucast (ld16 m p (x + 2)))"

definition st32 :: "pmem \<Rightarrow> u32 \<Rightarrow> nat \<Rightarrow> u32 \<Rightarrow> pmem" where
  "st32 m p x v = st16 (st16 m p x (ucast v)) p (x + 2) (ucast (drop_bit 16 v))"

text \<open>\<^verbatim>\<open>memcpy\<close> of a byte list to a page, and the bytes of a region.\<close>

definition st_bytes :: "pmem \<Rightarrow> u32 \<Rightarrow> nat \<Rightarrow> u8 list \<Rightarrow> pmem" where
  "st_bytes m p x bs =
     m(p := (\<lambda>i. if x \<le> i \<and> i < x + length bs then bs ! (i - x) else m p i))"

definition ld_bytes :: "pmem \<Rightarrow> u32 \<Rightarrow> nat \<Rightarrow> nat \<Rightarrow> u8 list" where
  "ld_bytes m p x n = map (m p) [x..<x + n]"

section \<open>Bytes left alone\<close>

lemma st16_byte: "q \<noteq> p \<or> i < x \<or> x + 2 \<le> i \<Longrightarrow> st16 m p x v q i = m q i"
  by (auto simp: st16_def)

lemma st32_byte: "q \<noteq> p \<or> i < x \<or> x + 4 \<le> i \<Longrightarrow> st32 m p x v q i = m q i"
  by (auto simp: st32_def st16_byte)

lemma st_bytes_byte:
  "q \<noteq> p \<or> i < x \<or> x + length bs \<le> i \<Longrightarrow> st_bytes m p x bs q i = m q i"
  by (auto simp: st_bytes_def)

lemma ld16_cong: "(\<And>i. x \<le> i \<Longrightarrow> i < x + 2 \<Longrightarrow> m' p i = m p i) \<Longrightarrow> ld16 m' p x = ld16 m p x"
  by (simp add: ld16_def)

lemma ld32_cong: "(\<And>i. x \<le> i \<Longrightarrow> i < x + 4 \<Longrightarrow> m' p i = m p i) \<Longrightarrow> ld32 m' p x = ld32 m p x"
  by (simp add: ld32_def ld16_def)

lemma ld_bytes_cong:
  "(\<And>i. x \<le> i \<Longrightarrow> i < x + n \<Longrightarrow> m' p i = m p i) \<Longrightarrow> ld_bytes m' p x n = ld_bytes m p x n"
  by (simp add: ld_bytes_def)

section \<open>Reading after writing\<close>

lemma ld16_st16_same [simp]: "ld16 (st16 m p x v) p x = v"
proof -
  have "ucast (ucast v :: u8) OR push_bit 8 (ucast (ucast (drop_bit 8 v) :: u8)) = v"
    by (rule bit_word_eqI) (auto simp: bit_simps)
  then show ?thesis by (simp add: ld16_def st16_def)
qed

lemma ld16_st16_other:
  "q \<noteq> p \<or> y + 2 \<le> x \<or> x + 2 \<le> y \<Longrightarrow> ld16 (st16 m p x v) q y = ld16 m q y"
  by (auto simp: ld16_def st16_def)

lemma ld32_st32_same [simp]: "ld32 (st32 m p x v) p x = v"
proof -
  have "ucast (ucast v :: u16) OR push_bit 16 (ucast (ucast (drop_bit 16 v) :: u16)) = v"
    by (rule bit_word_eqI) (auto simp: bit_simps)
  then show ?thesis by (simp add: ld32_def st32_def ld16_st16_other)
qed

lemma ld16_st32_other:
  "q \<noteq> p \<or> y + 2 \<le> x \<or> x + 4 \<le> y \<Longrightarrow> ld16 (st32 m p x v) q y = ld16 m q y"
  by (auto simp: st32_def ld16_st16_other)

lemma ld32_st16_other:
  "q \<noteq> p \<or> y + 4 \<le> x \<or> x + 2 \<le> y \<Longrightarrow> ld32 (st16 m p x v) q y = ld32 m q y"
  by (auto simp: ld32_def ld16_st16_other)

lemma ld32_st32_other:
  "q \<noteq> p \<or> y + 4 \<le> x \<or> x + 4 \<le> y \<Longrightarrow> ld32 (st32 m p x v) q y = ld32 m q y"
  by (auto simp: st32_def ld32_st16_other)

lemmas mem_other = ld16_st16_other ld16_st32_other ld32_st16_other ld32_st32_other

lemma ld_bytes_st_bytes_same [simp]: "n = length bs \<Longrightarrow> ld_bytes (st_bytes m p x bs) p x n = bs"
  by (rule nth_equalityI) (auto simp: ld_bytes_def st_bytes_def)

lemma length_ld_bytes [simp]: "length (ld_bytes m p x n) = n"
  by (simp add: ld_bytes_def)

end
