(* ===== verification/Xvmalloc.thy ===== *)
theory Xvmalloc
  imports Page_Mem
begin

text \<open>
  The xvmalloc allocator of compcache (\<^verbatim>\<open>xvmalloc.c\<close>, \<^verbatim>\<open>xvmalloc_int.h\<close>): a pool keeps
  free blocks in segregated doubly linked lists, indexed by size class through a two-level
  bitmap; the list links and the block headers lie in the pages themselves. This theory
  holds the state and the operations, in the order of the C file. The spin lock is left
  out: each operation is what runs while the lock is held.
\<close>

unbundle bit_operations_syntax

section \<open>Configuration and data\<close>

abbreviation (input) XV_MIN_ALLOC_SIZE :: u32 where "XV_MIN_ALLOC_SIZE \<equiv> 32"
abbreviation (input) XV_ALIGN :: u32 where "XV_ALIGN \<equiv> 4"
abbreviation (input) XV_MAX_ALLOC_SIZE :: u32 where "XV_MAX_ALLOC_SIZE \<equiv> 4092"
abbreviation (input) FL_DELTA_SHIFT :: nat where "FL_DELTA_SHIFT \<equiv> 3"
abbreviation (input) FL_DELTA :: u32 where "FL_DELTA \<equiv> 8"
abbreviation (input) FL_DELTA_MASK :: u32 where "FL_DELTA_MASK \<equiv> 7"

definition NUM_FREE_LISTS :: nat where
  "NUM_FREE_LISTS = unat ((XV_MAX_ALLOC_SIZE - XV_MIN_ALLOC_SIZE) div FL_DELTA + 1)"

definition MAX_FLI :: nat where
  "MAX_FLI = (NUM_FREE_LISTS + BITS_PER_LONG - 1) div BITS_PER_LONG"

datatype blockflags = BLOCK_FREE | PREV_FREE

primrec BIT_flag :: "blockflags \<Rightarrow> u16" where
  "BIT_flag BLOCK_FREE = 1"
| "BIT_flag PREV_FREE = 2"

abbreviation (input) FLAGS_MASK :: u16 where "FLAGS_MASK \<equiv> 3"
abbreviation (input) PREV_MASK :: u16 where "PREV_MASK \<equiv> NOT FLAGS_MASK"

record freelist_entry =
  fe_pagenum :: u32
  fe_offset :: u16
  fe_pad :: u16

record xv_pool =
  flbitmap :: u32
  slbitmap :: "u32 list"
  freelist :: "freelist_entry list"
  total_pages :: u64

text \<open>
  The pool together with the page frames. A block is named by its page number and the
  offset of its header; the fields of \<^verbatim>\<open>struct block_header\<close> lie at offsets 0 (size),
  2 (prev), 4 (link.prev\_pagenum), 8 (link.next\_pagenum), 12 (link.prev\_offset) and
  14 (link.next\_offset).
\<close>

record xv_heap = xv_pool +
  mem :: pmem

definition block_size :: "pmem \<Rightarrow> u32 \<Rightarrow> nat \<Rightarrow> u16" where
  "block_size m p x = ld16 m p x"

definition block_prev :: "pmem \<Rightarrow> u32 \<Rightarrow> nat \<Rightarrow> u16" where
  "block_prev m p x = ld16 m p (x + 2)"

definition link_prev_pagenum :: "pmem \<Rightarrow> u32 \<Rightarrow> nat \<Rightarrow> u32" where
  "link_prev_pagenum m p x = ld32 m p (x + 4)"

definition link_next_pagenum :: "pmem \<Rightarrow> u32 \<Rightarrow> nat \<Rightarrow> u32" where
  "link_next_pagenum m p x = ld32 m p (x + 8)"

definition link_prev_offset :: "pmem \<Rightarrow> u32 \<Rightarrow> nat \<Rightarrow> u16" where
  "link_prev_offset m p x = ld16 m p (x + 12)"

definition link_next_offset :: "pmem \<Rightarrow> u32 \<Rightarrow> nat \<Rightarrow> u16" where
  "link_next_offset m p x = ld16 m p (x + 14)"

definition set_block_size :: "u32 \<Rightarrow> nat \<Rightarrow> u16 \<Rightarrow> pmem \<Rightarrow> pmem" where
  "set_block_size p x v m = st16 m p x v"

definition set_link_prev :: "u32 \<Rightarrow> nat \<Rightarrow> u32 \<Rightarrow> u16 \<Rightarrow> pmem \<Rightarrow> pmem" where
  "set_link_prev p x pg off m = st16 (st32 m p (x + 4) pg) p (x + 12) off"

definition set_link_next :: "u32 \<Rightarrow> nat \<Rightarrow> u32 \<Rightarrow> u16 \<Rightarrow> pmem \<Rightarrow> pmem" where
  "set_link_next p x pg off m = st16 (st32 m p (x + 8) pg) p (x + 14) off"

section \<open>Statistics and header fields\<close>

definition stat_inc :: "u64 \<Rightarrow> u64" where
  "stat_inc v = v + 1"

definition stat_dec :: "u64 \<Rightarrow> u64" where
  "stat_dec v = v - 1"

definition test_flag :: "pmem \<Rightarrow> u32 \<Rightarrow> nat \<Rightarrow> blockflags \<Rightarrow> bool" where
  "test_flag m p x f \<longleftrightarrow> block_prev m p x AND BIT_flag f \<noteq> 0"

definition set_flag :: "u32 \<Rightarrow> nat \<Rightarrow> blockflags \<Rightarrow> pmem \<Rightarrow> pmem" where
  "set_flag p x f m = st16 m p (x + 2) (block_prev m p x OR BIT_flag f)"

definition clear_flag :: "u32 \<Rightarrow> nat \<Rightarrow> blockflags \<Rightarrow> pmem \<Rightarrow> pmem" where
  "clear_flag p x f m = st16 m p (x + 2) (block_prev m p x AND NOT (BIT_flag f))"

definition get_blockprev :: "pmem \<Rightarrow> u32 \<Rightarrow> nat \<Rightarrow> u32" where
  "get_blockprev m p x = ucast (block_prev m p x AND PREV_MASK)"

definition set_blockprev :: "u32 \<Rightarrow> nat \<Rightarrow> u16 \<Rightarrow> pmem \<Rightarrow> pmem" where
  "set_blockprev p x new_offset m =
     st16 m p (x + 2) (new_offset OR (block_prev m p x AND FLAGS_MASK))"

definition BLOCK_NEXT :: "pmem \<Rightarrow> u32 \<Rightarrow> nat \<Rightarrow> nat" where
  "BLOCK_NEXT m p x = x + unat (block_size m p x) + unat XV_ALIGN"

section \<open>Size classes\<close>

definition get_index_for_insert :: "u32 \<Rightarrow> u32" where
  "get_index_for_insert sz =
     (let sz = (if sz > XV_MAX_ALLOC_SIZE then XV_MAX_ALLOC_SIZE else sz);
          sz = sz AND NOT FL_DELTA_MASK
      in drop_bit FL_DELTA_SHIFT (sz - XV_MIN_ALLOC_SIZE))"

definition get_index :: "u32 \<Rightarrow> u32" where
  "get_index sz =
     (let sz = (if sz < XV_MIN_ALLOC_SIZE then XV_MIN_ALLOC_SIZE else sz);
          sz = ALIGN sz FL_DELTA
      in drop_bit FL_DELTA_SHIFT (sz - XV_MIN_ALLOC_SIZE))"

section \<open>Searching the bitmaps\<close>

text \<open>
  \<^verbatim>\<open>find_block\<close> returns the index of the list it found and writes the list head through
  its out-parameters; when nothing is found it returns 0 and leaves them alone. Indices
  are unsigned 32-bit in C and stay below 512, so they are natural numbers here.
\<close>

definition head_of :: "'a xv_pool_scheme \<Rightarrow> nat \<Rightarrow> u32 \<times> u32" where
  "head_of s i = (fe_pagenum (freelist s ! i), ucast (fe_offset (freelist s ! i)))"

definition find_block :: "'a xv_pool_scheme \<Rightarrow> u32 \<Rightarrow> u32 \<Rightarrow> u32 \<Rightarrow> nat \<times> u32 \<times> u32" where
  "find_block s sz pagenum off =
     (if flbitmap s = 0 then (0, pagenum, off)
      else
        let slindex = unat (get_index sz);
            slbm = slbitmap s ! (slindex div BITS_PER_LONG);
            slbitstart = slindex mod BITS_PER_LONG
        in if bit slbm slbitstart then (slindex, head_of s slindex)
        else
          let slbitstart = slbitstart + 1;
              slbm = drop_bit slbitstart slbm
          in if slbitstart \<noteq> BITS_PER_LONG \<and> slbm \<noteq> 0
          then let slindex = slindex + (ffs slbm + 1) in (slindex, head_of s slindex)
          else
            let flindex = slindex div BITS_PER_LONG;
                flbm = drop_bit (flindex + 1) (flbitmap s)
            in if flbm = 0 then (0, pagenum, off)
            else
              let flindex = flindex + (ffs flbm + 1);
                  slbm = slbitmap s ! flindex;
                  slindex = flindex * BITS_PER_LONG + ffs slbm
              in (slindex, head_of s slindex))"


section \<open>Free lists\<close>

definition set_freelist :: "nat \<Rightarrow> u32 \<Rightarrow> u16 \<Rightarrow> xv_heap \<Rightarrow> xv_heap" where
  "set_freelist i pg off s =
     s\<lparr>freelist := (freelist s)[i := (freelist s ! i)\<lparr>fe_pagenum := pg, fe_offset := off\<rparr>]\<rparr>"

definition insert_block :: "u32 \<Rightarrow> u32 \<Rightarrow> xv_heap \<Rightarrow> xv_heap" where
  "insert_block pagenum off s =
     (let x = unat off;
          slindex = unat (get_index_for_insert (ucast (block_size (mem s) pagenum x)));
          flindex = slindex div BITS_PER_LONG;
          m = set_link_prev pagenum x 0 0 (mem s);
          m = set_link_next pagenum x
                (fe_pagenum (freelist s ! slindex)) (fe_offset (freelist s ! slindex)) m;
          s = set_freelist slindex pagenum (ucast off) s;
          npg = link_next_pagenum m pagenum x;
          m = (if npg \<noteq> 0
               then set_link_prev npg (unat (link_next_offset m pagenum x)) pagenum (ucast off) m
               else m)
      in s\<lparr>mem := m,
           slbitmap := (slbitmap s)
             [flindex := set_bit (slindex mod BITS_PER_LONG) (slbitmap s ! flindex)],
           flbitmap := set_bit flindex (flbitmap s)\<rparr>)"

definition remove_block_head :: "u32 \<Rightarrow> nat \<Rightarrow> nat \<Rightarrow> xv_heap \<Rightarrow> xv_heap" where
  "remove_block_head pagenum x slindex s =
     (let flindex = slindex div BITS_PER_LONG;
          s = set_freelist slindex (link_next_pagenum (mem s) pagenum x)
                (link_next_offset (mem s) pagenum x) s;
          s = s\<lparr>mem := set_link_prev pagenum x 0 0 (mem s)\<rparr>
      in if fe_pagenum (freelist s ! slindex) = 0 then
           let s = s\<lparr>slbitmap := (slbitmap s)
                 [flindex := unset_bit (slindex mod BITS_PER_LONG) (slbitmap s ! flindex)]\<rparr>
           in if slbitmap s ! flindex = 0 then s\<lparr>flbitmap := unset_bit flindex (flbitmap s)\<rparr> else s
         else
           s\<lparr>mem := set_link_prev (fe_pagenum (freelist s ! slindex))
                     (unat (fe_offset (freelist s ! slindex))) 0 0 (mem s)\<rparr>)"

definition remove_block :: "u32 \<Rightarrow> u32 \<Rightarrow> nat \<Rightarrow> xv_heap \<Rightarrow> xv_heap" where
  "remove_block pagenum off slindex s =
     (let x = unat off
      in if fe_pagenum (freelist s ! slindex) = pagenum
            \<and> ucast (fe_offset (freelist s ! slindex)) = off
         then remove_block_head pagenum x slindex s
         else
           let m = mem s;
               m = (if link_prev_pagenum m pagenum x \<noteq> 0
                    then set_link_next (link_prev_pagenum m pagenum x)
                           (unat (link_prev_offset m pagenum x))
                           (link_next_pagenum m pagenum x) (link_next_offset m pagenum x) m
                    else m);
               m = (if link_next_pagenum m pagenum x \<noteq> 0
                    then set_link_prev (link_next_pagenum m pagenum x)
                           (unat (link_next_offset m pagenum x))
                           (link_prev_pagenum m pagenum x) (link_prev_offset m pagenum x) m
                    else m)
           in s\<lparr>mem := m\<rparr>)"

section \<open>Growing, creating and destroying a pool\<close>

text \<open>
  The kernel's page allocator is not part of the sources. \<^verbatim>\<open>alloc_page\<close> is represented by
  its result: \<open>newpg\<close> is the number of the page it would deliver now, or 0 when it fails;
  the bytes of that page are whatever \<^term>\<open>mem\<close> holds there.
\<close>

definition xv_alloc_page :: "u32 \<Rightarrow> u32" where
  "xv_alloc_page newpg = newpg"

definition grow_pool :: "u32 \<Rightarrow> xv_heap \<Rightarrow> int \<times> xv_heap" where
  "grow_pool newpg s =
     (let pagenum = xv_alloc_page newpg
      in if pagenum = 0 then (- ENOMEM, s)
      else
        let s = s\<lparr>total_pages := stat_inc (total_pages s)\<rparr>;
            m = set_block_size pagenum 0 (of_nat PAGE_SIZE - ucast XV_ALIGN) (mem s);
            m = set_flag pagenum 0 BLOCK_FREE m;
            m = clear_flag pagenum 0 PREV_FREE m;
            m = set_blockprev pagenum 0 0 m
        in (0, insert_block pagenum 0 (s\<lparr>mem := m\<rparr>)))"

definition xv_create_pool :: "pmem \<Rightarrow> xv_heap" where
  "xv_create_pool m =
     \<lparr>flbitmap = 0, slbitmap = replicate MAX_FLI 0,
      freelist = replicate NUM_FREE_LISTS \<lparr>fe_pagenum = 0, fe_offset = 0, fe_pad = 0\<rparr>,
      total_pages = 0, mem = m\<rparr>"

section \<open>Allocating\<close>

text \<open>
  The part of \<^verbatim>\<open>xv_malloc\<close> after a block has been found: take it off its list, split it,
  mark it used. \<open>sz\<close> is the aligned and \<open>origsize\<close> the requested size.
\<close>

definition xv_split :: "nat \<Rightarrow> u32 \<Rightarrow> u32 \<Rightarrow> u32 \<Rightarrow> u32 \<Rightarrow> xv_heap \<Rightarrow> xv_heap" where
  "xv_split index pagenum off sz origsize s =
     (let x = unat off;
          s = remove_block_head pagenum x index s;
          tmpoffset = off + sz + XV_ALIGN;
          tmpsize = ucast (block_size (mem s) pagenum x) - sz;
          y = x + unat sz + unat XV_ALIGN;
          s = (if tmpsize \<noteq> 0 then
                 let m = set_block_size pagenum y (ucast (tmpsize - XV_ALIGN)) (mem s);
                     m = set_flag pagenum y BLOCK_FREE m;
                     m = clear_flag pagenum y PREV_FREE m;
                     m = set_blockprev pagenum y (ucast off) m;
                     s = s\<lparr>mem := m\<rparr>;
                     s = (if ucast (block_size (mem s) pagenum y) \<ge> XV_MIN_ALLOC_SIZE
                          then insert_block pagenum tmpoffset s else s)
                 in if tmpoffset + XV_ALIGN + ucast (block_size (mem s) pagenum y)
                       \<noteq> of_nat PAGE_SIZE
                    then s\<lparr>mem := set_blockprev pagenum (BLOCK_NEXT (mem s) pagenum y)
                                    (ucast tmpoffset) (mem s)\<rparr>
                    else s
               else if tmpoffset \<noteq> of_nat PAGE_SIZE
                    then s\<lparr>mem := clear_flag pagenum y PREV_FREE (mem s)\<rparr>
                    else s);
          m = set_block_size pagenum x (ucast origsize) (mem s);
          m = clear_flag pagenum x BLOCK_FREE m
      in s\<lparr>mem := m\<rparr>)"

text \<open>
  \<^verbatim>\<open>xv_malloc\<close> returns its error code and the two out-parameters. \<open>nowait\<close> is the value of
  \<^verbatim>\<open>flags & GFP_NOWAIT\<close>, a constant of the kernel.
\<close>

definition xv_malloc :: "u32 \<Rightarrow> bool \<Rightarrow> u32 \<Rightarrow> xv_heap \<Rightarrow> (int \<times> u32 \<times> u32) \<times> xv_heap" where
  "xv_malloc newpg nowait sz s =
     (let pagenum = 0; off = 0; origsize = sz
      in if sz = 0 \<or> sz > XV_MAX_ALLOC_SIZE then ((- ENOMEM, pagenum, off), s)
      else
        let sz = ALIGN sz XV_ALIGN;
            (index, pagenum, off) = find_block s sz pagenum off
        in if pagenum = 0 then
             if nowait then ((- ENOMEM, pagenum, off), s)
             else
               let (error, s) = grow_pool newpg s
               in if error \<noteq> 0 then ((- ENOMEM, pagenum, off), s)
               else
                 let (index, pagenum, off) = find_block s sz pagenum off
                 in if pagenum = 0 then ((- ENOMEM, pagenum, off), s)
                    else ((0, pagenum, off + XV_ALIGN), xv_split index pagenum off sz origsize s)
           else ((0, pagenum, off + XV_ALIGN), xv_split index pagenum off sz origsize s))"

section \<open>Freeing\<close>

text \<open>
  \<^verbatim>\<open>xv_free\<close>, in the three stages of the C code: merge with the next block, merge with the
  previous block, then either give the page back or put the block on its list. The result
  \<open>None\<close> is the \<^verbatim>\<open>BUG_ON\<close>; otherwise the second component is the page handed to
  \<^verbatim>\<open>__free_page\<close>, if any.
\<close>

definition xv_merge_next :: "u32 \<Rightarrow> u32 \<Rightarrow> xv_heap \<Rightarrow> xv_heap" where
  "xv_merge_next pagenum off s =
     (let x = unat off;
          bs = ucast (block_size (mem s) pagenum x);
          y = BLOCK_NEXT (mem s) pagenum x
      in if off + bs + XV_ALIGN \<noteq> of_nat PAGE_SIZE \<and> test_flag (mem s) pagenum y BLOCK_FREE then
           let tsz = ucast (block_size (mem s) pagenum y);
               s = (if tsz \<ge> XV_MIN_ALLOC_SIZE
                    then remove_block pagenum (off + bs + XV_ALIGN)
                           (unat (get_index_for_insert tsz)) s
                    else s)
           in s\<lparr>mem := set_block_size pagenum x
                  (block_size (mem s) pagenum x
                     + (block_size (mem s) pagenum y + ucast XV_ALIGN)) (mem s)\<rparr>
         else s)"

definition xv_merge_prev :: "u32 \<Rightarrow> u32 \<Rightarrow> xv_heap \<Rightarrow> u32 \<times> nat \<times> xv_heap" where
  "xv_merge_prev pagenum off s =
     (let x = unat off
      in if test_flag (mem s) pagenum x PREV_FREE then
           let y = unat (get_blockprev (mem s) pagenum x);
               tsz = ucast (block_size (mem s) pagenum y);
               off = off - tsz - XV_ALIGN;
               s = (if tsz \<ge> XV_MIN_ALLOC_SIZE
                    then remove_block pagenum off (unat (get_index_for_insert tsz)) s else s);
               m = set_block_size pagenum y
                     (block_size (mem s) pagenum y
                        + (block_size (mem s) pagenum x + ucast XV_ALIGN)) (mem s)
           in (off, y, s\<lparr>mem := m\<rparr>)
         else (off, x, s))"

definition xv_release :: "u32 \<Rightarrow> u32 \<Rightarrow> nat \<Rightarrow> xv_heap \<Rightarrow> xv_heap \<times> u32 option" where
  "xv_release pagenum off x s =
     (if block_size (mem s) pagenum x = of_nat PAGE_SIZE - ucast XV_ALIGN
      then (s\<lparr>total_pages := stat_dec (total_pages s)\<rparr>, Some pagenum)
      else
        let s = s\<lparr>mem := set_flag pagenum x BLOCK_FREE (mem s)\<rparr>;
            s = (if ucast (block_size (mem s) pagenum x) \<ge> XV_MIN_ALLOC_SIZE
                 then insert_block pagenum off s else s);
            s = (if off + ucast (block_size (mem s) pagenum x) + XV_ALIGN \<noteq> of_nat PAGE_SIZE
                 then let y = BLOCK_NEXT (mem s) pagenum x
                      in s\<lparr>mem := set_blockprev pagenum y (ucast off)
                                    (set_flag pagenum y PREV_FREE (mem s))\<rparr>
                 else s)
        in (s, None))"

definition xv_free :: "u32 \<Rightarrow> u32 \<Rightarrow> xv_heap \<Rightarrow> (xv_heap \<times> u32 option) option" where
  "xv_free pagenum off s =
     (let off = off - XV_ALIGN; x = unat off
      in if test_flag (mem s) pagenum x BLOCK_FREE then None
      else
        let m = set_block_size pagenum x
                  (ucast (ALIGN (ucast (block_size (mem s) pagenum x)) XV_ALIGN)) (mem s);
            s = xv_merge_next pagenum off (s\<lparr>mem := m\<rparr>);
            (off, x, s) = xv_merge_prev pagenum off s
        in Some (xv_release pagenum off x s))"

section \<open>Queries\<close>

definition xv_get_object_size :: "pmem \<Rightarrow> u32 \<Rightarrow> nat \<Rightarrow> u32" where
  "xv_get_object_size m p obj = ucast (block_size m p (obj - unat XV_ALIGN))"

definition xv_get_total_size_bytes :: "'a xv_pool_scheme \<Rightarrow> u64" where
  "xv_get_total_size_bytes s = push_bit PAGE_SHIFT (total_pages s)"

end
