(* ===== verification/Ramzswap.thy ===== *)
theory Ramzswap
  imports Xvmalloc
begin

text \<open>
  The compressed swap device of compcache (\<^verbatim>\<open>ramzswap.c\<close>, \<^verbatim>\<open>ramzswap.h\<close>): a table with one
  entry per page of the device says where the page is: nowhere, all zero, uncompressed in a
  page frame, or compressed in an object of the allocator. This theory holds the state and
  the request path, in the order of the C file, with \<^verbatim>\<open>CONFIG_BLK_DEV_RAMZSWAP_STATS\<close> and
  \<^verbatim>\<open>CONFIG_SWAP_NOTIFIERS\<close> set. The mutex, the kernel mappings and the cache flushes are left
  out. Page frames, those of the requests included, are the memory of the pool.
  The result \<open>None\<close> stands for a \<^verbatim>\<open>BUG_ON\<close> or an access beyond the table.
\<close>

unbundle bit_operations_syntax

section \<open>Data\<close>

abbreviation (input) SECTOR_SHIFT :: nat where "SECTOR_SHIFT \<equiv> 9"
abbreviation (input) SECTORS_PER_PAGE_SHIFT :: nat where "SECTORS_PER_PAGE_SHIFT \<equiv> 3"
abbreviation (input) SECTORS_PER_PAGE :: u64 where "SECTORS_PER_PAGE \<equiv> 8"
abbreviation (input) MAX_CPAGE_SIZE_BDEV :: u32 where "MAX_CPAGE_SIZE_BDEV \<equiv> 2048"
abbreviation (input) MAX_CPAGE_SIZE_NOBDEV :: u32 where "MAX_CPAGE_SIZE_NOBDEV \<equiv> 3072"
abbreviation (input) LZO_E_OK :: int where "LZO_E_OK \<equiv> 0"

text \<open>\<^verbatim>\<open>struct zobj_header\<close> is empty.\<close>

abbreviation (input) zobj_header_size :: u32 where "zobj_header_size \<equiv> 0"

datatype rzs_pageflags = RZS_UNCOMPRESSED | RZS_ZERO

primrec BIT_pageflag :: "rzs_pageflags \<Rightarrow> u8" where
  "BIT_pageflag RZS_UNCOMPRESSED = 1"
| "BIT_pageflag RZS_ZERO = 2"

record rz_entry =
  te_pagenum :: u32
  te_offset :: u16
  te_count :: u8
  te_flags :: u8

record ramzswap_stats =
  compr_size :: u32
  num_reads :: u64
  num_writes :: u64
  failed_reads :: u64
  failed_writes :: u64
  invalid_io :: u64
  notify_free :: u64
  pages_zero :: u32
  pages_stored :: u32
  good_compress :: u32
  pages_expand :: u32
  bdev_num_reads :: u64
  bdev_num_writes :: u64

text \<open>
  \<^verbatim>\<open>struct ramzswap\<close> together with the global \<^verbatim>\<open>stats\<close> and \<^verbatim>\<open>MAX_CPAGE_SIZE\<close>. The backing
  device and its file are present or absent; \<open>freed_pages\<close> logs the pages handed back to the
  kernel with \<^verbatim>\<open>__free_page\<close>, latest first.
\<close>

record ramzswap =
  mem_pool :: xv_heap
  table :: "rz_entry list"
  memlimit :: u32
  disksize :: u32
  backing_swap :: bool
  stats :: ramzswap_stats
  max_cpage_size :: u32
  freed_pages :: "u32 list"

datatype bio_dir = READ | WRITE

record bio =
  bi_sector :: u64
  bi_vcnt :: u16
  bi_size :: u32
  bv_offset :: u32
  bv_page :: u32
  bio_data_dir :: bio_dir

text \<open>
  What becomes of a request: completed without error, completed with an error, or redirected
  to the backing device (return value 1).
\<close>

datatype bio_result = Bio_uptodate | Bio_error | Bio_remapped

text \<open>
  The compressor is the kernel's LZO library. It is a parameter: both functions return the
  error code and the bytes written; decompression is told the room in the output buffer.
\<close>

record lzo =
  lzo1x_1_compress :: "u8 list \<Rightarrow> int \<times> u8 list"
  lzo1x_decompress_safe :: "u8 list \<Rightarrow> nat \<Rightarrow> int \<times> u8 list"

section \<open>Table entries\<close>

definition rz_test_flag :: "ramzswap \<Rightarrow> nat \<Rightarrow> rzs_pageflags \<Rightarrow> bool" where
  "rz_test_flag r index flag \<longleftrightarrow> te_flags (table r ! index) AND BIT_pageflag flag \<noteq> 0"

definition upd_entry :: "nat \<Rightarrow> (rz_entry \<Rightarrow> rz_entry) \<Rightarrow> ramzswap \<Rightarrow> ramzswap" where
  "upd_entry index f r = r\<lparr>table := (table r)[index := f (table r ! index)]\<rparr>"

definition rz_set_flag :: "nat \<Rightarrow> rzs_pageflags \<Rightarrow> ramzswap \<Rightarrow> ramzswap" where
  "rz_set_flag index flag r =
     upd_entry index (\<lambda>e. e\<lparr>te_flags := te_flags e OR BIT_pageflag flag\<rparr>) r"

definition rz_clear_flag :: "nat \<Rightarrow> rzs_pageflags \<Rightarrow> ramzswap \<Rightarrow> ramzswap" where
  "rz_clear_flag index flag r =
     upd_entry index (\<lambda>e. e\<lparr>te_flags := te_flags e AND NOT (BIT_pageflag flag)\<rparr>) r"

definition upd_stats :: "(ramzswap_stats \<Rightarrow> ramzswap_stats) \<Rightarrow> ramzswap \<Rightarrow> ramzswap" where
  "upd_stats f r = r\<lparr>stats := f (stats r)\<rparr>"

definition upd_mem :: "(pmem \<Rightarrow> pmem) \<Rightarrow> ramzswap \<Rightarrow> ramzswap" where
  "upd_mem f r = r\<lparr>mem_pool := (mem_pool r)\<lparr>mem := f (mem (mem_pool r))\<rparr>\<rparr>"

abbreviation (input) rz_mem :: "ramzswap \<Rightarrow> pmem" where
  "rz_mem r \<equiv> mem (mem_pool r)"

section \<open>Zero pages\<close>

text \<open>\<^verbatim>\<open>page_zero_filled\<close> reads the page as 512 words of 64 bits and stops at the first that is not 0.\<close>

definition ld64 :: "pmem \<Rightarrow> u32 \<Rightarrow> nat \<Rightarrow> u64" where
  "ld64 m p x = ucast (ld32 m p x) OR push_bit 32 (ucast (ld32 m p (x + 4)))"

fun zero_words :: "pmem \<Rightarrow> u32 \<Rightarrow> nat \<Rightarrow> nat \<Rightarrow> bool" where
  "zero_words m p pos 0 \<longleftrightarrow> True"
| "zero_words m p pos (Suc n) \<longleftrightarrow> (if ld64 m p (8 * pos) \<noteq> 0 then False else zero_words m p (pos + 1) n)"

definition page_zero_filled :: "pmem \<Rightarrow> u32 \<Rightarrow> bool" where
  "page_zero_filled m p \<longleftrightarrow> zero_words m p 0 (PAGE_SIZE div 8)"

section \<open>Statistics in \<^verbatim>\<open>/proc/ramzswap\<close>\<close>

text \<open>
  The lines of the file as label and value; the formatting of \<^verbatim>\<open>sprintf\<close> is left out. The
  first component is the end-of-file flag.
\<close>

definition proc_ramzswap_read :: "ramzswap \<Rightarrow> nat \<Rightarrow> bool \<times> (string \<times> nat) list" where
  "proc_ramzswap_read r off =
     (let st = stats r;
          mem_used = ucast (xv_get_total_size_bytes (mem_pool r)
                       + ucast (push_bit PAGE_SHIFT (pages_expand st))) :: u32
      in if off > 0 then (True, [])
      else
        let succ_writes = ucast (num_writes st - failed_writes st) :: u32;
            (good_perc, no_perc) =
              (if succ_writes \<noteq> 0 \<and> pages_stored st \<noteq> 0
               then (good_compress st * 100 div pages_stored st, pages_expand st * 100 div pages_stored st)
               else (0, 0))
        in (False,
          [(''DiskSize'', unat (drop_bit 10 (disksize r)))] @
          (if backing_swap r then [(''MemLimit'', unat (drop_bit 10 (memlimit r)))] else []) @
          [(''NumReads'', unat (num_reads st)), (''NumWrites'', unat (num_writes st)),
           (''FailedReads'', unat (failed_reads st)), (''FailedWrites'', unat (failed_writes st)),
           (''InvalidIO'', unat (invalid_io st)), (''NotifyFree'', unat (notify_free st)),
           (''ZeroPages'', unat (pages_zero st)), (''GoodCompress'', unat good_perc),
           (''NoCompress'', unat no_perc), (''PagesStored'', unat (pages_stored st)),
           (''PagesUsed'', unat (drop_bit PAGE_SHIFT mem_used)),
           (''OrigDataSize'', unat (drop_bit 10 (push_bit PAGE_SHIFT (pages_stored st)))),
           (''ComprDataSize'', unat (drop_bit 10 (compr_size st))),
           (''MemUsedTotal'', unat (drop_bit 10 mem_used))] @
          (if backing_swap r
           then [(''BDevNumReads'', unat (bdev_num_reads st)), (''BDevNumWrites'', unat (bdev_num_writes st))]
           else [])))"

section \<open>Requests\<close>

definition valid_swap_request :: "ramzswap \<Rightarrow> bio \<Rightarrow> bool" where
  "valid_swap_request r b \<longleftrightarrow>
     \<not> (bi_sector b \<ge> ucast (drop_bit SECTOR_SHIFT (disksize r)) \<or>
        bi_sector b AND (SECTORS_PER_PAGE - 1) \<noteq> 0 \<or>
        bi_vcnt b \<noteq> 1 \<or> bi_size b \<noteq> of_nat PAGE_SIZE \<or> bv_offset b \<noteq> 0)"

definition bio_index :: "bio \<Rightarrow> nat" where
  "bio_index b = unat (ucast (drop_bit SECTORS_PER_PAGE_SHIFT (bi_sector b)) :: u32)"

text \<open>The tail of \<^verbatim>\<open>ramzswap_free_page\<close> (label \<^verbatim>\<open>out\<close>).\<close>

definition free_page_out :: "nat \<Rightarrow> u32 \<Rightarrow> ramzswap \<Rightarrow> ramzswap" where
  "free_page_out index clen r =
     (let r = upd_stats (\<lambda>s. s\<lparr>compr_size := compr_size s - clen, pages_stored := pages_stored s - 1\<rparr>) r
      in upd_entry index (\<lambda>e. e\<lparr>te_pagenum := 0, te_offset := 0\<rparr>) r)"

definition ramzswap_free_page :: "nat \<Rightarrow> ramzswap \<Rightarrow> ramzswap option" where
  "ramzswap_free_page index r =
     (if length (table r) \<le> index then None
      else
        let pagenum = te_pagenum (table r ! index);
            offset = ucast (te_offset (table r ! index)) :: u32
        in if pagenum = 0 then
             if rz_test_flag r index RZS_ZERO
             then Some (upd_stats (\<lambda>s. s\<lparr>pages_zero := pages_zero s - 1\<rparr>) (rz_clear_flag index RZS_ZERO r))
             else Some r
           else if rz_test_flag r index RZS_UNCOMPRESSED then
             let clen = of_nat PAGE_SIZE;
                 r = r\<lparr>freed_pages := pagenum # freed_pages r\<rparr>;
                 r = rz_clear_flag index RZS_UNCOMPRESSED r;
                 r = upd_stats (\<lambda>s. s\<lparr>pages_expand := pages_expand s - 1\<rparr>) r
             in Some (free_page_out index clen r)
           else
             let clen = xv_get_object_size (rz_mem r) pagenum (unat offset) - zobj_header_size
             in case xv_free pagenum offset (mem_pool r) of
                  None \<Rightarrow> None
                | Some (h, pg) \<Rightarrow>
                    let r = r\<lparr>mem_pool := h,
                              freed_pages := (case pg of None \<Rightarrow> [] | Some q \<Rightarrow> [q]) @ freed_pages r\<rparr>;
                        r = upd_stats (\<lambda>s. s\<lparr>good_compress := good_compress s -
                              (if clen < of_nat (PAGE_SIZE div 2 + 1) then 1 else 0)\<rparr>) r
                    in Some (free_page_out index clen r))"

definition handle_zero_page :: "bio \<Rightarrow> ramzswap \<Rightarrow> (int \<times> bio_result) \<times> ramzswap" where
  "handle_zero_page b r =
     ((0, Bio_uptodate), upd_mem (\<lambda>m. st_bytes m (bv_page b) 0 (replicate PAGE_SIZE 0)) r)"

definition handle_uncompressed_page :: "bio \<Rightarrow> ramzswap \<Rightarrow> (int \<times> bio_result) \<times> ramzswap" where
  "handle_uncompressed_page b r =
     (let e = table r ! bio_index b
      in ((0, Bio_uptodate), upd_mem (\<lambda>m. st_bytes m (bv_page b) 0
            (ld_bytes m (te_pagenum e) (unat (te_offset e)) PAGE_SIZE)) r))"

definition handle_ramzswap_fault :: "bio \<Rightarrow> ramzswap \<Rightarrow> (int \<times> bio_result) \<times> ramzswap" where
  "handle_ramzswap_fault b r =
     (if backing_swap r
      then ((1, Bio_remapped), upd_stats (\<lambda>s. s\<lparr>num_reads := num_reads s - 1,
              bdev_num_reads := bdev_num_reads s + 1\<rparr>) r)
      else ((0, Bio_uptodate), upd_mem (\<lambda>m. st_bytes m (bv_page b) 0 (replicate PAGE_SIZE 0)) r))"

definition ramzswap_slot_free_notify :: "nat \<Rightarrow> ramzswap \<Rightarrow> ramzswap option" where
  "ramzswap_slot_free_notify index r =
     map_option (upd_stats (\<lambda>s. s\<lparr>notify_free := notify_free s + 1\<rparr>)) (ramzswap_free_page index r)"

definition ramzswap_read :: "lzo \<Rightarrow> bio \<Rightarrow> ramzswap \<Rightarrow> ((int \<times> bio_result) \<times> ramzswap) option" where
  "ramzswap_read z b r =
     (let r = upd_stats (\<lambda>s. s\<lparr>num_reads := num_reads s + 1\<rparr>) r;
          index = bio_index b
      in if length (table r) \<le> index then None
      else if rz_test_flag r index RZS_ZERO then Some (handle_zero_page b r)
      else if te_pagenum (table r ! index) = 0 then Some (handle_ramzswap_fault b r)
      else if rz_test_flag r index RZS_UNCOMPRESSED then Some (handle_uncompressed_page b r)
      else
        let e = table r ! index;
            cmem = unat (te_offset e);
            (ret, out) = lzo1x_decompress_safe z
              (ld_bytes (rz_mem r) (te_pagenum e) (cmem + unat zobj_header_size)
                 (unat (xv_get_object_size (rz_mem r) (te_pagenum e) cmem - zobj_header_size))) PAGE_SIZE;
            r = upd_mem (\<lambda>m. st_bytes m (bv_page b) 0 out) r
        in if ret \<noteq> LZO_E_OK
           then Some ((0, Bio_error), upd_stats (\<lambda>s. s\<lparr>failed_reads := failed_reads s + 1\<rparr>) r)
           else Some ((0, Bio_uptodate), r))"

text \<open>The end of \<^verbatim>\<open>ramzswap_write\<close> for a page that found a place (label \<^verbatim>\<open>memstore\<close>).\<close>

definition write_memstore :: "nat \<Rightarrow> u32 \<Rightarrow> u8 list \<Rightarrow> ramzswap \<Rightarrow> (int \<times> bio_result) \<times> ramzswap" where
  "write_memstore index off src r =
     (let r = upd_entry index (\<lambda>e. e\<lparr>te_offset := ucast off\<rparr>) r;
          clen = of_nat (length src) :: u32;
          e = table r ! index;
          r = upd_mem (\<lambda>m. st_bytes m (te_pagenum e) (unat (te_offset e)) src) r;
          r = upd_stats (\<lambda>s. s\<lparr>compr_size := compr_size s + clen, pages_stored := pages_stored s + 1,
                good_compress := good_compress s + (if clen < of_nat (PAGE_SIZE div 2 + 1) then 1 else 0)\<rparr>) r
      in ((0, Bio_uptodate), r))"

text \<open>The two ways out of \<^verbatim>\<open>ramzswap_write\<close> without storing the page (label \<^verbatim>\<open>out\<close>).\<close>

definition write_out :: "bool \<Rightarrow> ramzswap \<Rightarrow> (int \<times> bio_result) \<times> ramzswap" where
  "write_out fwd_write_request r =
     (if fwd_write_request
      then ((1, Bio_remapped), upd_stats (\<lambda>s. s\<lparr>bdev_num_writes := bdev_num_writes s + 1\<rparr>) r)
      else ((0, Bio_error), r))"

definition fail_write :: "ramzswap \<Rightarrow> ramzswap" where
  "fail_write r = upd_stats (\<lambda>s. s\<lparr>failed_writes := failed_writes s + 1\<rparr>) r"

text \<open>
  What \<^verbatim>\<open>ramzswap_write\<close> does with the contents \<open>page\<close> of the request once the old copy is gone.
  \<open>newpg\<close> is the page frame the kernel would deliver now (0 for none), \<open>nowait\<close> the value of
  \<^verbatim>\<open>flags & GFP_NOWAIT\<close> for the flags used here.
\<close>

definition write_store :: "lzo \<Rightarrow> u32 \<Rightarrow> bool \<Rightarrow> bio \<Rightarrow> ramzswap \<Rightarrow> (int \<times> bio_result) \<times> ramzswap" where
  "write_store z newpg nowait b r =
     (let index = bio_index b
      in if page_zero_filled (rz_mem r) (bv_page b) then
           ((0, Bio_uptodate), rz_set_flag index RZS_ZERO
              (upd_stats (\<lambda>s. s\<lparr>pages_zero := pages_zero s + 1\<rparr>) r))
         else if backing_swap r \<and> compr_size (stats r) > memlimit r - of_nat PAGE_SIZE then
           write_out True r
         else
           let page = ld_bytes (rz_mem r) (bv_page b) 0 PAGE_SIZE;
               (ret, src) = lzo1x_1_compress z page;
               clen = of_nat (length src) :: u32
           in if ret \<noteq> LZO_E_OK then write_out False (fail_write r)
           else if clen > max_cpage_size r then
             if backing_swap r then write_out True r
             else if newpg = 0 then write_out False (fail_write r)
             else
               let r = rz_set_flag index RZS_UNCOMPRESSED r;
                   r = upd_stats (\<lambda>s. s\<lparr>pages_expand := pages_expand s + 1\<rparr>) r;
                   r = upd_entry index (\<lambda>e. e\<lparr>te_pagenum := newpg\<rparr>) r
               in write_memstore index 0 page r
           else
             let ((err, pagenum, off), h) = xv_malloc newpg nowait (clen + zobj_header_size) (mem_pool r);
                 r = upd_entry index (\<lambda>e. e\<lparr>te_pagenum := pagenum\<rparr>) (r\<lparr>mem_pool := h\<rparr>)
             in if err \<noteq> 0 then write_out (backing_swap r) (fail_write r)
                else write_memstore index off src r)"

definition ramzswap_write :: "lzo \<Rightarrow> u32 \<Rightarrow> bool \<Rightarrow> bio \<Rightarrow> ramzswap \<Rightarrow> ((int \<times> bio_result) \<times> ramzswap) option" where
  "ramzswap_write z newpg nowait b r =
     (let r = upd_stats (\<lambda>s. s\<lparr>num_writes := num_writes s + 1\<rparr>) r;
          index = bio_index b
      in if length (table r) \<le> index then None
      else
        case (if te_pagenum (table r ! index) \<noteq> 0 then ramzswap_free_page index r else Some r) of
          None \<Rightarrow> None
        | Some r \<Rightarrow>
            let r = (if rz_test_flag r index RZS_ZERO
                     then rz_clear_flag index RZS_ZERO (upd_stats (\<lambda>s. s\<lparr>pages_zero := pages_zero s - 1\<rparr>) r)
                     else r)
            in Some (write_store z newpg nowait b r))"

definition ramzswap_make_request :: "lzo \<Rightarrow> u32 \<Rightarrow> bool \<Rightarrow> bio \<Rightarrow> ramzswap \<Rightarrow> ((int \<times> bio_result) \<times> ramzswap) option" where
  "ramzswap_make_request z newpg nowait b r =
     (if \<not> valid_swap_request r b
      then Some ((0, Bio_error), upd_stats (\<lambda>s. s\<lparr>invalid_io := invalid_io s + 1\<rparr>) r)
      else case bio_data_dir b of
        READ \<Rightarrow> ramzswap_read z b r
      | WRITE \<Rightarrow> ramzswap_write z newpg nowait b r)"

end
