(* ===== verification/Ramzswap_Init.thy ===== *)
theory Ramzswap_Init
  imports Ramzswap
begin

text \<open>
  Loading and unloading the swap device (the control path of \<^verbatim>\<open>ramzswap.c\<close>): module
  parameters, backing device, swap header, initialisation with its error path, the notifiers
  and the exit function. What the kernel answers to each call is the environment \<open>rz_env\<close>;
  every resource that a call acquires or gives back is recorded in \<open>held\<close>, and a call that
  gives back what is not held in \<open>excess\<close>.
\<close>

unbundle bit_operations_syntax

section \<open>State\<close>

datatype rz_nb = Ramzswap_swapon_nb | Ramzswap_swapoff_nb | Ramzswap_slot_free_nb

datatype swap_event = SWAP_EVENT_SWAPON | SWAP_EVENT_SWAPOFF | SWAP_EVENT_SLOT_FREE

datatype rz_res = Swap_file | Bdev_claim | Compress_workmem | Compress_buffer | Table_mem
  | Gendisk | Blkdev | Disk_queue | Disk_added | Pool_mem | Proc_entry
  | Notifier rz_nb swap_event u32

record rz_env =
  totalram_pages :: u32
  disksize_kb :: u32
  memlimit_kb :: u32
  backing_swap_param :: bool
  env_filp_open :: bool
  env_is_blk :: bool
  env_bd_claim :: int
  env_set_blocksize :: "u32 \<Rightarrow> int"
  env_i_size :: u64
  env_kmalloc_workmem :: bool
  env_kmalloc_buffer :: bool
  env_vmalloc :: "nat \<Rightarrow> bool"
  env_alloc_page :: u32
  env_readpage :: bool
  env_read_mapping_page :: "int + u8 list"
  env_alloc_disk :: bool
  env_register_blkdev :: int
  env_blk_alloc_queue :: bool
  env_create_pool :: bool
  env_create_proc :: bool
  env_reg_swapon :: int
  env_reg_swapoff :: int

record rz_driver =
  rz :: ramzswap
  compress_workmem :: bool
  compress_buffer :: bool
  table_mem :: bool
  disk_major :: "int option"
  capacity :: u32
  pool_mem :: bool
  proc :: bool
  bdev_block_size :: u32
  old_block_size :: u32
  held :: "rz_res list"
  excess :: "rz_res list"

definition acquire :: "rz_res \<Rightarrow> rz_driver \<Rightarrow> rz_driver" where
  "acquire x d = d\<lparr>held := x # held d\<rparr>"

definition release :: "rz_res \<Rightarrow> rz_driver \<Rightarrow> rz_driver" where
  "release x d =
     (if x \<in> set (held d) then d\<lparr>held := remove1 x (held d)\<rparr> else d\<lparr>excess := x # excess d\<rparr>)"

definition upd_rz :: "(ramzswap \<Rightarrow> ramzswap) \<Rightarrow> rz_driver \<Rightarrow> rz_driver" where
  "upd_rz f d = d\<lparr>rz := f (rz d)\<rparr>"

definition set_blocksize :: "rz_env \<Rightarrow> u32 \<Rightarrow> rz_driver \<Rightarrow> int \<times> rz_driver" where
  "set_blocksize env n d =
     (let e = env_set_blocksize env n in (e, if e < 0 then d else d\<lparr>bdev_block_size := n\<rparr>))"

definition free_header_page :: "u32 \<Rightarrow> rz_driver \<Rightarrow> rz_driver" where
  "free_header_page p = upd_rz (\<lambda>r. r\<lparr>freed_pages := p # freed_pages r\<rparr>)"

section \<open>The backing device\<close>

definition bad_backing_param :: "rz_env \<Rightarrow> bool \<Rightarrow> rz_driver \<Rightarrow> rz_driver" where
  "bad_backing_param env bdev d =
     (let d = (if bdev then release Bdev_claim (snd (set_blocksize env (old_block_size d) d)) else d)
      in release Swap_file d)"

definition setup_backing_swap :: "rz_env \<Rightarrow> rz_driver \<Rightarrow> (int \<times> rz_driver) option" where
  "setup_backing_swap env d =
     (let out = (\<lambda>error d. Some (error, upd_rz (\<lambda>r. r\<lparr>backing_swap := False\<rparr>) d))
      in if \<not> backing_swap_param env then out 0 d
      else if \<not> env_filp_open env then out (- EINVAL) d
      else
        let d = acquire Swap_file d
        in if \<not> env_is_blk env then out (- EINVAL) d
        else if env_bd_claim env < 0 then out (env_bd_claim env) (bad_backing_param env False d)
        else
          let d = (acquire Bdev_claim d)\<lparr>old_block_size := bdev_block_size d\<rparr>;
              (error, d) = set_blocksize env (of_nat PAGE_SIZE) d
          in if error < 0 then out error (bad_backing_param env True d)
          else
            let d = upd_rz (\<lambda>r. r\<lparr>backing_swap := True, disksize := ucast (env_i_size env)\<rparr>) d
            in if disksize (rz d) = 0 then None else Some (0, d))"

section \<open>The swap header\<close>

text \<open>\<^verbatim>\<open>union swap_header\<close>: version, last page and number of bad pages after 1024 bytes, the magic at the end.\<close>

abbreviation (input) hdr_version :: nat where "hdr_version \<equiv> 1024"
abbreviation (input) hdr_last_page :: nat where "hdr_last_page \<equiv> 1028"
abbreviation (input) hdr_nr_badpages :: nat where "hdr_nr_badpages \<equiv> 1032"
abbreviation (input) hdr_magic :: nat where "hdr_magic \<equiv> 4086"

text \<open>\<^verbatim>\<open>"SWAPSPACE2"\<close>\<close>

definition swap_magic :: "u8 list" where
  "swap_magic = [83, 87, 65, 80, 83, 80, 65, 67, 69, 50]"

definition setup_swap_header :: "rz_env \<Rightarrow> u32 \<Rightarrow> ramzswap \<Rightarrow> int \<times> ramzswap" where
  "setup_swap_header env s r =
     (let last_page = drop_bit PAGE_SHIFT (disksize r) - 1
      in if \<not> backing_swap r then
        (0, upd_mem (\<lambda>m. st_bytes (st32 (st32 (st32 m s hdr_version 1) s hdr_last_page last_page)
               s hdr_nr_badpages 0) s hdr_magic swap_magic) r)
      else if \<not> env_readpage env then (- EINVAL, r)
      else case env_read_mapping_page env of
        Inl e \<Rightarrow> (e, r)
      | Inr backing_swap_header \<Rightarrow>
          let r = upd_mem (\<lambda>m. st_bytes m s 0 backing_swap_header) r;
              ret = (if ld32 (rz_mem r) s hdr_nr_badpages \<noteq> 0 then - EINVAL else 0)
          in (ret, upd_mem (\<lambda>m. st32 m s hdr_last_page last_page) r))"

section \<open>Sizes\<close>

abbreviation (input) PAGE_MASK :: u32 where "PAGE_MASK \<equiv> NOT (mask PAGE_SHIFT)"

definition ramzswap_set_disksize :: "rz_env \<Rightarrow> u32 \<Rightarrow> ramzswap \<Rightarrow> ramzswap" where
  "ramzswap_set_disksize env totalram_bytes r =
     (let ds = push_bit 10 (disksize_kb env);
          ds = (if disksize_kb env = 0 then 25 * (totalram_bytes div 100) else ds)
      in r\<lparr>disksize := ds AND PAGE_MASK\<rparr>)"

definition ramzswap_set_memlimit :: "rz_env \<Rightarrow> u32 \<Rightarrow> ramzswap \<Rightarrow> ramzswap option" where
  "ramzswap_set_memlimit env totalram_bytes r =
     (let ml = push_bit 10 (memlimit_kb env);
          memlimit_valid = (ml \<noteq> 0 \<and> \<not> ml > disksize r);
          ml = (if memlimit_valid then ml
                else let mempart = 15 * (totalram_bytes div 100)
                     in if mempart > disksize r then disksize r else mempart);
          ml = ml AND PAGE_MASK
      in if ml = 0 then None else Some (r\<lparr>memlimit := ml\<rparr>))"

section \<open>Initialisation\<close>

text \<open>
  The module starts with static storage, all zero, and the pages \<open>m\<close> of the machine.
\<close>

definition rz_entry0 :: rz_entry where
  "rz_entry0 = \<lparr>te_pagenum = 0, te_offset = 0, te_count = 0, te_flags = 0\<rparr>"

definition stats0 :: ramzswap_stats where
  "stats0 = \<lparr>compr_size = 0, num_reads = 0, num_writes = 0, failed_reads = 0, failed_writes = 0,
     invalid_io = 0, notify_free = 0, pages_zero = 0, pages_stored = 0, good_compress = 0,
     pages_expand = 0, bdev_num_reads = 0, bdev_num_writes = 0\<rparr>"

definition rz_driver0 :: "u32 \<Rightarrow> pmem \<Rightarrow> rz_driver" where
  "rz_driver0 bsize m = \<lparr>rz = \<lparr>mem_pool = xv_create_pool m, table = [], memlimit = 0, disksize = 0,
       backing_swap = False, stats = stats0, max_cpage_size = 0, freed_pages = []\<rparr>,
     compress_workmem = False, compress_buffer = False, table_mem = False, disk_major = None,
     capacity = 0, pool_mem = False, proc = False, bdev_block_size = bsize, old_block_size = 0,
     held = [], excess = []\<rparr>"

text \<open>
  The three parts of \<^verbatim>\<open>ramzswap_init\<close> after the sizes are known. A result other than 0 is a
  jump to \<^verbatim>\<open>fail\<close>.
\<close>

definition init_memory :: "rz_env \<Rightarrow> rz_driver \<Rightarrow> (int \<times> rz_driver) option" where
  "init_memory env d =
     (if \<not> env_kmalloc_workmem env then Some (- ENOMEM, d)
      else let d = (acquire Compress_workmem d)\<lparr>compress_workmem := True\<rparr>
      in if \<not> env_kmalloc_buffer env then Some (- ENOMEM, d)
      else let d = (acquire Compress_buffer d)\<lparr>compress_buffer := True\<rparr>;
               num_pages = unat (drop_bit PAGE_SHIFT (disksize (rz d)))
      in if \<not> env_vmalloc env num_pages then Some (- ENOMEM, d)
      else let d = (acquire Table_mem (upd_rz (\<lambda>r. r\<lparr>table := replicate num_pages rz_entry0\<rparr>) d))\<lparr>table_mem := True\<rparr>;
               page = env_alloc_page env
      in if page = 0 then Some (- ENOMEM, d)
      else if num_pages = 0 then None
      else let d = upd_rz (\<lambda>r. rz_set_flag 0 RZS_UNCOMPRESSED
                 (upd_entry 0 (\<lambda>e. e\<lparr>te_pagenum := page\<rparr>)
                   (upd_mem (\<lambda>m. st_bytes m page 0 (replicate PAGE_SIZE 0)) r))) d;
               (ret, r) = setup_swap_header env page (rz d)
      in Some (ret, d\<lparr>rz := r\<rparr>))"

definition init_disk :: "rz_env \<Rightarrow> rz_driver \<Rightarrow> int \<times> rz_driver" where
  "init_disk env d =
     (if \<not> env_alloc_disk env then (- ENOMEM, d)
      else let major = env_register_blkdev env;
               d = (acquire Gendisk d)\<lparr>disk_major := Some major\<rparr>
      in if major < 0 then (- EFAULT, d)
      else let d = acquire Blkdev d
      in if \<not> env_blk_alloc_queue env then (- EFAULT, d)
      else let d = (acquire Disk_queue d)\<lparr>capacity := drop_bit SECTOR_SHIFT (disksize (rz d))\<rparr>
      in (0, acquire Disk_added d))"

definition init_pool :: "rz_env \<Rightarrow> rz_driver \<Rightarrow> int \<times> rz_driver" where
  "init_pool env d =
     (if \<not> env_create_pool env then (- ENOMEM, d)
      else let d = (acquire Pool_mem (upd_rz (\<lambda>r. r\<lparr>mem_pool := xv_create_pool (rz_mem r)\<rparr>) d))\<lparr>pool_mem := True\<rparr>
      in if \<not> env_create_proc env then (- ENOMEM, d)
      else let d = (acquire Proc_entry d)\<lparr>proc := True\<rparr>;
               d = upd_rz (\<lambda>r. r\<lparr>max_cpage_size :=
                     (if backing_swap r then MAX_CPAGE_SIZE_BDEV else MAX_CPAGE_SIZE_NOBDEV)\<rparr>) d
      in if env_reg_swapon env \<noteq> 0 then (env_reg_swapon env, d)
      else let d = acquire (Notifier Ramzswap_swapon_nb SWAP_EVENT_SWAPON 0) d
      in if env_reg_swapoff env \<noteq> 0
         then (env_reg_swapoff env, release (Notifier Ramzswap_swapoff_nb SWAP_EVENT_SWAPON 0) d)
      else (0, acquire (Notifier Ramzswap_swapoff_nb SWAP_EVENT_SWAPOFF 0) d))"

definition init_fail :: "rz_driver \<Rightarrow> rz_driver" where
  "init_fail d =
     (let d = (case disk_major d of
                 None \<Rightarrow> d
               | Some major \<Rightarrow> release Disk_added (if major > 0 then release Blkdev d else d));
          d = (if table_mem d \<and> te_pagenum (table (rz d) ! 0) \<noteq> 0
               then free_header_page (te_pagenum (table (rz d) ! 0)) d else d);
          d = (if compress_workmem d then release Compress_workmem d else d);
          d = (if compress_buffer d then release Compress_buffer d else d);
          d = (if table_mem d then release Table_mem d else d);
          d = (if pool_mem d then release Pool_mem d else d)
      in if proc d then release Proc_entry d else d)"

definition ramzswap_init :: "rz_env \<Rightarrow> rz_driver \<Rightarrow> (int \<times> rz_driver) option" where
  "ramzswap_init env d =
     (let fail = (\<lambda>ret d. Some (ret, init_fail d)) in
      case setup_backing_swap env d of None \<Rightarrow> None
      | Some (ret, d) \<Rightarrow>
        if ret \<noteq> 0 then fail ret d
        else let totalram_bytes = push_bit PAGE_SHIFT (totalram_pages env)
        in case (if backing_swap (rz d) then ramzswap_set_memlimit env totalram_bytes (rz d)
                 else Some (ramzswap_set_disksize env totalram_bytes (rz d))) of None \<Rightarrow> None
        | Some r \<Rightarrow>
          case init_memory env (d\<lparr>rz := r\<rparr>) of None \<Rightarrow> None
          | Some (ret, d) \<Rightarrow>
            if ret \<noteq> 0 then fail ret d
            else let (ret, d) = init_disk env d
            in if ret \<noteq> 0 then fail ret d
            else let (ret, d) = init_pool env d
            in if ret \<noteq> 0 then fail ret d else Some (0, d))"

section \<open>Exit\<close>

text \<open>The loop over the entries from 1, \<open>n\<close> entries to go.\<close>

fun exit_free_pages :: "nat \<Rightarrow> nat \<Rightarrow> ramzswap \<Rightarrow> ramzswap option" where
  "exit_free_pages index 0 r = Some r"
| "exit_free_pages index (Suc n) r =
     (let pagenum = te_pagenum (table r ! index);
          offset = ucast (te_offset (table r ! index)) :: u32
      in if pagenum = 0 then exit_free_pages (index + 1) n r
      else if rz_test_flag r index RZS_UNCOMPRESSED
      then exit_free_pages (index + 1) n (r\<lparr>freed_pages := pagenum # freed_pages r\<rparr>)
      else case xv_free pagenum offset (mem_pool r) of None \<Rightarrow> None
        | Some (h, pg) \<Rightarrow> exit_free_pages (index + 1) n
            (r\<lparr>mem_pool := h, freed_pages := (case pg of None \<Rightarrow> [] | Some q \<Rightarrow> [q]) @ freed_pages r\<rparr>))"

definition ramzswap_exit :: "rz_env \<Rightarrow> rz_driver \<Rightarrow> rz_driver option" where
  "ramzswap_exit env d =
     (let num_pages = unat (drop_bit PAGE_SHIFT (disksize (rz d)));
          d = release (Notifier Ramzswap_swapon_nb SWAP_EVENT_SWAPON 0) d;
          d = release (Notifier Ramzswap_swapon_nb SWAP_EVENT_SWAPOFF 0) d;
          d = release Blkdev d;
          d = release Disk_added d;
          d = (if backing_swap (rz d)
               then release Swap_file (release Bdev_claim (snd (set_blocksize env (old_block_size d) d)))
               else d);
          d = free_header_page (te_pagenum (table (rz d) ! 0)) d;
          d = release Compress_workmem d;
          d = release Compress_buffer d
      in case exit_free_pages 1 (num_pages - 1) (rz d) of None \<Rightarrow> None
         | Some r \<Rightarrow>
             let d = d\<lparr>rz := r\<rparr>;
                 d = release Table_mem d;
                 d = release Pool_mem d
             in Some (release Proc_entry d))"

section \<open>Swap notifiers\<close>

text \<open>
  \<open>ours\<close>: the swap file is on this device; \<open>reg\<close>: the result of registering.
\<close>

definition ramzswap_swapon_notify :: "bool \<Rightarrow> int \<Rightarrow> u32 \<Rightarrow> rz_driver \<Rightarrow> int \<times> rz_driver" where
  "ramzswap_swapon_notify ours reg swap_id d =
     (if \<not> ours then (0, d)
      else (reg, if reg \<noteq> 0 then d else acquire (Notifier Ramzswap_slot_free_nb SWAP_EVENT_SLOT_FREE swap_id) d))"

definition ramzswap_swapoff_notify :: "bool \<Rightarrow> u32 \<Rightarrow> rz_driver \<Rightarrow> int \<times> rz_driver" where
  "ramzswap_swapoff_notify ours swap_id d =
     (if \<not> ours then (0, d) else (0, release (Notifier Ramzswap_slot_free_nb SWAP_EVENT_SLOT_FREE swap_id) d))"

end
