(* ===== verification/Xv_Lists.thy ===== *)
theory Xv_Lists
  imports Xvmalloc
begin

text \<open>
  The free lists of the allocator: size classes as arithmetic, the doubly linked lists as
  paths through the page memory, the two-level bitmap as the set of lists that are not
  empty, and what \<^verbatim>\<open>find_block\<close>, \<^verbatim>\<open>insert_block\<close> and \<^verbatim>\<open>remove_block\<close> do to them. The ghost
  value \<open>F\<close> gives for each index the list of blocks (page, header offset) on it.
\<close>

unbundle bit_operations_syntax

section \<open>Size classes\<close>

definition class_of :: "nat \<Rightarrow> nat" where
  "class_of n = n div 8 - 4"

lemma NUM_FREE_LISTS_val [simp]: "NUM_FREE_LISTS = 508"
  by (simp add: NUM_FREE_LISTS_def)

lemma MAX_FLI_val [simp]: "MAX_FLI = 16"
  by (simp add: MAX_FLI_def)

lemma unat_and_not_7: "unat ((w :: u32) AND - 8) = unat w div 8 * 8"
  using unat_and_not_mask[of w 3] by (simp add: mask_eq_exp_minus_1)

lemma power3_8: "2 ^ 3 = (8 :: u32)"
  by simp

lemma unat_div_8: "unat ((w :: u32) div 8) = unat w div 8"
  by (simp add: unat_div_distrib)

lemma get_index_for_insert_class:
  assumes "32 \<le> unat n" "unat n \<le> 4092"
  shows "unat (get_index_for_insert n) = class_of (unat n)"
proof -
  have "\<not> n > 4092" using assms by (simp add: word_less_nat_alt)
  moreover have "32 \<le> unat (n AND - 8)"
    using assms by (simp add: unat_and_not_7)
  ultimately show ?thesis
    by (simp add: get_index_for_insert_def class_of_def drop_bit_eq_div
        unat_and_not_7 unat_sub_le unat_div_8)
qed

lemma class_of_bound: "n \<le> 4092 \<Longrightarrow> class_of n < 508"
  by (simp add: class_of_def)

lemma get_index_class:
  assumes "unat n \<le> 4092"
  shows "unat (get_index n) = (max 32 (unat n) + 7) div 8 - 4"
proof -
  let ?n = "if n < 32 then 32 else n"
  have n: "unat ?n = max 32 (unat n)" "unat ?n \<le> 4092"
    using assms by (auto simp: word_less_nat_alt)
  then have a: "unat (ALIGN ?n 8) = (max 32 (unat n) + 7) div 8 * 8"
    by (subst unat_ALIGN8) auto
  have "get_index n = drop_bit 3 (ALIGN ?n 8 - 32)"
    by (simp add: get_index_def)
  then have "unat (get_index n) = unat (ALIGN ?n 8 - 32) div 8"
    by (simp only: drop_bit_eq_div power3_8 unat_div_8)
  also have "unat (ALIGN ?n 8 - 32) = unat (ALIGN ?n 8) - 32"
    by (subst unat_sub_le) (auto simp: a)
  also have "(unat (ALIGN ?n 8) - 32) div 8 = (max 32 (unat n) + 7) div 8 - 4"
  proof -
    have "y * 8 - 32 = (y - 4) * 8" for y :: nat by (simp add: diff_mult_distrib)
    then show ?thesis by (simp add: a)
  qed
  finally show ?thesis .
qed

text \<open>Every block on a list at or above \<^verbatim>\<open>get_index(size)\<close> is large enough.\<close>

lemma class_large_enough:
  assumes "unat n \<le> 4092" "32 \<le> m" "unat (get_index n) \<le> class_of m"
  shows "unat n \<le> m"
  using assms by (simp add: get_index_class class_of_def)

section \<open>Links\<close>

type_synonym addr = "u32 \<times> nat"

definition ptr :: "addr \<Rightarrow> u32 \<times> u16" where
  "ptr a = (fst a, of_nat (snd a))"

definition linkprev :: "pmem \<Rightarrow> addr \<Rightarrow> u32 \<times> u16" where
  "linkprev m a = (link_prev_pagenum m (fst a) (snd a), link_prev_offset m (fst a) (snd a))"

definition linknext :: "pmem \<Rightarrow> addr \<Rightarrow> u32 \<times> u16" where
  "linknext m a = (link_next_pagenum m (fst a) (snd a), link_next_offset m (fst a) (snd a))"

text \<open>Two block headers with their links do not overlap.\<close>

definition apart :: "addr \<Rightarrow> addr \<Rightarrow> bool" where
  "apart a b \<longleftrightarrow> fst a \<noteq> fst b \<or> snd a + 16 \<le> snd b \<or> snd b + 16 \<le> snd a"

lemma apart_sym: "apart a b \<longleftrightarrow> apart b a"
  by (auto simp: apart_def)

lemma linkprev_set_prev_same [simp]:
  "linkprev (set_link_prev (fst a) (snd a) pg off m) a = (pg, off)"
  by (simp add: linkprev_def set_link_prev_def link_prev_pagenum_def link_prev_offset_def mem_other)

lemma linknext_set_next_same [simp]:
  "linknext (set_link_next (fst a) (snd a) pg off m) a = (pg, off)"
  by (simp add: linknext_def set_link_next_def link_next_pagenum_def link_next_offset_def mem_other)

lemma linknext_set_prev_same [simp]:
  "linknext (set_link_prev (fst a) (snd a) pg off m) a = linknext m a"
  by (simp add: linknext_def set_link_prev_def link_next_pagenum_def link_next_offset_def mem_other)

lemma linkprev_set_next_same [simp]:
  "linkprev (set_link_next (fst a) (snd a) pg off m) a = linkprev m a"
  by (simp add: linkprev_def set_link_next_def link_prev_pagenum_def link_prev_offset_def mem_other)

lemma link_set_other:
  assumes "apart a b"
  shows "linkprev (set_link_prev (fst a) (snd a) pg off m) b = linkprev m b"
    and "linknext (set_link_prev (fst a) (snd a) pg off m) b = linknext m b"
    and "linkprev (set_link_next (fst a) (snd a) pg off m) b = linkprev m b"
    and "linknext (set_link_next (fst a) (snd a) pg off m) b = linknext m b"
  using assms
  by (auto simp: linkprev_def linknext_def set_link_prev_def set_link_next_def apart_def
      link_prev_pagenum_def link_prev_offset_def link_next_pagenum_def link_next_offset_def mem_other)

text \<open>The bytes of the links of a set of blocks, and memories that agree elsewhere.\<close>

definition link_area :: "addr set \<Rightarrow> (u32 \<times> nat) set" where
  "link_area A = {(p, i). \<exists>x. (p, x) \<in> A \<and> x + 4 \<le> i \<and> i < x + 16}"

definition agree_off :: "(u32 \<times> nat) set \<Rightarrow> pmem \<Rightarrow> pmem \<Rightarrow> bool" where
  "agree_off B m m' \<longleftrightarrow> (\<forall>p i. (p, i) \<notin> B \<longrightarrow> m' p i = m p i)"

lemma agree_off_refl [simp]: "agree_off B m m"
  by (simp add: agree_off_def)

lemma agree_off_trans: "agree_off B m m' \<Longrightarrow> agree_off B m' m'' \<Longrightarrow> agree_off B m m''"
  by (simp add: agree_off_def)

lemma agree_off_mono: "agree_off B m m' \<Longrightarrow> B \<subseteq> C \<Longrightarrow> agree_off C m m'"
  by (auto simp: agree_off_def)

lemma link_area_mono: "A \<subseteq> B \<Longrightarrow> link_area A \<subseteq> link_area B"
  by (auto simp: link_area_def)

lemma set_link_byte:
  assumes "q \<noteq> fst a \<or> i < snd a + 4 \<or> snd a + 16 \<le> i"
  shows "set_link_prev (fst a) (snd a) pg off m q i = m q i"
    and "set_link_next (fst a) (snd a) pg off m q i = m q i"
  using assms by (elim disjE; simp add: set_link_prev_def set_link_next_def st16_byte st32_byte)+

lemma agree_set_link:
  assumes "a \<in> A"
  shows "agree_off (link_area A) m (set_link_prev (fst a) (snd a) pg off m)"
    and "agree_off (link_area A) m (set_link_next (fst a) (snd a) pg off m)"
proof -
  have "q \<noteq> fst a \<or> i < snd a + 4 \<or> snd a + 16 \<le> i" if "(q, i) \<notin> link_area A" for q i
    using that assms by (cases a) (force simp: link_area_def not_less)
  then show "agree_off (link_area A) m (set_link_prev (fst a) (snd a) pg off m)"
    and "agree_off (link_area A) m (set_link_next (fst a) (snd a) pg off m)"
    by (simp_all add: agree_off_def set_link_byte)
qed

section \<open>Lists through the page memory\<close>

fun seg :: "pmem \<Rightarrow> u32 \<times> u16 \<Rightarrow> u32 \<times> u16 \<Rightarrow> addr list \<Rightarrow> u32 \<times> u16 \<Rightarrow> bool" where
  "seg m prv cur [] nxt \<longleftrightarrow> cur = nxt"
| "seg m prv cur (a # as) nxt \<longleftrightarrow>
     cur = ptr a \<and> linkprev m a = prv \<and> seg m (ptr a) (linknext m a) as nxt"

definition last_ptr :: "u32 \<times> u16 \<Rightarrow> addr list \<Rightarrow> u32 \<times> u16" where
  "last_ptr prv as = (if as = [] then prv else ptr (last as))"

lemma seg_append:
  "seg m prv cur (as @ bs) nxt \<longleftrightarrow> (\<exists>mid. seg m prv cur as mid \<and> seg m (last_ptr prv as) mid bs nxt)"
  by (induction as arbitrary: prv cur) (auto simp: last_ptr_def)

lemma seg_cong:
  "(\<And>a. a \<in> set as \<Longrightarrow> linkprev m' a = linkprev m a \<and> linknext m' a = linknext m a) \<Longrightarrow>
   seg m' prv cur as nxt = seg m prv cur as nxt"
  by (induction as arbitrary: prv cur) auto

text \<open>Redirecting the last link of a segment, and the first back link.\<close>

lemma seg_set_last:
  assumes "seg m prv cur (as @ [a]) nxt"
    and "\<And>b. b \<in> set as \<Longrightarrow> apart a b"
  shows "seg (set_link_next (fst a) (snd a) pg off m) prv cur (as @ [a]) (pg, off)"
proof -
  let ?m = "set_link_next (fst a) (snd a) pg off m"
  from assms(1) obtain mid where *: "seg m prv cur as mid" "seg m (last_ptr prv as) mid [a] nxt"
    by (auto simp: seg_append)
  have "seg ?m prv cur as mid"
    using *(1) assms(2) by (subst seg_cong [where m = m]) (auto simp: link_set_other)
  with *(2) show ?thesis unfolding seg_append by (intro exI[of _ mid]) simp
qed

lemma seg_set_first:
  assumes "seg m prv cur (a # as) nxt"
    and "\<And>b. b \<in> set as \<Longrightarrow> apart a b"
  shows "seg (set_link_prev (fst a) (snd a) pg off m) (pg, off) cur (a # as) nxt"
proof -
  have "seg (set_link_prev (fst a) (snd a) pg off m) (ptr a) (linknext m a) as nxt"
    using assms by (subst seg_cong [where m = m]) (auto simp: link_set_other)
  with assms(1) show ?thesis by simp
qed

section \<open>The free list invariant\<close>

definition headptr :: "'a xv_pool_scheme \<Rightarrow> nat \<Rightarrow> u32 \<times> u16" where
  "headptr s i = (fe_pagenum (freelist s ! i), fe_offset (freelist s ! i))"

definition bitmaps_ok :: "(nat \<Rightarrow> addr list) \<Rightarrow> 'a xv_pool_scheme \<Rightarrow> bool" where
  "bitmaps_ok F s \<longleftrightarrow>
     (\<forall>i < 512. bit (slbitmap s ! (i div 32)) (i mod 32) \<longleftrightarrow> F i \<noteq> []) \<and>
     (\<forall>j < 32. bit (flbitmap s) j \<longleftrightarrow> j < 16 \<and> slbitmap s ! j \<noteq> 0)"

definition members :: "(nat \<Rightarrow> addr list) \<Rightarrow> addr set" where
  "members F = (\<Union>i. set (F i))"

definition placed :: "addr \<Rightarrow> bool" where
  "placed a \<longleftrightarrow> fst a \<noteq> 0 \<and> snd a + 16 \<le> PAGE_SIZE"

definition ghost_ok :: "(nat \<Rightarrow> addr list) \<Rightarrow> bool" where
  "ghost_ok F \<longleftrightarrow>
     (\<forall>i \<ge> 508. F i = []) \<and> (\<forall>i. distinct (F i)) \<and>
     (\<forall>i j. i \<noteq> j \<longrightarrow> set (F i) \<inter> set (F j) = {}) \<and>
     (\<forall>a \<in> members F. placed a) \<and>
     (\<forall>a \<in> members F. \<forall>b \<in> members F. a \<noteq> b \<longrightarrow> apart a b)"

definition lists_ok :: "(nat \<Rightarrow> addr list) \<Rightarrow> xv_heap \<Rightarrow> bool" where
  "lists_ok F s \<longleftrightarrow>
     length (slbitmap s) = 16 \<and> length (freelist s) = 508 \<and> bitmaps_ok F s \<and> ghost_ok F \<and>
     (\<forall>i < 508. seg (mem s) (0, 0) (headptr s i) (F i) (0, 0))"

lemma membersI [intro]: "a \<in> set (F i) \<Longrightarrow> a \<in> members F"
  by (auto simp: members_def)

lemma bitmaps_ok_set:
  assumes "bitmaps_ok F s" "i < 508" "length (slbitmap s) = 16" "as \<noteq> []"
    and "slbitmap s' = (slbitmap s)[i div 32 := set_bit (i mod 32) (slbitmap s ! (i div 32))]"
    and "flbitmap s' = set_bit (i div 32) (flbitmap s)"
  shows "bitmaps_ok (F(i := as)) s'"
proof -
  have i: "i div 32 < 16" "i mod 32 < 32" using assms(2) by auto
  have split: "j = i \<longleftrightarrow> j div 32 = i div 32 \<and> j mod 32 = i mod 32" for j
    by (metis div_mult_mod_eq)
  have nz: "set_bit (i mod 32) (slbitmap s ! (i div 32)) \<noteq> 0"
  proof
    assume "set_bit (i mod 32) (slbitmap s ! (i div 32)) = 0"
    then have "\<not> bit (set_bit (i mod 32) (slbitmap s ! (i div 32))) (i mod 32)" by simp
    with i show False by (simp add: bit_set_bit_iff)
  qed
  show ?thesis
    using assms(1,3,4) i nz unfolding bitmaps_ok_def assms(5,6)
    by (auto simp: nth_list_update bit_set_bit_iff split)
qed

lemma bitmaps_ok_unset:
  assumes "bitmaps_ok F s" "i < 508" "length (slbitmap s) = 16"
    and "slbitmap s' = (slbitmap s)[i div 32 := unset_bit (i mod 32) (slbitmap s ! (i div 32))]"
    and "flbitmap s' = (if slbitmap s' ! (i div 32) = 0 then unset_bit (i div 32) (flbitmap s)
                        else flbitmap s)"
    and "bit (slbitmap s ! (i div 32)) (i mod 32)"
  shows "bitmaps_ok (F(i := [])) s'"
proof -
  have i: "i div 32 < 16" "i mod 32 < 32" using assms(2) by auto
  have split: "j = i \<longleftrightarrow> j div 32 = i div 32 \<and> j mod 32 = i mod 32" for j
    by (metis div_mult_mod_eq)
  have "slbitmap s ! (i div 32) \<noteq> 0" using assms(6) by auto
  then show ?thesis
    using assms(1,3) i unfolding bitmaps_ok_def assms(5) unfolding assms(4)
    by (auto simp: nth_list_update bit_unset_bit_iff split)
qed

section \<open>Finding a block\<close>

lemma bit_list:
  "lists_ok F s \<Longrightarrow> j < 512 \<Longrightarrow> bit (slbitmap s ! (j div 32)) (j mod 32) \<longleftrightarrow> F j \<noteq> []"
  by (simp add: lists_ok_def bitmaps_ok_def)

lemma flbitmap_zero_empty:
  assumes "lists_ok F s" "flbitmap s = 0"
  shows "F j = []"
proof (cases "j < 508")
  case True
  then have "j div 32 < 16" by auto
  with assms have "slbitmap s ! (j div 32) = 0"
    by (auto simp: lists_ok_def bitmaps_ok_def)
  with bit_list[OF assms(1), of j] True show ?thesis by simp
qed (use assms in \<open>auto simp: lists_ok_def ghost_ok_def\<close>)

lemma bit_chunk:
  "lists_ok F s \<Longrightarrow> q < 32 \<Longrightarrow> bit (flbitmap s) q \<longleftrightarrow> q < 16 \<and> slbitmap s ! q \<noteq> 0"
  by (simp add: lists_ok_def bitmaps_ok_def)

text \<open>A chunk of the second level without a bit set from \<open>r\<close> on has no list from there on.\<close>

lemma chunk_empty:
  assumes "lists_ok F s" "q < 16" "drop_bit r (slbitmap s ! q) = 0" "j div 32 = q" "r \<le> j mod 32"
  shows "F j = []"
proof -
  have "j < 512" using assms(2,4) by auto
  have "\<not> bit (drop_bit r (slbitmap s ! q)) (j mod 32 - r)" using assms(3) by simp
  then have "\<not> bit (slbitmap s ! q) (j mod 32)" using assms(5) by (simp add: bit_drop_bit_eq)
  with bit_list[OF assms(1) \<open>j < 512\<close>] assms(4) show ?thesis by simp
qed

lemma drop_bit_ffs:
  assumes "drop_bit r (w :: u32) \<noteq> 0"
  defines "k \<equiv> r + ffs (drop_bit r w)"
  shows "bit w k" and "k < 32" and "\<And>i. r \<le> i \<Longrightarrow> i < k \<Longrightarrow> \<not> bit w i"
proof -
  note f = ffs_least[OF assms(1)]
  show b: "bit w k" using f(1) by (simp add: k_def bit_drop_bit_eq)
  show "k < 32" using bit_imp_le_length[OF b] by simp
  fix i assume i: "r \<le> i" "i < k"
  then have "\<not> bit (drop_bit r w) (i - r)" by (intro f(3)) (simp add: k_def)
  then show "\<not> bit w i" using i by (simp add: bit_drop_bit_eq)
qed

text \<open>The outcome of the search: the least non-empty list from \<open>g\<close> on, or nothing.\<close>

definition first_list :: "(nat \<Rightarrow> addr list) \<Rightarrow> nat \<Rightarrow> nat \<Rightarrow> bool" where
  "first_list F g k \<longleftrightarrow> g \<le> k \<and> k < 508 \<and> F k \<noteq> [] \<and> (\<forall>j. g \<le> j \<and> j < k \<longrightarrow> F j = [])"

lemma first_listI:
  assumes "lists_ok F s" "bit (slbitmap s ! q) r" "q < 16" "r < 32" "g \<le> q * 32 + r"
    and "\<And>j. g \<le> j \<Longrightarrow> j < q * 32 + r \<Longrightarrow> F j = []"
  shows "first_list F g (q * 32 + r)"
proof -
  have "(q * 32 + r) div 32 = q" "(q * 32 + r) mod 32 = r" "q * 32 + r < 512" using assms(3,4) by auto
  with bit_list[OF assms(1), of "q * 32 + r"] assms(2) have "F (q * 32 + r) \<noteq> []" by simp
  moreover from this assms(1) have "q * 32 + r < 508"
    by (meson lists_ok_def ghost_ok_def not_le)
  ultimately show ?thesis using assms(5,6) by (auto simp: first_list_def)
qed

lemma find_block_outcome:
  assumes ok: "lists_ok F s" and sz: "unat sz \<le> 4092"
  defines "g \<equiv> unat (get_index sz)"
  shows "(find_block s sz pg off = (0, pg, off) \<and> (\<forall>j \<ge> g. F j = [])) \<or>
    (\<exists>k. first_list F g k \<and> find_block s sz pg off = (k, head_of s k))"
proof (cases "flbitmap s = 0")
  case True
  then show ?thesis using flbitmap_zero_empty[OF ok] by (simp add: find_block_def)
next
  case fl: False
  define q r where "q = g div 32" and "r = g mod 32"
  have "g \<le> 508" using get_index_class[OF sz] sz by (simp add: g_def)
  then have q: "q < 16" and r: "r < 32" and g: "g = q * 32 + r" by (auto simp: q_def r_def)
  show ?thesis
  proof (cases "bit (slbitmap s ! q) r")
    case True
    then have "first_list F g g" using first_listI[OF ok True q r] by (simp add: g)
    moreover have "find_block s sz pg off = (g, head_of s g)"
      using fl True by (simp add: find_block_def flip: g_def q_def r_def)
    ultimately show ?thesis by blast
  next
    case b1: False
    have here: "F j = []" if "g \<le> j" "j div 32 = q" "j mod 32 \<le> r" for j
    proof -
      have "j mod 32 = r" using that unfolding g by (metis add_le_cancel_left div_mult_mod_eq le_antisym)
      then have "j = g" using that g by (metis div_mult_mod_eq)
      with b1 bit_list[OF ok, of j] q r show ?thesis by (auto simp: g)
    qed
    show ?thesis
    proof (cases "drop_bit (r + 1) (slbitmap s ! q) = 0")
      case False
      define k where "k = r + 1 + ffs (drop_bit (r + 1) (slbitmap s ! q))"
      note f = drop_bit_ffs[OF False, folded k_def]
      have "first_list F g (q * 32 + k)"
      proof (rule first_listI[OF ok f(1) q f(2)])
        fix j assume j: "g \<le> j" "j < q * 32 + k"
        then have "j div 32 = q" "j < 512" using f(2) g q by auto
        moreover have "F j = []" if "r < j mod 32"
          using f(3)[of "j mod 32"] bit_list[OF ok \<open>j < 512\<close>] that j \<open>j div 32 = q\<close>
          by (metis Suc_eq_plus1 add_less_cancel_left div_mult_mod_eq not_less_eq_eq not_le)
        ultimately show "F j = []" using here j(1) not_le by blast
      qed (simp add: g k_def)
      moreover have "find_block s sz pg off = (q * 32 + k, head_of s (q * 32 + k))"
      proof -
        have "r + 1 \<noteq> 32" using f(2) by (simp add: k_def)
        moreover have "g + (ffs (drop_bit (r + 1) (slbitmap s ! q)) + 1) = q * 32 + k"
          by (simp add: g k_def)
        ultimately show ?thesis
          using fl b1 False by (simp add: find_block_def Let_def flip: g_def q_def r_def)
      qed
      ultimately show ?thesis by blast
    next
      case dz: True
      have chunk: "F j = []" if "g \<le> j" "j div 32 = q" for j
        using here[OF that] chunk_empty[OF ok q dz that(2)] by fastforce
      have unf: "find_block s sz pg off =
          (if drop_bit (q + 1) (flbitmap s) = 0 then (0, pg, off)
           else let q' = q + (ffs (drop_bit (q + 1) (flbitmap s)) + 1);
                    k = q' * 32 + ffs (slbitmap s ! q') in (k, head_of s k))"
        using fl b1 dz by (simp add: find_block_def Let_def flip: g_def q_def r_def)
      have above: "F j = []" if "q < j div 32" "j < 512" "\<not> bit (flbitmap s) (j div 32)" for j
        using bit_chunk[OF ok, of "j div 32"] bit_list[OF ok that(2)] that by auto
      have big: "F j = []" if "512 \<le> j" for j using ok that by (simp add: lists_ok_def ghost_ok_def)
      show ?thesis
      proof (cases "drop_bit (q + 1) (flbitmap s) = 0")
        case True
        have nb: "\<not> bit (flbitmap s) i" if "q < i" for i
        proof -
          have "\<not> bit (drop_bit (q + 1) (flbitmap s)) (i - (q + 1))" using True by simp
          with that show ?thesis by (simp add: bit_drop_bit_eq)
        qed
        have "F j = []" if "g \<le> j" for j
          using chunk[OF that] above[of j] big[of j] nb[of "j div 32"] div_le_mono[OF that, of 32]
          by (fastforce simp: q_def)
        then show ?thesis using unf True by simp
      next
        case False
        define q' where "q' = q + 1 + ffs (drop_bit (q + 1) (flbitmap s))"
        note f = drop_bit_ffs[OF False, folded q'_def]
        have q': "q' < 16" "slbitmap s ! q' \<noteq> 0" using bit_chunk[OF ok f(2)] f(1) by auto
        note h = ffs_least[OF q'(2)]
        let ?k = "q' * 32 + ffs (slbitmap s ! q')"
        have "first_list F g ?k"
        proof (rule first_listI[OF ok h(1) q'(1) h(2)])
          have "q < q'" by (simp add: q'_def)
          then show "g \<le> ?k" using r g by simp
          fix j assume j: "g \<le> j" "j < ?k"
          have "j div 32 \<le> q'" using j(2) h(2) by auto
          then consider "j div 32 = q" | "q < j div 32" "j div 32 < q'" | "j div 32 = q'"
            using div_le_mono[OF j(1), of 32] by (fastforce simp: q_def)
          then show "F j = []"
          proof cases
            case 1 then show ?thesis using chunk j by simp
          next
            case 2 then show ?thesis using above[of j] f(3)[of "j div 32"] q' by simp
          next
            case 3
            then have "j mod 32 < ffs (slbitmap s ! q')" "j < 512"
              using j(2) q'(1) div_mult_mod_eq[of j 32] by linarith+
            then show ?thesis using h(3) bit_list[OF ok \<open>j < 512\<close>] 3 by simp
          qed
        qed
        moreover have "find_block s sz pg off = (?k, head_of s ?k)"
          using unf False by (simp add: Let_def q'_def add.assoc add.commute[of 1])
        ultimately show ?thesis by blast
      qed
    qed
  qed
qed

section \<open>Changing the lists\<close>

lemma ghost_ok_upd:
  assumes "ghost_ok F" "i < 508" "distinct as"
    and "\<And>a. a \<in> set as \<Longrightarrow> a \<notin> set (F i) \<Longrightarrow>
      placed a \<and> a \<notin> members F \<and> (\<forall>b \<in> members F. apart a b)"
    and "\<And>a b. a \<in> set as \<Longrightarrow> b \<in> set as \<Longrightarrow> a \<notin> set (F i) \<Longrightarrow> b \<notin> set (F i) \<Longrightarrow> a = b"
  shows "ghost_ok (F(i := as))"
proof -
  have mem: "a \<in> members F \<or> (a \<in> set as \<and> a \<notin> set (F i))" if "a \<in> members (F(i := as))" for a
    using that by (auto simp: members_def split: if_splits)
  have pl: "placed a" if "a \<in> members (F(i := as))" for a
    using mem[OF that] assms(1) assms(4)[of a] by (auto simp: ghost_ok_def)
  have ap: "apart a b" if "a \<in> members (F(i := as))" "b \<in> members (F(i := as))" "a \<noteq> b" for a b
    using mem[OF that(1)] mem[OF that(2)] that(3) assms(1) assms(4)[of a] assms(4)[of b] assms(5)[of a b]
      apart_sym[of a b]
    by (auto simp: ghost_ok_def)
  have d: "set as \<inter> set (F j) = {}" "set (F j) \<inter> set as = {}" if "j \<noteq> i" for j
    using assms(1,4) that unfolding ghost_ok_def members_def by fastforce+
  show ?thesis
    using pl ap assms(1-3) unfolding ghost_ok_def by (simp add: d)
qed

text \<open>One list changes, the links of the members of the others are as before.\<close>

lemma lists_ok_upd:
  assumes ok: "lists_ok F s" and i: "i < 508"
    and ghost: "ghost_ok (F(i := as))" and bits: "bitmaps_ok (F(i := as)) s'"
    and len: "length (slbitmap s') = 16" and fl: "freelist s' = (freelist s)[i := e]"
    and seg: "seg (mem s') (0, 0) (fe_pagenum e, fe_offset e) as (0, 0)"
    and rest: "\<And>j a. j \<noteq> i \<Longrightarrow> a \<in> set (F j) \<Longrightarrow>
      linkprev (mem s') a = linkprev (mem s) a \<and> linknext (mem s') a = linknext (mem s) a"
  shows "lists_ok (F(i := as)) s'"
proof -
  have lf: "length (freelist s) = 508" using ok by (simp add: lists_ok_def)
  have "seg (mem s') (0, 0) (headptr s' j) ((F(i := as)) j) (0, 0)" if "j < 508" for j
  proof (cases "j = i")
    case True
    then show ?thesis using seg i lf by (simp add: headptr_def fl)
  next
    case False
    then have "headptr s' j = headptr s j" by (simp add: headptr_def fl)
    moreover have "seg (mem s) (0, 0) (headptr s j) (F j) (0, 0)"
      using ok that by (simp add: lists_ok_def)
    ultimately show ?thesis
      using False by simp (subst seg_cong [where m = "mem s"], auto simp: rest)
  qed
  then show ?thesis
    using ghost bits len lf by (simp add: lists_ok_def fl)
qed

lemma members_apart:
  "ghost_ok F \<Longrightarrow> a \<in> set (F i) \<Longrightarrow> b \<in> set (F j) \<Longrightarrow> a \<noteq> b \<Longrightarrow> apart a b"
  unfolding ghost_ok_def by blast

lemma members_disjoint:
  "ghost_ok F \<Longrightarrow> a \<in> set (F i) \<Longrightarrow> i \<noteq> j \<Longrightarrow> a \<notin> set (F j)"
  unfolding ghost_ok_def by blast

lemma placed_member: "ghost_ok F \<Longrightarrow> a \<in> set (F i) \<Longrightarrow> placed a"
  by (auto simp: ghost_ok_def)

lemma ptr_offset:
  "placed a \<Longrightarrow> unat (snd (ptr a)) = snd a"
  by (simp add: placed_def ptr_def unat_of_nat_u16)

lemma offset_words:
  assumes "x < 65536"
  shows "unat (of_nat x :: u32) = x" and "ucast (of_nat x :: u32) = (of_nat x :: u16)"
    and "ucast (of_nat x :: u16) = (of_nat x :: u32)"
  using assms by (auto simp: word_eq_unat unat_of_nat_u32 unat_of_nat_u16 unat_ucast_32_16)

text \<open>\<^verbatim>\<open>insert_block\<close> puts the block at the head of the list of its class.\<close>

lemma insert_block_ok:
  assumes ok: "lists_ok F s" and pl: "placed (p, x)" and new: "(p, x) \<notin> members F"
    and ap: "\<And>b. b \<in> members F \<Longrightarrow> apart (p, x) b"
    and i: "i = unat (get_index_for_insert (ucast (block_size (mem s) p x)))" "i < 508"
  defines "s' \<equiv> insert_block p (of_nat x) s"
  shows "lists_ok (F(i := (p, x) # F i)) s'"
    and "agree_off (link_area (insert (p, x) (members F))) (mem s) (mem s')"
    and "total_pages s' = total_pages s"
proof -
  let ?a = "(p, x)"
  let ?m1 = "set_link_next p x (fst (headptr s i)) (snd (headptr s i)) (set_link_prev p x 0 0 (mem s))"
  define m where "m = (if fst (headptr s i) \<noteq> 0
    then set_link_prev (fst (headptr s i)) (unat (snd (headptr s i))) p (of_nat x) ?m1 else ?m1)"
  have x: "x < 65536" using pl by (simp add: placed_def)
  have g: "ghost_ok F" and seg: "seg (mem s) (0, 0) (headptr s i) (F i) (0, 0)"
    using ok i(2) by (auto simp: lists_ok_def)
  have npg: "linknext ?m1 ?a = headptr s i"
    using linknext_set_next_same[of ?a] by simp
  have lfl: "length (freelist s) = 508" "i div 32 < 16" "i mod 32 < 32" using ok i(2) by (auto simp: lists_ok_def)
  have s': "s' = s\<lparr>mem := m, freelist := (freelist s)[i := (freelist s ! i)
      \<lparr>fe_pagenum := p, fe_offset := of_nat x\<rparr>],
      slbitmap := (slbitmap s)[i div 32 := set_bit (i mod 32) (slbitmap s ! (i div 32))],
      flbitmap := set_bit (i div 32) (flbitmap s)\<rparr>"
    using npg unfolding s'_def insert_block_def Let_def offset_words(1,2)[OF x] i(1)[symmetric]
    by (simp add: m_def set_freelist_def headptr_def linknext_def)
  have m1: "linkprev ?m1 ?a = (0, 0)" using linkprev_set_prev_same[of ?a] linkprev_set_next_same[of ?a] by simp
  have m1o: "linkprev ?m1 b = linkprev (mem s) b \<and> linknext ?m1 b = linknext (mem s) b"
    if "b \<in> members F" for b
    using link_set_other[OF ap[OF that]] by simp
  have segm: "seg m (0, 0) (ptr ?a) (?a # F i) (0, 0) \<and>
      (\<forall>b \<in> members F. b \<notin> set (F i) \<longrightarrow> linkprev m b = linkprev (mem s) b \<and> linknext m b = linknext (mem s) b) \<and>
      agree_off (link_area (insert ?a (members F))) (mem s) m"
  proof -
    have ag1: "agree_off (link_area (insert ?a (members F))) (mem s) ?m1"
      using agree_off_trans[OF agree_set_link(1)[of ?a] agree_set_link(2)[of ?a]] by simp
    have seg1: "seg ?m1 (0, 0) (headptr s i) (F i) (0, 0)"
      using seg seg_cong[where m = "mem s", OF m1o[OF membersI]] by simp
    show ?thesis
    proof (cases "F i")
      case Nil
      then have "m = ?m1" using seg by (simp add: m_def)
      then show ?thesis using Nil seg m1 npg m1o ag1 by (simp add: ptr_def)
    next
      case (Cons b bs)
      then have hp: "headptr s i = ptr b" and b: "b \<in> members F" "placed b"
        using seg placed_member[OF g, of b i] membersI[of b F i] by auto
      then have m: "m = set_link_prev (fst b) (snd b) p (of_nat x) ?m1"
        by (simp add: m_def ptr_offset) (simp add: placed_def ptr_def)
      have o: "linkprev m c = linkprev ?m1 c \<and> linknext m c = linknext ?m1 c" if "apart b c" for c
        using link_set_other[OF that] by (simp add: m)
      have bb: "apart b c" if "c \<in> members F" "c \<noteq> b" for c
        using g b(1) that by (auto simp: ghost_ok_def)
      have nb: "b \<notin> set bs" using g Cons by (metis distinct.simps(2) ghost_ok_def)
      have "seg m (ptr ?a) (headptr s i) (b # bs) (0, 0)"
      proof -
        have "apart b c" if "c \<in> set bs" for c
          using bb[of c] nb that membersI[of c F i] Cons by auto
        from seg_set_first[OF seg1[unfolded Cons] this, of p "of_nat x"] show ?thesis
          by (simp only: m ptr_def fst_conv snd_conv)
      qed
      moreover have "linkprev m ?a = (0, 0)" "linknext m ?a = headptr s i"
        using o[of ?a] ap[OF b(1)] m1 npg by (auto simp: apart_sym)
      moreover have "agree_off (link_area (insert ?a (members F))) (mem s) m"
        unfolding m by (rule agree_off_trans[OF ag1 agree_set_link(1)]) (use b in simp)
      ultimately show ?thesis using Cons o bb m1o by auto
    qed
  qed
  show "agree_off (link_area (insert (p, x) (members F))) (mem s) (mem s')"
    and "total_pages s' = total_pages s"
    using segm by (simp_all add: s')
  have gi: "ghost_ok (F(i := ?a # F i))"
    using new pl ap g by (intro ghost_ok_upd[OF g i(2)]) (auto simp: ghost_ok_def)
  have bi: "bitmaps_ok (F(i := ?a # F i)) s'"
    by (rule bitmaps_ok_set[where s = s]) (use ok i(2) in \<open>auto simp: lists_ok_def s'\<close>)
  have rest: "linkprev (mem s') b = linkprev (mem s) b \<and> linknext (mem s') b = linknext (mem s) b"
    if "j \<noteq> i" "b \<in> set (F j)" for j b
    using segm members_disjoint[OF g that(2,1)] membersI[of b F j] that by (simp add: s')
  show "lists_ok (F(i := (p, x) # F i)) s'"
    by (rule lists_ok_upd[OF ok i(2) gi bi _ _ _ rest, where e = "(freelist s ! i)\<lparr>fe_pagenum := p, fe_offset := of_nat x\<rparr>"])
      (use ok segm in \<open>auto simp: lists_ok_def s' ptr_def\<close>)
qed

lemma seg_nextD:
  assumes "seg m (ptr a) nxt bs (0, 0)" "\<And>b. b \<in> set bs \<Longrightarrow> placed b"
  shows "fst nxt = 0 \<longleftrightarrow> bs = []" and "bs = b # bs' \<Longrightarrow> nxt = ptr b"
  using assms by (cases bs; force simp: placed_def ptr_def)+

lemma ptr_inj: "placed a \<Longrightarrow> placed b \<Longrightarrow> ptr a = ptr b \<Longrightarrow> a = b"
  by (metis prod.expand ptr_offset fst_conv ptr_def)

lemma ghost_ok_shrink:
  assumes "ghost_ok F" "i < 508" "distinct as" "set as \<subseteq> set (F i)"
  shows "ghost_ok (F(i := as))"
  by (rule ghost_ok_upd[OF assms(1-3)]) (use assms(4) in auto)

lemma remove_block_head_ok:
  assumes ok: "lists_ok F s" and i: "i < 508" and F: "F i = a # bs"
  defines "s' \<equiv> remove_block_head (fst a) (snd a) i s"
  shows "lists_ok (F(i := bs)) s'"
    and "agree_off (link_area (members F)) (mem s) (mem s')"
    and "total_pages s' = total_pages s"
proof -
  let ?m1 = "set_link_prev (fst a) (snd a) 0 0 (mem s)"
  let ?nx = "linknext (mem s) a"
  let ?e = "(freelist s ! i)\<lparr>fe_pagenum := fst ?nx, fe_offset := snd ?nx\<rparr>"
  have g: "ghost_ok F" and "seg (mem s) (0, 0) (headptr s i) (F i) (0, 0)"
    using ok i by (auto simp: lists_ok_def)
  then have seg: "seg (mem s) (ptr a) ?nx bs (0, 0)" by (simp add: F)
  have dist: "a \<notin> set bs" "distinct bs" using g F by (metis distinct.simps(2) ghost_ok_def)+
  have mem: "a \<in> members F" using F by (intro membersI[of a F i]) simp
  have pl: "placed b" if "b \<in> set bs" for b
    using placed_member[OF g, of b i] that F by simp
  note nx = seg_nextD[OF seg pl]
  have lfl: "length (freelist s) = 508" "length (slbitmap s) = 16" using ok by (auto simp: lists_ok_def)
  have o: "linkprev ?m1 b = linkprev (mem s) b \<and> linknext ?m1 b = linknext (mem s) b"
    if "b \<in> set (F j)" "b \<noteq> a" for b j
    using link_set_other members_apart[OF g _ that(1), of a i] that(2) F by simp
  have ag1: "agree_off (link_area (members F)) (mem s) ?m1" by (rule agree_set_link(1)[OF mem])
  have fl: "set_freelist i (link_next_pagenum (mem s) (fst a) (snd a))
      (link_next_offset (mem s) (fst a) (snd a)) s = s\<lparr>freelist := (freelist s)[i := ?e]\<rparr>"
    by (simp add: set_freelist_def linknext_def)
  have gh: "ghost_ok (F(i := bs))" by (rule ghost_ok_shrink[OF g i]) (use dist F in auto)
  show "lists_ok (F(i := bs)) s'" "agree_off (link_area (members F)) (mem s) (mem s')"
    "total_pages s' = total_pages s"
  proof (atomize (full), cases bs)
    case Nil
    have bit: "bit (slbitmap s ! (i div 32)) (i mod 32)" using bit_list[OF ok, of i] i F by simp
    have s': "s' = s\<lparr>mem := ?m1, freelist := (freelist s)[i := ?e],
        slbitmap := (slbitmap s)[i div 32 := unset_bit (i mod 32) (slbitmap s ! (i div 32))],
        flbitmap := (if unset_bit (i mod 32) (slbitmap s ! (i div 32)) = 0
                     then unset_bit (i div 32) (flbitmap s) else flbitmap s)\<rparr>"
      using Nil nx lfl i unfolding s'_def remove_block_head_def Let_def fl by simp
    have "bitmaps_ok (F(i := bs)) s'"
      unfolding Nil by (rule bitmaps_ok_unset[where s = s, OF _ i lfl(2) _ _ bit])
        (use ok lfl i in \<open>auto simp: s' lists_ok_def\<close>)
    moreover have "seg (mem s') (0, 0) ?nx bs (0, 0)" using Nil seg by simp
    moreover have rest: "linkprev (mem s') b = linkprev (mem s) b \<and> linknext (mem s') b = linknext (mem s) b"
      if "j \<noteq> i" "b \<in> set (F j)" for j b
    proof -
      have "b \<noteq> a" using members_disjoint[OF g that(2,1)] F by auto
      with o[OF that(2)] show ?thesis by (simp add: s')
    qed
    ultimately have "lists_ok (F(i := bs)) s'"
      using lfl by (intro lists_ok_upd[OF ok i gh, where e = ?e]) (simp_all add: s')
    with ag1 show "lists_ok (F(i := bs)) s' \<and> agree_off (link_area (members F)) (mem s) (mem s') \<and>
        total_pages s' = total_pages s" by (simp add: s')
  next
    case (Cons b bs')
    let ?m2 = "set_link_prev (fst b) (snd b) 0 0 ?m1"
    have nxb: "?nx = ptr b" "fst ?nx \<noteq> 0" "unat (snd ?nx) = snd b" "fst b = fst ?nx"
      using nx Cons pl[of b] ptr_offset[of b] by (auto simp: ptr_def placed_def)
    have s': "s' = s\<lparr>mem := ?m2, freelist := (freelist s)[i := ?e]\<rparr>"
      using nxb lfl i unfolding s'_def remove_block_head_def Let_def fl by simp
    have bb: "b \<in> set (F i)" "b \<noteq> a" "b \<notin> set bs'" using F Cons dist by auto
    have ba: "apart b c" if "c \<in> set (F j)" "c \<noteq> b" for c j
      using members_apart[OF g bb(1) that(1)] that(2) by simp
    have "seg ?m1 (ptr a) ?nx (b # bs') (0, 0)"
      using seg dist(1) o[of _ i] F unfolding Cons by (subst seg_cong [where m = "mem s"]) auto
    then have "seg ?m2 (0, 0) ?nx bs (0, 0)"
      unfolding Cons by (rule seg_set_first) (use ba[of _ i] bb Cons F in auto)
    moreover have "linkprev (mem s') c = linkprev (mem s) c \<and> linknext (mem s') c = linknext (mem s) c"
      if "j \<noteq> i" "c \<in> set (F j)" for j c
    proof -
      have "c \<noteq> a" "c \<noteq> b" using members_disjoint[OF g that(2,1)] F Cons by auto
      with link_set_other[OF ba[OF that(2)]] o[OF that(2)] show ?thesis by (simp add: s')
    qed
    moreover have "bitmaps_ok (F(i := bs)) s'"
    proof -
      have "bitmaps_ok F s" using ok by (simp add: lists_ok_def)
      then show ?thesis using F Cons by (simp add: bitmaps_ok_def s')
    qed
    ultimately have "lists_ok (F(i := bs)) s'"
      using lfl by (intro lists_ok_upd[OF ok i gh, where e = ?e]) (simp_all add: s')
    moreover have "agree_off (link_area (members F)) (mem s) (mem s')"
      using agree_off_trans[OF ag1 agree_set_link(1)] membersI[of b F i] bb(1) by (simp add: s')
    ultimately show "lists_ok (F(i := bs)) s' \<and> agree_off (link_area (members F)) (mem s) (mem s') \<and>
        total_pages s' = total_pages s" by (simp add: s')
  qed
qed

text \<open>\<^verbatim>\<open>remove_block\<close> takes the block off its list, wherever it stands.\<close>

lemma remove_block_mid:
  assumes g: "ghost_ok F" and seg: "seg m (0, 0) hd0 (as @ [c] @ a # bs) (0, 0)"
    and F: "F i = as @ [c] @ a # bs"
  defines "m1 \<equiv> set_link_next (fst c) (snd c) (fst (linknext m a)) (snd (linknext m a)) m"
  defines "m2 \<equiv> (if fst (linknext m1 a) \<noteq> 0
    then set_link_prev (fst (linknext m1 a)) (unat (snd (linknext m1 a)))
           (fst (linkprev m1 a)) (snd (linkprev m1 a)) m1 else m1)"
  shows "seg m2 (0, 0) hd0 (as @ [c] @ bs) (0, 0)"
    and "agree_off (link_area (members F)) m m2"
    and "\<And>j b. j \<noteq> i \<Longrightarrow> b \<in> set (F j) \<Longrightarrow> linkprev m2 b = linkprev m b \<and> linknext m2 b = linknext m b"
proof -
  have dist: "distinct (as @ [c] @ a # bs)" using g F by (metis ghost_ok_def)
  have pl: "placed b" if "b \<in> set (F i)" for b using placed_member[OF g that] .
  have ca: "apart c b" if "b \<in> set (F j)" "b \<noteq> c" for b j
    using members_apart[OF g, of c i b j] that F by simp
  have o1: "linkprev m1 b = linkprev m b \<and> linknext m1 b = linknext m b"
    if "b \<in> set (F j)" "b \<noteq> c" for b j
    using link_set_other[OF ca[OF that]] by (simp add: m1_def)
  have ac: "a \<noteq> c" "a \<in> set (F i)" "c \<in> set (F i)" using dist F by auto
  note oa = o1[OF ac(2,1)]
  from seg obtain mid where s1: "seg m (0, 0) hd0 (as @ [c]) mid"
      and s2: "seg m (ptr c) mid (a # bs) (0, 0)"
    using seg_append[of m "(0, 0)" hd0 "as @ [c]" "a # bs"] by (auto simp: last_ptr_def)
  then have pa: "linkprev m a = ptr c" and s3: "seg m (ptr a) (linknext m a) bs (0, 0)" by auto
  have t1: "seg m1 (0, 0) hd0 (as @ [c]) (linknext m a)"
  proof -
    have "apart c b" if "b \<in> set as" for b using ca[of b i] that dist F by auto
    from seg_set_last[OF s1 this, of "fst (linknext m a)" "snd (linknext m a)"]
    show ?thesis by (simp add: m1_def)
  qed
  have t2: "seg m1 (ptr a) (linknext m a) bs (0, 0)"
  proof -
    have "linkprev m1 b = linkprev m b \<and> linknext m1 b = linknext m b" if "b \<in> set bs" for b
      using o1[of b i] that dist F by auto
    with s3 show ?thesis using seg_cong[of bs m1 m] by simp
  qed
  have ag1: "agree_off (link_area (members F)) m m1"
    unfolding m1_def by (rule agree_set_link(2)) (use ac in blast)
  have plbs: "placed b" if "b \<in> set bs" for b using pl[of b] that F by simp
  note nx = seg_nextD[OF s3 plbs]
  have dis: "b \<noteq> c" "b \<noteq> a" if "j \<noteq> i" "b \<in> set (F j)" for j b
    using members_disjoint[OF g that(2,1)] F by auto
  have "seg m2 (0, 0) hd0 (as @ [c] @ bs) (0, 0) \<and> agree_off (link_area (members F)) m m2 \<and>
    (\<forall>j b. j \<noteq> i \<longrightarrow> b \<in> set (F j) \<longrightarrow> linkprev m2 b = linkprev m b \<and> linknext m2 b = linknext m b)"
  proof (cases bs)
    case Nil
    then have "m2 = m1" using nx oa by (simp add: m2_def)
    moreover have "seg m1 (0, 0) hd0 (as @ [c] @ bs) (0, 0)" using t1 t2 Nil by simp
    ultimately show ?thesis using ag1 o1 dis by blast
  next
    case (Cons d ds)
    have nd: "linknext m a = ptr d" "fst (ptr d) \<noteq> 0" "unat (snd (ptr d)) = snd d" "fst (ptr d) = fst d"
      using nx Cons plbs[of d] ptr_offset[of d] by (auto simp: ptr_def placed_def)
    then have m2: "m2 = set_link_prev (fst d) (snd d) (fst (ptr c)) (snd (ptr c)) m1"
      using oa pa by (simp add: m2_def)
    have dF: "d \<in> set (F i)" using F Cons by simp
    have da: "apart d b" if "b \<in> set (F j)" "b \<noteq> d" for b j
      using members_apart[OF g dF that(1)] that(2) by simp
    have "apart d b" if "b \<in> set ds" for b using da[of b i] that dist F Cons by auto
    from seg_set_first[OF t2[unfolded Cons] this, of "fst (ptr c)" "snd (ptr c)"]
    have u2: "seg m2 (ptr c) (linknext m a) bs (0, 0)" by (simp add: m2 Cons)
    have "linkprev m2 b = linkprev m1 b \<and> linknext m2 b = linknext m1 b" if "b \<in> set (as @ [c])" for b
    proof -
      have "b \<in> set (F i)" "b \<noteq> d" using that dist F Cons by auto
      from link_set_other[OF da[OF this]] show ?thesis by (simp add: m2)
    qed
    with t1 have "seg m2 (0, 0) hd0 (as @ [c]) (linknext m a)" using seg_cong[of "as @ [c]" m2 m1] by simp
    with u2 have "seg m2 (0, 0) hd0 ((as @ [c]) @ bs) (0, 0)"
      unfolding seg_append by (intro exI[of _ "linknext m a"]) (simp add: last_ptr_def)
    moreover have "agree_off (link_area (members F)) m m2"
      unfolding m2 by (rule agree_off_trans[OF ag1 agree_set_link(1)]) (use dF in blast)
    moreover have "linkprev m2 b = linkprev m b \<and> linknext m2 b = linknext m b"
      if "j \<noteq> i" "b \<in> set (F j)" for j b
    proof -
      have "b \<noteq> d" using members_disjoint[OF g that(2,1)] dF by auto
      with link_set_other[OF da[OF that(2)]] o1[OF that(2)] dis[OF that] show ?thesis by (simp add: m2)
    qed
    ultimately show ?thesis by simp
  qed
  then show "seg m2 (0, 0) hd0 (as @ [c] @ bs) (0, 0)"
    and "agree_off (link_area (members F)) m m2"
    and "\<And>j b. j \<noteq> i \<Longrightarrow> b \<in> set (F j) \<Longrightarrow> linkprev m2 b = linkprev m b \<and> linknext m2 b = linknext m b"
    by blast+
qed

lemma remove_block_ok:
  assumes ok: "lists_ok F s" and i: "i < 508" and a: "(p, x) \<in> set (F i)"
  defines "s' \<equiv> remove_block p (of_nat x) i s"
  shows "lists_ok (F(i := remove1 (p, x) (F i))) s'"
    and "agree_off (link_area (members F)) (mem s) (mem s')"
    and "total_pages s' = total_pages s"
proof -
  let ?a = "(p, x)"
  have g: "ghost_ok F" and seg: "seg (mem s) (0, 0) (headptr s i) (F i) (0, 0)"
    using ok i by (auto simp: lists_ok_def)
  have pl: "placed b" if "b \<in> set (F i)" for b using placed_member[OF g that] .
  then have x: "x < 65536" using a by (force simp: placed_def)
  have dist: "distinct (F i)" using g by (metis ghost_ok_def)
  obtain as bs where F: "F i = as @ ?a # bs" using a by (meson split_list)
  have rm: "remove1 ?a (F i) = as @ bs" using F dist by (simp add: remove1_append)
  have test: "fe_pagenum (freelist s ! i) = p \<and> ucast (fe_offset (freelist s ! i)) = (of_nat x :: u32)
      \<longleftrightarrow> headptr s i = ptr ?a"
    using x by (auto simp: headptr_def ptr_def word_eq_unat unat_of_nat_u32 unat_of_nat_u16)
  show "lists_ok (F(i := remove1 (p, x) (F i))) s'"
    "agree_off (link_area (members F)) (mem s) (mem s')"
    "total_pages s' = total_pages s"
  proof (atomize (full), cases as rule: rev_cases)
    case Nil
    then have "s' = remove_block_head (fst ?a) (snd ?a) i s"
      using seg F test unfolding s'_def remove_block_def Let_def by (simp add: offset_words x)
    with remove_block_head_ok[OF ok i, of ?a bs] F Nil rm
    show "lists_ok (F(i := remove1 (p, x) (F i))) s' \<and>
      agree_off (link_area (members F)) (mem s) (mem s') \<and> total_pages s' = total_pages s" by simp
  next
    case (snoc as' c)
    let ?m = "mem s"
    have seg': "seg ?m (0, 0) (headptr s i) (as' @ [c] @ ?a # bs) (0, 0)"
      and F': "F i = as' @ [c] @ ?a # bs" using seg F snoc by simp_all
    have c: "c \<in> set (F i)" "placed c" using pl F' by auto
    have pc: "linkprev ?m ?a = ptr c"
      using seg_append[of ?m "(0, 0)" "headptr s i" "as' @ [c]" "?a # bs"] seg' by (auto simp: last_ptr_def)
    then have pc': "fst (linkprev ?m ?a) = fst c" "fst (linkprev ?m ?a) \<noteq> 0"
        "unat (snd (linkprev ?m ?a)) = snd c"
      using c(2) ptr_offset[of c] by (auto simp: ptr_def placed_def)
    obtain b as'' where hd: "as' @ [c] = b # as''" by (cases as') auto
    then have "headptr s i = ptr b" "b \<noteq> ?a" "b \<in> set (F i)"
      using seg' F' dist by (auto simp: append_eq_Cons_conv)
    then have nh: "headptr s i \<noteq> ptr ?a" using ptr_inj[of b ?a] pl a by auto
    note mid = remove_block_mid[OF g seg' F']
    define m1 where "m1 = set_link_next (fst c) (snd c) (fst (linknext ?m ?a)) (snd (linknext ?m ?a)) ?m"
    define m2 where "m2 = (if fst (linknext m1 ?a) \<noteq> 0
      then set_link_prev (fst (linknext m1 ?a)) (unat (snd (linknext m1 ?a)))
           (fst (linkprev m1 ?a)) (snd (linkprev m1 ?a)) m1 else m1)"
    have s': "s' = s\<lparr>mem := m2\<rparr>"
      using nh pc' unfolding s'_def remove_block_def Let_def test offset_words(1)[OF x]
      by (simp add: m2_def m1_def linknext_def linkprev_def)
    note mid' = mid[folded m1_def, folded m2_def]
    have gh: "ghost_ok (F(i := as @ bs))"
      by (rule ghost_ok_shrink[OF g i]) (use F dist in auto)
    have bits: "bitmaps_ok (F(i := as @ bs)) s'"
    proof -
      have "bitmaps_ok F s" using ok by (simp add: lists_ok_def)
      then show ?thesis using F' snoc by (simp add: bitmaps_ok_def s')
    qed
    have "lists_ok (F(i := as @ bs)) s'"
      by (rule lists_ok_upd[OF ok i gh bits, where e = "freelist s ! i"])
        (use ok mid' snoc in \<open>simp_all add: s' lists_ok_def headptr_def\<close>)
    then show "lists_ok (F(i := remove1 (p, x) (F i))) s' \<and>
      agree_off (link_area (members F)) (mem s) (mem s') \<and> total_pages s' = total_pages s"
      using mid'(2) rm by (simp add: s')
  qed
qed

end
