(* ===== verification/Xv_Heap.thy ===== *)
theory Xv_Heap
  imports Xv_Lists
begin

text \<open>
  The pages of the allocator as sequences of blocks: every page of the pool is tiled by
  blocks without gaps, each header carries the size and flags of its block, the offset of
  the block before it and whether that one is free, and no two free blocks are adjacent.
  Together with the free lists holding exactly the free blocks of at least
  \<^verbatim>\<open>XV_MIN_ALLOC_SIZE\<close> bytes this is the invariant of the pool. The ghost value \<open>L\<close> gives
  the blocks of each page.
\<close>

unbundle bit_operations_syntax

section \<open>Blocks and layouts\<close>

text \<open>A used block remembers the size that was asked for; it occupies the aligned size.\<close>

datatype blk = Used nat | Free nat

primrec extent :: "blk \<Rightarrow> nat" where
  "extent (Used r) = (r + 3) div 4 * 4"
| "extent (Free n) = n"

primrec raw_size :: "blk \<Rightarrow> nat" where
  "raw_size (Used r) = r"
| "raw_size (Free n) = n"

primrec is_free :: "blk \<Rightarrow> bool" where
  "is_free (Used r) = False"
| "is_free (Free n) = True"

primrec blk_ok :: "blk \<Rightarrow> bool" where
  "blk_ok (Used r) = (1 \<le> r \<and> r \<le> 4092)"
| "blk_ok (Free n) = (4 dvd n \<and> n \<le> 4092)"

definition enc :: "nat \<Rightarrow> bool \<Rightarrow> bool \<Rightarrow> u16" where
  "enc prv fr pf = of_nat prv OR (if fr then 1 else 0) OR (if pf then 2 else 0)"

fun chain :: "pmem \<Rightarrow> u32 \<Rightarrow> nat \<Rightarrow> nat \<Rightarrow> bool \<Rightarrow> blk list \<Rightarrow> bool" where
  "chain m p x prv pf [] \<longleftrightarrow> True"
| "chain m p x prv pf (b # bs) \<longleftrightarrow>
     blk_ok b \<and> unat (block_size m p x) = raw_size b \<and> block_prev m p x = enc prv (is_free b) pf \<and>
     \<not> (pf \<and> is_free b) \<and> chain m p (x + 4 + extent b) x (is_free b) bs"

fun end_of :: "nat \<Rightarrow> blk list \<Rightarrow> nat" where
  "end_of x [] = x"
| "end_of x (b # bs) = end_of (x + 4 + extent b) bs"

fun last_start :: "nat \<Rightarrow> nat \<Rightarrow> blk list \<Rightarrow> nat" where
  "last_start x prv [] = prv"
| "last_start x prv (b # bs) = last_start (x + 4 + extent b) x bs"

fun last_free :: "bool \<Rightarrow> blk list \<Rightarrow> bool" where
  "last_free pf [] = pf"
| "last_free pf (b # bs) = last_free (is_free b) bs"

fun places :: "nat \<Rightarrow> blk list \<Rightarrow> (nat \<times> blk) list" where
  "places x [] = []"
| "places x (b # bs) = (x, b) # places (x + 4 + extent b) bs"

lemma end_of_append [simp]: "end_of x (as @ bs) = end_of (end_of x as) bs"
  by (induction as arbitrary: x) auto

lemma last_start_append [simp]:
  "last_start x prv (as @ bs) = last_start (end_of x as) (last_start x prv as) bs"
  by (induction as arbitrary: x prv) auto

lemma last_free_append [simp]: "last_free pf (as @ bs) = last_free (last_free pf as) bs"
  by (induction as arbitrary: pf) auto

lemma places_append [simp]: "places x (as @ bs) = places x as @ places (end_of x as) bs"
  by (induction as arbitrary: x) auto

lemma chain_append [simp]:
  "chain m p x prv pf (as @ bs) \<longleftrightarrow> chain m p x prv pf as \<and>
     chain m p (end_of x as) (last_start x prv as) (last_free pf as) bs"
  by (induction as arbitrary: x prv pf) auto

lemma end_of_mono: "x \<le> end_of x bs"
proof (induction bs arbitrary: x)
  case (Cons b bs)
  from Cons.IH[of "x + 4 + extent b"] show ?case by simp
qed simp

lemma places_bounds:
  "(y, b) \<in> set (places x bs) \<Longrightarrow> x \<le> y \<and> y + 4 + extent b \<le> end_of x bs"
proof (induction bs arbitrary: x)
  case (Cons c bs)
  show ?case
  proof (cases "(y, b) = (x, c)")
    case True
    then show ?thesis using end_of_mono[of "x + 4 + extent c" bs] by simp
  next
    case False
    with Cons.prems have "(y, b) \<in> set (places (x + 4 + extent c) bs)" by auto
    from Cons.IH[OF this] show ?thesis by simp
  qed
qed simp

lemma places_split:
  "(y, b) \<in> set (places x bs) \<Longrightarrow> \<exists>as cs. bs = as @ b # cs \<and> end_of x as = y"
proof (induction bs arbitrary: x)
  case (Cons c bs)
  show ?case
  proof (cases "(y, b) = (x, c)")
    case True
    then show ?thesis by (intro exI[of _ "[]"] exI[of _ bs]) auto
  next
    case False
    with Cons.prems have "(y, b) \<in> set (places (x + 4 + extent c) bs)" by auto
    from Cons.IH[OF this] obtain as cs where "bs = as @ b # cs" "end_of (x + 4 + extent c) as = y" by blast
    then show ?thesis by (intro exI[of _ "c # as"] exI[of _ cs]) auto
  qed
qed simp

lemma distinct_places: "distinct (map fst (places x bs))"
proof (induction bs arbitrary: x)
  case (Cons b bs)
  have "x \<notin> fst ` set (places (x + 4 + extent b) bs)"
    using places_bounds by fastforce
  with Cons show ?case by simp
qed simp

lemma chain_blk_ok: "chain m p x prv pf bs \<Longrightarrow> b \<in> set bs \<Longrightarrow> blk_ok b"
  by (induction bs arbitrary: x prv pf) auto

lemma chain_aligned: "chain m p x prv pf bs \<Longrightarrow> 4 dvd x \<Longrightarrow> 4 dvd end_of x bs"
proof (induction bs arbitrary: x prv pf)
  case (Cons b bs)
  then have "4 dvd extent b" by (cases b) auto
  with Cons.prems have "4 dvd x + 4 + extent b" by simp
  moreover have "chain m p (x + 4 + extent b) x (is_free b) bs" using Cons.prems(1) by simp
  ultimately show ?case using Cons.IH by simp
qed simp

lemma last_start_aligned:
  assumes "chain m p 0 0 False as"
  shows "4 dvd last_start 0 0 as"
proof (cases as rule: rev_cases)
  case (snoc as' b)
  then have "chain m p 0 0 False as'" using assms by simp
  from chain_aligned[OF this] snoc show ?thesis by simp
qed simp

lemma chain_prev_lt: "bs \<noteq> [] \<Longrightarrow> last_start x prv bs < end_of x bs"
proof (induction bs arbitrary: x prv)
  case (Cons b bs)
  show ?case
  proof (cases "bs = []")
    case False
    from Cons.IH[OF this, of "x + 4 + extent b" x] show ?thesis by simp
  qed simp
qed simp

text \<open>Headers are read from their four bytes only.\<close>

lemma header_cong:
  assumes "\<And>i. y \<le> i \<Longrightarrow> i < y + 4 \<Longrightarrow> m' p i = m p i"
  shows "block_size m' p y = block_size m p y" and "block_prev m' p y = block_prev m p y"
  using assms by (auto simp: block_size_def block_prev_def intro: ld16_cong)

lemma chain_cong:
  assumes "\<And>y b. (y, b) \<in> set (places x bs) \<Longrightarrow>
    block_size m' p y = block_size m p y \<and> block_prev m' p y = block_prev m p y"
  shows "chain m' p x prv pf bs = chain m p x prv pf bs"
  using assms
proof (induction bs arbitrary: x prv pf)
  case (Cons b bs)
  have "chain m' p (x + 4 + extent b) x (is_free b) bs = chain m p (x + 4 + extent b) x (is_free b) bs"
  proof (rule Cons.IH)
    fix y c assume "(y, c) \<in> set (places (x + 4 + extent b) bs)"
    then show "block_size m' p y = block_size m p y \<and> block_prev m' p y = block_prev m p y"
      by (intro Cons.prems[of y c]) simp
  qed
  with Cons.prems[of x b] show ?case by simp
qed simp

section \<open>The flags and offset word\<close>

lemma of_nat_aligned_bits:
  assumes "4 dvd n"
  shows "\<not> bit (of_nat n :: u16) 0" and "\<not> bit (of_nat n :: u16) 1"
    and "\<not> bit (of_nat n :: u16) (Suc 0)"
proof -
  from assms obtain k where "n = 4 * k" by auto
  then have "(of_nat n :: u16) = push_bit 2 (of_nat k)"
    by (simp add: push_bit_eq_mult)
  then show "\<not> bit (of_nat n :: u16) 0" "\<not> bit (of_nat n :: u16) 1" "\<not> bit (of_nat n :: u16) (Suc 0)"
    by (auto simp: bit_push_bit_iff)
qed

lemma u16_bits: "bit (1 :: u16) n \<longleftrightarrow> n = 0" "bit (2 :: u16) n \<longleftrightarrow> n = 1" "bit (3 :: u16) n \<longleftrightarrow> n = 0 \<or> n = 1"
proof -
  show "bit (1 :: u16) n \<longleftrightarrow> n = 0" by (auto simp: bit_1_iff)
  have 2: "(2 :: u16) = push_bit 1 1" by simp
  show "bit (2 :: u16) n \<longleftrightarrow> n = 1" by (subst 2) (auto simp: bit_simps)
  have 3: "(3 :: u16) = mask 2" by (simp add: mask_eq_exp_minus_1)
  show "bit (3 :: u16) n \<longleftrightarrow> n = 0 \<or> n = 1" unfolding 3 by (auto simp: bit_mask_iff)
qed

lemma bit_enc:
  assumes "4 dvd prv"
  shows "bit (enc prv fr pf) n \<longleftrightarrow>
    (n = 0 \<and> fr) \<or> (n = 1 \<and> pf) \<or> (n \<noteq> 0 \<and> n \<noteq> 1 \<and> bit (of_nat prv :: u16) n)"
  using of_nat_aligned_bits[OF assms]
  by (cases "n = 0"; auto simp: enc_def bit_or_iff u16_bits simp del: bit_numeral_word_iff)

lemma enc_set_flags:
  assumes "4 dvd prv"
  shows "enc prv fr pf OR 1 = enc prv True pf" and "enc prv fr pf OR 2 = enc prv fr True"
    and "enc prv fr pf AND NOT 1 = enc prv False pf" and "enc prv fr pf AND NOT 2 = enc prv fr False"
  by (rule bit_word_eqI; auto simp: bit_enc[OF assms] bit_simps u16_bits simp del: bit_numeral_word_iff)+

lemma enc_clear_flags:
  assumes "4 dvd prv"
  shows "enc prv fr pf AND - 2 = enc prv False pf" and "enc prv fr pf AND - 3 = enc prv fr False"
  using enc_set_flags(3,4)[OF assms, of fr pf] by simp_all

lemma enc_set_prev:
  assumes "4 dvd prv" "4 dvd prv'"
  shows "of_nat prv' OR (enc prv fr pf AND 3) = enc prv' fr pf"
  using of_nat_aligned_bits[OF assms(2)]
  by (intro bit_word_eqI) (auto simp: bit_enc assms bit_simps u16_bits simp del: bit_numeral_word_iff)

lemma enc_fresh:
  assumes "4 dvd prv"
  shows "of_nat prv OR (((w OR 1) AND NOT 2) AND 3) = enc prv True False"
  using of_nat_aligned_bits[OF assms]
  by (intro bit_word_eqI) (auto simp: bit_enc assms bit_simps u16_bits simp del: bit_numeral_word_iff)

lemma enc_test:
  assumes "4 dvd prv"
  shows "enc prv fr pf AND 1 \<noteq> 0 \<longleftrightarrow> fr" and "enc prv fr pf AND 2 \<noteq> 0 \<longleftrightarrow> pf"
    and "enc prv fr pf AND NOT 3 = of_nat prv"
proof -
  show "enc prv fr pf AND 1 \<noteq> 0 \<longleftrightarrow> fr" "enc prv fr pf AND 2 \<noteq> 0 \<longleftrightarrow> pf"
    by (auto simp: bit_eq_iff[where 'a = "16 word"] bit_enc[OF assms] bit_and_iff u16_bits
        simp del: bit_numeral_word_iff)
  show "enc prv fr pf AND NOT 3 = of_nat prv"
    using of_nat_aligned_bits[OF assms]
    by (intro bit_word_eqI) (auto simp: bit_enc assms bit_simps u16_bits simp del: bit_numeral_word_iff intro: gr0I)
qed

lemma enc_offset:
  assumes "4 dvd prv" shows "enc prv fr pf AND - 4 = of_nat prv"
  using enc_test(3)[OF assms, of fr pf] by simp

section \<open>The invariant of the pool\<close>

type_synonym layout = "u32 \<Rightarrow> blk list option"

definition blk_at :: "layout \<Rightarrow> addr \<Rightarrow> blk option" where
  "blk_at L a = (case L (fst a) of None \<Rightarrow> None | Some bs \<Rightarrow> map_of (places 0 bs) (snd a))"

definition big_free :: "layout \<Rightarrow> nat \<Rightarrow> addr \<Rightarrow> bool" where
  "big_free L i a \<longleftrightarrow> (\<exists>n. blk_at L a = Some (Free n) \<and> 32 \<le> n \<and> class_of n = i)"

definition page_ok :: "pmem \<Rightarrow> u32 \<Rightarrow> blk list \<Rightarrow> bool" where
  "page_ok m p bs \<longleftrightarrow> p \<noteq> 0 \<and> end_of 0 bs = PAGE_SIZE \<and> chain m p 0 0 False bs"

definition xv_inv :: "layout \<Rightarrow> (nat \<Rightarrow> addr list) \<Rightarrow> xv_heap \<Rightarrow> bool" where
  "xv_inv L F s \<longleftrightarrow> lists_ok F s \<and> (\<forall>i a. a \<in> set (F i) \<longleftrightarrow> big_free L i a) \<and>
     (\<forall>p bs. L p = Some bs \<longrightarrow> page_ok (mem s) p bs) \<and>
     finite (dom L) \<and> total_pages s = of_nat (card (dom L))"

lemma xv_invD:
  assumes "xv_inv L F s"
  shows "lists_ok F s" and "a \<in> set (F i) \<longleftrightarrow> big_free L i a"
    and "L p = Some bs \<Longrightarrow> page_ok (mem s) p bs"
    and "finite (dom L)" and "total_pages s = of_nat (card (dom L))"
  using assms unfolding xv_inv_def by blast+

lemma page_okD:
  assumes "page_ok m p bs"
  shows "p \<noteq> 0" and "end_of 0 bs = PAGE_SIZE" and "chain m p 0 0 False bs"
  using assms by (auto simp: page_ok_def)

lemma map_of_places: "map_of (places x bs) y = Some b \<longleftrightarrow> (y, b) \<in> set (places x bs)"
  by (simp add: distinct_places)

lemma map_of_places_outside:
  "y < x \<or> end_of x bs \<le> y \<Longrightarrow> map_of (places x bs) y = None"
proof (rule ccontr)
  assume out: "y < x \<or> end_of x bs \<le> y" and "map_of (places x bs) y \<noteq> None"
  then obtain b where "(y, b) \<in> set (places x bs)" by (auto simp: map_of_places)
  from places_bounds[OF this] out show False by auto
qed

lemma blk_atD:
  assumes "blk_at L (p, x) = Some b"
  obtains as cs where "L p = Some (as @ b # cs)" "end_of 0 as = x"
proof -
  from assms obtain bs where bs: "L p = Some bs" and "(x, b) \<in> set (places 0 bs)"
    by (auto simp: blk_at_def map_of_places split: option.splits)
  from places_split[OF this(2)] bs that show thesis by auto
qed

text \<open>A run of blocks replaced by another of the same length.\<close>

lemma blk_at_replace:
  assumes "L p = Some (as @ bs @ cs)" and "end_of (end_of 0 as) bs' = end_of (end_of 0 as) bs"
  shows "blk_at (L(p \<mapsto> as @ bs' @ cs)) (q, y) =
    (if q = p \<and> end_of 0 as \<le> y \<and> y < end_of (end_of 0 as) bs
     then map_of (places (end_of 0 as) bs') y else blk_at L (q, y))"
proof (cases "q = p")
  case True
  let ?e1 = "end_of 0 as" and ?e2 = "end_of (end_of 0 as) bs"
  have le: "?e1 \<le> ?e2" by (rule end_of_mono)
  consider "y < ?e1" | "?e1 \<le> y" "y < ?e2" | "?e2 \<le> y" by linarith
  then show ?thesis
    using assms True le map_of_places_outside[of y ?e1] map_of_places_outside[of y ?e2 cs]
      map_of_places_outside[of y 0 as]
    by cases (auto simp: blk_at_def map_add_def split: option.splits)
qed (simp add: blk_at_def)

lemma blk_at_here:
  assumes "L p = Some (as @ bs @ cs)" "end_of 0 as \<le> y" "y < end_of (end_of 0 as) bs"
  shows "blk_at L (p, y) = map_of (places (end_of 0 as) bs) y"
  using assms map_of_places_outside[of y "end_of (end_of 0 as) bs" cs] map_of_places_outside[of y 0 as]
  by (auto simp: blk_at_def map_add_def split: option.splits)

lemma blk_at_bounds:
  assumes "xv_inv L F s" "blk_at L (p, x) = Some b"
  shows "x + 4 + extent b \<le> 4096" and "4 dvd x" and "p \<noteq> 0" and "blk_ok b"
proof -
  from assms(2) obtain as cs where L: "L p = Some (as @ b # cs)" "end_of 0 as = x" by (rule blk_atD)
  have ok: "page_ok (mem s) p (as @ b # cs)" using xv_invD(3)[OF assms(1) L(1)] .
  then show "x + 4 + extent b \<le> 4096"
    using L(2) end_of_mono[of "x + 4 + extent b" cs] by (simp add: page_ok_def)
  show "p \<noteq> 0" "blk_ok b" using ok by (auto simp: page_ok_def)
  show "4 dvd x" using ok L(2) chain_aligned[of "mem s" p 0 0 False as] by (simp add: page_ok_def)
qed

text \<open>Distinct blocks of a page do not overlap.\<close>

lemma blocks_disjoint:
  assumes "blk_at L (p, x) = Some b" "blk_at L (p, y) = Some c" "x < y"
  shows "x + 4 + extent b \<le> y"
proof -
  from assms(1) obtain as cs where L: "L p = Some (as @ b # cs)" "end_of 0 as = x" by (rule blk_atD)
  have "y \<notin> fst ` set (places 0 as)" using places_bounds[of y _ 0 as] L(2) assms(3) by fastforce
  moreover have "(y, c) \<in> set (places 0 (as @ b # cs))"
    using assms(2) L(1) by (simp add: blk_at_def map_of_places del: places_append)
  ultimately have "(y, c) \<in> set (places (x + 4 + extent b) cs)"
    using L(2) assms(3) by force
  from places_bounds[OF this] show ?thesis by simp
qed

section \<open>What an operation may touch\<close>

text \<open>
  An operation on the blocks between \<open>e1\<close> and \<open>e2\<close> of page \<open>p\<close> writes the links of free
  blocks, the bytes between \<open>e1\<close> and \<open>e2\<close>, and the header that follows, inside the page.
\<close>

definition bigs :: "layout \<Rightarrow> addr set" where
  "bigs L = {a. \<exists>i. big_free L i a}"

definition touch :: "layout \<Rightarrow> u32 \<Rightarrow> nat \<Rightarrow> nat \<Rightarrow> (u32 \<times> nat) set" where
  "touch L p e1 e2 = link_area (bigs L) \<union> {(q, i). q = p \<and> e1 \<le> i \<and> i < e2 + 4 \<and> i < PAGE_SIZE}"

lemma members_bigs: "xv_inv L F s \<Longrightarrow> members F = bigs L"
  unfolding members_def bigs_def using xv_invD(2) by blast

lemma bigsD:
  assumes "a \<in> bigs L"
  obtains n where "blk_at L a = Some (Free n)" "32 \<le> n"
  using assms by (auto simp: bigs_def big_free_def)

lemma link_area_inside:
  assumes "(q, j) \<in> link_area (bigs L)"
  obtains x n where "blk_at L (q, x) = Some (Free n)" "32 \<le> n" "x + 4 \<le> j" "j < x + 16"
proof -
  from assms obtain x where "(q, x) \<in> bigs L" and j: "x + 4 \<le> j" "j < x + 16"
    by (auto simp: link_area_def)
  from this(1) obtain n where "blk_at L (q, x) = Some (Free n)" "32 \<le> n" by (rule bigsD)
  with j that show thesis by blast
qed

text \<open>Headers, and the payload of used blocks, are not in the link area of free blocks.\<close>

lemma header_not_linked:
  assumes "blk_at L (q, y) = Some b" "y \<le> j" "j < y + 4"
  shows "(q, j) \<notin> link_area (bigs L)"
proof
  assume "(q, j) \<in> link_area (bigs L)"
  then obtain x n where x: "blk_at L (q, x) = Some (Free n)" "32 \<le> n" "x + 4 \<le> j" "j < x + 16"
    by (rule link_area_inside)
  then have "x < y" using assms by simp
  from blocks_disjoint[OF x(1) assms(1) this] x assms show False by simp
qed

lemma payload_not_linked:
  assumes "blk_at L (q, y) = Some (Used r)" "y + 4 \<le> j" "j < y + 4 + extent (Used r)"
  shows "(q, j) \<notin> link_area (bigs L)"
proof
  assume "(q, j) \<in> link_area (bigs L)"
  then obtain x n where x: "blk_at L (q, x) = Some (Free n)" "32 \<le> n" "x + 4 \<le> j" "j < x + 16"
    by (rule link_area_inside)
  have "x \<noteq> y" using x(1) assms(1) by auto
  then consider "x < y" | "y < x" by linarith
  then show False
  proof cases
    case 1
    from blocks_disjoint[OF x(1) assms(1) this] x assms show False by simp
  next
    case 2
    from blocks_disjoint[OF assms(1) x(1) this] x assms show False by simp
  qed
qed

lemma header_kept:
  assumes "agree_off (touch L p e1 e2) m m'" "blk_at L (q, y) = Some b"
    and "q \<noteq> p \<or> y + 4 \<le> e1 \<or> e2 + 4 \<le> y"
  shows "block_size m' q y = block_size m q y \<and> block_prev m' q y = block_prev m q y"
proof -
  have "m' q i = m q i" if "y \<le> i" "i < y + 4" for i
    using assms(1,3) header_not_linked[OF assms(2) that] that
    by (auto simp: agree_off_def touch_def)
  from header_cong[of y m' q m, OF this] show ?thesis by simp
qed

text \<open>
  The new state satisfies the invariant when its lists are in order, the touched run of
  blocks reads back as \<open>bs'\<close>, and the header after it points back to the last of them.
\<close>

definition next_ok :: "pmem \<Rightarrow> pmem \<Rightarrow> u32 \<Rightarrow> nat \<Rightarrow> nat \<Rightarrow> bool \<Rightarrow> blk list \<Rightarrow> bool" where
  "next_ok m m' p x prv pf cs \<longleftrightarrow> (case cs of [] \<Rightarrow> True | c # _ \<Rightarrow>
     block_size m' p x = block_size m p x \<and> block_prev m' p x = enc prv (is_free c) pf \<and>
     \<not> (pf \<and> is_free c))"

lemma xv_inv_replace:
  fixes bs' :: "blk list"
  assumes inv: "xv_inv L F s" and L: "L p = Some (as @ bs @ cs)"
  defines "e1 \<equiv> end_of 0 as" and "e2 \<equiv> end_of (end_of 0 as) bs"
  defines "L' \<equiv> L(p \<mapsto> as @ bs' @ cs)"
  assumes lists: "lists_ok F' s'" and coupl: "\<And>i a. a \<in> set (F' i) \<longleftrightarrow> big_free L' i a"
    and frame: "agree_off (touch L p e1 e2) (mem s) (mem s')"
    and len: "end_of e1 bs' = e2"
    and new: "chain (mem s') p e1 (last_start 0 0 as) (last_free False as) bs'"
    and nxt: "next_ok (mem s) (mem s') p e2 (last_start e1 (last_start 0 0 as) bs')
                (last_free (last_free False as) bs') cs"
    and tp: "total_pages s' = total_pages s"
  shows "xv_inv L' F' s'"
proof -
  note invD = xv_invD[OF inv]
  have po: "page_ok (mem s) p (as @ bs @ cs)" using invD(3)[OF L] .
  have bat: "blk_at L (p, y) = Some b" if "(y, b) \<in> set (places 0 (as @ bs @ cs))" for y b
    using that L by (simp add: blk_at_def map_of_places del: places_append)
  have front: "chain (mem s') p 0 0 False as"
  proof (subst chain_cong [where m = "mem s"])
    fix y b assume yb: "(y, b) \<in> set (places 0 as)"
    then have "y + 4 \<le> e1" using places_bounds by (fastforce simp: e1_def)
    moreover have "blk_at L (p, y) = Some b" using yb by (intro bat) simp
    ultimately show "block_size (mem s') p y = block_size (mem s) p y \<and>
        block_prev (mem s') p y = block_prev (mem s) p y" by (intro header_kept[OF frame]) auto
  qed (use po in \<open>simp add: page_ok_def\<close>)
  have rear: "chain (mem s') p e2 (last_start e1 (last_start 0 0 as) bs')
      (last_free (last_free False as) bs') cs"
  proof (cases cs)
    case (Cons c cs')
    have "chain (mem s) p e2 (last_start e1 (last_start 0 0 as) bs) (last_free (last_free False as) bs) cs"
      using po by (simp add: page_ok_def e1_def e2_def)
    then have c: "blk_ok c" "unat (block_size (mem s) p e2) = raw_size c"
      "chain (mem s) p (e2 + 4 + extent c) e2 (is_free c) cs'" using Cons by simp_all
    have "chain (mem s') p (e2 + 4 + extent c) e2 (is_free c) cs'"
    proof (subst chain_cong [where m = "mem s"])
      fix y b assume yb: "(y, b) \<in> set (places (e2 + 4 + extent c) cs')"
      then have "e2 + 4 \<le> y" using places_bounds[OF yb] by simp
      moreover have "blk_at L (p, y) = Some b"
        using yb Cons by (intro bat) (simp add: e2_def)
      ultimately show "block_size (mem s') p y = block_size (mem s) p y \<and>
          block_prev (mem s') p y = block_prev (mem s) p y" by (intro header_kept[OF frame]) auto
    qed (rule c(3))
    with c nxt Cons show ?thesis by (simp add: next_ok_def)
  qed simp
  have here: "page_ok (mem s') p (as @ bs' @ cs)"
    using po front new rear len by (simp add: page_ok_def e1_def e2_def)
  have other: "page_ok (mem s') q ds" if q: "q \<noteq> p" "L q = Some ds" for q ds
  proof -
    have "chain (mem s') q 0 0 False ds"
    proof (subst chain_cong [where m = "mem s"])
      fix y b assume "(y, b) \<in> set (places 0 ds)"
      then have "blk_at L (q, y) = Some b" using q(2) by (simp add: blk_at_def map_of_places)
      with q(1) show "block_size (mem s') q y = block_size (mem s) q y \<and>
          block_prev (mem s') q y = block_prev (mem s) q y" by (intro header_kept[OF frame]) auto
    qed (use invD(3)[OF q(2)] in \<open>simp add: page_ok_def\<close>)
    with invD(3)[OF q(2)] show ?thesis by (simp add: page_ok_def)
  qed
  have "dom L' = dom L" using L by (auto simp: L'_def)
  with lists coupl here other invD(4,5) tp show ?thesis
    unfolding xv_inv_def by (auto simp: L'_def)
qed

end
