(* ===== verification/Xv_Alloc.thy ===== *)
theory Xv_Alloc
  imports Xv_Heap
begin

text \<open>
  Allocation: \<^verbatim>\<open>grow_pool\<close> and \<^verbatim>\<open>xv_malloc\<close> keep the invariant of the pool; a successful
  allocation turns part of a free block into a used one and leaves every other object and
  its contents alone. The theory also says exactly when an allocation succeeds.
\<close>

unbundle bit_operations_syntax

section \<open>Header writes\<close>

definition hdr_bytes :: "u32 \<Rightarrow> nat \<Rightarrow> (u32 \<times> nat) set" where
  "hdr_bytes p x = {(q, i). q = p \<and> x \<le> i \<and> i < x + 4}"

named_theorems header \<open>what a header write does to the header it writes\<close>

lemma header_reads [header]:
  "block_size (set_block_size p x v m) p x = v"
  "block_prev (set_block_size p x v m) p x = block_prev m p x"
  "block_size (set_flag p x f m) p x = block_size m p x"
  "block_prev (set_flag p x f m) p x = block_prev m p x OR BIT_flag f"
  "block_size (clear_flag p x f m) p x = block_size m p x"
  "block_prev (clear_flag p x f m) p x = block_prev m p x AND NOT (BIT_flag f)"
  "block_size (set_blockprev p x w m) p x = block_size m p x"
  "block_prev (set_blockprev p x w m) p x = w OR (block_prev m p x AND 3)"
  by (auto simp: block_size_def block_prev_def set_block_size_def set_flag_def clear_flag_def
      set_blockprev_def mem_other)

lemma agree_header:
  "agree_off (hdr_bytes p x) m (set_block_size p x v m)"
  "agree_off (hdr_bytes p x) m (set_flag p x f m)"
  "agree_off (hdr_bytes p x) m (clear_flag p x f m)"
  "agree_off (hdr_bytes p x) m (set_blockprev p x w m)"
  by (auto simp: agree_off_def hdr_bytes_def set_block_size_def set_flag_def clear_flag_def
      set_blockprev_def st16_def)

lemma agree_header_trans:
  assumes "agree_off (hdr_bytes p x) m0 m"
  shows "agree_off (hdr_bytes p x) m0 (set_block_size p x v m)"
    and "agree_off (hdr_bytes p x) m0 (set_flag p x f m)"
    and "agree_off (hdr_bytes p x) m0 (clear_flag p x f m)"
    and "agree_off (hdr_bytes p x) m0 (set_blockprev p x w m)"
  using agree_off_trans[OF assms agree_header(1)] agree_off_trans[OF assms agree_header(2)]
    agree_off_trans[OF assms agree_header(3)] agree_off_trans[OF assms agree_header(4)] .

lemma header_agree:
  assumes "agree_off B m m'" "\<And>i. y \<le> i \<Longrightarrow> i < y + 4 \<Longrightarrow> (q, i) \<notin> B"
  shows "block_size m' q y = block_size m q y" and "block_prev m' q y = block_prev m q y"
  using header_cong[of y m' q m] assms by (auto simp: agree_off_def)

lemma header_other:
  assumes "agree_off (hdr_bytes p x) m m'" "q \<noteq> p \<or> y + 4 \<le> x \<or> x + 4 \<le> y"
  shows "block_size m' q y = block_size m q y" and "block_prev m' q y = block_prev m q y"
  using header_agree[OF assms(1), of y q] assms(2) by (auto simp: hdr_bytes_def)

text \<open>The lists do not notice writes outside the links of their members.\<close>

lemma link_agree:
  assumes "agree_off B m m'" "\<And>i. snd a + 4 \<le> i \<Longrightarrow> i < snd a + 16 \<Longrightarrow> (fst a, i) \<notin> B"
  shows "linkprev m' a = linkprev m a" and "linknext m' a = linknext m a"
  using assms
  by (auto simp: linkprev_def linknext_def link_prev_pagenum_def link_prev_offset_def
      link_next_pagenum_def link_next_offset_def agree_off_def intro!: ld16_cong ld32_cong)

lemma lists_ok_mem:
  assumes ok: "lists_ok F s" and ag: "agree_off B (mem s) m'"
    and out: "\<And>a i. a \<in> members F \<Longrightarrow> snd a + 4 \<le> i \<Longrightarrow> i < snd a + 16 \<Longrightarrow> (fst a, i) \<notin> B"
    and s': "flbitmap s' = flbitmap s" "slbitmap s' = slbitmap s" "freelist s' = freelist s" "mem s' = m'"
  shows "lists_ok F s'"
proof -
  have "linkprev m' a = linkprev (mem s) a \<and> linknext m' a = linknext (mem s) a" if "a \<in> set (F i)" for a i
    using link_agree[OF ag out[OF membersI[of a F i, OF that]]] by blast
  then have "seg m' prv cur (F i) nxt = seg (mem s) prv cur (F i) nxt" for prv cur nxt i
    by (intro seg_cong) blast
  then show ?thesis using ok by (simp add: lists_ok_def bitmaps_ok_def headptr_def s')
qed

text \<open>A free block header written from scratch, whatever the bytes were before.\<close>

lemma fresh_header:
  fixes m :: pmem and p :: u32 and y :: nat and v :: u16
  assumes "4 dvd x"
  defines "m' \<equiv> set_blockprev p y (of_nat x) (clear_flag p y PREV_FREE
                  (set_flag p y BLOCK_FREE (set_block_size p y v m)))"
  shows "block_size m' p y = v" and "block_prev m' p y = enc x True False"
    and "agree_off (hdr_bytes p y) m m'"
  using enc_fresh[OF assms(1), of "block_prev m p y"]
  by (simp_all add: m'_def header agree_header_trans)

section \<open>Growing the pool\<close>

lemma class_4092: "class_of 4092 = 507"
  by (simp add: class_of_def)

lemma fresh_page_places:
  "places 0 [Free 4092] = [(0, Free 4092)]"
  by simp

lemma grow_pool_ok:
  assumes inv: "xv_inv L F s" and new: "p \<noteq> 0" "p \<notin> dom L"
  obtains F' s' where "grow_pool p s = (0, s')" "xv_inv (L(p \<mapsto> [Free 4092])) F' s'"
    "F' = F(507 := (p, 0) # F 507)"
    "agree_off (link_area (bigs L) \<union> {(q, i). q = p \<and> i < 16}) (mem s) (mem s')"
proof -
  let ?m = "set_blockprev p 0 (of_nat 0) (clear_flag p 0 PREV_FREE
              (set_flag p 0 BLOCK_FREE (set_block_size p 0 4092 (mem s))))"
  let ?s1 = "s\<lparr>total_pages := stat_inc (total_pages s), mem := ?m\<rparr>"
  let ?s2 = "insert_block p (of_nat 0) ?s1"
  let ?F = "F(507 := (p, 0) # F 507)"
  note invD = xv_invD[OF inv]
  note h = fresh_header[where x = 0 and p = p and y = 0 and v = 4092 and m = "mem s", OF dvd_0_right]
  have gr: "grow_pool p s = (0, ?s2)"
    using new(1) by (simp add: grow_pool_def xv_alloc_page_def Let_def)
  have notp: "fst a \<noteq> p" if "a \<in> members F" for a
  proof -
    from that obtain i where "a \<in> set (F i)" by (auto simp: members_def)
    then have "big_free L i a" using invD(2) by blast
    with new(2) show ?thesis by (auto simp: big_free_def blk_at_def split: option.splits)
  qed
  have ok1: "lists_ok F ?s1"
    by (rule lists_ok_mem[OF invD(1) h(3)]) (use notp in \<open>auto simp: hdr_bytes_def\<close>)
  have idx: "507 = unat (get_index_for_insert (ucast (block_size (mem ?s1) p 0)))"
    using get_index_for_insert_class[of 4092] h(1) by (simp add: class_4092)
  have pl: "placed (p, 0)" using new(1) by (simp add: placed_def)
  have nin: "(p, 0) \<notin> members F" using notp by force
  have apr: "apart (p, 0) b" if "b \<in> members F" for b using notp[OF that] by (simp add: apart_def)
  note ins0 = insert_block_ok[OF ok1 pl nin apr idx]
  have ins: "lists_ok ?F ?s2"
    "agree_off (link_area (insert (p, 0) (members F))) ?m (mem ?s2)"
    "total_pages ?s2 = stat_inc (total_pages s)"
    using ins0 by simp_all
  let ?L = "L(p \<mapsto> [Free 4092])"
  have hk: "block_size (mem ?s2) q y = block_size (mem s) q y \<and> block_prev (mem ?s2) q y = block_prev (mem s) q y"
    if "q \<noteq> p" "blk_at L (q, y) = Some b" for q y b
  proof -
    have "(q, i) \<notin> link_area (insert (p, 0) (members F))" if "y \<le> i" "i < y + 4" for i
      using header_not_linked[OF \<open>blk_at L (q, y) = Some b\<close> that] members_bigs[OF inv] \<open>q \<noteq> p\<close>
      by (auto simp: link_area_def)
    from header_agree[OF ins(2) this] header_other[OF h(3), of q y] that(1) show ?thesis by simp
  qed
  have pg: "page_ok (mem ?s2) q ds" if "?L q = Some ds" for q ds
  proof (cases "q = p")
    case True
    have "block_size (mem ?s2) p 0 = block_size ?m p 0" "block_prev (mem ?s2) p 0 = block_prev ?m p 0"
      using header_agree[OF ins(2), of 0 p] notp by (force simp: link_area_def)+
    moreover have "ds = [Free 4092]" using True that by simp
    ultimately show ?thesis using True h(1,2) new(1) by (simp add: page_ok_def)
  next
    case False
    then have q: "L q = Some ds" using that by simp
    have "chain (mem ?s2) q 0 0 False ds"
    proof (subst chain_cong [where m = "mem s"])
      fix y b assume "(y, b) \<in> set (places 0 ds)"
      then have "blk_at L (q, y) = Some b" using q by (simp add: blk_at_def map_of_places)
      from hk[OF False this] show "block_size (mem ?s2) q y = block_size (mem s) q y \<and>
          block_prev (mem ?s2) q y = block_prev (mem s) q y" .
    qed (use invD(3)[OF q] in \<open>simp add: page_ok_def\<close>)
    with invD(3)[OF q] show ?thesis by (simp add: page_ok_def)
  qed
  have "blk_at ?L (q, y) = (if q = p then (if y = 0 then Some (Free 4092) else None) else blk_at L (q, y))" for q y
    by (simp add: blk_at_def)
  moreover have "blk_at L (p, y) = None" for y
    using new(2) by (auto simp: blk_at_def split: option.splits)
  ultimately have bf: "big_free ?L i a \<longleftrightarrow> big_free L i a \<or> (i = 507 \<and> a = (p, 0))" for i a
    by (cases a) (auto simp: big_free_def class_4092)
  have "card (dom ?L) = Suc (card (dom L))" using new(2) invD(4) by simp
  then have "xv_inv ?L ?F ?s2"
    using ins(1,3) pg invD(2,4,5) bf unfolding xv_inv_def by (auto simp: stat_inc_def)
  moreover have "agree_off (link_area (bigs L) \<union> {(q, i). q = p \<and> i < 16}) (mem s) (mem ?s2)"
  proof (rule agree_off_trans)
    show "agree_off (link_area (bigs L) \<union> {(q, i). q = p \<and> i < 16}) (mem s) ?m"
      by (rule agree_off_mono[OF h(3)]) (auto simp: hdr_bytes_def)
    show "agree_off (link_area (bigs L) \<union> {(q, i). q = p \<and> i < 16}) ?m (mem ?s2)"
      by (rule agree_off_mono[OF ins(2)]) (auto simp: link_area_def members_bigs[OF inv])
  qed
  ultimately show thesis using gr that by blast
qed

section \<open>Carving a block\<close>

lemma xv_split_exact:
  fixes s :: xv_heap
  assumes s1: "s1 = remove_block_head p x k s" and x: "x < 4096"
    and n: "unat (block_size (mem s1) p x) = unat sz"
  shows "xv_split k p (of_nat x) sz osz s = s1\<lparr>mem := clear_flag p x BLOCK_FREE
     (set_block_size p x (ucast osz)
        (if x + unat sz + 4 \<noteq> 4096 then clear_flag p (x + unat sz + 4) PREV_FREE (mem s1)
         else mem s1))\<rparr>"
proof -
  have "unat sz < 65536" unfolding n[symmetric] by simp
  then have "unat (of_nat x + sz + 4 :: u32) = x + unat sz + 4"
    using x by (simp add: unat_add_lt unat_of_nat_u32)
  then have t: "of_nat x + sz + 4 \<noteq> (4096 :: u32) \<longleftrightarrow> x + unat sz + 4 \<noteq> 4096"
    by (metis unat_numeral_4096 word_eq_unat)
  have "ucast (block_size (mem s1) p x) = sz" using n by (simp add: word_eq_unat)
  then show ?thesis
    using x t by (simp add: xv_split_def Let_def unat_of_nat_u32 unat_word_4 flip: s1)
qed

lemma xv_split_rem:
  fixes s :: xv_heap and osz :: u32
  assumes s1: "s1 = remove_block_head p x k s" and x: "x + 4 + unat (block_size (mem s1) p x) \<le> 4096"
    and rem: "unat sz + 4 + r = unat (block_size (mem s1) p x)"
  defines "y \<equiv> x + unat sz + 4"
  defines "m2 \<equiv> set_blockprev p y (of_nat x) (clear_flag p y PREV_FREE
                  (set_flag p y BLOCK_FREE (set_block_size p y (of_nat r) (mem s1))))"
  defines "s3 \<equiv> (if 32 \<le> r then insert_block p (of_nat y) (s1\<lparr>mem := m2\<rparr>) else s1\<lparr>mem := m2\<rparr>)"
  assumes keep: "block_size (mem s3) p y = of_nat r"
  shows "xv_split k p (of_nat x) sz osz s = s3\<lparr>mem := clear_flag p x BLOCK_FREE
     (set_block_size p x (ucast osz)
        (if y + 4 + r \<noteq> 4096 then set_blockprev p (y + 4 + r) (of_nat y) (mem s3) else mem s3))\<rparr>"
proof -
  let ?w = "ucast (block_size (mem s1) p x) - sz :: u32"
  have w: "unat ?w = r + 4" using rem by (simp add: unat_sub_le)
  have y: "of_nat x + sz + 4 = (of_nat y :: u32)" by (simp add: y_def)
  have r: "r < 65536" "y < 65536" using x rem by (auto simp: y_def)
  have "?w \<noteq> 0" using w by auto
  moreover have "ucast (?w - 4) = (of_nat r :: u16)"
    using w r by (simp add: word_eq_unat unat_ucast_32_16 unat_sub_le unat_of_nat_u16)
  moreover have "(32 :: u32) \<le> ucast (of_nat r :: u16) \<longleftrightarrow> 32 \<le> r"
    using r by (simp add: word_le_nat_alt unat_of_nat_u16)
  moreover have "of_nat y + 4 + ucast (of_nat r :: u16) \<noteq> (4096 :: u32) \<longleftrightarrow> y + 4 + r \<noteq> 4096"
  proof -
    have "of_nat y + 4 + ucast (of_nat r :: u16) = (of_nat (y + 4 + r) :: u32)"
      using r by (simp add: offset_words)
    moreover have "unat (of_nat (y + 4 + r) :: u32) = y + 4 + r"
      by (rule unat_of_nat_u32) (use r in simp)
    ultimately show ?thesis by (metis unat_numeral_4096 word_eq_unat)
  qed
  moreover have "BLOCK_NEXT (mem s3) p y = y + 4 + r"
    using keep r by (simp add: BLOCK_NEXT_def unat_of_nat_u16)
  moreover have "ucast (of_nat x :: u32) = (of_nat x :: u16)" "ucast (of_nat y :: u32) = (of_nat y :: u16)"
    "unat (of_nat x :: u32) = x" using r x by (auto intro!: offset_words)
  moreover have "block_size m2 p y = of_nat r" by (simp add: m2_def header)
  moreover have "(if 32 \<le> r then insert_block p (of_nat y) (s1\<lparr>mem := m2\<rparr>) else s1\<lparr>mem := m2\<rparr>) = s3"
    by (simp add: s3_def)
  ultimately show ?thesis
    using keep by (simp add: xv_split_def Let_def y unat_word_4 flip: s1 y_def m2_def cong: if_cong)
qed

lemma bigs_outside:
  assumes "blk_at L (p, x) = Some b" "a \<in> bigs L" "a \<noteq> (p, x)" "fst a = p"
  shows "snd a + 36 \<le> x \<or> x + 4 + extent b \<le> snd a"
proof -
  obtain y where a: "a = (p, y)" "y \<noteq> x" using assms(3,4) by (cases a) auto
  from assms(2) obtain n where n: "blk_at L (p, y) = Some (Free n)" "32 \<le> n"
    unfolding a(1) by (rule bigsD)
  show ?thesis
    using blocks_disjoint[OF assms(1) n(1)] blocks_disjoint[OF n(1) assms(1)] a n(2) by force
qed

lemma big_outside:
  assumes "blk_at L (p, x) = Some b" "big_free L i a" "a \<noteq> (p, x)" "fst a = p"
  shows "snd a + 36 \<le> x \<or> x + 4 + extent b \<le> snd a"
  by (rule bigs_outside[OF assms(1) _ assms(3,4)]) (use assms(2) in \<open>auto simp: bigs_def\<close>)

lemma big_free_replace:
  assumes "L p = Some (as @ bs @ cs)" and "end_of (end_of 0 as) bs' = end_of (end_of 0 as) bs"
  shows "big_free (L(p \<mapsto> as @ bs' @ cs)) i a \<longleftrightarrow>
    (if fst a = p \<and> end_of 0 as \<le> snd a \<and> snd a < end_of (end_of 0 as) bs
     then \<exists>n. (snd a, Free n) \<in> set (places (end_of 0 as) bs') \<and> 32 \<le> n \<and> class_of n = i
     else big_free L i a)"
  using blk_at_replace[of L p as bs cs bs' "fst a" "snd a", OF assms] by (auto simp: big_free_def map_of_places)

lemma big_free_here:
  assumes "L p = Some (as @ bs @ cs)" "end_of 0 as \<le> y" "y < end_of (end_of 0 as) bs"
  shows "big_free L i (p, y) \<longleftrightarrow>
    (\<exists>n. (y, Free n) \<in> set (places (end_of 0 as) bs) \<and> 32 \<le> n \<and> class_of n = i)"
  using blk_at_here[of L p as bs cs y, OF assms] by (auto simp: big_free_def map_of_places)

lemma set_remove_list:
  assumes "ghost_ok F" "a \<in> set (F k)"
  shows "b \<in> set ((F(k := remove1 a (F k))) i) \<longleftrightarrow> b \<in> set (F i) \<and> b \<noteq> a"
proof -
  have "distinct (F k)" using assms(1) unfolding ghost_ok_def by blast
  moreover have "a \<notin> set (F i)" if "i \<noteq> k" using members_disjoint[OF assms, of i] that by blast
  ultimately show ?thesis by (cases "i = k") (auto simp: set_remove1_eq)
qed

text \<open>The block after a run of blocks, when there is one.\<close>

lemma next_block:
  assumes "xv_inv L F s" "L p = Some (as @ bs @ cs)"
  defines "e2 \<equiv> end_of (end_of 0 as) bs"
  shows "cs = [] \<longleftrightarrow> e2 = 4096"
    and "cs = c # cs' \<Longrightarrow> blk_at L (p, e2) = Some c \<and> e2 + 4 \<le> 4096 \<and>
      block_prev (mem s) p e2 = enc (last_start (end_of 0 as) (last_start 0 0 as) bs) (is_free c)
        (last_free (last_free False as) bs) \<and> \<not> (last_free (last_free False as) bs \<and> is_free c)"
proof -
  have po: "page_ok (mem s) p (as @ bs @ cs)" using xv_invD(3)[OF assms(1), of p, OF assms(2)] .
  then have e: "end_of e2 cs = 4096" by (simp add: page_ok_def e2_def)
  then show "cs = [] \<longleftrightarrow> e2 = 4096"
    using end_of_mono[of "e2 + 4 + extent (hd cs)" "tl cs"] by (cases cs) auto
  assume cs: "cs = c # cs'"
  have "blk_at L (p, e2) = Some c"
    using blk_at_here[of L p "as @ bs" "[c]" cs' e2] assms(2) cs by (simp add: e2_def)
  with blk_at_bounds(1)[OF assms(1) this] po cs
  show "blk_at L (p, e2) = Some c \<and> e2 + 4 \<le> 4096 \<and>
      block_prev (mem s) p e2 = enc (last_start (end_of 0 as) (last_start 0 0 as) bs) (is_free c)
        (last_free (last_free False as) bs) \<and> \<not> (last_free (last_free False as) bs \<and> is_free c)"
    by (simp add: page_ok_def e2_def)
qed

text \<open>
  The two last header writes of an allocation: the header after the block, and the header of
  the block itself. \<open>bs'\<close> are the blocks the free block is turned into.
\<close>

lemma xv_alloc_finish:
  fixes osz :: u32
  assumes inv: "xv_inv L F s" and L: "L p = Some (as @ [Free n] @ cs)" and x: "x = end_of 0 as"
    and osz: "1 \<le> unat osz" "unat osz \<le> 4092"
    and lists: "lists_ok F2 s3"
    and ag: "agree_off (link_area (bigs L) \<union> {(q, i). q = p \<and> x + 4 \<le> i \<and> i < x + 4 + n}) (mem s) (mem s3)"
    and mem2: "\<And>a. a \<in> members F2 \<Longrightarrow> (a \<in> bigs L \<and> a \<noteq> (p, x)) \<or> (fst a = p \<and> x + 4 \<le> snd a \<and> snd a + 16 \<le> x + 4 + n)"
    and coupl: "\<And>i a. a \<in> set (F2 i) \<longleftrightarrow> big_free (L(p \<mapsto> as @ (Used (unat osz) # rest) @ cs)) i a"
    and len: "end_of (x + 4 + extent (Used (unat osz))) rest = x + 4 + n"
    and rest: "chain (mem s3) p (x + 4 + extent (Used (unat osz))) x False rest"
    and nxt: "cs \<noteq> [] \<Longrightarrow> block_size m4 p (x + 4 + n) = block_size (mem s3) p (x + 4 + n) \<and>
      (block_prev (mem s3) p (x + 4 + n) = enc x False True \<longrightarrow>
       block_prev m4 p (x + 4 + n) = enc (last_start x 0 (Used (unat osz) # rest)) False (last_free False rest))"
    and ag4: "agree_off (if cs = [] then {} else hdr_bytes p (x + 4 + n)) (mem s3) m4"
    and tp: "total_pages s3 = total_pages s"
  defines "m5 \<equiv> clear_flag p x BLOCK_FREE (set_block_size p x (ucast osz) m4)"
  shows "xv_inv (L(p \<mapsto> as @ (Used (unat osz) # rest) @ cs)) F2 (s3\<lparr>mem := m5\<rparr>)"
    and "agree_off (touch L p x (x + 4 + n)) (mem s) m5"
proof -
  let ?e2 = "x + 4 + n"
  let ?B = "link_area (bigs L) \<union> {(q, i). q = p \<and> x + 4 \<le> i \<and> i < ?e2}"
  let ?R = "hdr_bytes p x \<union> (if cs = [] then {} else hdr_bytes p ?e2)"
  have bx: "blk_at L (p, x) = Some (Free n)"
    using blk_at_here[of L p as "[Free n]" cs x, OF L] by (simp add: x)
  have po: "page_ok (mem s) p (as @ [Free n] @ cs)" using xv_invD(3)[OF inv, of p, OF L] .
  have hx: "block_prev (mem s) p x = enc (last_start 0 0 as) True (last_free False as)" "\<not> last_free False as"
    using po by (simp_all add: page_ok_def x)
  have e2: "?e2 \<le> 4096" using blk_at_bounds(1)[OF inv bx] by simp
  have ax: "4 dvd x" using blk_at_bounds(2)[OF inv bx] .
  note nb = next_block[of L F s p as "[Free n]" cs, OF inv L, folded x, simplified]
  have lp: "4 dvd last_start 0 0 as"
    using last_start_aligned[of "mem s" p as] po by (simp add: page_ok_def)
  have ag5: "agree_off ?R (mem s3) m5"
    unfolding m5_def
    by (rule agree_off_trans[OF agree_off_mono[OF ag4] agree_off_mono[OF agree_header_trans(3)[OF agree_header(1)]]]) auto
  have cc: "blk_at L (p, ?e2) = Some (hd cs) \<and> ?e2 + 4 \<le> 4096" if "cs \<noteq> []"
    using nb(2)[of "hd cs" "tl cs"] that by simp
  have hs3: "block_prev (mem s3) p x = block_prev (mem s) p x"
    using header_agree(2)[OF ag, of x p] header_not_linked[OF bx] by auto
  have m4x: "block_prev m4 p x = block_prev (mem s3) p x"
    using header_agree(2)[OF ag4, of x p] by (auto simp: hdr_bytes_def split: if_splits)
  have m5x: "block_size m5 p x = ucast osz" "block_prev m5 p x = enc (last_start 0 0 as) False (last_free False as)"
    using hx(1) m4x hs3 by (simp_all add: m5_def header enc_clear_flags[OF lp])
  have lists5: "lists_ok F2 (s3\<lparr>mem := m5\<rparr>)"
  proof (rule lists_ok_mem[OF lists ag5])
    fix a i assume a: "a \<in> members F2" "snd a + 4 \<le> i" "i < snd a + 16"
    show "(fst a, i) \<notin> ?R"
      using mem2[OF a(1)]
    proof
      assume "a \<in> bigs L \<and> a \<noteq> (p, x)"
      with bigs_outside[OF bx, of a] a(2,3) show ?thesis by (auto simp: hdr_bytes_def)
    qed (use a(2,3) in \<open>auto simp: hdr_bytes_def\<close>)
  qed simp_all
  show frame: "agree_off (touch L p x (x + 4 + n)) (mem s) m5"
  proof (rule agree_off_trans)
    show "agree_off (touch L p x ?e2) (mem s) (mem s3)"
      by (rule agree_off_mono[OF ag]) (use e2 in \<open>auto simp: touch_def\<close>)
    show "agree_off (touch L p x ?e2) (mem s3) m5"
      by (rule agree_off_mono[OF ag5]) (use e2 cc in \<open>auto simp: touch_def hdr_bytes_def\<close>)
  qed
  have restm5: "chain m5 p (x + 4 + extent (Used (unat osz))) x False rest"
  proof (subst chain_cong [where m = "mem s3"])
    fix y b assume "(y, b) \<in> set (places (x + 4 + extent (Used (unat osz))) rest)"
    from places_bounds[OF this] len have "x + 4 \<le> y" "y + 4 \<le> ?e2" by auto
    then show "block_size m5 p y = block_size (mem s3) p y \<and> block_prev m5 p y = block_prev (mem s3) p y"
      using header_agree[OF ag5, of y p] by (auto simp: hdr_bytes_def split: if_splits)
  qed (rule rest)
  have nx: "next_ok (mem s) m5 p ?e2 (last_start x (last_start 0 0 as) (Used (unat osz) # rest))
      (last_free (last_free False as) (Used (unat osz) # rest)) cs"
  proof (cases cs)
    case (Cons c cs')
    note c = nb(2)[OF Cons]
    have "block_size (mem s3) p ?e2 = block_size (mem s) p ?e2" "block_prev (mem s3) p ?e2 = block_prev (mem s) p ?e2"
      using header_agree[OF ag, of ?e2 p] header_not_linked[of L p ?e2 c] c by auto
    moreover have "block_size m5 p ?e2 = block_size m4 p ?e2" "block_prev m5 p ?e2 = block_prev m4 p ?e2"
      using header_other[of p x m4 m5 p ?e2] unfolding m5_def by (auto intro!: agree_header_trans(3) agree_header)
    ultimately show ?thesis using c nxt Cons hx(2) by (auto simp: next_ok_def)
  qed (simp add: next_ok_def)
  show "xv_inv (L(p \<mapsto> as @ (Used (unat osz) # rest) @ cs)) F2 (s3\<lparr>mem := m5\<rparr>)"
    by (rule xv_inv_replace[of L F s p as "[Free n]" cs, OF inv L lists5 coupl])
      (use frame len restm5 nx osz m5x hx(2) tp in \<open>simp_all flip: x add: unat_ucast_32_16\<close>)
qed

definition carve :: "nat \<Rightarrow> nat \<Rightarrow> blk list" where
  "carve r n = Used r # (if n = extent (Used r) then [] else [Free (n - extent (Used r) - 4)])"

text \<open>The first step of an allocation: the block leaves its list.\<close>

lemma take_head:
  assumes inv: "xv_inv L F s" and k: "F k = a # fs" "a = (p, x)"
    and L: "L p = Some (as @ [Free n] @ cs)" and x: "x = end_of 0 as"
  defines "s1 \<equiv> remove_block_head p x k s" and "F1 \<equiv> F(k := fs)"
  shows "lists_ok F1 s1" and "agree_off (link_area (bigs L)) (mem s) (mem s1)"
    and "total_pages s1 = total_pages s"
    and "b \<in> set (F1 i) \<longleftrightarrow> big_free L i b \<and> b \<noteq> (p, x)"
    and "b \<in> members F1 \<Longrightarrow> b \<in> bigs L \<and> b \<noteq> (p, x)"
    and "block_size (mem s1) p x = block_size (mem s) p x"
    and "unat (block_size (mem s1) p x) = n" and "32 \<le> n"
    and "blk_at L (p, x) = Some (Free n)"
proof -
  have ok: "lists_ok F s" by (rule xv_invD(1)[OF inv])
  then have g: "ghost_ok F" by (simp add: lists_ok_def)
  have k508: "k < 508" using g k(1) unfolding ghost_ok_def by (metis list.distinct(1) not_le)
  note r = remove_block_head_ok[OF ok k508 k(1)]
  show "lists_ok F1 s1" "agree_off (link_area (bigs L)) (mem s) (mem s1)" "total_pages s1 = total_pages s"
    using r k(2) by (simp_all add: s1_def F1_def flip: members_bigs[OF inv])
  have "F1 = F(k := remove1 a (F k))" using k by (simp add: F1_def)
  then show sF: "b \<in> set (F1 i) \<longleftrightarrow> big_free L i b \<and> b \<noteq> (p, x)" for b i
    using set_remove_list[OF g, of a k b i] k xv_invD(2)[OF inv, of b i] by simp
  then show "b \<in> members F1 \<Longrightarrow> b \<in> bigs L \<and> b \<noteq> (p, x)"
    unfolding members_def bigs_def by blast
  show bx: "blk_at L (p, x) = Some (Free n)"
    using blk_at_here[of L p as "[Free n]" cs x, OF L] by (simp add: x)
  have "big_free L k (p, x)" using k xv_invD(2)[OF inv, of "(p, x)" k] by simp
  then show "32 \<le> n" using bx by (auto simp: big_free_def)
  show bs: "block_size (mem s1) p x = block_size (mem s) p x"
    using header_agree(1)[OF \<open>agree_off (link_area (bigs L)) (mem s) (mem s1)\<close>, of x p]
      header_not_linked[OF bx] by blast
  have "page_ok (mem s) p (as @ [Free n] @ cs)" using xv_invD(3)[OF inv, of p, OF L] .
  then show "unat (block_size (mem s1) p x) = n" using bs by (simp add: page_ok_def x)
qed

lemma xv_split_ok:
  fixes osz :: u32
  assumes inv: "xv_inv L F s" and k: "F k = a # fs" "a = (p, x)"
    and L: "L p = Some (as @ [Free n] @ cs)" and x: "x = end_of 0 as"
    and osz: "1 \<le> unat osz" "unat osz \<le> 4092" and sz: "unat sz = extent (Used (unat osz))"
    and fits: "unat sz \<le> n"
  defines "s' \<equiv> xv_split k p (of_nat x) sz osz s"
  obtains F' where "xv_inv (L(p \<mapsto> as @ carve (unat osz) n @ cs)) F' s'"
    and "agree_off (touch L p x (x + 4 + n)) (mem s) (mem s')"
proof -
  define s1 where "s1 = remove_block_head p x k s"
  define F1 where "F1 = F(k := fs)"
  note t = take_head[OF inv k L x, folded s1_def F1_def]
  let ?S = "extent (Used (unat osz))" and ?e2 = "x + 4 + n"
  have bb: "x + 4 + n \<le> 4096" "4 dvd x" "4 dvd n"
    using blk_at_bounds[OF inv t(9)] by simp_all
  have e2: "end_of (end_of 0 as) [Free n] = ?e2" by (simp add: x)
  note nb = next_block[of L F s p as "[Free n]" cs, OF inv L, folded x, simplified]
  have Ldom: "L p = Some (as @ [Free n] @ cs)" by (rule L)
  show thesis
  proof (cases "n = ?S")
    case True
    let ?m4 = "if ?e2 \<noteq> 4096 then clear_flag p ?e2 PREV_FREE (mem s1) else mem s1"
    have e: "x + unat sz + 4 = ?e2" and len: "end_of (x + 4 + ?S) [] = ?e2" using True sz by simp_all
    have split: "s' = s1\<lparr>mem := clear_flag p x BLOCK_FREE (set_block_size p x (ucast osz) ?m4)\<rparr>"
      unfolding s'_def using xv_split_exact[of s1 p x k s sz osz, OF s1_def, unfolded e] bb t(7) sz True
      by simp
    have cp: "a \<in> set (F1 i) \<longleftrightarrow> big_free (L(p \<mapsto> as @ (Used (unat osz) # []) @ cs)) i a" for i a
      using big_free_replace[of L p as "[Free n]" cs "[Used (unat osz)]" i a, OF L] t(4)[of a i]
        big_outside[OF t(9), of i a] True
      by (cases "fst a = p") (auto simp: x prod_eq_iff)
    have agA: "agree_off (link_area (bigs L) \<union> {(q, i). q = p \<and> x + 4 \<le> i \<and> i < ?e2}) (mem s) (mem s1)"
      by (rule agree_off_mono[OF t(2)]) simp
    have agB: "agree_off (if cs = [] then {} else hdr_bytes p ?e2) (mem s1) ?m4"
      using nb(1) agree_header(3) by simp
    have "xv_inv (L(p \<mapsto> as @ (Used (unat osz) # []) @ cs)) F1
        (s1\<lparr>mem := clear_flag p x BLOCK_FREE (set_block_size p x (ucast osz) ?m4)\<rparr>)
      \<and> agree_off (touch L p x ?e2) (mem s) (clear_flag p x BLOCK_FREE (set_block_size p x (ucast osz) ?m4))"
      by (intro conjI; rule xv_alloc_finish[OF inv L x osz t(1) agA _ cp len _ _ agB])
        (use t(3,5) nb(1) in \<open>auto simp: header enc_clear_flags[OF bb(2)]\<close>)
    moreover have carve: "carve (unat osz) n = [Used (unat osz)]" using True by (simp add: carve_def)
    ultimately show thesis using that[of F1] unfolding split carve by simp
  next
    case False
    define r where "r = n - ?S - 4"
    have nS: "n = ?S + 4 + r"
    proof -
      have "?S < n" using False fits sz by simp
      with bb(3) have "?S + 4 \<le> n" unfolding extent.simps by presburger
      then show ?thesis by (simp add: r_def)
    qed
    define y where "y = x + ?S + 4"
    define m2 where "m2 = set_blockprev p y (of_nat x) (clear_flag p y PREV_FREE
        (set_flag p y BLOCK_FREE (set_block_size p y (of_nat r) (mem s1))))"
    define s3 where "s3 = (if 32 \<le> r then insert_block p (of_nat y) (s1\<lparr>mem := m2\<rparr>) else s1\<lparr>mem := m2\<rparr>)"
    define F2 where "F2 = (if 32 \<le> r then F1(class_of r := (p, y) # F1 (class_of r)) else F1)"
    have S4: "4 \<le> ?S" using osz(1) unfolding extent.simps by presburger
    have r: "r < 4092" "y + 4 + r = ?e2" "x + 8 \<le> y"
      using bb(1) S4 nS unfolding y_def by linarith+
    have r4: "4 dvd r" using bb(3) unfolding nS extent.simps by presburger
    note fh = fresh_header[where x = x and p = p and y = y and v = "of_nat r" and m = "mem s1",
        OF bb(2), folded m2_def]
    have regb: "snd b + 36 \<le> x \<or> ?e2 \<le> snd b" if "b \<in> members F1" "fst b = p" for b
      using bigs_outside[OF t(9), of b] t(5)[OF that(1)] that(2) by simp
    have l2: "lists_ok F1 (s1\<lparr>mem := m2\<rparr>)"
    proof (rule lists_ok_mem[OF t(1) fh(3)])
      fix a i assume "a \<in> members F1" "snd a + 4 \<le> i" "i < snd a + 16"
      then show "(fst a, i) \<notin> hdr_bytes p y" using regb[of a] r by (auto simp: hdr_bytes_def)
    qed simp_all
    have ag2: "agree_off (link_area (bigs L) \<union> {(q, i). q = p \<and> x + 4 \<le> i \<and> i < ?e2}) (mem s) m2"
    proof (rule agree_off_trans)
      show "agree_off (link_area (bigs L) \<union> {(q, i). q = p \<and> x + 4 \<le> i \<and> i < ?e2}) (mem s) (mem s1)"
        by (rule agree_off_mono[OF t(2)]) simp
      show "agree_off (link_area (bigs L) \<union> {(q, i). q = p \<and> x + 4 \<le> i \<and> i < ?e2}) (mem s1) m2"
        by (rule agree_off_mono[OF fh(3)]) (use r in \<open>auto simp: hdr_bytes_def\<close>)
    qed
    have three: "lists_ok F2 s3 \<and>
      agree_off (link_area (bigs L) \<union> {(q, i). q = p \<and> x + 4 \<le> i \<and> i < ?e2}) (mem s) (mem s3) \<and>
      block_size (mem s3) p y = of_nat r \<and> block_prev (mem s3) p y = enc x True False \<and>
      total_pages s3 = total_pages s"
    proof (cases "32 \<le> r")
      case True
      have pl: "placed (p, y)" using r True bb(1) blk_at_bounds(3)[OF inv t(9)] by (simp add: placed_def)
      have nin: "(p, y) \<notin> members F1" using regb[of "(p, y)"] r by auto
      have apr: "apart (p, y) b" if "b \<in> members F1" for b
        using regb[OF that] r True by (auto simp: apart_def)
      have ur: "unat (of_nat r :: u16) = r" by (rule unat_of_nat_u16) (use r in simp)
      have idx: "class_of r = unat (get_index_for_insert (ucast (block_size (mem (s1\<lparr>mem := m2\<rparr>)) p y)))"
        using fh(1) get_index_for_insert_class[of "ucast (of_nat r :: u16)"] ur r True by simp
      note ins = insert_block_ok[OF l2 pl nin apr idx class_of_bound]
      have s3: "s3 = insert_block p (of_nat y) (s1\<lparr>mem := m2\<rparr>)" using True by (simp add: s3_def)
      have nl: "(p, i) \<notin> link_area (insert (p, y) (members F1))" if "y \<le> i" "i < y + 4" for i
      proof
        assume "(p, i) \<in> link_area (insert (p, y) (members F1))"
        then obtain w where "(p, w) \<in> members F1 \<or> w = y" "w + 4 \<le> i" "i < w + 16"
          by (auto simp: link_area_def)
        with regb[of "(p, w)"] r that show False by auto
      qed
      have agi: "agree_off (link_area (insert (p, y) (members F1))) m2 (mem s3)"
        using ins(2) r by (simp add: s3)
      have "agree_off (link_area (bigs L) \<union> {(q, i). q = p \<and> x + 4 \<le> i \<and> i < ?e2}) m2 (mem s3)"
        by (rule agree_off_mono[OF agi]) (use t(5) r True in \<open>auto simp: link_area_def\<close>)
      from agree_off_trans[OF ag2 this] ins(1,3) r(1) header_agree[OF agi nl] fh(1,2) t(3) True
      show ?thesis by (simp add: s3 F2_def)
    qed (use l2 ag2 fh t(3) in \<open>simp add: s3_def F2_def\<close>)
    let ?m4 = "if y + 4 + r \<noteq> 4096 then set_blockprev p (y + 4 + r) (of_nat y) (mem s3) else mem s3"
    have y': "y = x + unat sz + 4" using sz by (simp add: y_def)
    have split: "s' = s3\<lparr>mem := clear_flag p x BLOCK_FREE (set_block_size p x (ucast osz) ?m4)\<rparr>"
      unfolding s'_def s3_def m2_def y'
    proof (rule xv_split_rem[OF s1_def])
      show "x + 4 + unat (block_size (mem s1) p x) \<le> 4096" using bb t(7) by simp
      show "unat sz + 4 + r = unat (block_size (mem s1) p x)" using t(7) nS sz by simp
      have "block_size (mem s3) p y = of_nat r" using three by simp
      from this[unfolded s3_def m2_def y'] show "block_size
        (mem (if 32 \<le> r then insert_block p (of_nat (x + unat sz + 4)) (s1\<lparr>mem := set_blockprev p (x + unat sz + 4)
          (of_nat x) (clear_flag p (x + unat sz + 4) PREV_FREE (set_flag p (x + unat sz + 4) BLOCK_FREE
          (set_block_size p (x + unat sz + 4) (of_nat r) (mem s1))))\<rparr>)
         else s1\<lparr>mem := set_blockprev p (x + unat sz + 4)
          (of_nat x) (clear_flag p (x + unat sz + 4) PREV_FREE (set_flag p (x + unat sz + 4) BLOCK_FREE
          (set_block_size p (x + unat sz + 4) (of_nat r) (mem s1))))\<rparr>)) p (x + unat sz + 4) = of_nat r" .
    qed
    have carve: "carve (unat osz) n = Used (unat osz) # [Free r]" using False by (simp add: carve_def r_def)
    have cp: "a \<in> set (F2 i) \<longleftrightarrow> big_free (L(p \<mapsto> as @ (Used (unat osz) # [Free r]) @ cs)) i a" for i a
    proof -
      have "a \<in> set (F2 i) \<longleftrightarrow> (big_free L i a \<and> a \<noteq> (p, x)) \<or> (a = (p, y) \<and> 32 \<le> r \<and> i = class_of r)"
        using t(4)[of a i] by (auto simp: F2_def)
      moreover have "big_free L i a \<Longrightarrow> a \<noteq> (p, x) \<Longrightarrow> fst a = p \<Longrightarrow> snd a + 36 \<le> x \<or> ?e2 \<le> snd a"
        using big_outside[OF t(9), of i a] by simp
      moreover have "big_free (L(p \<mapsto> as @ (Used (unat osz) # [Free r]) @ cs)) i a \<longleftrightarrow>
          (if fst a = p \<and> x \<le> snd a \<and> snd a < ?e2 then snd a = y \<and> 32 \<le> r \<and> class_of r = i else big_free L i a)"
        using big_free_replace[of L p as "[Free n]" cs "[Used (unat osz), Free r]" i a, OF L] nS
        by (auto simp: x y_def)
      ultimately show ?thesis using r by (cases "fst a = p") (auto simp: prod_eq_iff)
    qed
    have yx: "x + 4 + extent (Used (unat osz)) = y" by (simp add: y_def)
    have e2': "y + 4 + r = ?e2" by (rule r(2))
    have agB: "agree_off (if cs = [] then {} else hdr_bytes p ?e2) (mem s3) ?m4"
      unfolding e2' using nb(1) agree_header(4) by simp
    have rest: "chain (mem s3) p (x + 4 + extent (Used (unat osz))) x False [Free r]"
      using three r r4 unfolding yx by (simp add: unat_of_nat_u16)
    have m2: "a \<in> bigs L \<and> a \<noteq> (p, x) \<or> fst a = p \<and> x + 4 \<le> snd a \<and> snd a + 16 \<le> ?e2"
      if "a \<in> members F2" for a
    proof -
      have "a \<in> members F1 \<or> (a = (p, y) \<and> 32 \<le> r)"
        using that by (auto simp: F2_def members_def split: if_splits)
      then show ?thesis using t(5)[of a] r by auto
    qed
    have y4: "4 dvd y" using bb(2) unfolding y_def extent.simps by presburger
    have nx: "block_size ?m4 p ?e2 = block_size (mem s3) p ?e2 \<and>
        (block_prev (mem s3) p ?e2 = enc x False True \<longrightarrow>
         block_prev ?m4 p ?e2 = enc (last_start x 0 (Used (unat osz) # [Free r])) False (last_free False [Free r]))"
      if "cs \<noteq> []"
      using nb(1) that unfolding e2' by (simp add: header enc_set_prev[OF bb(2) y4] yx del: extent.simps)
    have len: "end_of (x + 4 + extent (Used (unat osz))) [Free r] = ?e2"
      using e2' yx by (simp del: extent.simps) simp
    note th = conjunct1[OF three] conjunct1[OF conjunct2[OF three]] conjunct2[OF conjunct2[OF three]]
    have "xv_inv (L(p \<mapsto> as @ (Used (unat osz) # [Free r]) @ cs)) F2
        (s3\<lparr>mem := clear_flag p x BLOCK_FREE (set_block_size p x (ucast osz) ?m4)\<rparr>)
      \<and> agree_off (touch L p x ?e2) (mem s) (clear_flag p x BLOCK_FREE (set_block_size p x (ucast osz) ?m4))"
      by (intro conjI; rule xv_alloc_finish[OF inv L x osz th(1) th(2) m2 cp len rest nx agB])
        (use th in simp_all)
    then show thesis using that[of F2] unfolding split carve by simp
  qed
qed

end
