(* ===== verification/Xv_Store.thy ===== *)
theory Xv_Store
  imports Xv_Alloc
begin

text \<open>
  The abstract view of the allocator: a finite set of pages and a partial map from object
  handles (page number, offset of the first payload byte) to the bytes of the object.
  \<open>xv_rep P S s\<close> says that the pool \<open>s\<close> with its page memory represents the pages \<open>P\<close> and the
  objects \<open>S\<close>. The allocation half of the refinement is proved here.
\<close>

unbundle bit_operations_syntax

section \<open>Objects\<close>

definition objs :: "layout \<Rightarrow> addr \<Rightarrow> nat option" where
  "objs L a = (if 4 \<le> snd a then
     (case blk_at L (fst a, snd a - 4) of Some (Used r) \<Rightarrow> Some r | _ \<Rightarrow> None) else None)"

definition store :: "layout \<Rightarrow> pmem \<Rightarrow> addr \<Rightarrow> u8 list option" where
  "store L m a = map_option (ld_bytes m (fst a) (snd a)) (objs L a)"

definition xv_rep :: "u32 set \<Rightarrow> (addr \<Rightarrow> u8 list option) \<Rightarrow> xv_heap \<Rightarrow> bool" where
  "xv_rep P S s \<longleftrightarrow> (\<exists>L F. xv_inv L F s \<and> dom L = P \<and> store L (mem s) = S)"

lemma xv_repI: "xv_inv L F s \<Longrightarrow> xv_rep (dom L) (store L (mem s)) s"
  by (auto simp: xv_rep_def)

lemma objs_Some: "objs L (p, y) = Some r \<longleftrightarrow> 4 \<le> y \<and> blk_at L (p, y - 4) = Some (Used r)"
  by (auto simp: objs_def split: option.splits blk.splits)

lemma objs_header: "objs L (p, x + 4) = Some r \<longleftrightarrow> blk_at L (p, x) = Some (Used r)"
  by (simp add: objs_Some)

lemma le_extent_Used: "r \<le> extent (Used r)"
  unfolding extent.simps by presburger

text \<open>Objects lie in their page, and different objects do not share a byte.\<close>

lemma objs_bounds:
  assumes "xv_inv L F s" "objs L (p, y) = Some r"
  shows "p \<noteq> 0" "4 dvd y" "4 \<le> y" "y + extent (Used r) \<le> 4096" "1 \<le> r" "r \<le> 4092" "p \<in> dom L"
proof -
  have b: "blk_at L (p, y - 4) = Some (Used r)" "4 \<le> y" using assms(2) by (auto simp: objs_Some)
  note bb = blk_at_bounds[OF assms(1) b(1)]
  show "p \<noteq> 0" "4 \<le> y" "1 \<le> r" "r \<le> 4092" using bb(3,4) b(2) by auto
  show "y + extent (Used r) \<le> 4096" using bb(1) b(2) by simp
  show "4 dvd y" using bb(2) b(2) by (metis dvd_diffD dvd_refl)
  show "p \<in> dom L" using b(1) by (auto simp: blk_at_def split: option.splits)
qed

lemma objs_disjoint:
  assumes "objs L (p, y) = Some r" "objs L (p, z) = Some r'" "y < z"
  shows "y + extent (Used r) + 4 \<le> z"
proof -
  have "blk_at L (p, y - 4) = Some (Used r)" "blk_at L (p, z - 4) = Some (Used r')" "4 \<le> y" "4 \<le> z"
    using assms(1,2) by (auto simp: objs_Some)
  moreover from this(3,4) assms(3) have "y - 4 < z - 4" by linarith
  ultimately show ?thesis using blocks_disjoint[of L p "y - 4" "Used r" "z - 4" "Used r'"] by linarith
qed

section \<open>What an operation leaves alone\<close>

lemma blk_before:
  assumes "L p = Some (as @ bs @ cs)" "blk_at L (p, y) = Some b" "y < end_of 0 as"
  shows "y + 4 + extent b \<le> end_of 0 as"
proof -
  have "(y, b) \<in> set (places 0 (as @ bs @ cs))"
    using assms(1,2) by (simp add: blk_at_def map_of_places del: places_append)
  then consider "(y, b) \<in> set (places 0 as)" | "(y, b) \<in> set (places (end_of 0 as) (bs @ cs))"
    by (auto simp: places_append)
  then show ?thesis
  proof cases
    case 1 then show ?thesis using places_bounds by fastforce
  next
    case 2 then show ?thesis using places_bounds[OF 2] assms(3) by simp
  qed
qed

lemma payload_kept:
  assumes inv: "xv_inv L F s" and L: "L p = Some (as @ bs @ cs)"
    and ag: "agree_off (touch L p (end_of 0 as) (end_of (end_of 0 as) bs)) m m'"
    and ob: "objs L (q, y) = Some r"
    and out: "q \<noteq> p \<or> y < end_of 0 as + 4 \<or> end_of (end_of 0 as) bs + 4 \<le> y"
  shows "ld_bytes m' q y r = ld_bytes m q y r"
proof (rule ld_bytes_cong)
  fix i assume i: "y \<le> i" "i < y + r"
  have b: "blk_at L (q, y - 4) = Some (Used r)" "4 \<le> y" using ob by (auto simp: objs_Some)
  have "(q, i) \<notin> link_area (bigs L)"
    using payload_not_linked[OF b(1), of i] i b(2) le_extent_Used[of r] by simp
  moreover have "q \<noteq> p \<or> i < end_of 0 as \<or> end_of (end_of 0 as) bs + 4 \<le> i"
    using out i b(2) blk_before[of L p as bs cs "y - 4" "Used r", OF L] b(1) le_extent_Used[of r] by fastforce
  ultimately show "m' q i = m q i" using ag by (auto simp: agree_off_def touch_def)
qed

text \<open>Every byte an operation touches lies in a page of the pool.\<close>

definition pages_bytes :: "u32 set \<Rightarrow> (u32 \<times> nat) set" where
  "pages_bytes P = {(q, i). q \<in> P \<and> i < PAGE_SIZE}"

lemma link_area_pages:
  assumes "xv_inv L F s"
  shows "link_area (bigs L) \<subseteq> pages_bytes (dom L)"
proof
  fix z assume z: "z \<in> link_area (bigs L)"
  obtain q j where qj: "z = (q, j)" by (cases z)
  from z[unfolded qj] obtain x n where x: "blk_at L (q, x) = Some (Free n)" "32 \<le> n" "j < x + 16"
    by (rule link_area_inside)
  have "x + 4 + n \<le> 4096" using blk_at_bounds(1)[OF assms x(1)] by simp
  moreover have "q \<in> dom L" using x(1) by (auto simp: blk_at_def split: option.splits)
  ultimately show "z \<in> pages_bytes (dom L)" using x qj by (auto simp: pages_bytes_def)
qed

lemma touch_pages: "xv_inv L F s \<Longrightarrow> p \<in> dom L \<Longrightarrow> touch L p e1 e2 \<subseteq> pages_bytes (dom L)"
  using link_area_pages by (fastforce simp: touch_def pages_bytes_def)

section \<open>A run of blocks replaced by a run with other objects\<close>

lemma objs_replace:
  assumes "L p = Some (as @ bs @ cs)" and "end_of (end_of 0 as) bs' = end_of (end_of 0 as) bs"
  shows "objs (L(p \<mapsto> as @ bs' @ cs)) (q, y) =
    (if q = p \<and> end_of 0 as + 4 \<le> y \<and> y < end_of (end_of 0 as) bs + 4
     then (case map_of (places (end_of 0 as) bs') (y - 4) of Some (Used r) \<Rightarrow> Some r | _ \<Rightarrow> None)
     else objs L (q, y))"
proof -
  have "4 \<le> y \<Longrightarrow> end_of 0 as \<le> y - 4 \<longleftrightarrow> end_of 0 as + 4 \<le> y"
    "4 \<le> y \<Longrightarrow> y - 4 < end_of (end_of 0 as) bs \<longleftrightarrow> y < end_of (end_of 0 as) bs + 4" by auto
  then show ?thesis
    using blk_at_replace[of L p as bs cs bs' q "y - 4", OF assms] by (auto simp: objs_def)
qed

lemma objs_here:
  assumes "L p = Some (as @ bs @ cs)" "end_of 0 as + 4 \<le> y" "y < end_of (end_of 0 as) bs + 4"
  shows "objs L (p, y) = (case map_of (places (end_of 0 as) bs) (y - 4) of Some (Used r) \<Rightarrow> Some r | _ \<Rightarrow> None)"
  using objs_replace[of L p as bs cs bs p y, OF assms(1) refl] assms by (simp add: fun_upd_idem)

lemma carve_end:
  assumes "extent (Used r) \<le> n" "4 dvd n"
  shows "end_of x (carve r n) = x + 4 + n"
    and "places x (carve r n) = (x, Used r) # (if n = extent (Used r) then [] else
      [(x + 4 + extent (Used r), Free (n - extent (Used r) - 4))])"
proof -
  obtain k where "n = 4 * k" using assms(2) by (rule dvdE)
  then have "n = extent (Used r) \<or> extent (Used r) + 4 \<le> n"
    using assms(1) unfolding extent.simps by (cases "k = (r + 3) div 4") linarith+
  then show "end_of x (carve r n) = x + 4 + n" by (auto simp: carve_def)
qed (simp add: carve_def)

lemma objs_carve:
  assumes "L p = Some (as @ [Free n] @ cs)" "extent (Used r) \<le> n" "4 dvd n"
  defines "x \<equiv> end_of 0 as"
  shows "objs (L(p \<mapsto> as @ carve r n @ cs)) = (objs L)((p, x + 4) \<mapsto> r)"
    and "objs L (p, x + 4) = None"
proof -
  show "objs L (p, x + 4) = None"
    using objs_here[of L p as "[Free n]" cs "x + 4", OF assms(1)] by (simp add: x_def)
  have "objs (L(p \<mapsto> as @ carve r n @ cs)) (q, y) = ((objs L)((p, x + 4) \<mapsto> r)) (q, y)" for q y
    using objs_replace[of L p as "[Free n]" cs "carve r n" q y, OF assms(1)]
      objs_here[of L p as "[Free n]" cs y, OF assms(1)] carve_end[of r n x, OF assms(2,3)]
    by (auto simp: x_def split: if_splits)
  then show "objs (L(p \<mapsto> as @ carve r n @ cs)) = (objs L)((p, x + 4) \<mapsto> r)"
    by (intro ext) (metis surj_pair)
qed

end
