(* ===== verification/Xv_Malloc.thy ===== *)
theory Xv_Malloc
  imports Xv_Store
begin

text \<open>
  \<^verbatim>\<open>xv_malloc\<close>: what it returns, when it succeeds, and that it refines the allocation of a
  fresh object in the abstract store.
\<close>

unbundle bit_operations_syntax

text \<open>No object of the layout changes its contents.\<close>

definition kept :: "layout \<Rightarrow> pmem \<Rightarrow> pmem \<Rightarrow> bool" where
  "kept L m m' \<longleftrightarrow> (\<forall>a r. objs L a = Some r \<longrightarrow>
     ld_bytes m' (fst a) (snd a) r = ld_bytes m (fst a) (snd a) r)"

lemma keptI: "(\<And>a r. objs L a = Some r \<Longrightarrow>
    ld_bytes m' (fst a) (snd a) r = ld_bytes m (fst a) (snd a) r) \<Longrightarrow> kept L m m'"
  by (simp add: kept_def)

section \<open>Taking a block from a list\<close>

lemma list_block:
  assumes inv: "xv_inv L F s" and k: "F k = a # fs" "k < 508"
  obtains p x as n cs where "a = (p, x)" "L p = Some (as @ [Free n] @ cs)" "x = end_of 0 as"
    "32 \<le> n" "class_of n = k" "head_of s k = (p, of_nat x)"
proof -
  obtain p x where a: "a = (p, x)" by (cases a)
  have bf: "big_free L k a" using k xv_invD(2)[OF inv, of a k] by simp
  then obtain n where n: "blk_at L (p, x) = Some (Free n)" "32 \<le> n" "class_of n = k"
    by (auto simp: big_free_def a)
  from n(1) obtain as cs where L: "L p = Some (as @ Free n # cs)" "end_of 0 as = x" by (rule blk_atD)
  have "headptr s k = ptr a" using xv_invD(1)[OF inv] k by (auto simp: lists_ok_def)
  moreover have "x < 65536" using blk_at_bounds(1)[OF inv n(1)] by simp
  ultimately have "head_of s k = (p, of_nat x)"
    using offset_words(3)[of x] by (simp add: headptr_def ptr_def a head_of_def)
  with a L n show thesis by (intro that) auto
qed

lemma class_room:
  assumes "unat sz \<le> 4092" "32 \<le> m"
  shows "unat (get_index sz) \<le> class_of m \<longleftrightarrow> (max 32 (unat sz) + 7) div 8 * 8 \<le> m"
proof -
  have "unat (get_index sz) \<le> class_of m \<longleftrightarrow> (max 32 (unat sz) + 7) div 8 \<le> m div 8"
  proof -
    have "4 \<le> (max 32 (unat sz) + 7) div 8" "4 \<le> m div 8" using assms(2) by simp_all
    then show ?thesis using assms(1) by (simp add: get_index_class class_of_def le_diff_iff)
  qed
  also have "\<dots> \<longleftrightarrow> (max 32 (unat sz) + 7) div 8 * 8 \<le> m"
    by (simp add: less_eq_div_iff_mult_less_eq)
  finally show ?thesis .
qed

lemma malloc_take:
  fixes osz :: u32
  assumes inv: "xv_inv L F s" and sz: "sz = ALIGN osz 4" and osz: "1 \<le> unat osz" "unat osz \<le> 4092"
    and fst: "first_list F (unat (get_index sz)) k"
  obtains p x n L' F' where "head_of s k = (p, of_nat x)" "p \<noteq> 0" "x + 4 < 4096" "p \<in> dom L"
    "blk_at L (p, x) = Some (Free n)" "(max 32 (unat osz) + 7) div 8 * 8 \<le> n"
    "xv_inv L' F' (xv_split k p (of_nat x) sz osz s)" "dom L' = dom L"
    "objs L' = (objs L)((p, x + 4) \<mapsto> unat osz)" "objs L (p, x + 4) = None"
    "kept L (mem s) (mem (xv_split k p (of_nat x) sz osz s))"
    "agree_off (pages_bytes (dom L)) (mem s) (mem (xv_split k p (of_nat x) sz osz s))"
proof -
  from fst obtain a fs where k: "F k = a # fs" "k < 508" "unat (get_index sz) \<le> k"
    by (auto simp: first_list_def neq_Nil_conv)
  from list_block[OF inv k(1,2)] obtain p x as n cs where b: "a = (p, x)" "L p = Some (as @ [Free n] @ cs)"
    "x = end_of 0 as" "32 \<le> n" "class_of n = k" "head_of s k = (p, of_nat x)" .
  have szv: "unat sz = extent (Used (unat osz))" using osz by (simp add: sz unat_ALIGN4)
  then have le: "unat sz \<le> 4092" using osz(2) by simp
  have fits: "unat sz \<le> n" using class_large_enough[OF le b(4)] k(3) b(5) by simp
  note e2 = b(3)[symmetric]
  have bx: "blk_at L (p, x) = Some (Free n)"
    using blk_at_here[of L p as "[Free n]" cs x, OF b(2)] by (simp add: e2)
  note bb = blk_at_bounds[OF inv bx]
  let ?s' = "xv_split k p (of_nat x) sz osz s"
  let ?L = "L(p \<mapsto> as @ carve (unat osz) n @ cs)"
  obtain F' where F': "xv_inv ?L F' ?s'" "agree_off (touch L p x (x + 4 + n)) (mem s) (mem ?s')"
    using xv_split_ok[OF inv k(1) b(1) b(2) b(3) osz szv fits] by blast
  have ex: "extent (Used (unat osz)) \<le> n" "4 dvd n" using fits szv bb(4) by auto
  note oc = objs_carve[of L p as n cs "unat osz", OF b(2) ex, unfolded e2]
  have p: "p \<in> dom L" using b(2) by auto
  have ld: "ld_bytes (mem ?s') (fst c) (snd c) r = ld_bytes (mem s) (fst c) (snd c) r"
    if "objs L c = Some r" for c r
  proof (rule payload_kept[of L F s p as "[Free n]" cs, OF inv b(2)])
    show "agree_off (touch L p (end_of 0 as) (end_of (end_of 0 as) [Free n])) (mem s) (mem ?s')"
      using F'(2) by (simp add: e2)
    show "objs L (fst c, snd c) = Some r" using that by simp
    show "fst c \<noteq> p \<or> snd c < end_of 0 as + 4 \<or> end_of (end_of 0 as) [Free n] + 4 \<le> snd c"
      using that objs_here[of L p as "[Free n]" cs "snd c", OF b(2)] by (cases c) (force split: if_splits)
  qed
  have "agree_off (pages_bytes (dom L)) (mem s) (mem ?s')"
    by (rule agree_off_mono[OF F'(2) touch_pages[OF inv p]])
  moreover have "x + 4 < 4096" "p \<noteq> 0" using bb b(4) by auto
  moreover have "(max 32 (unat osz) + 7) div 8 * 8 \<le> n"
  proof -
    have "unat osz \<le> unat sz" using osz by (simp add: sz unat_ALIGN4)
    then have "(max 32 (unat osz) + 7) div 8 * 8 \<le> (max 32 (unat sz) + 7) div 8 * 8"
      by (intro mult_le_mono1 div_le_mono) simp
    also have "\<dots> \<le> n" using class_room[OF le b(4)] k(3) b(5) by simp
    finally show ?thesis .
  qed
  ultimately show thesis using b(6) F'(1) oc p bx keptI[OF ld] by (intro that[of p x n ?L F']) auto
qed

section \<open>When there is room\<close>

text \<open>
  There is room for \<open>n\<close> bytes when some free block has at least \<open>n\<close>, rounded up to a size
  class boundary: this is when the good-fit search succeeds.
\<close>

definition room :: "layout \<Rightarrow> nat \<Rightarrow> bool" where
  "room L n \<longleftrightarrow> (\<exists>a m. blk_at L a = Some (Free m) \<and> (max 32 n + 7) div 8 * 8 \<le> m)"

lemma room_lists:
  assumes inv: "xv_inv L F s" and sz: "unat sz \<le> 4092"
  shows "room L (unat sz) \<longleftrightarrow> (\<exists>j \<ge> unat (get_index sz). F j \<noteq> [])"
proof
  assume "room L (unat sz)"
  then obtain a m where m: "blk_at L a = Some (Free m)" "(max 32 (unat sz) + 7) div 8 * 8 \<le> m"
    by (auto simp: room_def)
  moreover have "4 \<le> (max 32 (unat sz) + 7) div 8" by simp
  ultimately have "32 \<le> m" by linarith
  from this have "a \<in> set (F (class_of m))" using m(1) xv_invD(2)[OF inv] by (auto simp: big_free_def)
  then have "F (class_of m) \<noteq> []" by auto
  with class_room[OF sz \<open>32 \<le> m\<close>] m(2) show "\<exists>j \<ge> unat (get_index sz). F j \<noteq> []" by blast
next
  assume "\<exists>j \<ge> unat (get_index sz). F j \<noteq> []"
  then obtain j a where j: "unat (get_index sz) \<le> j" "a \<in> set (F j)" by (metis list.set_intros(1) neq_Nil_conv)
  then obtain m where "blk_at L a = Some (Free m)" "32 \<le> m" "class_of m = j"
    using xv_invD(2)[OF inv, of a j] by (auto simp: big_free_def)
  with class_room[OF sz, of m] j(1) show "room L (unat sz)" unfolding room_def by blast
qed

lemma ALIGN4_room:
  assumes "1 \<le> unat osz" "unat osz \<le> 4092"
  shows "room L (unat (ALIGN osz 4)) \<longleftrightarrow> room L (unat osz)" and "unat (ALIGN osz 4) \<le> 4092"
proof -
  have u: "unat (ALIGN osz 4) = (unat osz + 3) div 4 * 4" using assms by (simp add: unat_ALIGN4)
  then show "unat (ALIGN osz 4) \<le> 4092" using assms by simp
  have "(max 32 ((unat osz + 3) div 4 * 4) + 7) div 8 = (max 32 (unat osz) + 7) div 8"
  proof (cases "unat osz \<le> 32")
    case True
    then have "(unat osz + 3) div 4 \<le> 8" by simp
    with True show ?thesis by simp
  next
    case False
    have "((k + 3) div 4 * 4 + 7) div 8 = (k + 7) div 8" for k :: nat
    proof -
      have "(k + 3) div 4 * 4 + 7 = ((k + 3) div 4 + 1) * 4 + 3" by simp
      also have "\<dots> div 8 = ((k + 3) div 4 + 1) div 2" by simp
      also have "\<dots> = (k + 3 + 4) div 4 div 2" by simp
      also have "\<dots> = (k + 7) div 8" by (simp add: div_mult2_eq [symmetric])
      finally show ?thesis .
    qed
    moreover have "32 \<le> (unat osz + 3) div 4 * 4" using False by simp
    ultimately show ?thesis using False by (simp add: max_absorb2)
  qed
  then show "room L (unat (ALIGN osz 4)) \<longleftrightarrow> room L (unat osz)" by (simp add: room_def u)
qed

lemma find_block_room:
  assumes inv: "xv_inv L F s" and osz: "1 \<le> unat osz" "unat osz \<le> 4092"
  shows "room L (unat osz) \<Longrightarrow> \<exists>k. first_list F (unat (get_index (ALIGN osz 4))) k \<and>
           find_block s (ALIGN osz 4) pg off = (k, head_of s k)"
    and "\<not> room L (unat osz) \<Longrightarrow> find_block s (ALIGN osz 4) pg off = (0, pg, off)"
  using find_block_outcome[OF xv_invD(1)[OF inv] ALIGN4_room(2)[OF osz], of pg off]
    room_lists[OF inv ALIGN4_room(2)[OF osz]] ALIGN4_room(1)[OF osz, of L]
  by (auto simp: first_list_def)

lemma round_up_8_top: "(max 32 n + 7) div 8 * 8 \<le> 4092 \<longleftrightarrow> n \<le> (4088 :: nat)"
proof -
  have "k * 8 \<le> 4092 \<longleftrightarrow> k < 512" for k :: nat by auto
  then have "(max 32 n + 7) div 8 * 8 \<le> 4092 \<longleftrightarrow> (max 32 n + 7) div 8 < 512" .
  also have "\<dots> \<longleftrightarrow> n \<le> 4088" by (auto simp: div_less_iff_less_mult max_def)
  finally show ?thesis .
qed

lemma room_fresh_page:
  assumes "p \<notin> dom L"
  shows "room (L(p \<mapsto> [Free 4092])) n \<longleftrightarrow> room L n \<or> n \<le> 4088"
proof -
  have none: "blk_at L (p, y) = None" for y using assms by (auto simp: blk_at_def split: option.splits)
  have b: "blk_at (L(p \<mapsto> [Free 4092])) a = Some (Free m) \<longleftrightarrow> (a = (p, 0) \<and> m = 4092) \<or> blk_at L a = Some (Free m)"
    for a m using none[of "snd a"] by (cases a) (auto simp: blk_at_def)
  show ?thesis unfolding room_def b using round_up_8_top[of n] by blast
qed

lemma objs_fresh_page:
  assumes "p \<notin> dom L"
  shows "objs (L(p \<mapsto> [Free 4092])) = objs L"
proof -
  have "objs (L(p \<mapsto> [Free 4092])) (q, y) = objs L (q, y)" for q y
    using assms by (auto simp: objs_def blk_at_def split: option.splits)
  then show ?thesis by (intro ext) (metis surj_pair)
qed

section \<open>The outcomes of an allocation\<close>

lemma size_test:
  "(osz = 0 \<or> osz > 4092) \<longleftrightarrow> \<not> (1 \<le> unat osz \<and> unat (osz :: u32) \<le> 4092)"
  by (auto simp: word_less_nat_alt unat_gt_0 Suc_le_eq)

lemma off_plus_4: "x + 4 < 4096 \<Longrightarrow> unat (of_nat x + 4 :: u32) = x + 4"
  using unat_of_nat_u32[of "x + 4"] by simp

lemma malloc_here:
  assumes inv: "xv_inv L F s" and osz: "1 \<le> unat osz" "unat osz \<le> 4092" and room: "room L (unat osz)"
  obtains p x n k L' F' where
    "xv_malloc newpg nowait osz s = ((0, p, of_nat x + 4), xv_split k p (of_nat x) (ALIGN osz 4) osz s)"
    "blk_at L (p, x) = Some (Free n)" "(max 32 (unat osz) + 7) div 8 * 8 \<le> n"
    "p \<noteq> 0" "x + 4 < 4096" "p \<in> dom L" "head_of s k = (p, of_nat x)"
    "xv_inv L' F' (xv_split k p (of_nat x) (ALIGN osz 4) osz s)" "dom L' = dom L"
    "objs L' = (objs L)((p, x + 4) \<mapsto> unat osz)" "objs L (p, x + 4) = None"
    "kept L (mem s) (mem (xv_split k p (of_nat x) (ALIGN osz 4) osz s))"
    "agree_off (pages_bytes (dom L)) (mem s) (mem (xv_split k p (of_nat x) (ALIGN osz 4) osz s))"
    "find_block s (ALIGN osz 4) 0 0 = (k, p, of_nat x)"
proof -
  obtain k where k: "first_list F (unat (get_index (ALIGN osz 4))) k"
    "find_block s (ALIGN osz 4) 0 0 = (k, head_of s k)"
    using find_block_room(1)[OF inv osz room] by blast
  obtain p x n L' F' where t: "head_of s k = (p, of_nat x)" "p \<noteq> 0" "x + 4 < 4096" "p \<in> dom L"
    "blk_at L (p, x) = Some (Free n)" "(max 32 (unat osz) + 7) div 8 * 8 \<le> n"
    "xv_inv L' F' (xv_split k p (of_nat x) (ALIGN osz 4) osz s)" "dom L' = dom L"
    "objs L' = (objs L)((p, x + 4) \<mapsto> unat osz)" "objs L (p, x + 4) = None"
    "kept L (mem s) (mem (xv_split k p (of_nat x) (ALIGN osz 4) osz s))"
    "agree_off (pages_bytes (dom L)) (mem s) (mem (xv_split k p (of_nat x) (ALIGN osz 4) osz s))"
    by (rule malloc_take[OF inv refl osz k(1)])
  have "\<not> (osz = 0 \<or> osz > 4092)" using size_test osz by blast
  then have "xv_malloc newpg nowait osz s = ((0, p, of_nat x + 4), xv_split k p (of_nat x) (ALIGN osz 4) osz s)"
    using k(2) t(1,2) by (simp add: xv_malloc_def Let_def)
  then show thesis using t k(2) by (intro that[of p x k n L' F']) simp_all
qed

lemma malloc_none:
  assumes inv: "xv_inv L F s" and osz: "1 \<le> unat osz" "unat osz \<le> 4092" and room: "\<not> room L (unat osz)"
  shows "xv_malloc newpg nowait osz s =
    (if nowait \<or> newpg = 0 then ((- ENOMEM, 0, 0), s)
     else let s1 = snd (grow_pool newpg s); (k, p, off) = find_block s1 (ALIGN osz 4) 0 0
          in if p = 0 then ((- ENOMEM, 0, off), s1)
             else ((0, p, off + 4), xv_split k p off (ALIGN osz 4) osz s1))"
proof -
  have "\<not> (osz = 0 \<or> osz > 4092)" using size_test osz by blast
  moreover have "newpg \<noteq> 0 \<Longrightarrow> fst (grow_pool newpg s) = 0" "newpg = 0 \<Longrightarrow> grow_pool newpg s = (- ENOMEM, s)"
    by (simp_all add: grow_pool_def xv_alloc_page_def Let_def)
  ultimately show ?thesis using find_block_room(2)[OF inv osz room, of 0 0]
    by (cases "grow_pool newpg s") (auto simp: xv_malloc_def Let_def split: prod.splits)
qed

section \<open>The layout after an allocation\<close>

lemma kept_refl [simp]: "kept L m m"
  by (simp add: kept_def)

lemma kept_trans: "kept L m m' \<Longrightarrow> objs L' = objs L \<Longrightarrow> kept L' m' m'' \<Longrightarrow> kept L m m''"
  by (simp add: kept_def)

lemma grow_keeps:
  assumes inv: "xv_inv L F s" and new: "p \<noteq> 0" "p \<notin> dom L"
  obtains F' s' where "grow_pool p s = (0, s')" "xv_inv (L(p \<mapsto> [Free 4092])) F' s'"
    "kept L (mem s) (mem s')" "agree_off (pages_bytes (insert p (dom L))) (mem s) (mem s')"
proof -
  obtain F' s' where g: "grow_pool p s = (0, s')" "xv_inv (L(p \<mapsto> [Free 4092])) F' s'"
    "agree_off (link_area (bigs L) \<union> {(q, i). q = p \<and> i < 16}) (mem s) (mem s')"
    using grow_pool_ok[OF inv new] by metis
  have k: "ld_bytes (mem s') (fst a) (snd a) r = ld_bytes (mem s) (fst a) (snd a) r" if "objs L a = Some r" for a r
  proof (rule ld_bytes_cong)
    fix i assume i: "snd a \<le> i" "i < snd a + r"
    have b: "blk_at L (fst a, snd a - 4) = Some (Used r)" "4 \<le> snd a"
      using that by (cases a; simp add: objs_Some)+
    have "(fst a, i) \<notin> link_area (bigs L)"
      using payload_not_linked[OF b(1), of i] i b(2) le_extent_Used[of r] by simp
    moreover have "fst a \<noteq> p" using b(1) new(2) by (auto simp: blk_at_def split: option.splits)
    ultimately show "mem s' (fst a) i = mem s (fst a) i" using g(3) by (simp add: agree_off_def)
  qed
  have "agree_off (pages_bytes (insert p (dom L))) (mem s) (mem s')"
    by (rule agree_off_mono[OF g(3)]) (use link_area_pages[OF inv] in \<open>auto simp: pages_bytes_def\<close>)
  with k g(1,2) show thesis by (intro that keptI)
qed

definition malloc_post :: "layout \<Rightarrow> u32 \<Rightarrow> bool \<Rightarrow> u32 \<Rightarrow> xv_heap \<Rightarrow> (int \<times> u32 \<times> u32) \<Rightarrow> xv_heap \<Rightarrow> layout \<Rightarrow> bool" where
  "malloc_post L newpg nowait osz s r s' L' \<longleftrightarrow> (case r of (e, p, off) \<Rightarrow>
     (dom L' = dom L \<or> dom L' = insert newpg (dom L) \<and> newpg \<noteq> 0) \<and>
     kept L (mem s) (mem s') \<and> agree_off (pages_bytes (dom L')) (mem s) (mem s') \<and>
     (e = 0 \<longleftrightarrow> 1 \<le> unat osz \<and> (unat osz \<le> 4092 \<and> room L (unat osz) \<or>
         unat osz \<le> 4088 \<and> \<not> nowait \<and> newpg \<noteq> 0)) \<and>
     (if e = 0 then dom L' = insert p (dom L) \<and> p \<noteq> 0 \<and> objs L' = (objs L)((p, unat off) \<mapsto> unat osz) \<and> objs L (p, unat off) = None
      else (dom L' = dom L \<or> 4088 < unat osz) \<and> e = - ENOMEM \<and> p = 0 \<and> off = 0 \<and> objs L' = objs L))"

lemma malloc_layout:
  assumes inv: "xv_inv L F s" and new: "newpg \<notin> dom L"
  obtains L' F' r s' where "xv_malloc newpg nowait osz s = (r, s')" "xv_inv L' F' s'"
    "malloc_post L newpg nowait osz s r s' L'"
proof (cases "1 \<le> unat osz \<and> unat osz \<le> 4092")
  case False
  then have "xv_malloc newpg nowait osz s = ((- ENOMEM, 0, 0), s)"
    using size_test[of osz] by (auto simp: xv_malloc_def Let_def)
  with inv False show thesis by (intro that) (auto simp: malloc_post_def)
next
  case True
  then have osz: "1 \<le> unat osz" "unat osz \<le> 4092" by simp_all
  show thesis
  proof (cases "room L (unat osz)")
    case room: True
    obtain p x k L' F' where t:
      "xv_malloc newpg nowait osz s = ((0, p, of_nat x + 4), xv_split k p (of_nat x) (ALIGN osz 4) osz s)"
      "p \<noteq> 0" "x + 4 < 4096" "xv_inv L' F' (xv_split k p (of_nat x) (ALIGN osz 4) osz s)" "dom L' = dom L"
      "objs L' = (objs L)((p, x + 4) \<mapsto> unat osz)" "objs L (p, x + 4) = None"
      "kept L (mem s) (mem (xv_split k p (of_nat x) (ALIGN osz 4) osz s))"
      "agree_off (pages_bytes (dom L)) (mem s) (mem (xv_split k p (of_nat x) (ALIGN osz 4) osz s))" "p \<in> dom L"
      by (rule malloc_here[OF inv osz room, of newpg nowait]; rule that; assumption)
    show thesis
      by (rule that[OF t(1,4)]) (use t osz room off_plus_4[OF t(3)] in \<open>simp add: malloc_post_def insert_absorb\<close>)
  next
    case no: False
    note none = malloc_none[OF inv osz no, of newpg nowait]
    show thesis
    proof (cases "nowait \<or> newpg = 0")
      case True
      then show thesis using none inv no by (intro that) (auto simp: malloc_post_def)
    next
      case False
      then have np: "newpg \<noteq> 0" "\<not> nowait" by simp_all
      obtain F1 s1 where g: "grow_pool newpg s = (0, s1)" "xv_inv (L(newpg \<mapsto> [Free 4092])) F1 s1"
        "kept L (mem s) (mem s1)" "agree_off (pages_bytes (insert newpg (dom L))) (mem s) (mem s1)"
        using grow_keeps[OF inv np(1) new] by metis
      let ?L1 = "L(newpg \<mapsto> [Free 4092])"
      note room1 = room_fresh_page[OF new, of "unat osz"] and ob1 = objs_fresh_page[OF new]
      show thesis
      proof (cases "unat osz \<le> 4088")
        case big: False
        then have "find_block s1 (ALIGN osz 4) 0 0 = (0, 0, 0)"
          using find_block_room(2)[OF g(2) osz] room1 no by simp
        then have "xv_malloc newpg nowait osz s = ((- ENOMEM, 0, 0), s1)" using none np g(1) by simp
        then show thesis
          using g np no ob1 big by (intro that[of _ s1 ?L1 F1]) (auto simp: malloc_post_def)
      next
        case fits: True
        have r1: "room ?L1 (unat osz)" using room1 fits by simp
        obtain p x n k L' F' where t:
          "p \<noteq> 0" "x + 4 < 4096"
          "xv_inv L' F' (xv_split k p (of_nat x) (ALIGN osz 4) osz s1)" "dom L' = dom ?L1"
          "objs L' = (objs ?L1)((p, x + 4) \<mapsto> unat osz)" "objs ?L1 (p, x + 4) = None"
          "kept ?L1 (mem s1) (mem (xv_split k p (of_nat x) (ALIGN osz 4) osz s1))"
          "agree_off (pages_bytes (dom ?L1)) (mem s1) (mem (xv_split k p (of_nat x) (ALIGN osz 4) osz s1))"
          "find_block s1 (ALIGN osz 4) 0 0 = (k, p, of_nat x)"
          "blk_at ?L1 (p, x) = Some (Free n)" "(max 32 (unat osz) + 7) div 8 * 8 \<le> n"
          by (rule malloc_here[OF g(2) osz r1, of newpg nowait]; rule that; assumption)
        let ?s2 = "xv_split k p (of_nat x) (ALIGN osz 4) osz s1"
        have "p = newpg"
        proof (rule ccontr)
          assume "p \<noteq> newpg"
          then have "blk_at L (p, x) = Some (Free n)" using t(10) by (simp add: blk_at_def)
          with t(11) no show False unfolding room_def by blast
        qed
        have res: "xv_malloc newpg nowait osz s = ((0, p, of_nat x + 4), ?s2)"
          using none np g(1) t(1,9) by simp
        have "agree_off (pages_bytes (dom L')) (mem s) (mem ?s2)"
          using agree_off_trans[OF g(4)] t(4,8) by simp
        then show thesis
          using t(1,4-6) \<open>p = newpg\<close> np osz no fits ob1 off_plus_4[OF t(2)] kept_trans[OF g(3) ob1 t(7)]
          by (intro that[OF res t(3)]) (simp add: malloc_post_def)
      qed
    qed
  qed
qed

lemma store_kept:
  assumes "kept L m m'" "objs L' = objs L"
  shows "store L' m' = store L m"
  using assms by (auto simp: store_def kept_def fun_eq_iff map_option_case split: option.splits)

lemma store_new:
  assumes "kept L m m'" "objs L' = (objs L)(a \<mapsto> n)" "objs L a = None"
  shows "store L' m' = (store L m)(a \<mapsto> ld_bytes m' (fst a) (snd a) n)" and "store L m a = None"
  using assms by (auto simp: store_def kept_def fun_eq_iff map_option_case split: option.splits)

section \<open>The pool after creation\<close>

lemma xv_inv_create: "xv_inv Map.empty (\<lambda>_. []) (xv_create_pool m)"
proof -
  have "replicate 16 (0 :: u32) ! i = 0" if "i < 16" for i using that by simp
  moreover have "blk_at Map.empty a = None" for a by (simp add: blk_at_def)
  ultimately show ?thesis
    by (auto simp: xv_inv_def lists_ok_def bitmaps_ok_def ghost_ok_def members_def headptr_def
        xv_create_pool_def big_free_def)
qed

lemma create_rep: "xv_rep {} Map.empty (xv_create_pool m)"
proof -
  have "objs Map.empty = Map.empty" by (auto simp: objs_def blk_at_def)
  then have "store Map.empty m' = Map.empty" for m' by (auto simp: store_def)
  then show ?thesis using xv_repI[OF xv_inv_create[of m]] by simp
qed

section \<open>Refinement of the abstract store\<close>

lemma malloc_rep:
  assumes "xv_rep P S s" and "newpg \<notin> P" and "xv_malloc newpg nowait sz s = ((e, p, off), s')"
  shows "\<exists>P' \<in> {P, insert newpg P}.
        if e = 0 then P' = insert p P \<and> p \<noteq> 0 \<and> S (p, unat off) = None \<and>
          (\<exists>bs. length bs = unat sz \<and> xv_rep P' (S((p, unat off) \<mapsto> bs)) s')
        else (P' = P \<or> 4088 < unat sz) \<and> e = - ENOMEM \<and> p = 0 \<and> off = 0 \<and> xv_rep P' S s'"
    and "q \<notin> insert newpg P \<Longrightarrow> mem s' q = mem s q"
proof -
  from assms(1) obtain L F where L: "xv_inv L F s" "dom L = P" "store L (mem s) = S"
    by (auto simp: xv_rep_def)
  obtain L' F' where r: "xv_inv L' F' s'" "malloc_post L newpg nowait sz s (e, p, off) s' L'"
    using malloc_layout[OF L(1)] assms(2,3) L(2) by (metis prod.inject)
  have d: "dom L' \<in> {P, insert newpg P}" using r(2) L(2) by (auto simp: malloc_post_def)
  have ag: "agree_off (pages_bytes (dom L')) (mem s) (mem s')" using r(2) by (simp add: malloc_post_def)
  show "q \<notin> insert newpg P \<Longrightarrow> mem s' q = mem s q"
    using ag d by (intro ext) (auto simp: agree_off_def pages_bytes_def)
  show "\<exists>P' \<in> {P, insert newpg P}.
        if e = 0 then P' = insert p P \<and> p \<noteq> 0 \<and> S (p, unat off) = None \<and>
          (\<exists>bs. length bs = unat sz \<and> xv_rep P' (S((p, unat off) \<mapsto> bs)) s')
        else (P' = P \<or> 4088 < unat sz) \<and> e = - ENOMEM \<and> p = 0 \<and> off = 0 \<and> xv_rep P' S s'"
  proof (cases "e = 0")
    case True
    then have "kept L (mem s) (mem s')" "objs L' = (objs L)((p, unat off) \<mapsto> unat sz)"
      "objs L (p, unat off) = None" "p \<noteq> 0" "dom L' = insert p P" using r(2) L(2) by (simp_all add: malloc_post_def)
    with store_new[OF this(1-3)] xv_repI[OF r(1)] L(3) d show ?thesis
      by (simp add: True) (metis length_ld_bytes)
  next
    case False
    then have "store L' (mem s') = S" "e = - ENOMEM" "p = 0" "off = 0" "dom L' = P \<or> 4088 < unat sz"
      using r(2) store_kept[of L "mem s" "mem s'" L'] L(2,3) by (simp_all add: malloc_post_def)
    with xv_repI[OF r(1)] d False show ?thesis by auto
  qed
qed

text \<open>
  C2: \<^verbatim>\<open>xv_malloc\<close> either returns 0 and the handle of a new object of exactly the requested
  size, every other object keeping its bytes, or returns \<^verbatim>\<open>-ENOMEM\<close> with both out-parameters
  0 and the same objects. At most the one new page is added to the pool.
\<close>

theorem xv_malloc_refines:
  assumes "xv_rep P S s" and "newpg \<notin> P"
  shows "case xv_malloc newpg nowait sz s of ((e, p, off), s') \<Rightarrow>
    \<exists>P' \<in> {P, insert newpg P}.
      if e = 0
      then P' = insert p P \<and> p \<noteq> 0 \<and> S (p, unat off) = None \<and>
        (\<exists>bs. length bs = unat sz \<and> xv_rep P' (S((p, unat off) \<mapsto> bs)) s')
      else (P' = P \<or> 4088 < unat sz) \<and> e = - ENOMEM \<and> p = 0 \<and> off = 0 \<and> xv_rep P' S s'"
proof -
  obtain e p off s' where r: "xv_malloc newpg nowait sz s = ((e, p, off), s')"
    by (metis prod.collapse)
  show ?thesis using malloc_rep(1)[OF assms r] by (simp add: r)
qed

theorem xv_malloc_refines_witness:
  "case xv_malloc 7 False 100 (xv_create_pool (\<lambda>_ _. 0)) of ((e, p, off), s') \<Rightarrow>
    \<exists>P' \<in> {{}, {7}}.
      if e = 0
      then p \<noteq> 0 \<and> (\<exists>bs. length bs = 100 \<and> xv_rep P' [(p, unat off) \<mapsto> bs] s')
      else e = - ENOMEM \<and> p = 0 \<and> off = 0 \<and> xv_rep P' Map.empty s'"
  using xv_malloc_refines[OF create_rep[of "\<lambda>_ _. 0"], where newpg = 7 and nowait = False and sz = 100]
  by (auto simp: case_prod_beta split: if_splits)

text \<open>
  C4: exactly when an allocation succeeds. On a pool with layout \<open>L\<close> \<^verbatim>\<open>xv_malloc\<close> returns 0 if
  and only if the size is at least 1 and either some free block has the size, rounded up to
  the next size class, or a new page can be had and the size is at most 4088.
\<close>

theorem xv_malloc_success:
  assumes "xv_inv L F s" and "newpg \<notin> dom L"
  shows "fst (fst (xv_malloc newpg nowait sz s)) = 0 \<longleftrightarrow>
    1 \<le> unat sz \<and> (unat sz \<le> 4092 \<and> room L (unat sz) \<or> unat sz \<le> 4088 \<and> \<not> nowait \<and> newpg \<noteq> 0)"
proof -
  obtain L' F' r s' where r: "xv_malloc newpg nowait sz s = (r, s')"
    "malloc_post L newpg nowait sz s r s' L'"
    using malloc_layout[OF assms] by metis
  then show ?thesis by (cases r) (simp add: malloc_post_def)
qed

theorem xv_malloc_success_witness:
  "fst (fst (xv_malloc 7 False 4088 (xv_create_pool (\<lambda>_ _. 0)))) = 0 \<and>
   fst (fst (xv_malloc 7 False 4089 (xv_create_pool (\<lambda>_ _. 0)))) \<noteq> 0"
proof -
  have "\<not> room Map.empty n" for n by (simp add: room_def blk_at_def)
  then show ?thesis
    using xv_malloc_success[OF xv_inv_create, where newpg = 7 and nowait = False and sz = 4088]
      xv_malloc_success[OF xv_inv_create, where newpg = 7 and nowait = False and sz = 4089] by simp
qed

lemma no_room_above_4088:
  assumes "xv_inv L F s" "4088 < n"
  shows "\<not> room L n"
proof
  assume "room L n"
  then obtain p x m where m: "blk_at L (p, x) = Some (Free m)" "(max 32 n + 7) div 8 * 8 \<le> m"
    by (auto simp: room_def)
  have "m \<le> 4092" using blk_at_bounds(4)[OF assms(1) m(1)] by simp
  with m(2) have "(max 32 n + 7) div 8 * 8 \<le> 4092" by linarith
  with assms(2) round_up_8_top[of n] show False by linarith
qed

text \<open>
  C8: the sizes 4089 to 4092, which \<^verbatim>\<open>XV_MAX_ALLOC_SIZE\<close> admits, can never be allocated,
  whatever the state of the pool: the search starts at list 508, one past the last.
\<close>

theorem xv_malloc_top_sizes_fail:
  assumes "xv_rep P S s" and "newpg \<notin> P" and "4088 < unat sz"
  shows "fst (xv_malloc newpg nowait sz s) = (- ENOMEM, 0, 0)"
proof -
  from assms(1) obtain L F where L: "xv_inv L F s" "dom L = P" by (auto simp: xv_rep_def)
  obtain L' F' r s' where r: "xv_malloc newpg nowait sz s = (r, s')"
    "malloc_post L newpg nowait sz s r s' L'"
    using malloc_layout[OF L(1)] assms(2) L(2) by metis
  with no_room_above_4088[OF L(1) assms(3)] assms(3) show ?thesis
    by (cases r) (simp add: malloc_post_def)
qed

theorem xv_malloc_top_sizes_fail_witness:
  "fst (xv_malloc 7 False 4092 (xv_create_pool (\<lambda>_ _. 0))) = (- ENOMEM, 0, 0)"
  using xv_malloc_top_sizes_fail[OF create_rep[of "\<lambda>_ _. 0"], where newpg = 7 and sz = 4092] by simp

text \<open>
  C5: memory safety of \<^verbatim>\<open>xv_malloc\<close>. No byte outside the pages of the pool (and the page it
  may add) is written, and in those pages no byte at or beyond \<^verbatim>\<open>PAGE_SIZE\<close>.
\<close>

theorem xv_malloc_in_pages:
  assumes "xv_rep P S s" and "newpg \<notin> P" and "q \<notin> insert newpg P \<or> PAGE_SIZE \<le> i"
  shows "mem (snd (xv_malloc newpg nowait sz s)) q i = mem s q i"
proof -
  from assms(1) obtain L F where L: "xv_inv L F s" "dom L = P" by (auto simp: xv_rep_def)
  obtain L' F' r s' where r: "xv_malloc newpg nowait sz s = (r, s')"
    "malloc_post L newpg nowait sz s r s' L'"
    using malloc_layout[OF L(1)] assms(2) L(2) by metis
  then have "agree_off (pages_bytes (dom L')) (mem s) (mem s')" "dom L' = P \<or> dom L' = insert newpg P"
    using L(2) by (cases r; auto simp: malloc_post_def)+
  then show ?thesis using assms(3) by (auto simp: r(1) agree_off_def pages_bytes_def)
qed

theorem xv_malloc_in_pages_witness:
  "mem (snd (xv_malloc 7 False 100 (xv_create_pool (\<lambda>_ _. 0)))) 7 4096 = 0"
  using xv_malloc_in_pages[OF create_rep[of "\<lambda>_ _. 0"],
      where newpg = 7 and q = 7 and i = 4096 and nowait = False and sz = 100]
  by (simp add: xv_create_pool_def)

end
