(* ===== verification/Xv_Free.thy ===== *)
theory Xv_Free
  imports Xv_Malloc
begin

text \<open>
  \<^verbatim>\<open>xv_free\<close>: the block is merged with its free neighbours, and its page is given back when
  nothing is left in it. The stages of the C function are followed one by one; \<open>A\<close> and \<open>C\<close>
  are the free neighbours before and after the block, each a list of at most one block.
\<close>

unbundle bit_operations_syntax

section \<open>Taking a free neighbour off its list\<close>

lemma unlink:
  assumes ok: "lists_ok F s" and b: "unat (block_size (mem s) p y) = b" "b \<le> 4092"
    and mem: "32 \<le> b \<longleftrightarrow> (p, y) \<in> members F" "32 \<le> b \<Longrightarrow> (p, y) \<in> set (F (class_of b))"
  defines "s' \<equiv> (if ucast (block_size (mem s) p y) \<ge> (32 :: u32)
      then remove_block p (of_nat y) (unat (get_index_for_insert (ucast (block_size (mem s) p y)))) s else s)"
  shows "\<exists>F'. lists_ok F' s' \<and> (\<forall>i a. a \<in> set (F' i) \<longleftrightarrow> a \<in> set (F i) \<and> a \<noteq> (p, y)) \<and>
    agree_off (link_area (members F)) (mem s) (mem s') \<and> total_pages s' = total_pages s"
proof (cases "32 \<le> b")
  case True
  let ?k = "class_of b"
  have "ucast (block_size (mem s) p y) \<ge> (32 :: u32)" using True b(1) by (simp add: word_le_nat_alt)
  moreover have "unat (get_index_for_insert (ucast (block_size (mem s) p y))) = ?k"
    using get_index_for_insert_class[of "ucast (block_size (mem s) p y)"] True b by simp
  ultimately have s': "s' = remove_block p (of_nat y) ?k s" by (simp add: s'_def)
  note r = remove_block_ok[OF ok class_of_bound[OF b(2)] mem(2)[OF True]]
  have "ghost_ok F" using ok by (simp add: lists_ok_def)
  note sr = set_remove_list[OF this mem(2)[OF True]]
  show ?thesis unfolding s' using r sr by blast
next
  case False
  then have "\<not> ucast (block_size (mem s) p y) \<ge> (32 :: u32)" using b(1) by (simp add: word_le_nat_alt)
  then have s': "s' = s" by (simp add: s'_def)
  have "(p, y) \<notin> members F" using False mem(1) by simp
  then have "a \<in> set (F i) \<longleftrightarrow> a \<in> set (F i) \<and> a \<noteq> (p, y)" for i a
    by (auto simp: members_def)
  then show ?thesis using ok unfolding s' by (intro exI[of _ F]) simp
qed

section \<open>The states between the stages\<close>

text \<open>
  Between the stages the lists hold the free blocks outside the run that is being merged, and
  only bytes of that run, of the header after it and of links have changed.
\<close>

definition merging :: "layout \<Rightarrow> pmem \<Rightarrow> u64 \<Rightarrow> u32 \<Rightarrow> nat \<Rightarrow> nat \<Rightarrow> addr set \<Rightarrow> (nat \<Rightarrow> addr list) \<Rightarrow> xv_heap \<Rightarrow> bool" where
  "merging L m0 tp p e1 e2 G F s \<longleftrightarrow> lists_ok F s \<and>
     (\<forall>i a. a \<in> set (F i) \<longleftrightarrow> big_free L i a \<and> a \<notin> G) \<and>
     agree_off (link_area (bigs L) \<union> {(q, i). q = p \<and> e1 \<le> i \<and> i < e2}) m0 (mem s) \<and>
     total_pages s = tp"

lemma mergingD:
  assumes "merging L m0 tp p e1 e2 G F s"
  shows "lists_ok F s" and "a \<in> set (F i) \<longleftrightarrow> big_free L i a \<and> a \<notin> G"
    and "agree_off (link_area (bigs L) \<union> {(q, i). q = p \<and> e1 \<le> i \<and> i < e2}) m0 (mem s)"
    and "total_pages s = tp"
  using assms unfolding merging_def by blast+

lemma merging_members: "merging L m0 tp p e1 e2 G F s \<Longrightarrow> members F = bigs L - G"
  by (auto simp: merging_def members_def bigs_def)

lemma merging_header:
  assumes "merging L m0 tp p e1 e2 G F s" "blk_at L (p, y) = Some b" "y + 4 \<le> e1 \<or> e2 \<le> y"
  shows "block_size (mem s) p y = block_size m0 p y" "block_prev (mem s) p y = block_prev m0 p y"
proof -
  have ag: "agree_off (link_area (bigs L) \<union> {(q, i). q = p \<and> e1 \<le> i \<and> i < e2}) m0 (mem s)"
    using assms(1) by (simp add: merging_def)
  have out: "(p, i) \<notin> link_area (bigs L) \<union> {(q, i). q = p \<and> e1 \<le> i \<and> i < e2}"
    if "y \<le> i" "i < y + 4" for i using header_not_linked[OF assms(2) that] that assms(3) by auto
  show "block_size (mem s) p y = block_size m0 p y" "block_prev (mem s) p y = block_prev m0 p y"
    using header_agree[OF ag out] by simp_all
qed

text \<open>A write to a header of the run that is not on a list.\<close>

lemma merging_write:
  assumes m: "merging L m0 tp p e1 e2 G F s" and ag: "agree_off (hdr_bytes p x) (mem s) m'"
    and x: "e1 \<le> x" "x + 4 \<le> e2" and bx: "blk_at L (p, x) = Some b"
  shows "merging L m0 tp p e1 e2 G F (s\<lparr>mem := m'\<rparr>)"
proof -
  have "lists_ok F (s\<lparr>mem := m'\<rparr>)"
  proof (rule lists_ok_mem[OF _ ag])
    show "lists_ok F s" using m by (simp add: merging_def)
    fix a i assume a: "a \<in> members F" "snd a + 4 \<le> i" "i < snd a + 16"
    have ab: "a \<in> bigs L" using a(1) merging_members[OF m] by simp
    have "(p, i) \<notin> link_area (bigs L)" if "x \<le> i" "i < x + 4"
      using header_not_linked[OF bx that] .
    then show "(fst a, i) \<notin> hdr_bytes p x"
      using a ab by (cases a) (auto simp: hdr_bytes_def link_area_def)
  qed simp_all
  moreover have "agree_off (link_area (bigs L) \<union> {(q, i). q = p \<and> e1 \<le> i \<and> i < e2}) (mem s) m'"
    by (rule agree_off_mono[OF ag]) (use x in \<open>auto simp: hdr_bytes_def\<close>)
  ultimately show ?thesis
    using m agree_off_trans by (simp add: merging_def) blast
qed

text \<open>A free neighbour leaves the lists.\<close>

lemma merging_unlink:
  assumes inv: "xv_inv L F0 s0" and m: "merging L (mem s0) tp p e1 e2 G F s"
    and y: "blk_at L (p, y) = Some (Free b)" "(p, y) \<notin> G"
    and bs: "unat (block_size (mem s) p y) = b"
  defines "s' \<equiv> (if ucast (block_size (mem s) p y) \<ge> (32 :: u32)
      then remove_block p (of_nat y) (unat (get_index_for_insert (ucast (block_size (mem s) p y)))) s else s)"
  obtains F' where "merging L (mem s0) tp p e1 e2 (insert (p, y) G) F' s'"
    and "agree_off (link_area (bigs L)) (mem s) (mem s')"
proof -
  have b: "b \<le> 4092" using blk_at_bounds(4)[OF inv y(1)] by simp
  have in_iff: "(p, y) \<in> members F \<longleftrightarrow> 32 \<le> b" and in_cls: "32 \<le> b \<Longrightarrow> (p, y) \<in> set (F (class_of b))"
    using merging_members[OF m] y m by (auto simp: bigs_def big_free_def merging_def)
  obtain F' where F': "lists_ok F' s'" "\<forall>i a. a \<in> set (F' i) \<longleftrightarrow> a \<in> set (F i) \<and> a \<noteq> (p, y)"
    "agree_off (link_area (members F)) (mem s) (mem s')" "total_pages s' = total_pages s"
    using unlink[of F s p y b, OF _ bs b in_iff[symmetric] in_cls] m
    unfolding s'_def merging_def by blast
  have ag: "agree_off (link_area (bigs L)) (mem s) (mem s')"
    by (rule agree_off_mono[OF F'(3)]) (use merging_members[OF m] in \<open>auto simp: link_area_def\<close>)
  then have "merging L (mem s0) tp p e1 e2 (insert (p, y) G) F' s'"
    using F' m agree_off_trans[OF _ agree_off_mono[OF ag]] by (simp add: merging_def) auto
  with ag show thesis by (rule that[rotated])
qed

section \<open>Merging with the next block\<close>

text \<open>The free neighbours of a used block: \<open>A\<close> before it and \<open>C\<close> after it.\<close>

definition nbrs :: "layout \<Rightarrow> u32 \<Rightarrow> blk list \<Rightarrow> blk list \<Rightarrow> nat \<Rightarrow> blk list \<Rightarrow> blk list \<Rightarrow> bool" where
  "nbrs L p as A r C cs \<longleftrightarrow> L p = Some (as @ A @ [Used r] @ C @ cs) \<and>
     (A = [] \<or> (\<exists>a. A = [Free a])) \<and> (C = [] \<or> (\<exists>b. C = [Free b])) \<and>
     \<not> last_free False as \<and> (cs = [] \<or> \<not> is_free (hd cs))"

lemma split_last_free:
  assumes "chain m p x prv pf as"
  shows "\<exists>as0 A. as = as0 @ A \<and> (A = [] \<or> (\<exists>a. A = [Free a])) \<and> (\<not> pf \<longrightarrow> \<not> last_free pf as0)"
proof (cases as rule: rev_cases)
  case Nil
  then show ?thesis by simp
next
  case (snoc as' b)
  then have c: "\<not> (last_free pf as' \<and> is_free b)" using assms by simp
  show ?thesis
  proof (cases b)
    case (Used n)
    then show ?thesis using snoc by (intro exI[of _ as] exI[of _ "[]"]) simp
  next
    case (Free n)
    then show ?thesis using snoc c by (intro exI[of _ as'] exI[of _ "[Free n]"]) auto
  qed
qed

lemma nbrs_exist:
  assumes inv: "xv_inv L F s" and b: "blk_at L (p, x) = Some (Used r)"
  obtains as A C cs where "nbrs L p as A r C cs" "x = end_of 0 (as @ A)"
proof -
  from b obtain as' cs' where L: "L p = Some (as' @ Used r # cs')" "end_of 0 as' = x" by (rule blk_atD)
  have po: "page_ok (mem s) p (as' @ Used r # cs')" using xv_invD(3)[OF inv, of p, OF L(1)] .
  then have c1: "chain (mem s) p 0 0 False as'" by (simp add: page_ok_def)
  obtain as A where A: "as' = as @ A" "A = [] \<or> (\<exists>a. A = [Free a])" "\<not> last_free False as"
    using split_last_free[OF c1] by auto
  obtain C cs where C: "cs' = C @ cs" "C = [] \<or> (\<exists>b. C = [Free b])" "cs = [] \<or> \<not> is_free (hd cs)"
  proof (cases cs')
    case (Cons c cs'')
    show thesis
    proof (cases c)
      case (Used n) then show thesis using Cons that[of "[]" cs'] by simp
    next
      case (Free n)
      then show thesis using Cons po that[of "[c]" cs''] by (cases cs'') (auto simp: page_ok_def)
    qed
  qed (use that[of "[]" "[]"] in simp)
  show thesis using that[of as A C cs] A C L by (simp add: nbrs_def)
qed

text \<open>What the invariant says about the run and the blocks around it.\<close>

lemma nbrs_facts:
  assumes inv: "xv_inv L F s" and n: "nbrs L p as A r C cs"
  defines "e1 \<equiv> end_of 0 as" and "x \<equiv> end_of 0 (as @ A)" and "y \<equiv> end_of 0 (as @ A @ [Used r])"
    and "e2 \<equiv> end_of 0 (as @ A @ [Used r] @ C)"
  shows "blk_at L (p, x) = Some (Used r)" "y = x + 4 + extent (Used r)" "y \<le> e2" "e2 \<le> 4096" "e1 \<le> x"
    "C = [Free b] \<Longrightarrow> blk_at L (p, y) = Some (Free b) \<and> e2 = y + 4 + b"
    "A = [Free a] \<Longrightarrow> blk_at L (p, e1) = Some (Free a) \<and> x = e1 + 4 + a"
    "cs = [] \<longleftrightarrow> e2 = 4096"
    "cs = c # cs' \<Longrightarrow> blk_at L (p, e2) = Some c"
    "4 dvd x" "4 dvd e1" "4 dvd e2" "1 \<le> r" "r \<le> 4092" "p \<noteq> 0" "4 dvd last_start 0 0 as"
proof -
  have L: "L p = Some (as @ A @ [Used r] @ C @ cs)" using n by (simp add: nbrs_def)
  have po: "page_ok (mem s) p (as @ A @ [Used r] @ C @ cs)" using xv_invD(3)[OF inv, of p, OF L] .
  show bx: "blk_at L (p, x) = Some (Used r)"
    using blk_at_here[of L p "as @ A" "[Used r]" "C @ cs" x] L by (simp add: x_def)
  show "y = x + 4 + extent (Used r)" by (simp add: x_def y_def)
  show "y \<le> e2" unfolding y_def e2_def using end_of_mono[of _ C] by simp
  show "e1 \<le> x" unfolding e1_def x_def using end_of_mono[of _ A] by simp
  show "e2 \<le> 4096" using po end_of_mono[of e2 cs] by (simp add: page_ok_def e2_def)
  show "cs = [] \<longleftrightarrow> e2 = 4096"
    using next_block(1)[of L F s p "as @ A @ [Used r] @ C" "[]" cs, OF inv] L by (simp add: e2_def)
  show "cs = c # cs' \<Longrightarrow> blk_at L (p, e2) = Some c"
    using blk_at_here[of L p "as @ A @ [Used r] @ C" "[c]" cs' e2] L by (simp add: e2_def)
  show "C = [Free b] \<Longrightarrow> blk_at L (p, y) = Some (Free b) \<and> e2 = y + 4 + b"
    using blk_at_here[of L p "as @ A @ [Used r]" "[Free b]" cs y] L by (simp add: y_def e2_def)
  show "A = [Free a] \<Longrightarrow> blk_at L (p, e1) = Some (Free a) \<and> x = e1 + 4 + a"
    using blk_at_here[of L p as "[Free a]" "[Used r] @ C @ cs" e1] L by (simp add: x_def e1_def)
  show "4 dvd x" "1 \<le> r" "r \<le> 4092" "p \<noteq> 0" using blk_at_bounds[OF inv bx] by auto
  have ch: "chain (mem s) p 0 0 False as" "chain (mem s) p 0 0 False (as @ A @ [Used r] @ C)"
    using po by (simp_all add: page_ok_def)
  show "4 dvd e1" "4 dvd last_start 0 0 as"
    using chain_aligned[OF ch(1)] last_start_aligned[OF ch(1)] by (simp_all add: e1_def)
  show "4 dvd e2" using chain_aligned[OF ch(2)] by (simp add: e2_def)
qed

text \<open>Flags read from encoded headers.\<close>

lemma test_flag_enc:
  assumes "block_prev m p y = enc prv fr pf" "4 dvd prv"
  shows "test_flag m p y BLOCK_FREE \<longleftrightarrow> fr" and "test_flag m p y PREV_FREE \<longleftrightarrow> pf"
    and "get_blockprev m p y = ucast (of_nat prv :: u16)"
  using enc_test[OF assms(2), of fr pf] enc_offset[OF assms(2), of fr pf] assms(1)
  by (simp_all add: test_flag_def get_blockprev_def)

text \<open>The headers of the run as the invariant gives them.\<close>

lemma nbrs_headers:
  assumes inv: "xv_inv L F s" and n: "nbrs L p as A r C cs"
  defines "e1 \<equiv> end_of 0 as" and "x \<equiv> end_of 0 (as @ A)" and "y \<equiv> end_of 0 (as @ A @ [Used r])"
    and "e2 \<equiv> end_of 0 (as @ A @ [Used r] @ C)"
  shows "unat (block_size (mem s) p x) = r"
    "block_prev (mem s) p x = enc (last_start 0 0 (as @ A)) False (A \<noteq> [])"
    "C = [Free b] \<Longrightarrow> unat (block_size (mem s) p y) = b \<and> block_prev (mem s) p y = enc x True False"
    "A = [Free a] \<Longrightarrow> unat (block_size (mem s) p e1) = a \<and>
       block_prev (mem s) p e1 = enc (last_start 0 0 as) True False"
    "A = [] \<Longrightarrow> last_start 0 0 (as @ A) = last_start 0 0 as"
    "A = [Free a] \<Longrightarrow> last_start 0 0 (as @ A) = e1"
    "C = [] \<Longrightarrow> cs = c # cs' \<Longrightarrow> block_prev (mem s) p e2 = enc x False False"
    "C = [Free b] \<Longrightarrow> cs = c # cs' \<Longrightarrow> block_prev (mem s) p e2 = enc y False True"
    "cs = c # cs' \<Longrightarrow> \<not> is_free c"
proof -
  have po: "page_ok (mem s) p (as @ A @ [Used r] @ C @ cs)"
    using xv_invD(3)[OF inv, of p "as @ A @ [Used r] @ C @ cs"] n by (simp add: nbrs_def)
  have A: "A = [] \<or> (\<exists>a. A = [Free a])" and la: "\<not> last_free False as"
    and hd: "cs = [] \<or> \<not> is_free (hd cs)" using n by (auto simp: nbrs_def)
  show "unat (block_size (mem s) p x) = r"
    "block_prev (mem s) p x = enc (last_start 0 0 (as @ A)) False (A \<noteq> [])"
    using po A la by (auto simp: page_ok_def x_def)
  show "C = [Free b] \<Longrightarrow> unat (block_size (mem s) p y) = b \<and> block_prev (mem s) p y = enc x True False"
    using po by (simp add: page_ok_def x_def y_def)
  show "A = [Free a] \<Longrightarrow> unat (block_size (mem s) p e1) = a \<and>
       block_prev (mem s) p e1 = enc (last_start 0 0 as) True False"
    using po la by (simp add: page_ok_def e1_def)
  show "A = [] \<Longrightarrow> last_start 0 0 (as @ A) = last_start 0 0 as"
    "A = [Free a] \<Longrightarrow> last_start 0 0 (as @ A) = e1" by (simp_all add: e1_def)
  show "C = [] \<Longrightarrow> cs = c # cs' \<Longrightarrow> block_prev (mem s) p e2 = enc x False False"
    "C = [Free b] \<Longrightarrow> cs = c # cs' \<Longrightarrow> block_prev (mem s) p e2 = enc y False True"
    "cs = c # cs' \<Longrightarrow> \<not> is_free c"
    using po hd by (simp_all add: page_ok_def x_def y_def e2_def)
qed

lemma page_end_test:
  assumes "z \<le> 4096"
  shows "(of_nat z :: u32) \<noteq> of_nat 4096 \<longleftrightarrow> z \<noteq> 4096"
proof -
  have "unat (of_nat z :: u32) = z" by (rule unat_of_nat_u32) (use assms in simp)
  then show ?thesis by (auto simp: word_eq_unat)
qed

lemma word_u16_of_nat: "unat w = n \<Longrightarrow> w = (of_nat n :: u16)"
  by auto

lemma merge_next_ok:
  assumes inv: "xv_inv L F s" and n: "nbrs L p as A r C cs"
  defines "e1 \<equiv> end_of 0 as" and "x \<equiv> end_of 0 (as @ A)" and "e2 \<equiv> end_of 0 (as @ A @ [Used r] @ C)"
  defines "s1 \<equiv> s\<lparr>mem := set_block_size p x (ucast (ALIGN (ucast (block_size (mem s) p x)) 4)) (mem s)\<rparr>"
  obtains G F' where
    "merging L (mem s) (total_pages s) p e1 e2 G F' (xv_merge_next p (of_nat x) s1)"
    "block_size (mem (xv_merge_next p (of_nat x) s1)) p x = of_nat (e2 - x - 4)"
    "agree_off (link_area (bigs L) \<union> hdr_bytes p x) (mem s) (mem (xv_merge_next p (of_nat x) s1))"
    "block_prev (mem (xv_merge_next p (of_nat x) s1)) p x = block_prev (mem s) p x"
    "G = (if C = [] then {} else {(p, x + 4 + extent (Used r))})"
proof -
  note f = nbrs_facts[OF inv n, folded e1_def x_def e2_def]
  note h = nbrs_headers[OF inv n, folded e1_def x_def e2_def]
  let ?S = "extent (Used r)" and ?y = "x + 4 + extent (Used r)"
  have y: "end_of 0 (as @ A @ [Used r]) = ?y" by (rule f(2))
  have bnd: "?y \<le> e2" "e2 \<le> 4096" "?S \<le> 4096" using f(2,3,4) y by simp_all
  have al: "unat (ALIGN (ucast (block_size (mem s) p x)) 4) = ?S"
    using h(1) f(14) by (simp add: unat_ALIGN4)
  have sz1: "unat (block_size (mem s1) p x) = ?S"
    using al bnd(3) by (simp add: s1_def header unat_ucast_32_16)
  have pr1: "block_prev (mem s1) p x = block_prev (mem s) p x" by (simp add: s1_def header)
  have ag1: "agree_off (hdr_bytes p x) (mem s) (mem s1)" by (simp add: s1_def agree_header)
  have m0: "merging L (mem s) (total_pages s) p e1 e2 {} F s"
    using xv_invD[OF inv] by (simp add: merging_def)
  have m1: "merging L (mem s) (total_pages s) p e1 e2 {} F s1"
    unfolding s1_def by (rule merging_write[OF m0 agree_header(1) f(5) _ f(1)]) (use bnd in simp)
  have of_y: "of_nat x + ucast (block_size (mem s1) p x) + 4 = (of_nat ?y :: u32)"
  proof -
    have "ucast (block_size (mem s1) p x) = (of_nat ?S :: u32)"
      using sz1 bnd(3) unat_of_nat_u32[of ?S] by (simp add: word_eq_unat del: extent.simps)
    then show ?thesis by (simp add: ac_simps del: extent.simps)
  qed
  have nxt: "BLOCK_NEXT (mem s1) p x = ?y" using sz1 by (simp add: BLOCK_NEXT_def)
  have ux: "unat (of_nat x :: u32) = x" by (rule unat_of_nat_u32) (use bnd in simp)
  have "?y \<le> 4096" using bnd by simp
  note pt = page_end_test[OF this]
  note hk = header_other[OF ag1, of p ?y]
  show thesis
  proof (cases "C = []")
    case True
    then have e2y: "e2 = ?y" using y by (simp add: e2_def)
    have tst: "\<not> (?y \<noteq> 4096 \<and> test_flag (mem s1) p ?y BLOCK_FREE)"
    proof (cases cs)
      case (Cons c cs')
      have "block_prev (mem s1) p ?y = enc x False False" using h(7)[OF True Cons] hk e2y by simp
      from test_flag_enc(1)[OF this f(10)] show ?thesis by simp
    qed (use f(8) e2y in simp)
    have "xv_merge_next p (of_nat x) s1 = s1"
      unfolding xv_merge_next_def Let_def ux of_y nxt pt using tst by (simp only: if_False)
    then show thesis
      using True m1 sz1 e2y pr1 agree_off_mono[OF ag1, of "link_area (bigs L) \<union> hdr_bytes p x"]
      by (intro that[of "{}" F]) (auto simp: word_u16_of_nat simp del: extent.simps)
  next
    case False
    then obtain b where C: "C = [Free b]" using n by (auto simp: nbrs_def)
    note fb = conjunct1[OF f(6)[OF C, unfolded y]] conjunct2[OF f(6)[OF C, unfolded y]]
    note hb = h(3)[OF C, unfolded y]
    have hy: "unat (block_size (mem s1) p ?y) = b" "block_prev (mem s1) p ?y = enc x True False"
      using hb hk by simp_all
    have tst: "test_flag (mem s1) p ?y BLOCK_FREE" using test_flag_enc(1)[OF hy(2) f(10)] by simp
    have ne: "?y \<noteq> 4096" using fb(2) bnd by simp
    let ?s2 = "if ucast (block_size (mem s1) p ?y) \<ge> (32 :: u32)
      then remove_block p (of_nat ?y) (unat (get_index_for_insert (ucast (block_size (mem s1) p ?y)))) s1 else s1"
    obtain F' where u: "merging L (mem s) (total_pages s) p e1 e2 (insert (p, ?y) {}) F' ?s2"
      "agree_off (link_area (bigs L)) (mem s1) (mem ?s2)"
      by (rule merging_unlink[OF inv m1 fb(1) _ hy(1)]) auto
    let ?m3 = "set_block_size p x (block_size (mem ?s2) p x + (block_size (mem ?s2) p ?y + ucast (4 :: u32))) (mem ?s2)"
    have mn: "xv_merge_next p (of_nat x) s1 = ?s2\<lparr>mem := ?m3\<rparr>"
      unfolding xv_merge_next_def Let_def ux of_y nxt pt using tst ne by (simp only: if_True simp_thms)
    have hx: "block_size (mem ?s2) p x = block_size (mem s1) p x" "block_prev (mem ?s2) p x = block_prev (mem s1) p x"
      "block_size (mem ?s2) p ?y = block_size (mem s1) p ?y"
      using header_agree[OF u(2), of x p] header_agree[OF u(2), of ?y p]
        header_not_linked[OF f(1)] header_not_linked[OF fb(1)] by simp_all
    show thesis
    proof (rule that)
      show "merging L (mem s) (total_pages s) p e1 e2 (insert (p, ?y) {}) F' (xv_merge_next p (of_nat x) s1)"
        unfolding mn by (rule merging_write[OF u(1) agree_header(1) f(5) _ f(1)]) (use bnd in simp)
      show "block_size (mem (xv_merge_next p (of_nat x) s1)) p x = of_nat (e2 - x - 4)"
        using fb(2) hx sz1 hy(1) bnd
        by (simp add: mn header word_eq_unat unat_add_lt unat_of_nat_u16 del: extent.simps)
      show "block_prev (mem (xv_merge_next p (of_nat x) s1)) p x = block_prev (mem s) p x"
        using hx pr1 by (simp add: mn header)
      show "agree_off (link_area (bigs L) \<union> hdr_bytes p x) (mem s) (mem (xv_merge_next p (of_nat x) s1))"
      proof -
        have "agree_off (link_area (bigs L) \<union> hdr_bytes p x) (mem s) (mem s1)"
          by (rule agree_off_mono[OF ag1]) simp
        moreover have "agree_off (link_area (bigs L) \<union> hdr_bytes p x) (mem s1) (mem ?s2)"
          by (rule agree_off_mono[OF u(2)]) simp
        moreover have "agree_off (link_area (bigs L) \<union> hdr_bytes p x) (mem ?s2) ?m3"
          by (rule agree_off_mono[OF agree_header(1)]) simp
        ultimately have "agree_off (link_area (bigs L) \<union> hdr_bytes p x) (mem s) ?m3"
          using agree_off_trans by blast
        then show ?thesis unfolding mn by simp
      qed
    qed (use C in simp)
  qed
qed

section \<open>Merging with the previous block\<close>

lemma merge_prev_ok:
  assumes inv: "xv_inv L F0 s" and n: "nbrs L p as A r C cs"
  defines "e1 \<equiv> end_of 0 as" and "x \<equiv> end_of 0 (as @ A)" and "e2 \<equiv> end_of 0 (as @ A @ [Used r] @ C)"
  assumes m: "merging L (mem s) tp p e1 e2 G F s2"
    and sz: "block_size (mem s2) p x = of_nat (e2 - x - 4)"
    and pr: "block_prev (mem s2) p x = block_prev (mem s) p x"
    and ag: "agree_off (link_area (bigs L) \<union> hdr_bytes p x) (mem s) (mem s2)"
    and G: "A \<noteq> [] \<Longrightarrow> (p, e1) \<notin> G"
  obtains F' s3 where "xv_merge_prev p (of_nat x) s2 = (of_nat e1, e1, s3)"
    "merging L (mem s) tp p e1 e2 (if A = [] then G else insert (p, e1) G) F' s3"
    "block_size (mem s3) p e1 = of_nat (e2 - e1 - 4)"
    "block_prev (mem s3) p e1 = enc (last_start 0 0 as) (A \<noteq> []) False"
proof -
  note f = nbrs_facts[OF inv n, folded e1_def x_def e2_def]
  note h = nbrs_headers[OF inv n, folded e1_def x_def e2_def]
  have xb: "x + 4 \<le> e2" "e2 \<le> 4096" using f(2,3,4) by simp_all
  have ux: "unat (of_nat x :: u32) = x" by (rule unat_of_nat_u32) (use xb in simp)
  have prx: "block_prev (mem s2) p x = enc (last_start 0 0 (as @ A)) False (A \<noteq> [])" using pr h(2) by simp
  show thesis
  proof (cases "A = []")
    case True
    then have "e1 = x" by (simp add: e1_def x_def)
    moreover have "\<not> test_flag (mem s2) p x PREV_FREE"
      using test_flag_enc(2)[OF prx] True f(16) by simp
    ultimately show thesis
      using True sz prx m by (intro that[of s2 F]) (simp_all add: xv_merge_prev_def Let_def ux)
  next
    case False
    then obtain a where A: "A = [Free a]" using n by (auto simp: nbrs_def)
    note fa = conjunct1[OF f(7)[OF A]] conjunct2[OF f(7)[OF A]]
    have ls: "last_start 0 0 (as @ A) = e1" by (rule h(6)[OF A])
    have tst: "test_flag (mem s2) p x PREV_FREE" "get_blockprev (mem s2) p x = ucast (of_nat e1 :: u16)"
      using test_flag_enc(2,3)[OF prx[unfolded ls] f(11)] False by simp_all
    have e1: "e1 < 65536" using fa(2) xb by simp
    then have gb: "unat (get_blockprev (mem s2) p x) = e1" using tst(2) by (simp add: unat_of_nat_u16)
    have out: "(p, i) \<notin> link_area (bigs L) \<union> hdr_bytes p x" if "e1 \<le> i" "i < e1 + 4" for i
      using header_not_linked[OF fa(1) that] that fa(2) by (auto simp: hdr_bytes_def)
    have ha: "unat (block_size (mem s2) p e1) = a" "block_prev (mem s2) p e1 = enc (last_start 0 0 as) True False"
      using header_agree[OF ag out] h(4)[OF A] by simp_all
    have off: "of_nat x - ucast (block_size (mem s2) p e1) - 4 = (of_nat e1 :: u32)"
    proof -
      have "ucast (block_size (mem s2) p e1) = (of_nat a :: u32)"
        using ha(1) fa(2) xb unat_of_nat_u32[of a] by (simp add: word_eq_unat)
      then show ?thesis by (simp add: fa(2))
    qed
    let ?s3 = "if ucast (block_size (mem s2) p e1) \<ge> (32 :: u32)
      then remove_block p (of_nat e1) (unat (get_index_for_insert (ucast (block_size (mem s2) p e1)))) s2 else s2"
    obtain F' where u: "merging L (mem s) tp p e1 e2 (insert (p, e1) G) F' ?s3"
      "agree_off (link_area (bigs L)) (mem s2) (mem ?s3)"
      by (rule merging_unlink[OF inv m fa(1) G[OF False] ha(1)]) auto
    let ?m = "set_block_size p e1 (block_size (mem ?s3) p e1 + (block_size (mem ?s3) p x + ucast (4 :: u32))) (mem ?s3)"
    have mp: "xv_merge_prev p (of_nat x) s2 = (of_nat e1, e1, ?s3\<lparr>mem := ?m\<rparr>)"
      unfolding xv_merge_prev_def Let_def ux gb off using tst(1) by (simp only: if_True)
    have hx: "block_size (mem ?s3) p x = block_size (mem s2) p x"
      "block_size (mem ?s3) p e1 = block_size (mem s2) p e1" "block_prev (mem ?s3) p e1 = block_prev (mem s2) p e1"
      using header_agree[OF u(2), of x p] header_agree[OF u(2), of e1 p]
        header_not_linked[OF f(1)] header_not_linked[OF fa(1)] by simp_all
    show thesis
    proof (rule that[OF mp])
      show "merging L (mem s) tp p e1 e2 (if A = [] then G else insert (p, e1) G) F' (?s3\<lparr>mem := ?m\<rparr>)"
        unfolding if_not_P[OF False]
        by (rule merging_write[OF u(1) agree_header(1) _ _ fa(1)]) (use fa(2) xb in simp_all)
      show "block_size (mem (?s3\<lparr>mem := ?m\<rparr>)) p e1 = of_nat (e2 - e1 - 4)"
      proof -
        have "e2 - e1 - 4 = a + (e2 - x - 4 + 4)" using fa(2) xb by simp
        then have k: "(of_nat (e2 - e1 - 4) :: u16) = of_nat a + (of_nat (e2 - x - 4) + 4)"
          by (simp only: of_nat_add of_nat_numeral)
        have "block_size (mem s2) p e1 = of_nat a" by (rule word_u16_of_nat[OF ha(1)])
        then show ?thesis using hx(1,2) sz unfolding k by (simp add: header del: of_nat_diff)
      qed
      show "block_prev (mem (?s3\<lparr>mem := ?m\<rparr>)) p e1 = enc (last_start 0 0 as) (A \<noteq> []) False"
        using hx ha(2) False by (simp add: header)
    qed
  qed
qed

text \<open>The free blocks of the run are exactly the neighbours.\<close>

lemma run_frees:
  assumes inv: "xv_inv L F0 s" and n: "nbrs L p as A r C cs"
  defines "e1 \<equiv> end_of 0 as" and "x \<equiv> end_of 0 (as @ A)" and "e2 \<equiv> end_of 0 (as @ A @ [Used r] @ C)"
  defines "G \<equiv> (if C = [] then {} else {(p, x + 4 + extent (Used r))}) \<union> (if A = [] then {} else {(p, e1)})"
  shows "big_free L i (p, z) \<Longrightarrow> e1 \<le> z \<Longrightarrow> z < e2 \<Longrightarrow> (p, z) \<in> G"
    and "a \<in> G \<Longrightarrow> fst a = p \<and> e1 \<le> snd a \<and> snd a < e2"
    and "b \<in> bigs L - G \<Longrightarrow> fst b = p \<Longrightarrow> snd b + 36 \<le> e1 \<or> e2 \<le> snd b"
proof -
  have L: "L p = Some (as @ (A @ [Used r] @ C) @ cs)" and A: "A = [] \<or> (\<exists>a. A = [Free a])"
    and C: "C = [] \<or> (\<exists>b. C = [Free b])" using n by (simp_all add: nbrs_def)
  have e2: "e2 = end_of (end_of 0 as) (A @ [Used r] @ C)" by (simp add: e2_def)
  note f = nbrs_facts[OF inv n, folded e1_def x_def e2_def]
  show inG: "(p, z) \<in> G" if "big_free L i (p, z)" "e1 \<le> z" "z < e2" for i z
    using that big_free_here[of L p as "A @ [Used r] @ C" cs z i, OF L] A C
    by (auto simp: e2 e1_def G_def x_def)
  show "a \<in> G \<Longrightarrow> fst a = p \<and> e1 \<le> snd a \<and> snd a < e2"
    using A C f(2,3,5) by (auto simp: G_def e2 x_def e1_def)
  show "snd b + 36 \<le> e1 \<or> e2 \<le> snd b" if b: "b \<in> bigs L - G" "fst b = p" for b
  proof (cases "e2 \<le> snd b")
    case False
    from b obtain i m where m: "big_free L i b" "blk_at L b = Some (Free m)" "32 \<le> m"
      by (auto simp: bigs_def big_free_def)
    obtain z where z: "b = (p, z)" using b(2) by (cases b) auto
    have "z < e1"
    proof (rule ccontr)
      assume "\<not> z < e1"
      with inG[of i z] m(1) b(1) False z show False by simp
    qed
    then show ?thesis
      using blk_before[of L p as "A @ [Used r] @ C" cs z "Free m", OF L] m(2,3) z by (simp add: e1_def)
  qed simp
qed

section \<open>Giving the page back, or putting the merged block on its list\<close>

lemma run_blocks:
  assumes n: "nbrs L p as A r C cs"
  shows "L p = Some (as @ (A @ [Used r] @ C) @ cs)"
    and "end_of (end_of 0 as) (A @ [Used r] @ C) = end_of 0 (as @ A @ [Used r] @ C)"
  using n by (simp_all add: nbrs_def)

lemma xv_inv_drop:
  assumes inv: "xv_inv L F0 s" and n: "nbrs L p as A r C cs"
    and as: "as = []" "cs = []"
    and m: "merging L (mem s) (total_pages s) p (end_of 0 as) (end_of 0 (as @ A @ [Used r] @ C)) G F s3"
    and G: "G = (if C = [] then {} else {(p, end_of 0 (as @ A) + 4 + extent (Used r))}) \<union>
        (if A = [] then {} else {(p, end_of 0 as)})"
  shows "xv_inv (L(p := None)) F (s3\<lparr>total_pages := stat_dec (total_pages s3)\<rparr>)"
proof -
  note rf = run_frees[OF inv n, folded G]
  note f = nbrs_facts[OF inv n]
  have bat: "blk_at (L(p := None)) a = (if fst a = p then None else blk_at L a)" for a
    by (simp add: blk_at_def)
  have e: "end_of 0 as = 0" "end_of 0 (as @ A @ [Used r] @ C) = 4096" using as f(8) by simp_all
  have inp: "snd a < 4096" if "big_free L i a" "fst a = p" for i a
  proof -
    from that obtain k where "blk_at L (p, snd a) = Some (Free k)" by (cases a) (auto simp: big_free_def)
    from blk_at_bounds(1)[OF inv this] show ?thesis by simp
  qed
  have coupl: "a \<in> set (F i) \<longleftrightarrow> big_free (L(p := None)) i a" for i a
  proof -
    have "a \<in> set (F i) \<longleftrightarrow> big_free L i a \<and> a \<notin> G" by (rule mergingD(2)[OF m])
    moreover have "big_free (L(p := None)) i a \<longleftrightarrow> big_free L i a \<and> fst a \<noteq> p" by (simp add: big_free_def bat)
    moreover have "a \<in> G \<longleftrightarrow> fst a = p" if "big_free L i a"
    proof
      assume "a \<in> G" then show "fst a = p" using rf(2) by blast
    next
      assume p: "fst a = p"
      then have a: "a = (p, snd a)" by (cases a) simp
      have "(p, snd a) \<in> G"
        by (rule rf(1)[of i]) (use that inp[OF that p] e in \<open>simp_all flip: a\<close>)
      with a show "a \<in> G" by simp
    qed
    ultimately show ?thesis by blast
  qed
  have pg: "page_ok (mem s3) q ds" if "(L(p := None)) q = Some ds" for q ds
  proof -
    have q: "L q = Some ds" "q \<noteq> p" using that by (auto split: if_splits)
    have ag: "agree_off (touch L p 0 4096) (mem s) (mem s3)"
    proof -
      have "agree_off (link_area (bigs L) \<union> {(q, i). q = p \<and> 0 \<le> i \<and> i < 4096}) (mem s) (mem s3)"
        using m e by (simp add: merging_def)
      then show ?thesis by (rule agree_off_mono) (auto simp: touch_def)
    qed
    have "chain (mem s3) q 0 0 False ds"
    proof (subst chain_cong [where m = "mem s"])
      fix y b assume "(y, b) \<in> set (places 0 ds)"
      then have "blk_at L (q, y) = Some b" using q(1) by (simp add: blk_at_def map_of_places)
      with q(2) show "block_size (mem s3) q y = block_size (mem s) q y \<and>
          block_prev (mem s3) q y = block_prev (mem s) q y" by (intro header_kept[OF ag]) auto
    qed (use xv_invD(3)[OF inv q(1)] in \<open>simp add: page_ok_def\<close>)
    with xv_invD(3)[OF inv q(1)] show ?thesis by (simp add: page_ok_def)
  qed
  have card: "total_pages s3 - 1 = of_nat (card (dom (L(p := None))))"
  proof -
    have pd: "p \<in> dom L" "finite (dom L)" using run_blocks(1)[OF n] xv_invD(4)[OF inv] by auto
    have "card (dom L) = Suc (card (dom L - {p}))" using pd by (metis card_Suc_Diff1)
    moreover have "total_pages s3 = of_nat (card (dom L))" using m xv_invD(5)[OF inv] by (simp add: merging_def)
    ultimately show ?thesis by simp
  qed
  have "lists_ok F (s3\<lparr>total_pages := stat_dec (total_pages s3)\<rparr>)"
    using m by (simp add: merging_def lists_ok_def bitmaps_ok_def headptr_def)
  then show ?thesis
    using coupl pg card xv_invD(4)[OF inv] unfolding xv_inv_def
    by (auto simp: stat_dec_def)
qed

text \<open>
  The merged block goes back on a list: header first, then the list, then the header after it.
\<close>

lemma release_insert:
  assumes inv: "xv_inv L F0 s" and n: "nbrs L p as A r C cs"
  defines "e1 \<equiv> end_of 0 as" and "x \<equiv> end_of 0 (as @ A)" and "e2 \<equiv> end_of 0 (as @ A @ [Used r] @ C)"
  defines "T \<equiv> e2 - e1 - 4"
  assumes G: "G = (if C = [] then {} else {(p, x + 4 + extent (Used r))}) \<union> (if A = [] then {} else {(p, e1)})"
    and m: "merging L (mem s) (total_pages s) p e1 e2 G F s4"
    and sz: "block_size (mem s4) p e1 = of_nat T"
    and pr: "block_prev (mem s4) p e1 = enc (last_start 0 0 as) True False"
  defines "s5 \<equiv> (if 32 \<le> T then insert_block p (of_nat e1) s4 else s4)"
  obtains F' where "lists_ok F' s5"
    "\<And>i a. a \<in> set (F' i) \<longleftrightarrow> big_free (L(p \<mapsto> as @ [Free T] @ cs)) i a"
    "agree_off (link_area (bigs L) \<union> {(q, i). q = p \<and> e1 \<le> i \<and> i < e2}) (mem s) (mem s5)"
    "block_size (mem s5) p e1 = of_nat T" "block_prev (mem s5) p e1 = enc (last_start 0 0 as) True False"
    "total_pages s5 = total_pages s" "\<And>a. a \<in> members F' \<Longrightarrow> a \<in> bigs L - G \<or> a = (p, e1) \<and> 32 \<le> T"
proof -
  note f = nbrs_facts[OF inv n, folded e1_def x_def e2_def]
  note rf = run_frees[OF inv n, folded e1_def x_def e2_def, folded G]
  define F' where "F' = (if 32 \<le> T then F(class_of T := (p, e1) # F (class_of T)) else F)"
  have T: "e2 = e1 + 4 + T" "e2 \<le> 4096" "T \<le> 4092" using f(2-5) by (simp_all add: T_def)
  have mF: "members F = bigs L - G" by (rule merging_members[OF m])
  have mF': "a \<in> bigs L - G \<or> a = (p, e1) \<and> 32 \<le> T" if "a \<in> members F'" for a
  proof -
    have "a \<in> members F \<or> (a = (p, e1) \<and> 32 \<le> T)"
      using that by (auto simp: F'_def members_def split: if_splits)
    with mF show ?thesis by blast
  qed
  have ok: "lists_ok F s4" and ag: "agree_off (link_area (bigs L) \<union> {(q, i). q = p \<and> e1 \<le> i \<and> i < e2}) (mem s) (mem s4)"
    and cp: "\<And>i a. a \<in> set (F i) \<longleftrightarrow> big_free L i a \<and> a \<notin> G" and tp: "total_pages s4 = total_pages s"
    by (rule mergingD[OF m])+
  have run: "big_free (L(p \<mapsto> as @ [Free T] @ cs)) i a \<longleftrightarrow>
      (if fst a = p \<and> e1 \<le> snd a \<and> snd a < e2 then snd a = e1 \<and> 32 \<le> T \<and> class_of T = i else big_free L i a)" for i a
  proof -
    have ee: "end_of (end_of 0 as) (A @ [Used r] @ C) = e2" using run_blocks(2)[OF n] by (simp add: e2_def)
    then have "end_of (end_of 0 as) [Free T] = end_of (end_of 0 as) (A @ [Used r] @ C)"
      using T(1) by (simp add: e1_def)
    from big_free_replace[of L p as "A @ [Used r] @ C" cs "[Free T]" i a, OF run_blocks(1)[OF n] this]
    show ?thesis unfolding ee unfolding e1_def[symmetric] by auto
  qed
  have new: "b \<in> members F \<Longrightarrow> fst b = p \<Longrightarrow> snd b + 36 \<le> e1 \<or> e2 \<le> snd b" for b
    using rf(3)[of b] mF by simp
  have coupl: "a \<in> set (F' i) \<longleftrightarrow> big_free (L(p \<mapsto> as @ [Free T] @ cs)) i a" for i a
  proof -
    obtain q z where a: "a = (q, z)" by (cases a)
    have "a \<in> G \<longleftrightarrow> q = p \<and> e1 \<le> z \<and> z < e2" if "big_free L i a"
      using rf(1)[of i z] rf(2)[of a] that unfolding a by auto
    then show ?thesis unfolding run using cp[of a i] T(1) by (auto simp: F'_def a)
  qed
  show thesis
  proof (cases "32 \<le> T")
    case True
    have pl: "placed (p, e1)" using T True f(15) by (simp add: placed_def)
    have nin: "(p, e1) \<notin> members F" using new[of "(p, e1)"] T(1) by auto
    have apr: "apart (p, e1) b" if "b \<in> members F" for b
      using new[OF that] T(1) True by (auto simp: apart_def)
    have uT: "unat (of_nat T :: u16) = T" by (rule unat_of_nat_u16) (use T in simp)
    have idx: "class_of T = unat (get_index_for_insert (ucast (block_size (mem s4) p e1)))"
      using sz get_index_for_insert_class[of "ucast (of_nat T :: u16)"] uT T(3) True by simp
    note ins = insert_block_ok[OF ok pl nin apr idx class_of_bound[OF T(3)]]
    have s5: "s5 = insert_block p (of_nat e1) s4" using True by (simp add: s5_def)
    have nl: "(p, i) \<notin> link_area (insert (p, e1) (members F))" if "e1 \<le> i" "i < e1 + 4" for i
    proof
      assume "(p, i) \<in> link_area (insert (p, e1) (members F))"
      then obtain w where "(p, w) \<in> members F \<or> w = e1" "w + 4 \<le> i" "i < w + 16"
        by (auto simp: link_area_def)
      with new[of "(p, w)"] T(1) that show False by auto
    qed
    note hh = header_agree[OF ins(2) nl]
    have "agree_off (link_area (bigs L) \<union> {(q, i). q = p \<and> e1 \<le> i \<and> i < e2}) (mem s4) (mem s5)"
      unfolding s5 by (rule agree_off_mono[OF ins(2)]) (use mF T True in \<open>auto simp: link_area_def\<close>)
    from agree_off_trans[OF ag this] show thesis
      using ins(1,3) True hh sz pr tp coupl mF' by (intro that[of F']) (simp_all add: s5 F'_def)
  next
    case False
    then show thesis using ok ag sz pr tp coupl mF' by (intro that[of F']) (simp_all add: s5_def F'_def)
  qed
qed

lemma release_ok:
  assumes inv: "xv_inv L F0 s" and n: "nbrs L p as A r C cs"
  defines "e1 \<equiv> end_of 0 as" and "x \<equiv> end_of 0 (as @ A)" and "e2 \<equiv> end_of 0 (as @ A @ [Used r] @ C)"
  defines "T \<equiv> e2 - e1 - 4"
  assumes G: "G = (if C = [] then {} else {(p, x + 4 + extent (Used r))}) \<union> (if A = [] then {} else {(p, e1)})"
    and m: "merging L (mem s) (total_pages s) p e1 e2 G F s3"
    and sz: "block_size (mem s3) p e1 = of_nat T"
    and pr: "block_prev (mem s3) p e1 = enc (last_start 0 0 as) (A \<noteq> []) False"
    and T: "T \<noteq> 4092"
  obtains F' s' where "xv_release p (of_nat e1) e1 s3 = (s', None)"
    "xv_inv (L(p \<mapsto> as @ [Free T] @ cs)) F' s'" "agree_off (touch L p e1 e2) (mem s) (mem s')"
proof -
  note f = nbrs_facts[OF inv n, folded e1_def x_def e2_def]
  note h = nbrs_headers[OF inv n, folded e1_def x_def e2_def]
  have Te: "e2 = e1 + 4 + T" "e2 \<le> 4096" "T \<le> 4092" using f(2-5) by (simp_all add: T_def)
  let ?s4 = "s3\<lparr>mem := set_flag p e1 BLOCK_FREE (mem s3)\<rparr>"
  have m4: "merging L (mem s) (total_pages s) p e1 e2 G F ?s4"
  proof (cases "A = []")
    case True
    then have "e1 = x" by (simp add: e1_def x_def)
    then show ?thesis
      by (intro merging_write[OF m agree_header(2) _ _ f(1)[folded \<open>e1 = x\<close>]]) (use Te in simp_all)
  next
    case False
    then obtain a where "A = [Free a]" using n by (auto simp: nbrs_def)
    from f(7)[OF this] show ?thesis
      by (intro merging_write[OF m agree_header(2)]) (use Te in auto)
  qed
  have h4: "block_size (mem ?s4) p e1 = of_nat T" "block_prev (mem ?s4) p e1 = enc (last_start 0 0 as) True False"
    using sz pr enc_set_flags(1)[OF f(16)] by (simp_all add: header)
  define s5 where "s5 = (if 32 \<le> T then insert_block p (of_nat e1) ?s4 else ?s4)"
  obtain F' where r5: "lists_ok F' s5"
    "\<And>i a. a \<in> set (F' i) \<longleftrightarrow> big_free (L(p \<mapsto> as @ [Free T] @ cs)) i a"
    "agree_off (link_area (bigs L) \<union> {(q, i). q = p \<and> e1 \<le> i \<and> i < e2}) (mem s) (mem s5)"
    "block_size (mem s5) p e1 = of_nat T" "block_prev (mem s5) p e1 = enc (last_start 0 0 as) True False"
    "total_pages s5 = total_pages s" "\<And>a. a \<in> members F' \<Longrightarrow> a \<in> bigs L - G \<or> a = (p, e1) \<and> 32 \<le> T"
    using release_insert[OF inv n G[unfolded x_def e1_def] m4[unfolded e1_def e2_def], folded e1_def e2_def, folded T_def,
        OF h4, folded s5_def] by blast
  let ?m6 = "if e2 \<noteq> 4096 then set_blockprev p e2 (of_nat e1) (set_flag p e2 PREV_FREE (mem s5)) else mem s5"
  have rel: "xv_release p (of_nat e1) e1 s3 = (s5\<lparr>mem := ?m6\<rparr>, None)"
  proof -
    have uT: "unat (of_nat T :: u16) = T" by (rule unat_of_nat_u16) (use Te in simp)
    have "(of_nat T :: u16) \<noteq> 4092" using T uT by auto
    then have t1: "block_size (mem s3) p e1 = of_nat 4096 - ucast (4 :: u32) \<longleftrightarrow> False" using sz by simp
    have t2: "(32 :: u32) \<le> ucast (block_size (mem ?s4) p e1) \<longleftrightarrow> 32 \<le> T"
      using h4(1) uT by (simp add: word_le_nat_alt)
    have "ucast (of_nat T :: u16) = (of_nat T :: u32)" by (rule offset_words(3)) (use Te in simp)
    then have "of_nat e1 + ucast (block_size (mem s5) p e1) + 4 = (of_nat e2 :: u32)"
      using r5(4) by (simp add: Te(1) ac_simps)
    then have t3: "of_nat e1 + ucast (block_size (mem s5) p e1) + 4 \<noteq> (of_nat 4096 :: u32) \<longleftrightarrow> e2 \<noteq> 4096"
      using page_end_test[OF Te(2)] by (simp only:)
    have t4: "BLOCK_NEXT (mem s5) p e1 = e2" using r5(4) uT Te(1) by (simp add: BLOCK_NEXT_def)
    have t5: "ucast (of_nat e1 :: u32) = (of_nat e1 :: u16)" by (rule offset_words(2)) (use Te in simp)
    show ?thesis
      unfolding xv_release_def Let_def t1 if_False t2 s5_def[symmetric] t3 t4 t5
      by (simp only: if_distrib[of "\<lambda>m. s5\<lparr>mem := m\<rparr>"]) simp
  qed
  have ag6: "agree_off (if cs = [] then {} else hdr_bytes p e2) (mem s5) ?m6"
    using f(8) agree_header_trans(4)[OF agree_header(2)] by simp
  have cc: "blk_at L (p, e2) = Some (hd cs) \<and> e2 + 4 \<le> 4096" if "cs \<noteq> []"
    using f(9)[of "hd cs" "tl cs"] that blk_at_bounds(1)[OF inv, of p e2 "hd cs"] by simp
  have run: "end_of (end_of 0 as) (A @ [Used r] @ C) = e2" using run_blocks(2)[OF n] by (simp only: e2_def)
  have fr: "agree_off (touch L p e1 e2) (mem s) ?m6"
  proof (rule agree_off_trans)
    show "agree_off (touch L p e1 e2) (mem s) (mem s5)"
      by (rule agree_off_mono[OF r5(3)]) (use Te in \<open>auto simp: touch_def\<close>)
    show "agree_off (touch L p e1 e2) (mem s5) ?m6"
      by (rule agree_off_mono[OF ag6]) (use Te cc in \<open>auto simp: touch_def hdr_bytes_def\<close>)
  qed
  have he2: "block_size (mem s5) p e2 = block_size (mem s) p e2" "block_prev (mem s5) p e2 = block_prev (mem s) p e2"
    if "cs \<noteq> []"
    using header_agree[OF r5(3), of e2 p] header_not_linked[of L p e2 "hd cs"] cc[OF that] Te(1) by auto
  have l6: "lists_ok F' (s5\<lparr>mem := ?m6\<rparr>)"
  proof (rule lists_ok_mem[OF r5(1) ag6])
    fix a i assume a: "a \<in> members F'" "snd a + 4 \<le> i" "i < snd a + 16"
    show "(fst a, i) \<notin> (if cs = [] then {} else hdr_bytes p e2)"
    proof (cases "cs = []")
      case False
      have "(p, i) \<notin> link_area (bigs L)" if "e2 \<le> i" "i < e2 + 4" for i
        using header_not_linked[of L p e2 "hd cs", OF _ that] cc[OF False] by simp
      with r5(7)[OF a(1)] a(2,3) Te(1) show ?thesis
        by (cases a) (auto simp: hdr_bytes_def link_area_def)
    qed simp
  qed simp_all
  have he1: "block_size ?m6 p e1 = of_nat T" "block_prev ?m6 p e1 = enc (last_start 0 0 as) True False"
    using header_agree[OF ag6, of e1 p] r5(4,5) Te(1) by (auto simp: hdr_bytes_def split: if_splits)
  have "4 dvd T" "4 dvd e1" using f(11,12) Te(1) by (auto simp: dvd_add_right_iff dvd_add_left_iff)
  then have new: "chain ?m6 p e1 (last_start 0 0 as) (last_free False as) [Free T]"
    using he1 Te n by (simp add: nbrs_def unat_of_nat_u16)
  have nx: "next_ok (mem s) ?m6 p e2 (last_start e1 (last_start 0 0 as) [Free T])
      (last_free (last_free False as) [Free T]) cs"
  proof (cases cs)
    case (Cons c cs')
    have nf: "\<not> is_free c" by (rule h(9)[OF Cons])
    have old: "\<exists>prv pf. block_prev (mem s5) p e2 = enc prv False pf \<and> 4 dvd prv"
    proof (cases "C = []")
      case True
      then show ?thesis using h(7)[OF True Cons] he2(2) Cons f(10) by auto
    next
      case False
      then obtain b where C: "C = [Free b]" using n by (auto simp: nbrs_def)
      have "4 dvd end_of 0 (as @ A @ [Used r])"
        using f(2,10) by simp
      with h(8)[OF C Cons] he2(2) Cons show ?thesis by auto
    qed
    then obtain prv pf where "block_prev (mem s5) p e2 = enc prv False pf" "4 dvd prv" by blast
    then have "block_prev ?m6 p e2 = enc e1 False True" "block_size ?m6 p e2 = block_size (mem s) p e2"
      using Cons f(8) he2(1) enc_set_flags(2) enc_set_prev[OF _ \<open>4 dvd e1\<close>] by (simp_all add: header)
    then show ?thesis using Cons nf by (simp add: next_ok_def)
  qed (simp add: next_ok_def)
  have "xv_inv (L(p \<mapsto> as @ [Free T] @ cs)) F' (s5\<lparr>mem := ?m6\<rparr>)"
  proof (rule xv_inv_replace[OF inv run_blocks(1)[OF n]])
    show "lists_ok F' (s5\<lparr>mem := ?m6\<rparr>)" by (rule l6)
    show "\<And>i a. a \<in> set (F' i) \<longleftrightarrow> big_free (L(p \<mapsto> as @ [Free T] @ cs)) i a" by (rule r5(2))
    show "end_of (end_of 0 as) [Free T] = end_of (end_of 0 as) (A @ [Used r] @ C)"
      unfolding run using Te(1) by (simp add: e1_def)
  qed (unfold run, use fr new nx r5(6) in \<open>simp_all add: e1_def\<close>)
  moreover have mm: "mem (s5\<lparr>mem := ?m6\<rparr>) = ?m6" by simp
  ultimately show thesis using that[OF rel, unfolded mm, OF _ fr] by blast
qed

section \<open>The whole of \<^verbatim>\<open>xv_free\<close>\<close>

lemma objs_run:
  assumes inv: "xv_inv L F0 s" and n: "nbrs L p as A r C cs"
  defines "e1 \<equiv> end_of 0 as" and "x \<equiv> end_of 0 (as @ A)" and "e2 \<equiv> end_of 0 (as @ A @ [Used r] @ C)"
  shows "objs L (p, z) = Some k \<Longrightarrow> e1 + 4 \<le> z \<Longrightarrow> z < e2 + 4 \<Longrightarrow> z = x + 4"
    and "objs (L(p \<mapsto> as @ [Free (e2 - e1 - 4)] @ cs)) = (objs L)((p, x + 4) := None)"
proof -
  note f = nbrs_facts[OF inv n, folded e1_def x_def e2_def]
  have A: "A = [] \<or> (\<exists>a. A = [Free a])" and C: "C = [] \<or> (\<exists>b. C = [Free b])"
    using n by (simp_all add: nbrs_def)
  have L: "L p = Some (as @ (A @ [Used r] @ C) @ cs)" by (rule run_blocks(1)[OF n])
  have ee: "end_of (end_of 0 as) (A @ [Used r] @ C) = e2" using run_blocks(2)[OF n] by (simp only: e2_def)
  have e: "e1 + 4 \<le> e2" "x + 4 \<le> e2" "e1 \<le> x" using f(2,3,5) by simp_all
  show one: "z = x + 4" if "objs L (p, z) = Some k" "e1 + 4 \<le> z" "z < e2 + 4" for z k
  proof -
    have "map_of (places e1 (A @ [Used r] @ C)) (z - 4) = Some (Used k)"
      using objs_here[of L p as "A @ [Used r] @ C" cs z, OF L] that
      unfolding ee unfolding e1_def[symmetric] by (simp split: option.splits blk.splits)
    then have "z - 4 = x" using A C unfolding map_of_places by (auto simp: x_def e1_def)
    then show ?thesis using that(2) by simp
  qed
  have lenT: "end_of (end_of 0 as) [Free (e2 - e1 - 4)] = end_of (end_of 0 as) (A @ [Used r] @ C)"
    unfolding ee using e by (simp add: e1_def)
  have "objs (L(p \<mapsto> as @ [Free (e2 - e1 - 4)] @ cs)) (q, z) = ((objs L)((p, x + 4) := None)) (q, z)" for q z
  proof -
    have "objs (L(p \<mapsto> as @ [Free (e2 - e1 - 4)] @ cs)) (q, z) =
        (if q = p \<and> e1 + 4 \<le> z \<and> z < e2 + 4 then None else objs L (q, z))"
      using objs_replace[of L p as "A @ [Used r] @ C" cs "[Free (e2 - e1 - 4)]" q z, OF L lenT]
      unfolding ee unfolding e1_def[symmetric] by simp
    then show ?thesis using one[of z] e by (cases "objs L (q, z)") auto
  qed
  then show "objs (L(p \<mapsto> as @ [Free (e2 - e1 - 4)] @ cs)) = (objs L)((p, x + 4) := None)"
    by (intro ext) (metis surj_pair)
qed

definition free_post :: "layout \<Rightarrow> u32 \<Rightarrow> nat \<Rightarrow> xv_heap \<Rightarrow> xv_heap \<Rightarrow> u32 option \<Rightarrow> layout \<Rightarrow> bool" where
  "free_post L p y s s' pg L' \<longleftrightarrow>
     dom L' = (if pg = None then dom L else dom L - {p}) \<and> (pg = None \<or> pg = Some p) \<and>
     (pg = Some p \<longleftrightarrow> (\<forall>z. z \<noteq> y \<longrightarrow> objs L (p, z) = None)) \<and>
     objs L' = (objs L)((p, y) := None) \<and> kept L' (mem s) (mem s') \<and>
     agree_off (pages_bytes (dom L)) (mem s) (mem s')"

lemma objs_drop: "objs (L(p := None)) (q, z) = (if q = p then None else objs L (q, z))"
  by (simp add: objs_def blk_at_def)

lemma page_emptied:
  assumes inv: "xv_inv L F0 s" and n: "nbrs L p as A r C cs"
  shows "(\<forall>z. z \<noteq> end_of 0 (as @ A) + 4 \<longrightarrow> objs L (p, z) = None) \<longleftrightarrow> as = [] \<and> cs = []"
    and "as = [] \<and> cs = [] \<longleftrightarrow> end_of 0 (as @ A @ [Used r] @ C) - end_of 0 as - 4 = 4092"
proof -
  note f = nbrs_facts[OF inv n]
  note h = nbrs_headers[OF inv n]
  have L: "L p = Some (as @ (A @ [Used r] @ C) @ cs)" by (rule run_blocks(1)[OF n])
  have e0: "end_of 0 as = 0 \<longleftrightarrow> as = []"
    using end_of_mono[of "4 + extent (hd as)" "tl as"] by (cases as) auto
  show "as = [] \<and> cs = [] \<longleftrightarrow> end_of 0 (as @ A @ [Used r] @ C) - end_of 0 as - 4 = 4092"
    using e0 f(2-5,8) by auto
  show "(\<forall>z. z \<noteq> end_of 0 (as @ A) + 4 \<longrightarrow> objs L (p, z) = None) \<longleftrightarrow> as = [] \<and> cs = []"
  proof
    assume all: "\<forall>z. z \<noteq> end_of 0 (as @ A) + 4 \<longrightarrow> objs L (p, z) = None"
    have "as = []"
    proof (rule ccontr)
      assume "as \<noteq> []"
      then obtain as' b where as: "as = as' @ [b]" by (metis rev_exhaust)
      have "\<not> last_free False as" using n by (simp add: nbrs_def)
      then obtain k where "b = Used k" by (cases b) (auto simp: as)
      then have "blk_at L (p, end_of 0 as') = Some (Used k)"
        using blk_at_here[of L p as' "[Used k]" "A @ [Used r] @ C @ cs" "end_of 0 as'"] L as by simp
      then have "objs L (p, end_of 0 as' + 4) = Some k" by (simp add: objs_header)
      moreover have "end_of 0 as' < end_of 0 (as @ A)" using end_of_mono[of _ A] as
        by (simp add: less_le_trans[of _ "end_of 0 as' + 4 + extent b"])
      ultimately show False using all by auto
    qed
    moreover have "cs = []"
    proof (rule ccontr)
      assume "cs \<noteq> []"
      then obtain c cs' where cs: "cs = c # cs'" by (cases cs) auto
      obtain k where "c = Used k" using h(9)[OF cs] by (cases c) auto
      then have "objs L (p, end_of 0 (as @ A @ [Used r] @ C) + 4) = Some k"
        using f(9)[OF cs] by (simp add: objs_header)
      moreover have "end_of 0 (as @ A) + 4 < end_of 0 (as @ A @ [Used r] @ C) + 4" using f(2,3) by simp
      ultimately show False using all by auto
    qed
    ultimately show "as = [] \<and> cs = []" ..
  next
    assume e: "as = [] \<and> cs = []"
    show "\<forall>z. z \<noteq> end_of 0 (as @ A) + 4 \<longrightarrow> objs L (p, z) = None"
    proof (intro allI impI)
      fix z assume z: "z \<noteq> end_of 0 (as @ A) + 4"
      show "objs L (p, z) = None"
      proof (cases "objs L (p, z)")
        case (Some k)
        from objs_bounds(3,4)[OF inv Some] have "4 \<le> z" "z < 4096 + 4" by simp_all
        then have "z = end_of 0 (as @ A) + 4"
          using objs_run(1)[OF inv n Some] f(8) conjunct2[OF e] conjunct1[OF e] by simp
        with z show ?thesis by simp
      qed
    qed
  qed
qed

lemma free_layout:
  assumes inv: "xv_inv L F s" and ob: "objs L (p, y) = Some r"
  obtains s' pg L' F' where "xv_free p (of_nat y) s = Some (s', pg)" "xv_inv L' F' s'"
    "free_post L p y s s' pg L'"
proof -
  have b: "blk_at L (p, y - 4) = Some (Used r)" "4 \<le> y" using ob by (auto simp: objs_Some)
  obtain as A C cs where n: "nbrs L p as A r C cs" "y - 4 = end_of 0 (as @ A)"
    by (rule nbrs_exist[OF inv b(1)])
  define x e1 e2 where "x = end_of 0 (as @ A)" and "e1 = end_of 0 as" and "e2 = end_of 0 (as @ A @ [Used r] @ C)"
  note f = nbrs_facts[OF inv n(1), folded e1_def x_def e2_def]
  note h = nbrs_headers[OF inv n(1), folded e1_def x_def e2_def]
  have y: "y = x + 4" using n(2) b(2) by (simp add: x_def)
  have xb: "x + 4 \<le> e2" "e2 \<le> 4096" using f(2,3,4) by simp_all
  have ux: "unat (of_nat x :: u32) = x" by (rule unat_of_nat_u32) (use xb in simp)
  have yx: "of_nat y - 4 = (of_nat x :: u32)" by (simp add: y)
  have ls: "4 dvd last_start 0 0 (as @ A)"
    using f(11,16) h(5,6) n(1) by (cases "A = []") (auto simp: nbrs_def)
  have nf: "\<not> test_flag (mem s) p x BLOCK_FREE" using test_flag_enc(1)[OF h(2) ls] by simp
  let ?s1 = "s\<lparr>mem := set_block_size p x (ucast (ALIGN (ucast (block_size (mem s) p x)) 4)) (mem s)\<rparr>"
  let ?s2 = "xv_merge_next p (of_nat x) ?s1"
  obtain G F2 where m2: "merging L (mem s) (total_pages s) p e1 e2 G F2 ?s2"
    "block_size (mem ?s2) p x = of_nat (e2 - x - 4)"
    "agree_off (link_area (bigs L) \<union> hdr_bytes p x) (mem s) (mem ?s2)"
    "block_prev (mem ?s2) p x = block_prev (mem s) p x"
    "G = (if C = [] then {} else {(p, x + 4 + extent (Used r))})"
    by (rule merge_next_ok[OF inv n(1), folded e1_def x_def e2_def])
  have G: "A \<noteq> [] \<Longrightarrow> (p, e1) \<notin> G" using m2(5) f(5) by auto
  obtain F3 s3 where m3: "xv_merge_prev p (of_nat x) ?s2 = (of_nat e1, e1, s3)"
    "merging L (mem s) (total_pages s) p e1 e2 (if A = [] then G else insert (p, e1) G) F3 s3"
    "block_size (mem s3) p e1 = of_nat (e2 - e1 - 4)"
    "block_prev (mem s3) p e1 = enc (last_start 0 0 as) (A \<noteq> []) False"
    by (rule merge_prev_ok[OF inv n(1), folded e1_def x_def e2_def, OF m2(1,2,4,3) G])
  have free: "xv_free p (of_nat y) s = Some (xv_release p (of_nat e1) e1 s3)"
    using nf m3(1) by (simp add: xv_free_def Let_def yx ux)
  have G': "(if A = [] then G else insert (p, e1) G) =
      (if C = [] then {} else {(p, x + 4 + extent (Used r))}) \<union> (if A = [] then {} else {(p, e1)})"
    using m2(5) by auto
  note run = objs_run[OF inv n(1), folded e1_def x_def e2_def]
  note emp = page_emptied[OF inv n(1), folded e1_def x_def e2_def]
  have L: "L p = Some (as @ (A @ [Used r] @ C) @ cs)" by (rule run_blocks(1)[OF n(1)])
  have ee: "end_of (end_of 0 as) (A @ [Used r] @ C) = e2" using run_blocks(2)[OF n(1)] by (simp only: e2_def)
  have p: "p \<in> dom L" using L by auto
  have pk: "ld_bytes m' q z k = ld_bytes (mem s) q z k"
    if "agree_off (touch L p e1 e2) (mem s) m'" "objs L (q, z) = Some k" "(q, z) \<noteq> (p, y)" for q z k m'
  proof (rule payload_kept[OF inv L])
    show "agree_off (touch L p (end_of 0 as) (end_of (end_of 0 as) (A @ [Used r] @ C))) (mem s) m'"
      using that(1) by (simp only: ee e1_def)
    show "q \<noteq> p \<or> z < end_of 0 as + 4 \<or> end_of (end_of 0 as) (A @ [Used r] @ C) + 4 \<le> z"
      unfolding ee unfolding e1_def[symmetric] using run(1)[of z k] that(2,3) y by fastforce
  qed (rule that(2))
  show thesis
  proof (cases "e2 - e1 - 4 = 4092")
    case True
    then have e: "as = []" "cs = []" using emp(2) by simp_all
    let ?s' = "s3\<lparr>total_pages := stat_dec (total_pages s3)\<rparr>"
    have "block_size (mem s3) p e1 = of_nat 4096 - ucast (4 :: u32)" using m3(3)[unfolded True] by simp
    then have rel: "xv_release p (of_nat e1) e1 s3 = (?s', Some p)"
      unfolding xv_release_def by (simp only: if_True refl)
    have inv': "xv_inv (L(p := None)) F3 ?s'"
      by (rule xv_inv_drop[OF inv n(1) e _ refl, folded e1_def x_def e2_def, OF m3(2)[unfolded G']])
    have e12: "e1 = 0" "e2 = 4096" using e f(8) by (simp_all add: e1_def)
    have agt: "agree_off (touch L p e1 e2) (mem s) (mem s3)"
      by (rule agree_off_mono[OF mergingD(3)[OF m3(2)]]) (use e12 in \<open>auto simp: touch_def\<close>)
    have ob': "objs (L(p := None)) = (objs L)((p, y) := None)"
    proof -
      have "objs (L(p := None)) (q, z) = ((objs L)((p, y) := None)) (q, z)" for q z
        using emp(1) e by (auto simp: objs_drop y)
      then show ?thesis by (intro ext) (metis surj_pair)
    qed
    have "kept (L(p := None)) (mem s) (mem s3)"
    proof (rule keptI)
      fix a k assume "objs (L(p := None)) a = Some k"
      then have "objs L (fst a, snd a) = Some k" "(fst a, snd a) \<noteq> (p, y)"
        unfolding ob' by (auto split: if_splits)
      from pk[OF agt this] show "ld_bytes (mem s3) (fst a) (snd a) k = ld_bytes (mem s) (fst a) (snd a) k" .
    qed
    moreover have "agree_off (pages_bytes (dom L)) (mem s) (mem s3)"
      by (rule agree_off_mono[OF agt touch_pages[OF inv p]])
    ultimately have "free_post L p y s ?s' (Some p) (L(p := None))"
      using ob' emp(1) e y by (simp add: free_post_def)
    with inv' show thesis using free rel by (intro that) simp_all
  next
    case False
    obtain F' s' where r: "xv_release p (of_nat e1) e1 s3 = (s', None)"
      "xv_inv (L(p \<mapsto> as @ [Free (e2 - e1 - 4)] @ cs)) F' s'" "agree_off (touch L p e1 e2) (mem s) (mem s')"
      by (rule release_ok[OF inv n(1), folded e1_def x_def e2_def, OF G' m3(2-4) False])
    let ?L = "L(p \<mapsto> as @ [Free (e2 - e1 - 4)] @ cs)"
    have "kept ?L (mem s) (mem s')"
    proof (rule keptI)
      fix a k assume "objs ?L a = Some k"
      then have "objs L (fst a, snd a) = Some k" "(fst a, snd a) \<noteq> (p, y)"
        unfolding run(2) y by (auto split: if_splits)
      from pk[OF r(3) this] show "ld_bytes (mem s') (fst a) (snd a) k = ld_bytes (mem s) (fst a) (snd a) k" .
    qed
    moreover have "agree_off (pages_bytes (dom L)) (mem s) (mem s')"
      by (rule agree_off_mono[OF r(3) touch_pages[OF inv p]])
    moreover have "dom ?L = dom L" using p by auto
    ultimately have "free_post L p y s s' None ?L"
      using run(2) emp False y by (simp add: free_post_def del: fun_upd_apply)
    with r(2) show thesis using free r(1) by (intro that[of s' None ?L F']) simp_all
  qed
qed

end
