(* ===== verification/Object_Store.thy ===== *)
theory Object_Store
  imports Page_Mem
begin

text \<open>
  The contract between the block device and the allocator it keeps its compressed pages in:
  handles (page number, offset) to objects of bytes, allocation, release and writes in place.
  The client lemmas are what \<^verbatim>\<open>ramzswap.c\<close> relies on: an object stored and read back, an object
  released, and page frames outside the store that stay as they are.
\<close>

text \<open>A store without idle pages: a page comes with its first object and goes with its last.\<close>

definition no_idle :: "u32 set \<Rightarrow> (u32 \<times> nat \<Rightarrow> u8 list option) \<Rightarrow> bool" where
  "no_idle P S \<longleftrightarrow> (\<forall>p \<in> P. \<exists>x. S (p, x) \<noteq> None)"

lemma no_idle_add: "no_idle P S \<Longrightarrow> no_idle (insert p P) (S((p, x) \<mapsto> bs))"
  by (fastforce simp: no_idle_def)

lemma no_idle_remove:
  assumes "no_idle P S"
  shows "no_idle (P - set_option (if \<exists>z. z \<noteq> x \<and> S (p, z) \<noteq> None then None else Some p)) (S((p, x) := None))"
    (is "no_idle ?P ?S")
proof -
  have "\<exists>y. ?S (q, y) \<noteq> None" if q: "q \<in> ?P" for q
  proof (cases "q = p")
    case True
    then obtain z where "z \<noteq> x" "S (p, z) \<noteq> None" using q by (auto split: if_splits)
    with True show ?thesis by (intro exI[of _ z]) simp
  next
    case False
    have "q \<in> P" using q by simp
    then obtain y where "S (q, y) \<noteq> None" using assms unfolding no_idle_def by blast
    with False show ?thesis by (intro exI[of _ y]) simp
  qed
  then show ?thesis unfolding no_idle_def by blast
qed

locale object_store =
  fixes rep :: "u32 set \<Rightarrow> (u32 \<times> nat \<Rightarrow> u8 list option) \<Rightarrow> 'h \<Rightarrow> bool"
    and alloc :: "u32 \<Rightarrow> bool \<Rightarrow> u32 \<Rightarrow> 'h \<Rightarrow> (int \<times> u32 \<times> u32) \<times> 'h"
    and release :: "u32 \<Rightarrow> u32 \<Rightarrow> 'h \<Rightarrow> ('h \<times> u32 option) option"
    and bytes :: "'h \<Rightarrow> pmem"
    and put :: "pmem \<Rightarrow> 'h \<Rightarrow> 'h"
  assumes page0: "rep P S h \<Longrightarrow> 0 \<notin> P"
    and alloc_law: "rep P S h \<Longrightarrow> newpg \<notin> P \<Longrightarrow> alloc newpg nowait sz h = ((e, p, off), h') \<Longrightarrow>
      \<exists>P' \<in> {P, insert newpg P}.
        if e = 0 then P' = insert p P \<and> p \<noteq> 0 \<and> S (p, unat off) = None \<and>
          (\<exists>bs. length bs = unat sz \<and> rep P' (S((p, unat off) \<mapsto> bs)) h')
        else (P' = P \<or> 4088 < unat sz) \<and> p = 0 \<and> off = 0 \<and> rep P' S h'"
    and alloc_frame: "rep P S h \<Longrightarrow> newpg \<notin> P \<Longrightarrow> q \<notin> insert newpg P \<Longrightarrow>
      bytes (snd (alloc newpg nowait sz h)) q = bytes h q"
    and release_law: "rep P S h \<Longrightarrow> S (p, unat off) = Some bs \<Longrightarrow>
      \<exists>h' pg. release p off h = Some (h', pg) \<and>
        pg = (if \<exists>z. z \<noteq> unat off \<and> S (p, z) \<noteq> None then None else Some p) \<and>
        rep (P - set_option pg) (S((p, unat off) := None)) h' \<and> (\<forall>q. q \<notin> P \<longrightarrow> bytes h' q = bytes h q)"
    and write_law: "rep P S h \<Longrightarrow> S (p, x) = Some bs \<Longrightarrow> length bs' = length bs \<Longrightarrow>
      rep P (S((p, x) \<mapsto> bs')) (put (st_bytes (bytes h) p x bs') h)"
    and outside_law: "rep P S h \<Longrightarrow> (\<And>q. q \<in> P \<Longrightarrow> m q = bytes h q) \<Longrightarrow> rep P S (put m h)"
    and read_law: "rep P S h \<Longrightarrow> S (p, x) = Some bs \<Longrightarrow>
      p \<in> P \<and> x + length bs \<le> 4096 \<and> ld_bytes (bytes h) p x (length bs) = bs"
    and bytes_put: "bytes (put m h) = m"
begin

lemma handle_page: "rep P S h \<Longrightarrow> S (p, x) = Some bs \<Longrightarrow> p \<in> P \<and> p \<noteq> 0"
  using read_law[of P S h p x bs] page0[of P S h] by blast

text \<open>Objects survive writes to page frames that the store does not own.\<close>

lemma outside_bytes:
  assumes "rep P S h" "p \<notin> P"
  shows "rep P S (put (st_bytes (bytes h) p x bs) h)"
  by (rule outside_law[OF assms(1)]) (use assms(2) in \<open>auto simp: st_bytes_def\<close>)

text \<open>Allocate, fill, and the object is there; the other objects and foreign frames are as before.\<close>

lemma alloc_fill:
  assumes rep: "rep P S h" and new: "newpg \<notin> P"
    and al: "alloc newpg nowait sz h = ((0, p, off), h')" and len: "length bs = unat sz"
  obtains P' where "P' \<in> {P, insert newpg P}" "P' = insert p P" "p \<noteq> 0" "S (p, unat off) = None"
    "rep P' (S((p, unat off) \<mapsto> bs)) (put (st_bytes (bytes h') p (unat off) bs) h')"
    "unat off + unat sz \<le> 4096"
    "\<And>q. q \<notin> insert newpg P \<Longrightarrow> bytes h' q = bytes h q"
proof -
  obtain P' bs0 where P': "P' \<in> {P, insert newpg P}" "p \<noteq> 0" "S (p, unat off) = None"
    "length bs0 = unat sz" "rep P' (S((p, unat off) \<mapsto> bs0)) h'" "P' = insert p P"
    using alloc_law[OF rep new al] by auto
  have w: "rep P' (S((p, unat off) \<mapsto> bs)) (put (st_bytes (bytes h') p (unat off) bs) h')"
    using write_law[OF P'(5), of p "unat off" bs0 bs] P'(4) len by simp
  from read_law[OF P'(5), of p "unat off" bs0] P'(4) have "unat off + unat sz \<le> 4096" by simp
  with P'(1,2,3,6) w alloc_frame[OF rep new, of _ nowait sz] al show thesis by (intro that) auto
qed

text \<open>What was stored is what is read back.\<close>

lemma fill_read:
  assumes "rep P S h" "newpg \<notin> P" "alloc newpg nowait sz h = ((0, p, off), h')" "length bs = unat sz"
  shows "ld_bytes (bytes (put (st_bytes (bytes h') p (unat off) bs) h')) p (unat off) (length bs) = bs"
proof -
  obtain P' where "rep P' (S((p, unat off) \<mapsto> bs)) (put (st_bytes (bytes h') p (unat off) bs) h')"
    using alloc_fill[OF assms] by blast
  from read_law[OF this, of p "unat off" bs] show ?thesis by simp
qed

text \<open>Allocating and releasing gives the same objects back.\<close>

lemma alloc_release:
  assumes "rep P S h" "newpg \<notin> P" "alloc newpg nowait sz h = ((0, p, off), h')"
  shows "\<exists>h'' pg P'. release p off h' = Some (h'', pg) \<and> P' \<subseteq> insert newpg P \<and> rep P' S h''"
proof -
  obtain P' bs where P': "P' \<in> {P, insert newpg P}" "S (p, unat off) = None"
    "rep P' (S((p, unat off) \<mapsto> bs)) h'"
    using alloc_law[OF assms] by auto
  from release_law[OF P'(3), of p off bs] obtain h'' pg where
    "release p off h' = Some (h'', pg)" "rep (P' - set_option pg) (S((p, unat off) := None)) h''" by auto
  moreover have "S((p, unat off) := None) = S" using P'(2) by (simp add: fun_upd_idem)
  ultimately show ?thesis using P'(1) by (intro exI[of _ h''] exI[of _ pg] exI[of _ "P' - set_option pg"]) auto
qed

end

end
