(* ===== verification/Xv_Interface.thy ===== *)
theory Xv_Interface
  imports Xv_Free Object_Store
begin

text \<open>
  The allocator as an object store: \<^verbatim>\<open>xv_free\<close> and in-place writes refine the abstract store,
  the interpretation of \<open>object_store\<close> on \<^verbatim>\<open>xv_malloc\<close> and \<^verbatim>\<open>xv_free\<close> discharges the contract
  of the block device, and the properties of the allocator as a whole follow from it.
\<close>

unbundle bit_operations_syntax

section \<open>Writes that the allocator does not see\<close>

lemma xv_inv_mem:
  assumes inv: "xv_inv L F s" and ag: "agree_off B (mem s) m'"
    and hd: "\<And>q y b i. blk_at L (q, y) = Some b \<Longrightarrow> y \<le> i \<Longrightarrow> i < y + 4 \<Longrightarrow> (q, i) \<notin> B"
    and lk: "\<And>q i. (q, i) \<in> link_area (bigs L) \<Longrightarrow> (q, i) \<notin> B"
  shows "xv_inv L F (s\<lparr>mem := m'\<rparr>)"
proof -
  have "lists_ok F (s\<lparr>mem := m'\<rparr>)"
  proof (rule lists_ok_mem[OF xv_invD(1)[OF inv] ag])
    fix a i assume "a \<in> members F" "snd a + 4 \<le> i" "i < snd a + 16"
    then have "(fst a, i) \<in> link_area (bigs L)"
      using members_bigs[OF inv] by (cases a) (auto simp: link_area_def)
    then show "(fst a, i) \<notin> B" by (rule lk)
  qed simp_all
  moreover have "page_ok m' q ds" if "L q = Some ds" for q ds
  proof -
    have "chain m' q 0 0 False ds"
    proof (subst chain_cong [where m = "mem s"])
      fix y b assume "(y, b) \<in> set (places 0 ds)"
      then have "blk_at L (q, y) = Some b" using that by (simp add: blk_at_def map_of_places)
      from header_agree[OF ag hd[OF this]]
      show "block_size m' q y = block_size (mem s) q y \<and> block_prev m' q y = block_prev (mem s) q y" by simp
    qed (use xv_invD(3)[OF inv that] in \<open>simp add: page_ok_def\<close>)
    with xv_invD(3)[OF inv that] show ?thesis by (simp add: page_ok_def)
  qed
  ultimately show ?thesis using xv_invD(2,4,5)[OF inv] unfolding xv_inv_def by auto
qed

lemma store_Some:
  "store L m (p, x) = Some bs \<longleftrightarrow> objs L (p, x) = Some (length bs) \<and> bs = ld_bytes m p x (length bs)"
  by (auto simp: store_def)

lemma xv_write_rep:
  assumes rep: "xv_rep P S s" and ob: "S (p, x) = Some bs" and len: "length bs' = length bs"
  shows "xv_rep P (S((p, x) \<mapsto> bs')) (s\<lparr>mem := st_bytes (mem s) p x bs'\<rparr>)"
proof -
  from rep obtain L F where L: "xv_inv L F s" "dom L = P" "store L (mem s) = S" by (auto simp: xv_rep_def)
  let ?m = "st_bytes (mem s) p x bs'"
  have o: "objs L (p, x) = Some (length bs)" using ob L(3) by (auto simp: store_Some)
  then have b: "blk_at L (p, x - 4) = Some (Used (length bs))" "4 \<le> x" by (auto simp: objs_Some)
  let ?B = "{(q, i). q = p \<and> x \<le> i \<and> i < x + length bs}"
  have ag: "agree_off ?B (mem s) ?m" using len by (auto simp: agree_off_def st_bytes_byte)
  have hd: "(q, i) \<notin> ?B" if h: "blk_at L (q, y) = Some c" "y \<le> i" "i < y + 4" for q y c i
  proof
    assume B: "(q, i) \<in> ?B"
    then have "x - 4 < y" "q = p" using h(2,3) b(2) by auto
    with blocks_disjoint[of L p "x - 4" "Used (length bs)" y c] b h(1) le_extent_Used[of "length bs"] B h(2)
    show False by auto
  qed
  have lk: "(q, i) \<notin> ?B" if "(q, i) \<in> link_area (bigs L)" for q i
    using payload_not_linked[OF b(1), of i] that b(2) le_extent_Used[of "length bs"] by auto
  have inv: "xv_inv L F (s\<lparr>mem := ?m\<rparr>)" by (rule xv_inv_mem[OF L(1) ag hd lk])
  have "store L ?m a = (S((p, x) \<mapsto> bs')) a" for a
  proof (cases "a = (p, x)")
    case True
    then show ?thesis using o len by (simp add: store_def)
  next
    case False
    obtain q z where a: "a = (q, z)" by (cases a)
    have "ld_bytes ?m q z k = ld_bytes (mem s) q z k" if k: "objs L (q, z) = Some k" for k
    proof (rule ld_bytes_cong)
      fix i assume i: "z \<le> i" "i < z + k"
      have "q \<noteq> p \<or> i < x \<or> x + length bs' \<le> i"
      proof (rule ccontr)
        assume c: "\<not> (q \<noteq> p \<or> i < x \<or> x + length bs' \<le> i)"
        then have "z \<noteq> x" "q = p" using False a by auto
        with objs_disjoint[of L p z k x "length bs"] objs_disjoint[of L p x "length bs" z k]
          k o le_extent_Used[of k] le_extent_Used[of "length bs"] i c len show False
          by (cases "z < x") auto
      qed
      then show "?m q i = mem s q i" by (rule st_bytes_byte)
    qed
    then show ?thesis using False a L(3) by (auto simp: store_def map_option_case split: option.splits)
  qed
  then have "store L ?m = S((p, x) \<mapsto> bs')" by (rule ext)
  with inv L(2) show ?thesis by (auto simp: xv_rep_def)
qed

lemma xv_outside_rep:
  assumes rep: "xv_rep P S s" and out: "\<And>q. q \<in> P \<Longrightarrow> m q = mem s q"
  shows "xv_rep P S (s\<lparr>mem := m\<rparr>)"
proof -
  from rep obtain L F where L: "xv_inv L F s" "dom L = P" "store L (mem s) = S" by (auto simp: xv_rep_def)
  have dm: "q \<in> P" if "blk_at L (q, y) = Some b" for q y b
    using that L(2) by (auto simp: blk_at_def split: option.splits)
  have inv: "xv_inv L F (s\<lparr>mem := m\<rparr>)"
  proof (rule xv_inv_mem[OF L(1)])
    show "agree_off {(q, i). q \<notin> P} (mem s) m" using out by (auto simp: agree_off_def)
    show "(q, i) \<notin> {(q, i). q \<notin> P}" if "(q, i) \<in> link_area (bigs L)" for q i
      using link_area_pages[OF L(1)] that L(2) by (auto simp: pages_bytes_def)
  qed (use dm in auto)
  have "ld_bytes m q z k = ld_bytes (mem s) q z k" if "objs L (q, z) = Some k" for q z k
    using objs_bounds(7)[OF L(1) that] out L(2) by (simp add: ld_bytes_def)
  then have "store L m (q, z) = store L (mem s) (q, z)" for q z by (auto simp: store_def map_option_case split: option.splits)
  then have "store L m = S" using L(3) by (intro ext) (metis surj_pair)
  with inv L(2) show ?thesis by (auto simp: xv_rep_def)
qed

section \<open>Releasing an object\<close>

lemma store_removed:
  assumes "kept L' m m'" "objs L' = (objs L)(a := None)"
  shows "store L' m' = (store L m)(a := None)"
  using assms by (auto simp: store_def kept_def fun_eq_iff map_option_case split: option.splits)

lemma xv_free_rep:
  assumes rep: "xv_rep P S s" and ob: "S (p, unat off) = Some bs"
  shows "\<exists>s' pg. xv_free p off s = Some (s', pg) \<and>
    pg = (if \<exists>z. z \<noteq> unat off \<and> S (p, z) \<noteq> None then None else Some p) \<and>
    xv_rep (P - set_option pg) (S((p, unat off) := None)) s' \<and> (\<forall>q. q \<notin> P \<longrightarrow> mem s' q = mem s q)"
proof -
  from rep obtain L F where L: "xv_inv L F s" "dom L = P" "store L (mem s) = S" by (auto simp: xv_rep_def)
  have "objs L (p, unat off) = Some (length bs)" using ob L(3) by (auto simp: store_Some)
  from free_layout[OF L(1) this] obtain s' pg L' F' where f: "xv_free p (of_nat (unat off)) s = Some (s', pg)"
    "xv_inv L' F' s'" "free_post L p (unat off) s s' pg L'" by blast
  have none: "S (p, z) = None \<longleftrightarrow> objs L (p, z) = None" for z using L(3) by (auto simp: store_def)
  have "store L' (mem s') = S((p, unat off) := None)"
    using store_removed[of L' "mem s" "mem s'" L] f(3) L(3) by (simp add: free_post_def)
  then have "xv_rep (dom L') (S((p, unat off) := None)) s'" using xv_repI[OF f(2)] by simp
  moreover have "dom L' = P - set_option pg" using f(3) L(2) by (auto simp: free_post_def)
  moreover have "pg = (if \<exists>z. z \<noteq> unat off \<and> S (p, z) \<noteq> None then None else Some p)"
    using f(3) none by (auto simp: free_post_def)
  moreover have "mem s' q = mem s q" if "q \<notin> P" for q
  proof
    fix i
    have "agree_off (pages_bytes P) (mem s) (mem s')" using f(3) L(2) by (simp add: free_post_def)
    then show "mem s' q i = mem s q i" using that by (simp add: agree_off_def pages_bytes_def)
  qed
  ultimately show ?thesis using f(1) by auto
qed

section \<open>The contract of the block device\<close>

lemma rep_page0: "xv_rep P S s \<Longrightarrow> 0 \<notin> P"
  by (auto simp: xv_rep_def dest: xv_invD(3) page_okD(1))

lemma rep_read:
  assumes "xv_rep P S s" "S (p, x) = Some bs"
  shows "p \<in> P" "x + length bs \<le> 4096" "ld_bytes (mem s) p x (length bs) = bs"
    "4 dvd x" "4 \<le> x" "1 \<le> length bs" "length bs \<le> 4092"
    "unat (xv_get_object_size (mem s) p x) = length bs"
proof -
  from assms(1) obtain L F where L: "xv_inv L F s" "dom L = P" "store L (mem s) = S" by (auto simp: xv_rep_def)
  from assms(2) L(3) have o: "objs L (p, x) = Some (length bs)" and bs: "ld_bytes (mem s) p x (length bs) = bs"
    by (auto simp: store_Some)
  note b = objs_bounds[OF L(1) o]
  show "p \<in> P" "4 dvd x" "4 \<le> x" "1 \<le> length bs" "length bs \<le> 4092" using b L(2) by simp_all
  show "x + length bs \<le> 4096" using b(4) le_extent_Used[of "length bs"] by simp
  show "ld_bytes (mem s) p x (length bs) = bs" by (rule bs)
  have u: "blk_at L (p, x - 4) = Some (Used (length bs))" using o by (simp add: objs_Some)
  from blk_atD[OF u] obtain as cs where as: "L p = Some (as @ Used (length bs) # cs)" "end_of 0 as = x - 4" .
  have "page_ok (mem s) p (as @ Used (length bs) # cs)" using xv_invD(3)[OF L(1) as(1)] .
  then show "unat (xv_get_object_size (mem s) p x) = length bs"
    using as(2) by (simp add: page_ok_def xv_get_object_size_def)
qed

lemma rep_disjoint:
  assumes "xv_rep P S s" "S (p, x) = Some bs" "S (p, y) = Some cs" "x < y"
  shows "x + length bs + 4 \<le> y"
proof -
  from assms(1) obtain L F where L: "xv_inv L F s" "store L (mem s) = S" by (auto simp: xv_rep_def)
  from assms(2,3) L(2) have "objs L (p, x) = Some (length bs)" "objs L (p, y) = Some (length cs)"
    by (auto simp: store_Some)
  from objs_disjoint[OF this assms(4)] le_extent_Used[of "length bs"] show ?thesis by linarith
qed

interpretation xvs: object_store xv_rep xv_malloc xv_free mem "\<lambda>m s. s\<lparr>mem := m\<rparr>"
proof (unfold_locales, goal_cases)
  case (2 P S h newpg nowait sz e p off h')
  from malloc_rep(1)[OF this] show ?case by (cases "e = 0") auto
next
  case (3 P S h newpg q nowait sz)
  then show ?case
    using malloc_rep(2)[of P S h newpg nowait sz _ _ _ "snd (xv_malloc newpg nowait sz h)" q]
    by (metis prod.collapse)
next
  case (4 P S h p off bs)
  from xv_free_rep[OF this] show ?case by auto
next
  case (7 P S h p x bs)
  from rep_read[OF this] show ?case by simp
qed (auto intro: rep_page0[rotated] xv_write_rep xv_outside_rep dest: rep_page0)

section \<open>Properties of the allocator\<close>

text \<open>
  C3: \<^verbatim>\<open>xv_free\<close> of the handle of an object never hits its \<^verbatim>\<open>BUG_ON\<close>; it removes exactly that
  object, the others keep their bytes, and the page is given back precisely when the object
  was the last one in it.
\<close>

theorem xv_free_refines:
  assumes "xv_rep P S s" and "S (p, unat off) = Some bs"
  shows "\<exists>s' pg. xv_free p off s = Some (s', pg) \<and>
    pg = (if \<exists>z. z \<noteq> unat off \<and> S (p, z) \<noteq> None then None else Some p) \<and>
    xv_rep (P - set_option pg) (S((p, unat off) := None)) s' \<and> (\<forall>q. q \<notin> P \<longrightarrow> mem s' q = mem s q)"
  using assms by (rule xv_free_rep)

text \<open>An allocation that cannot fail, for the witnesses.\<close>

lemma malloc_fresh:
  assumes rep: "xv_rep P S s" and new: "newpg \<notin> P" "newpg \<noteq> 0" and sz: "1 \<le> unat sz" "unat sz \<le> 4088"
  obtains p off s' P' bs where "xv_malloc newpg False sz s = ((0, p, off), s')"
    "P' \<in> {P, insert newpg P}" "length bs = unat sz" "S (p, unat off) = None"
    "xv_rep P' (S((p, unat off) \<mapsto> bs)) s'"
proof -
  obtain e p off s' where r: "xv_malloc newpg False sz s = ((e, p, off), s')" by (metis prod.collapse)
  from rep obtain L F where L: "xv_inv L F s" "dom L = P" by (auto simp: xv_rep_def)
  obtain L' F' r' s'' where l: "xv_malloc newpg False sz s = (r', s'')" "malloc_post L newpg False sz s r' s'' L'"
    using malloc_layout[OF L(1), of newpg False sz] new(1) L(2) by metis
  have e: "e = 0" using l r sz new(2) by (auto simp: malloc_post_def)
  from malloc_rep(1)[OF rep new(1) r] e obtain P' bs where
    "P' \<in> {P, insert newpg P}" "S (p, unat off) = None" "length bs = unat sz"
    "xv_rep P' (S((p, unat off) \<mapsto> bs)) s'" by auto
  with r e show thesis by (intro that) simp_all
qed

lemma one_object:
  obtains p off s' P' bs where
    "xv_malloc 7 False 100 (xv_create_pool (\<lambda>_ _. 0)) = ((0, p, off), s')"
    "P' \<subseteq> {7}" "length bs = 100" "xv_rep P' [(p, unat off) \<mapsto> bs] s'"
proof -
  obtain p off s' P' bs where "xv_malloc 7 False 100 (xv_create_pool (\<lambda>_ _. 0)) = ((0, p, off), s')"
    "P' \<in> {{}, insert 7 {}}" "length bs = unat (100 :: u32)" "xv_rep P' [(p, unat off) \<mapsto> bs] s'"
    by (rule malloc_fresh[OF create_rep, of 7 100 "\<lambda>_ _. 0"]) auto
  then show thesis by (intro that[of p off s' P' bs]) auto
qed

theorem xv_free_refines_witness:
  "\<exists>p off s. xv_malloc 7 False 100 (xv_create_pool (\<lambda>_ _. 0)) = ((0, p, off), s) \<and>
     (\<exists>s'. xv_free p off s = Some (s', Some p))"
proof -
  obtain p off s' P' bs where m: "xv_malloc 7 False 100 (xv_create_pool (\<lambda>_ _. 0)) = ((0, p, off), s')"
    "P' \<subseteq> {7}" "length bs = 100" "xv_rep P' [(p, unat off) \<mapsto> bs] s'" by (rule one_object)
  have "[(p, unat off) \<mapsto> bs] (p, unat off) = Some bs" by simp
  from xv_free_refines[OF m(4) this] m(1) show ?thesis by auto
qed



text \<open>
  \<^verbatim>\<open>xv_get_object_size\<close> of an allocated object is the size it was requested with.
\<close>

theorem xv_get_object_size_requested:
  assumes "xv_rep P S s" and "S (p, x) = Some bs"
  shows "unat (xv_get_object_size (mem s) p x) = length bs"
  by (rule rep_read(8)[OF assms])

theorem xv_get_object_size_requested_witness:
  "\<exists>p off s. xv_malloc 7 False 100 (xv_create_pool (\<lambda>_ _. 0)) = ((0, p, off), s) \<and>
     unat (xv_get_object_size (mem s) p (unat off)) = 100"
proof -
  obtain p off s' P' bs where m: "xv_malloc 7 False 100 (xv_create_pool (\<lambda>_ _. 0)) = ((0, p, off), s')"
    "P' \<subseteq> {7}" "length bs = 100" "xv_rep P' [(p, unat off) \<mapsto> bs] s'" by (rule one_object)
  from xv_get_object_size_requested[OF m(4), of p "unat off" bs] m(1,3) show ?thesis by auto
qed

text \<open>
  \<^verbatim>\<open>xv_get_total_size_bytes\<close> is the number of pages of the pool times the page size.
\<close>

theorem xv_total_size:
  assumes "xv_rep P S s"
  shows "xv_get_total_size_bytes s = of_nat (card P * PAGE_SIZE)"
proof -
  from assms obtain L F where "xv_inv L F s" "dom L = P" by (auto simp: xv_rep_def)
  then have "total_pages s = of_nat (card P)" using xv_invD(5) by blast
  then show ?thesis by (simp add: xv_get_total_size_bytes_def push_bit_eq_mult)
qed

theorem xv_total_size_witness: "xv_get_total_size_bytes (xv_create_pool (\<lambda>_ _. 0)) = 0"
  using xv_total_size[OF create_rep[of "\<lambda>_ _. 0"]] by simp



section \<open>Any sequence of operations\<close>

text \<open>
  What a client of the pool can do: \<open>xv_run m U H s\<close> says that from a pool created over the
  memory \<open>m\<close> some sequence of allocations, releases of held handles and writes into held
  objects leads to \<open>s\<close>, with the handles \<open>H\<close> held and the pages \<open>U\<close> taken from the kernel. The
  kernel only delivers pages it has not delivered before.
\<close>

inductive xv_run :: "pmem \<Rightarrow> u32 set \<Rightarrow> addr set \<Rightarrow> xv_heap \<Rightarrow> bool" for m :: pmem where
  create: "xv_run m {} {} (xv_create_pool m)"
| malloc: "xv_run m U H s \<Longrightarrow> newpg \<notin> U \<Longrightarrow> xv_malloc newpg nowait sz s = ((e, p, off), s') \<Longrightarrow>
    U' = (if total_pages s' = total_pages s then U else insert newpg U) \<Longrightarrow>
    H' = (if e = 0 then insert (p, unat off) H else H) \<Longrightarrow> xv_run m U' H' s'"
| free: "xv_run m U H s \<Longrightarrow> (p, unat off) \<in> H \<Longrightarrow> xv_free p off s = Some (s', pg) \<Longrightarrow>
    xv_run m (U - set_option pg) (H - {(p, unat off)}) s'"
| fill: "xv_run m U H s \<Longrightarrow> (p, x) \<in> H \<Longrightarrow> length bs = unat (xv_get_object_size (mem s) p x) \<Longrightarrow>
    xv_run m U H (s\<lparr>mem := st_bytes (mem s) p x bs\<rparr>)"

lemma rep_total: "xv_rep P S s \<Longrightarrow> finite P \<and> total_pages s = of_nat (card P)"
  by (auto simp: xv_rep_def xv_inv_def)

lemma xv_run_rep:
  "xv_run m U H s \<Longrightarrow> \<exists>S. xv_rep U S s \<and> dom S = H"
proof (induction rule: xv_run.induct)
  case create
  then show ?case using create_rep[of m] by (intro exI[of _ Map.empty]) simp
next
  case (malloc U H s newpg nowait sz e p off s' U' H')
  then obtain S where S: "xv_rep U S s" "dom S = H" by blast
  have "\<exists>P' \<in> {U, insert newpg U}. \<exists>S'. xv_rep P' S' s' \<and> dom S' = H'"
  proof (cases "e = 0")
    case True
    with malloc_rep(1)[OF S(1) malloc.hyps(2,3)] obtain P' bs where
      "P' \<in> {U, insert newpg U}" "xv_rep P' (S((p, unat off) \<mapsto> bs)) s'" by auto
    moreover have "dom (S((p, unat off) \<mapsto> bs)) = H'" using S(2) malloc.hyps(5) True by simp
    ultimately show ?thesis by blast
  next
    case False
    then show ?thesis using malloc_rep(1)[OF S(1) malloc.hyps(2,3)] S(2) malloc.hyps(5) by auto
  qed
  then obtain P' S' where P': "P' \<in> {U, insert newpg U}" "xv_rep P' S' s'" "dom S' = H'" by blast
  have "P' = U'"
  proof (cases "P' = U")
    case True
    then show ?thesis using rep_total[OF S(1)] rep_total[OF P'(2)] malloc.hyps(4) by simp
  next
    case False
    then have "P' = insert newpg U" using P'(1) by simp
    then have "total_pages s' = total_pages s + 1"
      using rep_total[OF S(1)] rep_total[OF P'(2)] malloc.hyps(2) by simp
    then show ?thesis using malloc.hyps(4) \<open>P' = insert newpg U\<close> by simp
  qed
  with P' show ?case by blast
next
  case (free U H s p off s' pg)
  then obtain S where S: "xv_rep U S s" "dom S = H" by blast
  then obtain bs where "S (p, unat off) = Some bs" using free.hyps(2) by auto
  from xvs.release_law[OF S(1) this] obtain h'' pg' where "xv_free p off s = Some (h'', pg')"
    "xv_rep (U - set_option pg') (S((p, unat off) := None)) h''" by blast
  with free.hyps(3) have "xv_rep (U - set_option pg) (S((p, unat off) := None)) s'" by simp
  moreover have "dom (S((p, unat off) := None)) = H - {(p, unat off)}" using S(2) by simp
  ultimately show ?case by blast
next
  case (fill U H s p x bs)
  then obtain S where S: "xv_rep U S s" "dom S = H" by blast
  then obtain cs where cs: "S (p, x) = Some cs" using fill.hyps(2) by auto
  from rep_read(8)[OF S(1) cs] fill.hyps(3) have "length bs = length cs" by simp
  from xv_write_rep[OF S(1) cs this] have "xv_rep U (S((p, x) \<mapsto> bs)) (s\<lparr>mem := st_bytes (mem s) p x bs\<rparr>)" .
  moreover have "dom (S((p, x) \<mapsto> bs)) = H" using S(2) cs by auto
  ultimately show ?case by blast
qed

text \<open>
  C1: safety over all client behaviour. After any sequence of allocations, releases and writes
  the pool is well formed, its objects are exactly the handles the client holds, its pages
  exactly those taken from the kernel, and releasing any held handle does not hit the
  \<^verbatim>\<open>BUG_ON\<close> of \<^verbatim>\<open>xv_free\<close>.
\<close>

theorem xv_run_safe:
  assumes "xv_run m U H s"
  shows "(\<exists>S. xv_rep U S s \<and> dom S = H) \<and> (\<forall>p off. (p, unat off) \<in> H \<longrightarrow> xv_free p off s \<noteq> None)"
proof -
  obtain S where S: "xv_rep U S s" "dom S = H" using xv_run_rep[OF assms] by blast
  have "xv_free p off s \<noteq> None" if h: "(p, unat off) \<in> H" for p off
  proof -
    obtain bs where "S (p, unat off) = Some bs" using h S(2) by auto
    from xv_free_rep[OF S(1) this] show ?thesis by auto
  qed
  with S show ?thesis by blast
qed

theorem xv_run_safe_witness:
  "\<exists>p off s. xv_run (\<lambda>_ _. 0) {7} {(p, unat off)} s \<and> xv_free p off s \<noteq> None"
proof -
  obtain p off s' P' bs where m: "xv_malloc 7 False 100 (xv_create_pool (\<lambda>_ _. 0)) = ((0, p, off), s')"
    "P' \<subseteq> {7}" "length bs = 100" "xv_rep P' [(p, unat off) \<mapsto> bs] s'" by (rule one_object)
  have "p \<in> P'" using rep_read(1)[OF m(4), of p "unat off" bs] by simp
  then have P': "P' = {7}" using m(2) by auto
  have "total_pages s' \<noteq> total_pages (xv_create_pool (\<lambda>_ _. 0))"
    using rep_total[OF m(4)] P' by (simp add: xv_create_pool_def)
  then have r: "xv_run (\<lambda>_ _. 0) {7} {(p, unat off)} s'"
    by (intro xv_run.malloc[OF xv_run.create _ m(1)]) simp_all
  from xv_run_safe[OF r] r show ?thesis by blast
qed

section \<open>Double free\<close>

text \<open>
  The double-free check. Calling \<^verbatim>\<open>xv_free\<close> on a block that is free hits the \<^verbatim>\<open>BUG_ON\<close>.
\<close>

theorem xv_free_of_free_block:
  assumes "xv_inv L F s" and "blk_at L (p, x) = Some (Free n)"
  shows "xv_free p (of_nat x + 4) s = None"
proof -
  from assms(2) obtain as cs where L: "L p = Some (as @ Free n # cs)" "end_of 0 as = x" by (rule blk_atD)
  have po: "page_ok (mem s) p (as @ Free n # cs)" using xv_invD(3)[OF assms(1) L(1)] .
  then have "block_prev (mem s) p x = enc (last_start 0 0 as) True (last_free False as)"
    "4 dvd last_start 0 0 as" using L(2) last_start_aligned[of "mem s" p as] by (auto simp: page_ok_def)
  from test_flag_enc(1)[OF this] have "test_flag (mem s) p x BLOCK_FREE" by simp
  moreover have "unat (of_nat x :: u32) = x"
    by (rule unat_of_nat_u32) (use blk_at_bounds(1)[OF assms] in simp)
  ultimately show ?thesis by (simp add: xv_free_def Let_def)
qed

theorem xv_free_of_free_block_witness:
  "xv_free 7 4 (snd (grow_pool 7 (xv_create_pool (\<lambda>_ _. 0)))) = None"
proof -
  obtain F s where g: "grow_pool 7 (xv_create_pool (\<lambda>_ _. 0)) = (0, s)" "xv_inv [7 \<mapsto> [Free 4092]] F s"
    by (rule grow_keeps[OF xv_inv_create, of 7 "\<lambda>_ _. 0"]) auto
  have "blk_at [7 \<mapsto> [Free 4092]] (7, 0) = Some (Free 4092)" by (simp add: blk_at_def)
  from xv_free_of_free_block[OF g(2) this] g(1) show ?thesis by simp
qed

end
