(* ===== verification/Ramzswap_Inv.thy ===== *)
theory Ramzswap_Inv
  imports Ramzswap Xv_Interface
begin

text \<open>
  The invariant of the swap table and the contents of the device it stands for. \<open>tinv\<close> ties
  the table to the abstract object store: every compressed entry is the handle of an object
  that decompresses to a page, no object is left without an entry, uncompressed entries own
  page frames outside the pool, and no two entries share a place.
\<close>

unbundle bit_operations_syntax

section \<open>Entries\<close>

definition stored :: "rz_entry \<Rightarrow> bool" where
  "stored e \<longleftrightarrow> te_pagenum e \<noteq> 0"

definition plain :: "rz_entry \<Rightarrow> bool" where
  "plain e \<longleftrightarrow> te_flags e AND BIT_pageflag RZS_UNCOMPRESSED \<noteq> 0"

definition zero_entry :: "rz_entry \<Rightarrow> bool" where
  "zero_entry e \<longleftrightarrow> te_flags e AND BIT_pageflag RZS_ZERO \<noteq> 0"

definition handle :: "rz_entry \<Rightarrow> addr" where
  "handle e = (te_pagenum e, unat (te_offset e))"

definition entry_ok :: "lzo \<Rightarrow> u32 set \<Rightarrow> (addr \<Rightarrow> u8 list option) \<Rightarrow> rz_entry \<Rightarrow> bool" where
  "entry_ok z P S e \<longleftrightarrow>
     (if stored e then \<not> zero_entry e \<and>
        (if plain e then te_pagenum e \<notin> P \<and> te_offset e = 0
         else \<exists>c page. S (handle e) = Some c \<and> lzo1x_decompress_safe z c PAGE_SIZE = (LZO_E_OK, page) \<and>
                length page = PAGE_SIZE)
      else \<not> plain e)"

definition tinv :: "lzo \<Rightarrow> u32 set \<Rightarrow> (addr \<Rightarrow> u8 list option) \<Rightarrow> xv_heap \<Rightarrow> rz_entry list \<Rightarrow> bool" where
  "tinv z P S h tbl \<longleftrightarrow> xv_rep P S h \<and>
     (\<forall>i < length tbl. entry_ok z P S (tbl ! i)) \<and>
     (\<forall>i < length tbl. \<forall>j < length tbl. i \<noteq> j \<longrightarrow> stored (tbl ! i) \<longrightarrow> stored (tbl ! j) \<longrightarrow>
        handle (tbl ! i) \<noteq> handle (tbl ! j)) \<and>
     (\<forall>a. a \<in> dom S \<longleftrightarrow> (\<exists>i < length tbl. stored (tbl ! i) \<and> \<not> plain (tbl ! i) \<and> handle (tbl ! i) = a))"

lemma tinvD:
  assumes "tinv z P S h tbl"
  shows "xv_rep P S h" and "i < length tbl \<Longrightarrow> entry_ok z P S (tbl ! i)"
    and "i < length tbl \<Longrightarrow> j < length tbl \<Longrightarrow> i \<noteq> j \<Longrightarrow> stored (tbl ! i) \<Longrightarrow> stored (tbl ! j) \<Longrightarrow>
        handle (tbl ! i) \<noteq> handle (tbl ! j)"
    and "a \<in> dom S \<longleftrightarrow> (\<exists>i < length tbl. stored (tbl ! i) \<and> \<not> plain (tbl ! i) \<and> handle (tbl ! i) = a)"
  using assms unfolding tinv_def by blast+

text \<open>The page frames that uncompressed entries own.\<close>

definition plain_pages :: "rz_entry list \<Rightarrow> u32 set" where
  "plain_pages tbl = {te_pagenum e |e. e \<in> set tbl \<and> stored e \<and> plain e}"

lemma plain_pages_outside: "tinv z P S h tbl \<Longrightarrow> plain_pages tbl \<inter> P = {}"
  by (auto simp: plain_pages_def tinv_def entry_ok_def in_set_conv_nth split: if_splits)

lemma plain_pagesI: "i < length tbl \<Longrightarrow> stored (tbl ! i) \<Longrightarrow> plain (tbl ! i) \<Longrightarrow> te_pagenum (tbl ! i) \<in> plain_pages tbl"
  by (auto simp: plain_pages_def in_set_conv_nth)

section \<open>The contents of the device\<close>

definition entry_page :: "lzo \<Rightarrow> pmem \<Rightarrow> rz_entry \<Rightarrow> u8 list option" where
  "entry_page z m e =
     (if zero_entry e then Some (replicate PAGE_SIZE 0)
      else if \<not> stored e then None
      else if plain e then Some (ld_bytes m (te_pagenum e) 0 PAGE_SIZE)
      else Some (snd (lzo1x_decompress_safe z (ld_bytes m (te_pagenum e) (unat (te_offset e))
             (unat (xv_get_object_size m (te_pagenum e) (unat (te_offset e))))) PAGE_SIZE)))"

text \<open>The device as a map from page numbers to pages; absent pages are with the backing device or nowhere.\<close>

definition device :: "lzo \<Rightarrow> ramzswap \<Rightarrow> nat \<Rightarrow> u8 list option" where
  "device z r i = (if i < length (table r) then entry_page z (rz_mem r) (table r ! i) else None)"

lemma object_bytes:
  assumes "xv_rep P S h" "S (handle e) = Some c"
  shows "ld_bytes (mem h) (te_pagenum e) (unat (te_offset e))
      (unat (xv_get_object_size (mem h) (te_pagenum e) (unat (te_offset e)))) = c"
  using rep_read(3,8)[OF assms(1) assms(2)[unfolded handle_def]] by simp

lemma entry_page_packed:
  assumes "xv_rep P S h" "S (handle e) = Some c" "stored e" "\<not> plain e" "\<not> zero_entry e"
  shows "entry_page z (mem h) e = Some (snd (lzo1x_decompress_safe z c PAGE_SIZE))"
  using object_bytes[OF assms(1,2)] assms(3-5) by (simp add: entry_page_def)

text \<open>A page of the device does not change as long as its object and its page frame do not.\<close>

lemma entry_page_kept:
  assumes "entry_ok z P S e" "xv_rep P S h" "xv_rep P' S' h'"
    and "stored e \<Longrightarrow> \<not> plain e \<Longrightarrow> S' (handle e) = S (handle e)"
    and "stored e \<Longrightarrow> plain e \<Longrightarrow> mem h' (te_pagenum e) = mem h (te_pagenum e)"
  shows "entry_page z (mem h') e = entry_page z (mem h) e"
proof (cases "stored e \<and> \<not> plain e \<and> \<not> zero_entry e")
  case True
  then obtain c where c: "S (handle e) = Some c" using assms(1) by (auto simp: entry_ok_def)
  with True assms(4) have "S' (handle e) = Some c" by simp
  with c True show ?thesis
    using entry_page_packed[OF assms(2) c] entry_page_packed[OF assms(3), of e c] by simp
next
  case False
  then show ?thesis using assms(5) by (auto simp: entry_page_def ld_bytes_def)
qed

section \<open>One entry changes\<close>

lemma tinv_upd:
  assumes "tinv z P S h tbl" "i < length tbl" "xv_rep P' S' h'"
    and "\<And>j. j < length tbl \<Longrightarrow> j \<noteq> i \<Longrightarrow> entry_ok z P' S' (tbl ! j)"
    and "entry_ok z P' S' e"
    and "\<And>j. j < length tbl \<Longrightarrow> j \<noteq> i \<Longrightarrow> stored e \<Longrightarrow> stored (tbl ! j) \<Longrightarrow> handle (tbl ! j) \<noteq> handle e"
    and "\<And>a. a \<in> dom S' \<longleftrightarrow> (stored e \<and> \<not> plain e \<and> handle e = a) \<or>
      (\<exists>j < length tbl. j \<noteq> i \<and> stored (tbl ! j) \<and> \<not> plain (tbl ! j) \<and> handle (tbl ! j) = a)"
  shows "tinv z P' S' h' (tbl[i := e])"
proof -
  have "entry_ok z P' S' (tbl[i := e] ! j)" if "j < length tbl" for j
    using assms(2,4,5) that by (cases "j = i") auto
  moreover have "handle (tbl[i := e] ! j) \<noteq> handle (tbl[i := e] ! k)"
    if "j < length tbl" "k < length tbl" "j \<noteq> k" "stored (tbl[i := e] ! j)" "stored (tbl[i := e] ! k)" for j k
    using that assms(2) assms(6)[of j] assms(6)[of k] tinvD(3)[OF assms(1), of j k]
    by (cases "j = i"; cases "k = i") (auto dest: not_sym)
  moreover have "a \<in> dom S' \<longleftrightarrow> (\<exists>j < length tbl. stored (tbl[i := e] ! j) \<and> \<not> plain (tbl[i := e] ! j) \<and>
      handle (tbl[i := e] ! j) = a)" for a
    unfolding assms(7)
  proof
    assume "stored e \<and> \<not> plain e \<and> handle e = a \<or>
      (\<exists>j < length tbl. j \<noteq> i \<and> stored (tbl ! j) \<and> \<not> plain (tbl ! j) \<and> handle (tbl ! j) = a)"
    then show "\<exists>j < length tbl. stored (tbl[i := e] ! j) \<and> \<not> plain (tbl[i := e] ! j) \<and> handle (tbl[i := e] ! j) = a"
    proof
      assume "stored e \<and> \<not> plain e \<and> handle e = a"
      with assms(2) show ?thesis by (intro exI[of _ i]) simp
    next
      assume "\<exists>j < length tbl. j \<noteq> i \<and> stored (tbl ! j) \<and> \<not> plain (tbl ! j) \<and> handle (tbl ! j) = a"
      then obtain j where "j < length tbl" "j \<noteq> i" "stored (tbl ! j)" "\<not> plain (tbl ! j)" "handle (tbl ! j) = a" by blast
      then show ?thesis by (intro exI[of _ j]) simp
    qed
  next
    assume "\<exists>j < length tbl. stored (tbl[i := e] ! j) \<and> \<not> plain (tbl[i := e] ! j) \<and> handle (tbl[i := e] ! j) = a"
    then obtain j where j: "j < length tbl" "stored (tbl[i := e] ! j)" "\<not> plain (tbl[i := e] ! j)"
      "handle (tbl[i := e] ! j) = a" by blast
    then show "stored e \<and> \<not> plain e \<and> handle e = a \<or>
      (\<exists>j < length tbl. j \<noteq> i \<and> stored (tbl ! j) \<and> \<not> plain (tbl ! j) \<and> handle (tbl ! j) = a)"
      using assms(2) by (cases "j = i") auto
  qed
  ultimately show ?thesis using assms(3) by (simp add: tinv_def)
qed

lemma entry_ok_other:
  assumes "entry_ok z P S e"
    and "stored e \<Longrightarrow> \<not> plain e \<Longrightarrow> S' (handle e) = S (handle e)"
    and "stored e \<Longrightarrow> plain e \<Longrightarrow> te_pagenum e \<notin> P'"
  shows "entry_ok z P' S' e"
  using assms by (auto simp: entry_ok_def split: if_splits)

lemma tinv_empty_entry:
  assumes "tinv z P S h tbl" "i < length tbl" "stored (tbl ! i) \<Longrightarrow> plain (tbl ! i)"
    and "\<not> stored e" "\<not> plain e"
  shows "tinv z P S h (tbl[i := e])"
proof (rule tinv_upd[OF assms(1,2) tinvD(1)[OF assms(1)]])
  show "\<And>j. j < length tbl \<Longrightarrow> j \<noteq> i \<Longrightarrow> entry_ok z P S (tbl ! j)" using tinvD(2)[OF assms(1)] by simp
  show "entry_ok z P S e" using assms(4,5) by (simp add: entry_ok_def)
  show "a \<in> dom S \<longleftrightarrow> (stored e \<and> \<not> plain e \<and> handle e = a) \<or>
      (\<exists>j < length tbl. j \<noteq> i \<and> stored (tbl ! j) \<and> \<not> plain (tbl ! j) \<and> handle (tbl ! j) = a)" for a
    unfolding tinvD(4)[OF assms(1)] using assms(3,4) by blast
qed (use assms(4) in simp)

lemma handle_in_pool:
  assumes "tinv z P S h tbl" "i < length tbl" "stored (tbl ! i)" "\<not> plain (tbl ! i)"
  shows "te_pagenum (tbl ! i) \<in> P" "\<exists>c. S (handle (tbl ! i)) = Some c"
proof -
  show "\<exists>c. S (handle (tbl ! i)) = Some c" using tinvD(2)[OF assms(1,2)] assms(3,4) by (auto simp: entry_ok_def)
  then show "te_pagenum (tbl ! i) \<in> P" using rep_read(1)[OF tinvD(1)[OF assms(1)]] by (auto simp: handle_def)
qed

text \<open>A compressed entry is released.\<close>

lemma tinv_release:
  assumes tv: "tinv z P S h tbl" and i: "i < length tbl" "stored (tbl ! i)" "\<not> plain (tbl ! i)"
    and rep: "xv_rep (P - D) (S(handle (tbl ! i) := None)) h'"
    and e: "\<not> stored e" "\<not> plain e"
  shows "tinv z (P - D) (S(handle (tbl ! i) := None)) h' (tbl[i := e])"
proof (rule tinv_upd[OF tv i(1) rep])
  have ne: "handle (tbl ! j) \<noteq> handle (tbl ! i)" if "j < length tbl" "j \<noteq> i" "stored (tbl ! j)" for j
    using tinvD(3)[OF tv that(1) i(1) that(2,3) i(2)] .
  show "entry_ok z (P - D) (S(handle (tbl ! i) := None)) (tbl ! j)" if j: "j < length tbl" "j \<noteq> i" for j
    by (rule entry_ok_other[OF tinvD(2)[OF tv j(1)]])
      (use ne[OF j] tinvD(2)[OF tv j(1)] in \<open>auto simp: entry_ok_def\<close>)
  show "entry_ok z (P - D) (S(handle (tbl ! i) := None)) e" using e by (simp add: entry_ok_def)
  show "a \<in> dom (S(handle (tbl ! i) := None)) \<longleftrightarrow> (stored e \<and> \<not> plain e \<and> handle e = a) \<or>
      (\<exists>j < length tbl. j \<noteq> i \<and> stored (tbl ! j) \<and> \<not> plain (tbl ! j) \<and> handle (tbl ! j) = a)" for a
  proof -
    have "a \<in> dom (S(handle (tbl ! i) := None)) \<longleftrightarrow> a \<in> dom S \<and> a \<noteq> handle (tbl ! i)" by auto
    also have "\<dots> \<longleftrightarrow> (\<exists>j < length tbl. j \<noteq> i \<and> stored (tbl ! j) \<and> \<not> plain (tbl ! j) \<and> handle (tbl ! j) = a)"
      unfolding tinvD(4)[OF tv] using ne by blast
    finally show ?thesis using e(1) by blast
  qed
qed (use e in simp)

text \<open>An empty entry receives a compressed page.\<close>

lemma tinv_pack:
  assumes tv: "tinv z P S h tbl" and i: "i < length tbl" "\<not> stored (tbl ! i)"
    and rep: "xv_rep P' (S(handle e \<mapsto> c)) h'" and new: "S (handle e) = None" "P' \<inter> plain_pages tbl = {}"
    and c: "lzo1x_decompress_safe z c PAGE_SIZE = (LZO_E_OK, page)" "length page = PAGE_SIZE"
    and e: "stored e" "\<not> plain e" "\<not> zero_entry e"
  shows "tinv z P' (S(handle e \<mapsto> c)) h' (tbl[i := e])"
proof (rule tinv_upd[OF tv i(1) rep])
  have ne: "handle (tbl ! j) \<noteq> handle e" if j: "j < length tbl" "stored (tbl ! j)" for j
  proof (cases "plain (tbl ! j)")
    case True
    have "te_pagenum e \<in> P'" using rep_read(1)[OF rep, of "te_pagenum e" "unat (te_offset e)" c] by (simp add: handle_def)
    with plain_pagesI[OF j True] new(2) show ?thesis by (auto simp: handle_def)
  next
    case False
    with handle_in_pool(2)[OF tv j] new(1) show ?thesis by auto
  qed
  show "entry_ok z P' (S(handle e \<mapsto> c)) (tbl ! j)" if j: "j < length tbl" "j \<noteq> i" for j
    by (rule entry_ok_other[OF tinvD(2)[OF tv j(1)]]) (use ne[OF j(1)] plain_pagesI[OF j(1)] new(2) in auto)
  show "entry_ok z P' (S(handle e \<mapsto> c)) e" using c e by (simp add: entry_ok_def)
  show "\<And>j. j < length tbl \<Longrightarrow> j \<noteq> i \<Longrightarrow> stored e \<Longrightarrow> stored (tbl ! j) \<Longrightarrow> handle (tbl ! j) \<noteq> handle e"
    using ne by blast
  show "a \<in> dom (S(handle e \<mapsto> c)) \<longleftrightarrow> (stored e \<and> \<not> plain e \<and> handle e = a) \<or>
      (\<exists>j < length tbl. j \<noteq> i \<and> stored (tbl ! j) \<and> \<not> plain (tbl ! j) \<and> handle (tbl ! j) = a)" for a
  proof -
    have "a \<in> dom (S(handle e \<mapsto> c)) \<longleftrightarrow> a = handle e \<or> a \<in> dom S" by auto
    then show ?thesis unfolding tinvD(4)[OF tv] using e(1,2) i(2) by blast
  qed
qed

text \<open>An empty entry receives a page frame of its own.\<close>

lemma tinv_plain:
  assumes tv: "tinv z P S h tbl" and i: "i < length tbl" "\<not> stored (tbl ! i)"
    and new: "te_pagenum e \<notin> P" "te_pagenum e \<notin> plain_pages tbl"
    and e: "stored e" "plain e" "\<not> zero_entry e" "te_offset e = 0"
  shows "tinv z P S h (tbl[i := e])"
proof (rule tinv_upd[OF tv i(1) tinvD(1)[OF tv]])
  show "\<And>j. j < length tbl \<Longrightarrow> j \<noteq> i \<Longrightarrow> entry_ok z P S (tbl ! j)" using tinvD(2)[OF tv] by simp
  show "entry_ok z P S e" using e new(1) by (simp add: entry_ok_def)
  show "handle (tbl ! j) \<noteq> handle e" if j: "j < length tbl" "stored (tbl ! j)" for j
  proof (cases "plain (tbl ! j)")
    case True
    with plain_pagesI[OF j] new(2) show ?thesis by (auto simp: handle_def)
  next
    case False
    with handle_in_pool(1)[OF tv j] new(1) show ?thesis by (auto simp: handle_def)
  qed
  show "a \<in> dom S \<longleftrightarrow> (stored e \<and> \<not> plain e \<and> handle e = a) \<or>
      (\<exists>j < length tbl. j \<noteq> i \<and> stored (tbl ! j) \<and> \<not> plain (tbl ! j) \<and> handle (tbl ! j) = a)" for a
    unfolding tinvD(4)[OF tv] using e(2) i(2) by blast
qed

text \<open>Page frames outside the pool change.\<close>

lemma tinv_outside:
  assumes "tinv z P S h tbl" "\<And>q. q \<in> P \<Longrightarrow> m q = mem h q"
  shows "tinv z P S (h\<lparr>mem := m\<rparr>) tbl"
  using assms(1) xvs.outside_law[OF tinvD(1)[OF assms(1)], of m, OF assms(2)] by (simp add: tinv_def)

section \<open>Flags of an entry\<close>

lemma u8_low_bits: "bit (1 :: u8) n \<longleftrightarrow> n = 0" "bit (2 :: u8) n \<longleftrightarrow> n = 1"
proof -
  show "bit (1 :: u8) n \<longleftrightarrow> n = 0" by (auto simp: bit_1_iff)
  have 2: "(2 :: u8) = push_bit 1 1" by simp
  show "bit (2 :: u8) n \<longleftrightarrow> n = 1" by (subst 2) (auto simp: bit_simps)
qed

lemma flag_test: "(w :: u8) AND 1 \<noteq> 0 \<longleftrightarrow> bit w 0" "w AND 2 \<noteq> 0 \<longleftrightarrow> bit w (Suc 0)"
  by (auto simp: bit_eq_iff[where 'a = "8 word"] bit_and_iff u8_low_bits simp del: bit_numeral_word_iff)

lemma flag_bits:
  "bit (te_flags e OR BIT_pageflag f) 0 \<longleftrightarrow> bit (te_flags e) 0 \<or> f = RZS_UNCOMPRESSED"
  "bit (te_flags e OR BIT_pageflag f) (Suc 0) \<longleftrightarrow> bit (te_flags e) (Suc 0) \<or> f = RZS_ZERO"
  "bit (te_flags e AND NOT (BIT_pageflag f)) 0 \<longleftrightarrow> bit (te_flags e) 0 \<and> f \<noteq> RZS_UNCOMPRESSED"
  "bit (te_flags e AND NOT (BIT_pageflag f)) (Suc 0) \<longleftrightarrow> bit (te_flags e) (Suc 0) \<and> f \<noteq> RZS_ZERO"
  by (cases f; auto simp: bit_or_iff bit_and_iff bit_not_iff u8_low_bits
      simp del: bit_numeral_word_iff)+

lemma plain_bit: "plain e \<longleftrightarrow> bit (te_flags e) 0"
  by (simp only: plain_def BIT_pageflag.simps flag_test)

lemma zero_bit: "zero_entry e \<longleftrightarrow> bit (te_flags e) (Suc 0)"
  by (simp only: zero_entry_def BIT_pageflag.simps flag_test)

declare BIT_pageflag.simps [simp del]

text \<open>How the field updates of the C code act on the predicates of an entry.\<close>

named_theorems entry_upd

lemma entry_set_flag [entry_upd]:
  "plain (e\<lparr>te_flags := te_flags e OR BIT_pageflag f\<rparr>) \<longleftrightarrow> plain e \<or> f = RZS_UNCOMPRESSED"
  "zero_entry (e\<lparr>te_flags := te_flags e OR BIT_pageflag f\<rparr>) \<longleftrightarrow> zero_entry e \<or> f = RZS_ZERO"
  "plain (e\<lparr>te_flags := te_flags e AND NOT (BIT_pageflag f)\<rparr>) \<longleftrightarrow> plain e \<and> f \<noteq> RZS_UNCOMPRESSED"
  "zero_entry (e\<lparr>te_flags := te_flags e AND NOT (BIT_pageflag f)\<rparr>) \<longleftrightarrow> zero_entry e \<and> f \<noteq> RZS_ZERO"
  "stored (e\<lparr>te_flags := w\<rparr>) \<longleftrightarrow> stored e" "handle (e\<lparr>te_flags := w\<rparr>) = handle e"
  by (simp_all add: plain_bit zero_bit flag_bits stored_def handle_def)

lemma entry_set_place [entry_upd]:
  "plain (e\<lparr>te_pagenum := p\<rparr>) \<longleftrightarrow> plain e" "zero_entry (e\<lparr>te_pagenum := p\<rparr>) \<longleftrightarrow> zero_entry e"
  "plain (e\<lparr>te_offset := o1\<rparr>) \<longleftrightarrow> plain e" "zero_entry (e\<lparr>te_offset := o1\<rparr>) \<longleftrightarrow> zero_entry e"
  "stored (e\<lparr>te_pagenum := p\<rparr>) \<longleftrightarrow> p \<noteq> 0" "stored (e\<lparr>te_offset := o1\<rparr>) \<longleftrightarrow> stored e"
  by (simp_all add: plain_def zero_entry_def stored_def)

lemma rz_test_flag_entry:
  "rz_test_flag r i RZS_ZERO \<longleftrightarrow> zero_entry (table r ! i)"
  "rz_test_flag r i RZS_UNCOMPRESSED \<longleftrightarrow> plain (table r ! i)"
  by (simp_all add: rz_test_flag_def plain_def zero_entry_def)

end
