(* ===== verification/Ramzswap_Ops.thy ===== *)
theory Ramzswap_Ops
  imports Ramzswap_Inv
begin

text \<open>
  The request path keeps the invariant, and what it does to the device: a write makes the page
  readable back or absent, a read delivers the page, a freed slot becomes absent, and nothing
  else of the device changes.
\<close>

unbundle bit_operations_syntax

section \<open>State updates\<close>

named_theorems rz_upd \<open>what the update functions do to the fields of the state\<close>

lemma upd_stats_fields [rz_upd]:
  "table (upd_stats f r) = table r" "mem_pool (upd_stats f r) = mem_pool r"
  "disksize (upd_stats f r) = disksize r" "backing_swap (upd_stats f r) = backing_swap r"
  "memlimit (upd_stats f r) = memlimit r" "max_cpage_size (upd_stats f r) = max_cpage_size r"
  "stats (upd_stats f r) = f (stats r)" "freed_pages (upd_stats f r) = freed_pages r"
  by (simp_all add: upd_stats_def)

lemma upd_entry_fields [rz_upd]:
  "table (upd_entry i g r) = (table r)[i := g (table r ! i)]" "mem_pool (upd_entry i g r) = mem_pool r"
  "disksize (upd_entry i g r) = disksize r" "backing_swap (upd_entry i g r) = backing_swap r"
  "memlimit (upd_entry i g r) = memlimit r" "max_cpage_size (upd_entry i g r) = max_cpage_size r"
  "stats (upd_entry i g r) = stats r" "freed_pages (upd_entry i g r) = freed_pages r"
  by (simp_all add: upd_entry_def)

lemma upd_mem_fields [rz_upd]:
  "table (upd_mem g r) = table r" "mem_pool (upd_mem g r) = (mem_pool r)\<lparr>mem := g (mem (mem_pool r))\<rparr>"
  "disksize (upd_mem g r) = disksize r" "backing_swap (upd_mem g r) = backing_swap r"
  "memlimit (upd_mem g r) = memlimit r" "max_cpage_size (upd_mem g r) = max_cpage_size r"
  "stats (upd_mem g r) = stats r" "freed_pages (upd_mem g r) = freed_pages r"
  by (simp_all add: upd_mem_def)

text \<open>The parts of the state that a request never changes.\<close>

definition same_dev :: "ramzswap \<Rightarrow> ramzswap \<Rightarrow> bool" where
  "same_dev r r' \<longleftrightarrow> disksize r' = disksize r \<and> memlimit r' = memlimit r \<and>
     backing_swap r' = backing_swap r \<and> max_cpage_size r' = max_cpage_size r \<and>
     length (table r') = length (table r)"

section \<open>The invariant of the device\<close>

definition rz_inv :: "lzo \<Rightarrow> u32 set \<Rightarrow> (addr \<Rightarrow> u8 list option) \<Rightarrow> ramzswap \<Rightarrow> bool" where
  "rz_inv z P S r \<longleftrightarrow> tinv z P S (mem_pool r) (table r) \<and>
     unat (disksize r) = PAGE_SIZE * length (table r) \<and> max_cpage_size r \<le> 3072 \<and> no_idle P S"

definition owned :: "u32 set \<Rightarrow> ramzswap \<Rightarrow> u32 set" where
  "owned P r = P \<union> plain_pages (table r)"

text \<open>The documented behaviour of the compressor: what it produces decompresses to its input.\<close>

definition lzo_ok :: "lzo \<Rightarrow> bool" where
  "lzo_ok z \<longleftrightarrow> (\<forall>page c. length page = PAGE_SIZE \<longrightarrow> lzo1x_1_compress z page = (LZO_E_OK, c) \<longrightarrow>
     length c \<le> 2 * PAGE_SIZE \<and> lzo1x_decompress_safe z c PAGE_SIZE = (LZO_E_OK, page))"

section \<open>Freeing a page\<close>

lemma device_upd:
  assumes "i < length (table r)" "table r' = (table r)[i := e]"
    and "\<And>j. j < length (table r) \<Longrightarrow> j \<noteq> i \<Longrightarrow>
      entry_page z (rz_mem r') (table r ! j) = entry_page z (rz_mem r) (table r ! j)"
  shows "device z r' = (device z r)(i := entry_page z (rz_mem r') e)"
proof
  fix j show "device z r' j = ((device z r)(i := entry_page z (rz_mem r') e)) j"
    using assms by (cases "j = i") (auto simp: device_def)
qed

lemma entry_page_gone: "\<not> stored e \<Longrightarrow> \<not> zero_entry e \<Longrightarrow> entry_page z m e = None"
  by (simp add: entry_page_def)

lemma plain_pages_empty_entry:
  "\<not> stored e \<Longrightarrow> plain_pages (tbl[i := e]) \<subseteq> plain_pages tbl"
  using set_update_subset_insert[of tbl i e] by (auto simp: plain_pages_def)

lemma plain_pages_upd:
  assumes "i < length tbl"
  shows "plain_pages (tbl[i := e]) = (if stored e \<and> plain e then {te_pagenum e} else {}) \<union>
    {te_pagenum (tbl ! j) |j. j < length tbl \<and> j \<noteq> i \<and> stored (tbl ! j) \<and> plain (tbl ! j)}" (is "?l = ?r")
proof (intro equalityI subsetI)
  fix q assume "q \<in> ?l"
  then obtain j where "j < length tbl" "stored (tbl[i := e] ! j)" "plain (tbl[i := e] ! j)"
    "q = te_pagenum (tbl[i := e] ! j)" by (auto simp: plain_pages_def in_set_conv_nth)
  then show "q \<in> ?r" using assms by (cases "j = i") auto
next
  fix q assume "q \<in> ?r"
  then consider "stored e" "plain e" "q = te_pagenum e"
    | j where "j < length tbl" "j \<noteq> i" "stored (tbl ! j)" "plain (tbl ! j)" "q = te_pagenum (tbl ! j)"
    by (auto split: if_splits)
  then show "q \<in> ?l"
  proof cases
    case 1
    then show ?thesis using assms plain_pagesI[of i "tbl[i := e]"] by simp
  next
    case (2 j)
    then show ?thesis using plain_pagesI[of j "tbl[i := e]"] by simp
  qed
qed

lemma plain_pages_split:
  "i < length tbl \<Longrightarrow> plain_pages tbl = (if stored (tbl ! i) \<and> plain (tbl ! i) then {te_pagenum (tbl ! i)} else {}) \<union>
    {te_pagenum (tbl ! j) |j. j < length tbl \<and> j \<noteq> i \<and> stored (tbl ! j) \<and> plain (tbl ! j)}"
  using plain_pages_upd[of i tbl "tbl ! i"] by simp

lemma plain_pages_same:
  "i < length tbl \<Longrightarrow> \<not> (stored (tbl ! i) \<and> plain (tbl ! i)) \<Longrightarrow> \<not> (stored e \<and> plain e) \<Longrightarrow>
    plain_pages (tbl[i := e]) = plain_pages tbl"
  using plain_pages_upd[of i tbl e] plain_pages_split[of i tbl] by auto

lemma plain_pages_add:
  "i < length tbl \<Longrightarrow> \<not> (stored (tbl ! i) \<and> plain (tbl ! i)) \<Longrightarrow> stored e \<Longrightarrow> plain e \<Longrightarrow>
    plain_pages (tbl[i := e]) = insert (te_pagenum e) (plain_pages tbl)"
  using plain_pages_upd[of i tbl e] plain_pages_split[of i tbl] by auto

lemma plain_pages_del:
  assumes tv: "tinv z P S h tbl" and i: "i < length tbl" "stored (tbl ! i)" "plain (tbl ! i)" and e: "\<not> stored e"
  shows "plain_pages (tbl[i := e]) = plain_pages tbl - {te_pagenum (tbl ! i)}"
proof -
  have "te_pagenum (tbl ! j) \<noteq> te_pagenum (tbl ! i)" if "j < length tbl" "j \<noteq> i" "stored (tbl ! j)" "plain (tbl ! j)" for j
    using tinvD(3)[OF tv that(1) i(1) that(2,3) i(2)] tinvD(2)[OF tv that(1)] tinvD(2)[OF tv i(1)] that i
    by (auto simp: handle_def entry_ok_def)
  then show ?thesis using plain_pages_upd[OF i(1), of e] plain_pages_split[OF i(1)] i e by auto
qed

text \<open>The page frames that leave the device are logged, once each.\<close>

definition frames_freed :: "u32 set \<Rightarrow> ramzswap \<Rightarrow> u32 set \<Rightarrow> ramzswap \<Rightarrow> bool" where
  "frames_freed P r P' r' \<longleftrightarrow> (\<exists>fr. freed_pages r' = fr @ freed_pages r \<and> distinct fr \<and>
     set fr \<subseteq> owned P r \<and> owned P' r' = owned P r - set fr)"

lemma frames_freedI:
  assumes "freed_pages r' = fr @ freed_pages r" "distinct fr" "set fr \<subseteq> owned P r" "owned P' r' = owned P r - set fr"
  shows "frames_freed P r P' r'"
  using assms unfolding frames_freed_def by blast

lemma free_page_ok:
  assumes inv: "rz_inv z P S r" and i: "i < length (table r)"
  obtains r' P' S' where "ramzswap_free_page i r = Some r'" "rz_inv z P' S' r'" "P' \<subseteq> P"
    "\<not> stored (table r' ! i)" "\<not> zero_entry (table r' ! i)" "device z r' = (device z r)(i := None)"
    "plain_pages (table r') \<subseteq> plain_pages (table r)" "\<And>q. q \<notin> P \<Longrightarrow> rz_mem r' q = rz_mem r q"
    "same_dev r r'" "frames_freed P r P' r'"
proof -
  let ?e = "table r ! i"
  have tv: "tinv z P S (mem_pool r) (table r)" and ds: "unat (disksize r) = PAGE_SIZE * length (table r)"
    "max_cpage_size r \<le> 3072" "no_idle P S"
    using inv by (simp_all add: rz_inv_def)
  note rep = tinvD(1)[OF tv] and ok = tinvD(2)[OF tv i]
  consider (none) "\<not> stored ?e" | (plain) "stored ?e" "plain ?e" | (packed) "stored ?e" "\<not> plain ?e" by blast
  then show thesis
  proof cases
    case none
    define e where "e = (if zero_entry ?e then ?e\<lparr>te_flags := te_flags ?e AND NOT (BIT_pageflag RZS_ZERO)\<rparr> else ?e)"
    have np: "\<not> plain ?e" using ok none by (simp add: entry_ok_def)
    have e: "\<not> stored e" "\<not> plain e" "\<not> zero_entry e"
      using none np by (simp_all add: e_def entry_upd)
    let ?r = "if zero_entry ?e then upd_stats (\<lambda>s. s\<lparr>pages_zero := pages_zero s - 1\<rparr>) (rz_clear_flag i RZS_ZERO r) else r"
    have res: "ramzswap_free_page i r = Some ?r"
      using i none by (simp add: ramzswap_free_page_def rz_test_flag_entry stored_def)
    have tb: "table ?r = (table r)[i := e]" by (simp add: e_def rz_upd rz_clear_flag_def)
    have mp: "mem_pool ?r = mem_pool r" "same_dev r ?r"
      by (simp_all add: rz_upd rz_clear_flag_def same_dev_def)
    have "tinv z P S (mem_pool ?r) (table ?r)"
      unfolding tb mp(1) by (rule tinv_empty_entry[OF tv i _ e(1,2)]) (use none in simp)
    then have "rz_inv z P S ?r" using ds mp(2) by (simp add: rz_inv_def same_dev_def)
    moreover have "device z ?r = (device z r)(i := None)"
      using device_upd[OF i tb] entry_page_gone[OF e(1,3)] mp(1) by simp
    moreover have pp: "plain_pages (table ?r) = plain_pages (table r)"
      unfolding tb by (rule plain_pages_same[OF i]) (use none e in simp_all)
    moreover have "frames_freed P r P ?r"
      by (rule frames_freedI[of _ "[]"]) (simp_all add: rz_upd rz_clear_flag_def owned_def pp[unfolded rz_upd])
    ultimately show thesis using res tb e i mp by (intro that[of ?r P S]) simp_all
  next
    case plain
    define e where "e = ?e\<lparr>te_flags := te_flags ?e AND NOT (BIT_pageflag RZS_UNCOMPRESSED), te_pagenum := 0, te_offset := 0\<rparr>"
    have e: "\<not> stored e" "\<not> plain e" "\<not> zero_entry e"
      using ok plain by (simp_all add: e_def entry_upd entry_ok_def)
    obtain r' where res: "ramzswap_free_page i r = Some r'" and tb: "table r' = (table r)[i := e]"
      and mp: "mem_pool r' = mem_pool r" "same_dev r r'" and fp: "freed_pages r' = te_pagenum ?e # freed_pages r"
      using i plain by (simp add: ramzswap_free_page_def rz_test_flag_entry stored_def Let_def e_def
          rz_upd rz_clear_flag_def free_page_out_def same_dev_def)
    have "tinv z P S (mem_pool r') (table r')"
      unfolding tb mp(1) by (rule tinv_empty_entry[OF tv i _ e(1,2)]) (use plain in simp)
    then have "rz_inv z P S r'" using ds mp(2) by (simp add: rz_inv_def same_dev_def)
    moreover have "device z r' = (device z r)(i := None)"
      using device_upd[OF i tb] entry_page_gone[OF e(1,3)] mp(1) by simp
    moreover have pp: "plain_pages (table r') = plain_pages (table r) - {te_pagenum ?e}"
      unfolding tb by (rule plain_pages_del[OF tv i plain e(1)])
    moreover have "frames_freed P r P r'"
      by (rule frames_freedI[of _ "[te_pagenum ?e]"])
        (use plain_pages_outside[OF tv] plain_pagesI[OF i plain] in \<open>auto simp: fp pp owned_def\<close>)
    ultimately show thesis using res tb e i mp by (intro that[of r' P S]) auto
  next
    case packed
    then obtain c where c: "S (te_pagenum ?e, unat (ucast (te_offset ?e) :: u32)) = Some c"
      using handle_in_pool(2)[OF tv i] by (auto simp: handle_def)
    obtain h pg where h: "xv_free (te_pagenum ?e) (ucast (te_offset ?e)) (mem_pool r) = Some (h, pg)"
      "xv_rep (P - set_option pg) (S(handle ?e := None)) h" "\<And>q. q \<notin> P \<Longrightarrow> mem h q = rz_mem r q"
      "pg = (if \<exists>z. z \<noteq> unat (te_offset ?e) \<and> S (te_pagenum ?e, z) \<noteq> None then None else Some (te_pagenum ?e))"
      using xvs.release_law[OF rep c] by (auto simp: handle_def)
    have ni: "no_idle (P - set_option pg) (S(handle ?e := None))"
      unfolding h(4) handle_def by (rule no_idle_remove[OF ds(3)])
    define e where "e = ?e\<lparr>te_pagenum := 0, te_offset := 0\<rparr>"
    have e: "\<not> stored e" "\<not> plain e" "\<not> zero_entry e"
      using ok packed by (simp_all add: e_def entry_upd entry_ok_def)
    obtain r' where res: "ramzswap_free_page i r = Some r'" and tb: "table r' = (table r)[i := e]"
      and mp: "mem_pool r' = h" "same_dev r r'"
      and fp: "freed_pages r' = (case pg of None \<Rightarrow> [] | Some q \<Rightarrow> [q]) @ freed_pages r"
      using i packed h(1) by (simp add: ramzswap_free_page_def rz_test_flag_entry stored_def Let_def e_def
          rz_upd free_page_out_def same_dev_def)
    have tv': "tinv z (P - set_option pg) (S(handle ?e := None)) (mem_pool r') (table r')"
      unfolding tb mp(1) by (rule tinv_release[OF tv i packed h(2) e(1,2)])
    then have "rz_inv z (P - set_option pg) (S(handle ?e := None)) r'"
      using ds mp(2) ni by (simp add: rz_inv_def same_dev_def)
    moreover have "entry_page z (rz_mem r') (table r ! j) = entry_page z (rz_mem r) (table r ! j)"
      if j: "j < length (table r)" "j \<noteq> i" for j
    proof (rule entry_page_kept[OF tinvD(2)[OF tv j(1)] rep])
      show "xv_rep (P - set_option pg) (S(handle ?e := None)) (mem_pool r')" using h(2) mp by simp
      show "(S(handle ?e := None)) (handle (table r ! j)) = S (handle (table r ! j))" if "stored (table r ! j)"
        using tinvD(3)[OF tv j(1) i j(2) that packed(1)] by simp
      show "rz_mem r' (te_pagenum (table r ! j)) = rz_mem r (te_pagenum (table r ! j))"
        if "stored (table r ! j)" "plain (table r ! j)"
        using h(3) mp(1) tinvD(2)[OF tv j(1)] that by (simp add: entry_ok_def)
    qed
    then have "device z r' = (device z r)(i := None)"
      using device_upd[OF i tb] entry_page_gone[OF e(1,3)] by simp
    moreover have pp: "plain_pages (table r') = plain_pages (table r)"
      unfolding tb by (rule plain_pages_same[OF i]) (use packed e in simp_all)
    moreover have "frames_freed P r (P - set_option pg) r'"
      by (rule frames_freedI[OF fp])
        (use h(4) plain_pages_outside[OF tv] handle_in_pool(1)[OF tv i packed] in
          \<open>auto simp: pp owned_def split: option.splits if_splits\<close>)
    ultimately show thesis using res tb e i mp h(3) by (intro that[of r' "P - set_option pg"]) auto
  qed
qed

section \<open>Zero pages\<close>

lemma ld16_zero: "ld16 m p x = 0 \<longleftrightarrow> m p x = 0 \<and> m p (x + 1) = 0"
proof
  assume z: "ld16 m p x = 0"
  have "bit (m p x) n = False" if "n < 8" for n
    using z that by (auto simp: ld16_def bit_eq_iff[where 'a = "16 word"] bit_simps dest: spec[of _ n])
  moreover have "bit (m p (x + 1)) n = False" if "n < 8" for n
    using z that by (auto simp: ld16_def bit_eq_iff[where 'a = "16 word"] bit_simps dest: spec[of _ "n + 8"])
  ultimately show "m p x = 0 \<and> m p (x + 1) = 0" by (auto simp: bit_eq_iff[where 'a = "8 word"])
qed (simp add: ld16_def)

lemma ld32_zero: "ld32 m p x = 0 \<longleftrightarrow> ld16 m p x = 0 \<and> ld16 m p (x + 2) = 0"
proof
  assume z: "ld32 m p x = 0"
  have "bit (ld16 m p x) n = False" if "n < 16" for n
    using z that by (auto simp: ld32_def bit_eq_iff[where 'a = "32 word"] bit_simps dest: spec[of _ n])
  moreover have "bit (ld16 m p (x + 2)) n = False" if "n < 16" for n
    using z that by (auto simp: ld32_def bit_eq_iff[where 'a = "32 word"] bit_simps dest: spec[of _ "n + 16"])
  ultimately show "ld16 m p x = 0 \<and> ld16 m p (x + 2) = 0" by (auto simp: bit_eq_iff[where 'a = "16 word"])
qed (simp add: ld32_def)

lemma ld64_zero: "ld64 m p x = 0 \<longleftrightarrow> ld32 m p x = 0 \<and> ld32 m p (x + 4) = 0"
proof
  assume z: "ld64 m p x = 0"
  have "bit (ld32 m p x) n = False" if "n < 32" for n
    using z that by (auto simp: ld64_def bit_eq_iff[where 'a = "64 word"] bit_simps dest: spec[of _ n])
  moreover have "bit (ld32 m p (x + 4)) n = False" if "n < 32" for n
    using z that by (auto simp: ld64_def bit_eq_iff[where 'a = "64 word"] bit_simps dest: spec[of _ "n + 32"])
  ultimately show "ld32 m p x = 0 \<and> ld32 m p (x + 4) = 0" by (auto simp: bit_eq_iff[where 'a = "32 word"])
qed (simp add: ld64_def)

lemma ld64_zero_bytes: "ld64 m p x = 0 \<longleftrightarrow> (\<forall>i. x \<le> i \<and> i < x + 8 \<longrightarrow> m p i = 0)"
proof -
  have "(\<forall>i. x \<le> i \<and> i < x + 8 \<longrightarrow> m p i = 0) \<longleftrightarrow> (\<forall>k < 8. m p (x + k) = 0)"
    by (metis add_less_cancel_left le_add1 le_Suc_ex)
  also have "\<dots> \<longleftrightarrow> ld64 m p x = 0"
    by (simp add: ld64_zero ld32_zero ld16_zero numeral_eq_Suc All_less_Suc2 add.assoc)
  finally show ?thesis by simp
qed

lemma zero_words_bytes: "zero_words m p pos n \<longleftrightarrow> (\<forall>i. 8 * pos \<le> i \<and> i < 8 * (pos + n) \<longrightarrow> m p i = 0)"
proof (induction n arbitrary: pos)
  case (Suc n)
  have "(\<forall>i. 8 * pos \<le> i \<and> i < 8 * (pos + Suc n) \<longrightarrow> m p i = 0) \<longleftrightarrow>
      (\<forall>i. 8 * pos \<le> i \<and> i < 8 * pos + 8 \<longrightarrow> m p i = 0) \<and>
      (\<forall>i. 8 * (pos + 1) \<le> i \<and> i < 8 * (pos + 1 + n) \<longrightarrow> m p i = 0)"
    by (auto simp: not_less) (metis add.commute not_less)
  then show ?case using Suc.IH[of "pos + 1"] by (simp add: ld64_zero_bytes)
qed auto

lemma page_zero_filled_bytes:
  "page_zero_filled m p \<longleftrightarrow> ld_bytes m p 0 PAGE_SIZE = replicate PAGE_SIZE 0"
proof -
  have "page_zero_filled m p \<longleftrightarrow> (\<forall>i < 4096. m p i = 0)"
    by (simp add: page_zero_filled_def zero_words_bytes)
  also have "\<dots> \<longleftrightarrow> ld_bytes m p 0 4096 = replicate 4096 0"
    by (auto simp: ld_bytes_def list_eq_iff_nth_eq)
  finally show ?thesis .
qed

section \<open>Writing to a page frame of the requester\<close>

lemma device_same:
  assumes tv: "tinv z P S (mem_pool r) (table r)" and tb: "table r' = table r"
    and rep: "xv_rep P' S (mem_pool r')"
    and m: "\<And>q. q \<in> plain_pages (table r) \<Longrightarrow> rz_mem r' q = rz_mem r q"
  shows "device z r' = device z r"
proof
  fix j show "device z r' j = device z r j"
  proof (cases "j < length (table r)")
    case True
    have "entry_page z (rz_mem r') (table r ! j) = entry_page z (rz_mem r) (table r ! j)"
      by (rule entry_page_kept[OF tinvD(2)[OF tv True] tinvD(1)[OF tv] rep])
        (use m plain_pagesI[OF True] in auto)
    with True show ?thesis by (simp add: device_def tb)
  qed (simp add: device_def tb)
qed

lemma user_write:
  assumes inv: "rz_inv z P S r" and u: "u \<notin> owned P r"
  shows "rz_inv z P S (upd_mem (\<lambda>m. st_bytes m u x (f m)) r)"
    and "device z (upd_mem (\<lambda>m. st_bytes m u x (f m)) r) = device z r"
proof -
  have tv: "tinv z P S (mem_pool r) (table r)" using inv by (simp add: rz_inv_def)
  have m: "st_bytes (rz_mem r) u x bs q = rz_mem r q" if "q \<in> owned P r" for q bs
    using u that by (auto simp: st_bytes_def)
  then have tv': "tinv z P S (mem_pool (upd_mem (\<lambda>m. st_bytes m u x (f m)) r)) (table r)"
    unfolding rz_upd by (intro tinv_outside[OF tv]) (simp add: owned_def)
  then show "rz_inv z P S (upd_mem (\<lambda>m. st_bytes m u x (f m)) r)"
    using inv by (simp add: rz_inv_def rz_upd)
  show "device z (upd_mem (\<lambda>m. st_bytes m u x (f m)) r) = device z r"
    by (rule device_same[OF tv _ tinvD(1)[OF tv']]) (use m in \<open>simp_all add: rz_upd owned_def\<close>)
qed

lemma rz_inv_stats [simp]: "rz_inv z P S (upd_stats f r) \<longleftrightarrow> rz_inv z P S r"
  by (simp add: rz_inv_def rz_upd)

lemma device_stats [simp]: "device z (upd_stats f r) = device z r"
  by (simp add: device_def rz_upd fun_eq_iff)

lemma owned_stats [simp]: "owned P (upd_stats f r) = owned P r"
  by (simp add: owned_def rz_upd)

lemma owned_mem [simp]: "owned P (upd_mem f r) = owned P r"
  by (simp add: owned_def rz_upd)

section \<open>Storing a page\<close>

text \<open>The three places a page can go to, in terms of the table.\<close>

lemma tinv_grow:
  assumes "tinv z P S h tbl" "xv_rep P' S h'" "P' \<inter> plain_pages tbl = {}"
  shows "tinv z P' S h' tbl"
proof -
  have "entry_ok z P' S (tbl ! i)" if "i < length tbl" for i
    by (rule entry_ok_other[OF tinvD(2)[OF assms(1) that]]) (use assms(3) plain_pagesI[OF that] in auto)
  then show ?thesis using assms(1,2) by (simp add: tinv_def)
qed

lemma store_zero:
  fixes f :: "ramzswap_stats \<Rightarrow> ramzswap_stats"
  assumes inv: "rz_inv z P S r" and i: "i < length (table r)" "\<not> stored (table r ! i)"
  defines "r' \<equiv> rz_set_flag i RZS_ZERO (upd_stats f r)"
  shows "rz_inv z P S r'" and "device z r' = (device z r)(i \<mapsto> replicate PAGE_SIZE 0)"
    and "plain_pages (table r') = plain_pages (table r)"
proof -
  let ?e = "(table r ! i)\<lparr>te_flags := te_flags (table r ! i) OR BIT_pageflag RZS_ZERO\<rparr>"
  have tv: "tinv z P S (mem_pool r) (table r)" using inv by (simp add: rz_inv_def)
  have e: "\<not> stored ?e" "\<not> plain ?e" "zero_entry ?e"
    using i(2) tinvD(2)[OF tv i(1)] by (simp_all add: entry_upd entry_ok_def)
  have tb: "table r' = (table r)[i := ?e]" and mp: "mem_pool r' = mem_pool r" "disksize r' = disksize r"
      "max_cpage_size r' = max_cpage_size r"
    by (simp_all add: r'_def rz_set_flag_def rz_upd)
  show "rz_inv z P S r'"
    using inv tinv_empty_entry[OF tv i(1) _ e(1,2)] i(2) by (simp add: rz_inv_def tb mp)
  have "entry_page z (rz_mem r') ?e = Some (replicate PAGE_SIZE 0)" using e(3) by (simp add: entry_page_def)
  then show "device z r' = (device z r)(i \<mapsto> replicate PAGE_SIZE 0)"
    using device_upd[OF i(1) tb] mp by simp
  show "plain_pages (table r') = plain_pages (table r)"
    unfolding tb by (rule plain_pages_same[OF i(1)]) (use i e in simp_all)
qed

lemma store_plain:
  fixes f :: "ramzswap_stats \<Rightarrow> ramzswap_stats"
  assumes inv: "rz_inv z P S r" and i: "i < length (table r)" "\<not> stored (table r ! i)" "\<not> zero_entry (table r ! i)"
    and new: "newpg \<noteq> 0" "newpg \<notin> owned P r" and page: "length page = PAGE_SIZE"
  defines "r' \<equiv> snd (write_memstore i 0 page
      (upd_entry i (\<lambda>e. e\<lparr>te_pagenum := newpg\<rparr>) (upd_stats f (rz_set_flag i RZS_UNCOMPRESSED r))))"
  shows "rz_inv z P S r'" and "device z r' = (device z r)(i \<mapsto> page)"
    and "plain_pages (table r') = insert newpg (plain_pages (table r))"
    and "\<And>q. q \<noteq> newpg \<Longrightarrow> rz_mem r' q = rz_mem r q" and "same_dev r r'"
proof -
  let ?e = "(table r ! i)\<lparr>te_flags := te_flags (table r ! i) OR BIT_pageflag RZS_UNCOMPRESSED,
      te_pagenum := newpg, te_offset := 0\<rparr>"
  have tv: "tinv z P S (mem_pool r) (table r)" using inv by (simp add: rz_inv_def)
  have e: "stored ?e" "plain ?e" "\<not> zero_entry ?e" "te_offset ?e = 0" "te_pagenum ?e = newpg"
    using i(3) new(1) by (simp_all add: entry_upd)
  have tb: "table r' = (table r)[i := ?e]"
    and mp: "mem_pool r' = (mem_pool r)\<lparr>mem := st_bytes (rz_mem r) newpg 0 page\<rparr>" and sd: "same_dev r r'"
    using i(1) by (simp_all add: r'_def write_memstore_def rz_set_flag_def rz_upd Let_def same_dev_def)
  have np: "newpg \<notin> P" "newpg \<notin> plain_pages (table r)" using new(2) by (auto simp: owned_def)
  have t1: "tinv z P S (mem_pool r) ((table r)[i := ?e])"
    by (rule tinv_plain[OF tv i(1,2) _ _ e(1-4)]) (use np in simp_all)
  have t2: "tinv z P S (mem_pool r') (table r')"
    unfolding tb mp by (rule tinv_outside[OF t1]) (use np(1) in \<open>auto simp: st_bytes_def\<close>)
  then show "rz_inv z P S r'" using inv sd by (simp add: rz_inv_def same_dev_def)
  show q: "rz_mem r' q = rz_mem r q" if "q \<noteq> newpg" for q using that by (auto simp: mp st_bytes_def)
  have "entry_page z (rz_mem r') (table r ! j) = entry_page z (rz_mem r) (table r ! j)"
    if j: "j < length (table r)" "j \<noteq> i" for j
    by (rule entry_page_kept[OF tinvD(2)[OF tv j(1)] tinvD(1)[OF tv] tinvD(1)[OF t2]])
      (use q np(2) plain_pagesI[OF j(1)] in \<open>auto intro!: q\<close>)
  moreover have "entry_page z (rz_mem r') ?e = Some page"
    using e page by (simp add: entry_page_def mp)
  ultimately show "device z r' = (device z r)(i \<mapsto> page)" using device_upd[OF i(1) tb] by simp
  show "plain_pages (table r') = insert newpg (plain_pages (table r))"
    unfolding tb using plain_pages_add[OF i(1) _ e(1,2)] i(2) e(5) by simp
  show "same_dev r r'" by (rule sd)
qed

lemma store_packed:
  assumes inv: "rz_inv z P S r" and i: "i < length (table r)" "\<not> stored (table r ! i)" "\<not> zero_entry (table r ! i)"
    and new: "newpg \<notin> owned P r"
    and al: "xv_malloc newpg nowait sz (mem_pool r) = ((0, p, off), h)" and len: "length src = unat sz"
    and z: "lzo1x_decompress_safe z src PAGE_SIZE = (LZO_E_OK, page)" "length page = PAGE_SIZE"
  defines "r' \<equiv> snd (write_memstore i off src (upd_entry i (\<lambda>e. e\<lparr>te_pagenum := p\<rparr>) (r\<lparr>mem_pool := h\<rparr>)))"
  obtains P' S' where "rz_inv z P' S' r'" "device z r' = (device z r)(i \<mapsto> page)"
    "owned P' r' \<in> {owned P r, insert newpg (owned P r)}"
    "\<And>q. q \<notin> insert newpg P \<Longrightarrow> rz_mem r' q = rz_mem r q" "same_dev r r'"
proof -
  have tv: "tinv z P S (mem_pool r) (table r)" using inv by (simp add: rz_inv_def)
  have np: "newpg \<notin> P" "newpg \<notin> plain_pages (table r)" using new by (auto simp: owned_def)
  obtain P' where P': "P' \<in> {P, insert newpg P}" "P' = insert p P" "p \<noteq> 0" "S (p, unat off) = None"
    "xv_rep P' (S((p, unat off) \<mapsto> src)) (h\<lparr>mem := st_bytes (mem h) p (unat off) src\<rparr>)"
    "unat off + unat sz \<le> 4096" "\<And>q. q \<notin> insert newpg P \<Longrightarrow> mem h q = rz_mem r q"
    using xvs.alloc_fill[OF tinvD(1)[OF tv] np(1) al len] by metis
  let ?e = "(table r ! i)\<lparr>te_pagenum := p, te_offset := ucast off\<rparr>"
  have uo: "unat (ucast off :: u16) = unat off" by (rule unat_ucast_32_16) (use P'(6) in simp)
  have hd: "handle ?e = (p, unat off)" by (simp add: handle_def uo)
  have e: "stored ?e" "\<not> plain ?e" "\<not> zero_entry ?e"
    using i(2,3) P'(3) tinvD(2)[OF tv i(1)] by (simp_all add: entry_upd entry_ok_def)
  have tb: "table r' = (table r)[i := ?e]"
    and mp: "mem_pool r' = h\<lparr>mem := st_bytes (mem h) p (unat off) src\<rparr>" and sd: "same_dev r r'"
    using i(1) uo by (simp_all add: r'_def write_memstore_def rz_upd Let_def same_dev_def)
  have rep': "xv_rep P' (S(handle ?e \<mapsto> src)) (mem_pool r')" unfolding hd mp by (rule P'(5))
  have disj: "P' \<inter> plain_pages (table r) = {}" using P'(1) np(2) plain_pages_outside[OF tv] by auto
  have t: "tinv z P' (S(handle ?e \<mapsto> src)) (mem_pool r') (table r')"
    unfolding tb by (rule tinv_pack[OF tv i(1,2) rep' _ disj z e]) (use P'(4) hd in simp)
  have q: "rz_mem r' q = rz_mem r q" if "q \<notin> insert newpg P" for q
    using that P'(1,2,7) by (auto simp: mp st_bytes_def fun_eq_iff)
  have "entry_page z (rz_mem r') (table r ! j) = entry_page z (rz_mem r) (table r ! j)"
    if j: "j < length (table r)" "j \<noteq> i" for j
  proof (rule entry_page_kept[OF tinvD(2)[OF tv j(1)] tinvD(1)[OF tv] rep'])
    show "(S(handle ?e \<mapsto> src)) (handle (table r ! j)) = S (handle (table r ! j))"
      if "stored (table r ! j)" "\<not> plain (table r ! j)"
      using handle_in_pool(2)[OF tv j(1) that] P'(4) hd by auto
    show "rz_mem r' (te_pagenum (table r ! j)) = rz_mem r (te_pagenum (table r ! j))"
      if "stored (table r ! j)" "plain (table r ! j)"
      by (rule q) (use plain_pagesI[OF j(1) that] np(2) plain_pages_outside[OF tv] in auto)
  qed
  moreover have "entry_page z (rz_mem r') ?e = Some page"
    using entry_page_packed[OF rep' _ e] z(1) by simp
  ultimately have dev: "device z r' = (device z r)(i \<mapsto> page)" using device_upd[OF i(1) tb] by simp
  have "plain_pages (table r') = plain_pages (table r)"
    unfolding tb by (rule plain_pages_same[OF i(1)]) (use i e in simp_all)
  then have "owned P' r' \<in> {owned P r, insert newpg (owned P r)}" using P'(1) by (auto simp: owned_def)
  moreover have "no_idle P' (S(handle ?e \<mapsto> src))"
    unfolding hd P'(2) using no_idle_add inv by (simp add: rz_inv_def)
  then have "rz_inv z P' (S(handle ?e \<mapsto> src)) r'" using t inv sd by (simp add: rz_inv_def same_dev_def)
  ultimately show thesis using dev q sd by (intro that)
qed

lemma store_failed:
  assumes inv: "rz_inv z P S r" and i: "i < length (table r)" "\<not> stored (table r ! i)" "\<not> zero_entry (table r ! i)"
    and new: "newpg \<notin> owned P r"
    and al: "xv_malloc newpg nowait sz (mem_pool r) = ((err, p, off), h)" "err \<noteq> 0" and sz: "unat sz \<le> 3072"
  defines "r' \<equiv> upd_entry i (\<lambda>e. e\<lparr>te_pagenum := p\<rparr>) (r\<lparr>mem_pool := h\<rparr>)"
  obtains P' where "rz_inv z P' S r'" "device z r' = device z r"
    "owned P' r' \<in> {owned P r, insert newpg (owned P r)}"
    "\<And>q. q \<notin> insert newpg P \<Longrightarrow> rz_mem r' q = rz_mem r q" "same_dev r r'"
proof -
  have tv: "tinv z P S (mem_pool r) (table r)" using inv by (simp add: rz_inv_def)
  have np: "newpg \<notin> P" "newpg \<notin> plain_pages (table r)" using new by (auto simp: owned_def)
  obtain P' where P': "P' \<in> {P, insert newpg P}" "p = 0" "xv_rep P' S h" "P' = P"
    using malloc_rep(1)[OF tinvD(1)[OF tv] np(1) al(1)] al(2) sz by auto
  have q: "mem h q = rz_mem r q" if "q \<notin> insert newpg P" for q
    using malloc_rep(2)[OF tinvD(1)[OF tv] np(1) al(1) that] .
  let ?e = "(table r ! i)\<lparr>te_pagenum := 0\<rparr>"
  have e: "\<not> stored ?e" "\<not> plain ?e" "\<not> zero_entry ?e"
    using i(2,3) tinvD(2)[OF tv i(1)] by (simp_all add: entry_upd entry_ok_def)
  have tb: "table r' = (table r)[i := ?e]" and mp: "mem_pool r' = h" "same_dev r r'"
    using P'(2) by (simp_all add: r'_def rz_upd same_dev_def)
  have disj: "P' \<inter> plain_pages (table r) = {}" using P'(1) np(2) plain_pages_outside[OF tv] by auto
  have t: "tinv z P' S (mem_pool r') (table r')"
    unfolding tb mp by (rule tinv_empty_entry[OF tinv_grow[OF tv P'(3) disj] i(1) _ e(1,2)]) (use i(2) in simp)
  have "entry_page z (rz_mem r') (table r ! j) = entry_page z (rz_mem r) (table r ! j)"
    if j: "j < length (table r)" "j \<noteq> i" for j
  proof (rule entry_page_kept[OF tinvD(2)[OF tv j(1)] tinvD(1)[OF tv] tinvD(1)[OF t]])
    show "rz_mem r' (te_pagenum (table r ! j)) = rz_mem r (te_pagenum (table r ! j))"
      if "stored (table r ! j)" "plain (table r ! j)"
      unfolding mp(1) by (rule q) (use plain_pagesI[OF j(1) that] np(2) plain_pages_outside[OF tv] in auto)
  qed simp
  then have "device z r' = (device z r)(i := None)"
    using device_upd[OF i(1) tb] entry_page_gone[OF e(1,3)] by simp
  moreover have "device z r i = None" using i entry_page_gone by (simp add: device_def)
  ultimately have dev: "device z r' = device z r" by (simp add: fun_upd_idem)
  have "plain_pages (table r') = plain_pages (table r)"
    unfolding tb by (rule plain_pages_same[OF i(1)]) (use i e in simp_all)
  then have "owned P' r' \<in> {owned P r, insert newpg (owned P r)}" using P'(1) by (auto simp: owned_def)
  moreover have "rz_inv z P' S r'" using t inv mp P'(4) by (simp add: rz_inv_def same_dev_def)
  ultimately show thesis using dev q mp by (intro that[of P']) auto
qed

section \<open>Writing\<close>

definition page_of :: "ramzswap \<Rightarrow> bio \<Rightarrow> u8 list" where
  "page_of r b = ld_bytes (rz_mem r) (bv_page b) 0 PAGE_SIZE"

text \<open>What a store does: the page is there when the request succeeded, the device unchanged otherwise.\<close>

definition store_post :: "lzo \<Rightarrow> u32 \<Rightarrow> bio \<Rightarrow> u32 set \<Rightarrow> ramzswap \<Rightarrow> (int \<times> bio_result) \<Rightarrow> u32 set \<Rightarrow> ramzswap \<Rightarrow> bool" where
  "store_post z newpg b P r res P' r' \<longleftrightarrow> same_dev r r' \<and>
     owned P' r' \<in> {owned P r, insert newpg (owned P r)} \<and> freed_pages r' = freed_pages r \<and>
     rz_mem r' (bv_page b) = rz_mem r (bv_page b) \<and>
     device z r' = (if snd res = Bio_uptodate then (device z r)(bio_index b \<mapsto> page_of r b) else device z r) \<and>
     (res = (0, Bio_uptodate) \<or> res = (0, Bio_error) \<or> (res = (1, Bio_remapped) \<and> backing_swap r))"

lemma same_dev_refl [simp]: "same_dev r r"
  by (simp add: same_dev_def)

lemma same_dev_stats [simp]: "same_dev r (upd_stats f r') \<longleftrightarrow> same_dev r r'"
  by (simp add: same_dev_def rz_upd)

lemma store_post_out:
  assumes "same_dev r r'" "freed_pages r' = freed_pages r" "owned P' r' \<in> {owned P r, insert newpg (owned P r)}"
    "rz_mem r' (bv_page b) = rz_mem r (bv_page b)" "device z r' = device z r"
    and "fwd \<Longrightarrow> backing_swap r"
  shows "store_post z newpg b P r (fst (write_out fwd r')) P' (snd (write_out fwd r'))"
  using assms by (simp add: store_post_def write_out_def rz_upd)

lemma freed_write_memstore [simp]: "freed_pages (snd (write_memstore i off src r)) = freed_pages r"
  by (simp add: write_memstore_def Let_def rz_upd)

lemma rz_inv_out: "rz_inv z P S (snd (write_out fwd r)) \<longleftrightarrow> rz_inv z P S r"
  by (simp add: write_out_def)

lemma write_store_ok:
  assumes inv: "rz_inv z P S r"
    and i: "bio_index b < length (table r)" "\<not> stored (table r ! bio_index b)" "\<not> zero_entry (table r ! bio_index b)"
    and new: "newpg \<notin> owned P r" and u: "bv_page b \<notin> owned P r" "newpg \<noteq> bv_page b" and z: "lzo_ok z"
  shows "\<exists>P' S'. rz_inv z P' S' (snd (write_store z newpg nowait b r)) \<and>
    store_post z newpg b P r (fst (write_store z newpg nowait b r)) P' (snd (write_store z newpg nowait b r))"
proof -
  let ?i = "bio_index b" and ?page = "ld_bytes (rz_mem r) (bv_page b) 0 PAGE_SIZE"
  let ?w = "write_store z newpg nowait b r"
  have out: "?thesis" if "?w = write_out fwd (upd_stats f r)" "fwd \<Longrightarrow> backing_swap r" for fwd f
    using that store_post_out[of r "upd_stats f r" P P newpg b z fwd] inv
    by (intro exI[of _ P] exI[of _ S]) (auto simp: rz_inv_out rz_upd)
  have out0: "?thesis" if "?w = write_out True r" "backing_swap r"
    using that store_post_out[of r r P P newpg b z True] inv
    by (intro exI[of _ P] exI[of _ S]) (auto simp: rz_inv_out)
  obtain ret c where c: "lzo1x_1_compress z ?page = (ret, c)" by (cases "lzo1x_1_compress z ?page")
  consider (zero) "page_zero_filled (rz_mem r) (bv_page b)"
    | (limit) "\<not> page_zero_filled (rz_mem r) (bv_page b)"
        "backing_swap r \<and> compr_size (stats r) > memlimit r - of_nat PAGE_SIZE"
    | (comp) "\<not> page_zero_filled (rz_mem r) (bv_page b)"
        "\<not> (backing_swap r \<and> compr_size (stats r) > memlimit r - of_nat PAGE_SIZE)" by blast
  then show ?thesis
  proof cases
    case zero
    have w: "?w = ((0, Bio_uptodate), rz_set_flag ?i RZS_ZERO (upd_stats (\<lambda>s. s\<lparr>pages_zero := pages_zero s + 1\<rparr>) r))"
      using zero by (simp add: write_store_def Let_def)
    note s = store_zero[OF inv i(1,2), of "\<lambda>s. s\<lparr>pages_zero := pages_zero s + 1\<rparr>"]
    have "?page = replicate PAGE_SIZE 0" using zero by (simp only: page_zero_filled_bytes)
    then have "store_post z newpg b P r (fst ?w) P (snd ?w)"
      using s(2,3) i(1) unfolding w
      by (auto simp: store_post_def page_of_def rz_set_flag_def rz_upd same_dev_def owned_def)
    then show ?thesis using s(1) w by auto
  next
    case limit
    then have "?w = write_out True r" by (simp add: write_store_def Let_def)
    then show ?thesis using out0 limit by blast
  next
    case comp
    show ?thesis
    proof (cases "ret = LZO_E_OK")
      case False
      then have "?w = write_out False (fail_write r)" using comp c by (auto simp: write_store_def Let_def)
      then show ?thesis using out unfolding fail_write_def by blast
    next
      case True
      have cok: "length c \<le> 2 * PAGE_SIZE" "lzo1x_decompress_safe z c PAGE_SIZE = (LZO_E_OK, ?page)"
        using z[unfolded lzo_ok_def, rule_format, of ?page c] c True by simp_all
      have uc: "unat (of_nat (length c) :: u32) = length c" by (rule unat_of_nat_u32) (use cok(1) in simp)
      show ?thesis
      proof (cases "of_nat (length c) > max_cpage_size r")
        case big: True
        show ?thesis
        proof (cases "backing_swap r \<or> newpg = 0")
          case t: True
          show ?thesis
          proof (cases "backing_swap r")
            case True
            then have "?w = write_out True r" using comp c \<open>ret = LZO_E_OK\<close> big by (auto simp: write_store_def Let_def)
            then show ?thesis using out0 True by blast
          next
            case False
            then have "?w = write_out False (fail_write r)"
              using comp c \<open>ret = LZO_E_OK\<close> big t by (auto simp: write_store_def Let_def)
            then show ?thesis using out unfolding fail_write_def by blast
          qed
        next
          case f: False
          let ?r' = "upd_entry ?i (\<lambda>e. e\<lparr>te_pagenum := newpg\<rparr>)
              (upd_stats (\<lambda>s. s\<lparr>pages_expand := pages_expand s + 1\<rparr>) (rz_set_flag ?i RZS_UNCOMPRESSED r))"
          have w: "?w = write_memstore ?i 0 ?page ?r'"
            using comp c \<open>ret = LZO_E_OK\<close> big f by (auto simp: write_store_def Let_def)
          have "newpg \<noteq> 0" using f by simp
          note s = store_plain[OF inv i this new, where page = ?page and f = "\<lambda>s. s\<lparr>pages_expand := pages_expand s + 1\<rparr>",
              OF length_ld_bytes, folded w]
          have "fst ?w = (0, Bio_uptodate)" by (simp add: w write_memstore_def Let_def)
          moreover have "freed_pages (snd ?w) = freed_pages r" by (simp add: w rz_upd rz_set_flag_def)
          ultimately have "store_post z newpg b P r (fst ?w) P (snd ?w)"
            using s(2-5) u(2) by (auto simp: store_post_def page_of_def owned_def)
          with s(1) show ?thesis by blast
        qed
      next
        case small: False
        obtain err p off h where al: "xv_malloc newpg nowait (of_nat (length c)) (mem_pool r) = ((err, p, off), h)"
          by (metis prod.collapse)
        let ?r' = "upd_entry ?i (\<lambda>e. e\<lparr>te_pagenum := p\<rparr>) (r\<lparr>mem_pool := h\<rparr>)"
        have u': "bv_page b \<notin> insert newpg P" using u by (auto simp: owned_def)
        have sz: "unat (of_nat (length c) :: u32) \<le> 3072"
          using small inv by (simp add: rz_inv_def word_le_nat_alt word_less_nat_alt)
        show ?thesis
        proof (cases "err = 0")
          case True
          have w: "?w = write_memstore ?i off c ?r'"
            using comp c \<open>ret = LZO_E_OK\<close> small al True by (auto simp: write_store_def Let_def)
          obtain P' S' where s: "rz_inv z P' S' (snd ?w)" "device z (snd ?w) = (device z r)(?i \<mapsto> ?page)"
            "owned P' (snd ?w) \<in> {owned P r, insert newpg (owned P r)}"
            "\<And>q. q \<notin> insert newpg P \<Longrightarrow> rz_mem (snd ?w) q = rz_mem r q" "same_dev r (snd ?w)"
            using store_packed[OF inv i new al[unfolded True] uc[symmetric] cok(2) length_ld_bytes] unfolding w by metis
          have "fst ?w = (0, Bio_uptodate)" by (simp add: w write_memstore_def Let_def)
          moreover have "freed_pages (snd ?w) = freed_pages r" by (simp add: w rz_upd)
          ultimately have "store_post z newpg b P r (fst ?w) P' (snd ?w)"
            using s(2,3,5) s(4)[OF u'] by (auto simp: store_post_def page_of_def)
          with s(1) show ?thesis by blast
        next
          case False
          have w: "?w = write_out (backing_swap r) (fail_write ?r')"
            using comp c \<open>ret = LZO_E_OK\<close> small al False by (auto simp: write_store_def Let_def rz_upd)
          obtain P' where s: "rz_inv z P' S ?r'" "device z ?r' = device z r"
            "owned P' ?r' \<in> {owned P r, insert newpg (owned P r)}"
            "\<And>q. q \<notin> insert newpg P \<Longrightarrow> rz_mem ?r' q = rz_mem r q" "same_dev r ?r'"
            using store_failed[OF inv i new al False] sz by metis
          have "store_post z newpg b P r (fst ?w) P' (snd ?w)"
            unfolding w fail_write_def
            by (rule store_post_out) (use s(2,3,5) s(4)[OF u'] in \<open>simp_all add: rz_upd\<close>)
          moreover have "rz_inv z P' S (snd ?w)" unfolding w rz_inv_out fail_write_def using s(1) by simp
          ultimately show ?thesis by blast
        qed
      qed
    qed
  qed
qed

end
