(* ===== verification/Ramzswap_Run.thy ===== *)
theory Ramzswap_Run
  imports Ramzswap_Ops
begin

text \<open>
  Whole requests on the swap device: what a read, a write and a freed slot do to the device a
  client sees, and any sequence of them.
\<close>

unbundle bit_operations_syntax

section \<open>One request\<close>

text \<open>
  The page frames the kernel hands in are the requester's and the allocator's: not ones the
  device already owns.
\<close>

definition frames_ok :: "u32 set \<Rightarrow> u32 \<Rightarrow> bio \<Rightarrow> ramzswap \<Rightarrow> bool" where
  "frames_ok P newpg b r \<longleftrightarrow> newpg \<notin> owned P r \<and> bv_page b \<notin> owned P r \<and> newpg \<noteq> bv_page b"

definition write_post :: "lzo \<Rightarrow> u32 \<Rightarrow> bio \<Rightarrow> u32 set \<Rightarrow> ramzswap \<Rightarrow> (int \<times> bio_result) \<Rightarrow> u32 set \<Rightarrow> ramzswap \<Rightarrow> bool" where
  "write_post z newpg b P r res P' r' \<longleftrightarrow> same_dev r r' \<and>
     (\<exists>P0 r0. frames_freed P r P0 r0 \<and> owned P' r' \<in> {owned P0 r0, insert newpg (owned P0 r0)} \<and>
        freed_pages r' = freed_pages r0) \<and>
     rz_mem r' (bv_page b) = rz_mem r (bv_page b) \<and>
     device z r' = (device z r)(bio_index b := (if snd res = Bio_uptodate then Some (page_of r b) else None)) \<and>
     (res = (0, Bio_uptodate) \<or> res = (0, Bio_error) \<or> (res = (1, Bio_remapped) \<and> backing_swap r))"

lemma same_dev_trans: "same_dev r r' \<Longrightarrow> same_dev r' r'' \<Longrightarrow> same_dev r r''"
  by (simp add: same_dev_def)

lemma write_ok:
  assumes inv: "rz_inv z P S r" and i: "bio_index b < length (table r)"
    and fr: "frames_ok P newpg b r" and z: "lzo_ok z"
  obtains res r' P' S' where "ramzswap_write z newpg nowait b r = Some (res, r')" "rz_inv z P' S' r'"
    "write_post z newpg b P r res P' r'"
proof -
  let ?i = "bio_index b"
  let ?r0 = "upd_stats (\<lambda>s. s\<lparr>num_writes := num_writes s + 1\<rparr>) r"
  have inv0: "rz_inv z P S ?r0" and i0: "?i < length (table ?r0)" using inv i by (simp_all add: rz_upd)
  text \<open>the old copy goes away\<close>
  obtain r1 P1 S1 where r1: "(if te_pagenum (table ?r0 ! ?i) \<noteq> 0 then ramzswap_free_page ?i ?r0 else Some ?r0) = Some r1"
    "rz_inv z P1 S1 r1" "P1 \<subseteq> P" "\<not> stored (table r1 ! ?i)"
    "zero_entry (table r1 ! ?i) \<Longrightarrow> \<not> plain (table r1 ! ?i)"
    "(device z r1)(?i := None) = (device z r)(?i := None)"
    "plain_pages (table r1) \<subseteq> plain_pages (table r)" "rz_mem r1 (bv_page b) = rz_mem r (bv_page b)"
    "same_dev r r1" "\<not> zero_entry (table r1 ! ?i) \<Longrightarrow> device z r1 ?i = None" "frames_freed P r P1 r1"
  proof (cases "te_pagenum (table ?r0 ! ?i) \<noteq> 0")
    case True
    obtain r' P' S' where f: "ramzswap_free_page ?i ?r0 = Some r'" "rz_inv z P' S' r'" "P' \<subseteq> P"
      "\<not> stored (table r' ! ?i)" "\<not> zero_entry (table r' ! ?i)" "device z r' = (device z ?r0)(?i := None)"
      "plain_pages (table r') \<subseteq> plain_pages (table ?r0)" "\<And>q. q \<notin> P \<Longrightarrow> rz_mem r' q = rz_mem ?r0 q"
      "same_dev ?r0 r'" "frames_freed P ?r0 P' r'" by (rule free_page_ok[OF inv0 i0]; rule that; assumption)
    have "bv_page b \<notin> P" using fr by (simp add: frames_ok_def owned_def)
    moreover have "frames_freed P r P' r'" using f(10) by (simp add: frames_freed_def rz_upd)
    ultimately show thesis using f True that[of r' P' S'] by (simp add: rz_upd same_dev_def)
  next
    case False
    have ns: "\<not> stored (table r ! ?i)" using False by (simp add: stored_def rz_upd)
    have "\<not> plain (table r ! ?i)"
      using ns inv i tinvD(2) by (fastforce simp: rz_inv_def entry_ok_def)
    moreover have "device z ?r0 ?i = None" if "\<not> zero_entry (table r ! ?i)"
      using that ns i entry_page_gone by (simp add: device_def rz_upd)
    moreover have "frames_freed P r P ?r0" by (rule frames_freedI[of _ "[]"]) (simp_all add: rz_upd)
    ultimately show thesis using False inv0 ns by (intro that[of ?r0 P S]) (simp_all add: rz_upd)
  qed
  text \<open>the zero flag goes away\<close>
  define r2 where "r2 = (if rz_test_flag r1 ?i RZS_ZERO
      then rz_clear_flag ?i RZS_ZERO (upd_stats (\<lambda>s. s\<lparr>pages_zero := pages_zero s - 1\<rparr>) r1) else r1)"
  have i1: "?i < length (table r1)" using i r1(9) by (simp add: same_dev_def)
  have tv1: "tinv z P1 S1 (mem_pool r1) (table r1)" using r1(2) by (simp add: rz_inv_def)
  have r2: "rz_inv z P1 S1 r2" "device z r2 = (device z r)(?i := None)" "\<not> stored (table r2 ! ?i)"
    "\<not> zero_entry (table r2 ! ?i)" "plain_pages (table r2) \<subseteq> plain_pages (table r)"
    "rz_mem r2 = rz_mem r1" "same_dev r r2" "frames_freed P r P1 r2"
  proof -
    let ?e = "if zero_entry (table r1 ! ?i)
        then (table r1 ! ?i)\<lparr>te_flags := te_flags (table r1 ! ?i) AND NOT (BIT_pageflag RZS_ZERO)\<rparr> else table r1 ! ?i"
    have e: "\<not> stored ?e" "\<not> plain ?e" "\<not> zero_entry ?e"
      using r1(4,5) tinvD(2)[OF tv1 i1] by (simp_all add: entry_upd entry_ok_def)
    have tb: "table r2 = (table r1)[?i := ?e]" and mp: "mem_pool r2 = mem_pool r1" and sd: "same_dev r1 r2"
      by (simp_all add: r2_def rz_test_flag_entry rz_clear_flag_def rz_upd same_dev_def)
    have "tinv z P1 S1 (mem_pool r2) (table r2)"
      unfolding tb mp by (rule tinv_empty_entry[OF tv1 i1 _ e(1,2)]) (use r1(4) in simp)
    then show "rz_inv z P1 S1 r2" using r1(2) sd by (simp add: rz_inv_def same_dev_def)
    show "device z r2 = (device z r)(?i := None)"
      using device_upd[OF i1 tb] entry_page_gone[OF e(1,3)] mp r1(6) by simp
    have pp: "plain_pages (table r2) = plain_pages (table r1)"
      unfolding tb by (rule plain_pages_same[OF i1]) (use r1(4) e in simp_all)
    then show "plain_pages (table r2) \<subseteq> plain_pages (table r)" using r1(7) by simp
    have "freed_pages r2 = freed_pages r1" by (simp add: r2_def rz_clear_flag_def rz_upd)
    then show "frames_freed P r P1 r2" using r1(11) pp by (simp add: frames_freed_def owned_def)
    show "\<not> stored (table r2 ! ?i)" "\<not> zero_entry (table r2 ! ?i)" using e i1 by (simp_all add: tb)
    show "rz_mem r2 = rz_mem r1" by (simp add: mp)
    show "same_dev r r2" by (rule same_dev_trans[OF r1(9) sd])
  qed
  have ow: "owned P1 r2 \<subseteq> owned P r" using r1(3) r2(5) by (auto simp: owned_def)
  then have fr2: "newpg \<notin> owned P1 r2" "bv_page b \<notin> owned P1 r2" "newpg \<noteq> bv_page b"
    using fr by (auto simp: frames_ok_def)
  have i2: "?i < length (table r2)" using i r2(7) by (simp add: same_dev_def)
  obtain P' S' where w: "rz_inv z P' S' (snd (write_store z newpg nowait b r2))"
    "store_post z newpg b P1 r2 (fst (write_store z newpg nowait b r2)) P' (snd (write_store z newpg nowait b r2))"
    using write_store_ok[OF r2(1) i2 r2(3,4) fr2 z] by blast
  have pg: "page_of r2 b = page_of r b" using r2(6) r1(8) by (simp add: page_of_def ld_bytes_def)
  have "write_post z newpg b P r (fst (write_store z newpg nowait b r2)) P' (snd (write_store z newpg nowait b r2))"
    using w(2) r2(2,6,7,8) r1(8) pg unfolding write_post_def store_post_def same_dev_def
    by (intro conjI exI[of _ P1] exI[of _ r2]) auto
  moreover have "ramzswap_write z newpg nowait b r = Some (write_store z newpg nowait b r2)"
    using i r1(1) by (simp add: ramzswap_write_def Let_def rz_upd r2_def)
  ultimately show thesis using w(1) by (intro that) simp_all
qed

definition read_post :: "lzo \<Rightarrow> bio \<Rightarrow> ramzswap \<Rightarrow> (int \<times> bio_result) \<Rightarrow> ramzswap \<Rightarrow> bool" where
  "read_post z b r res r' \<longleftrightarrow> device z r' = device z r \<and> table r' = table r \<and> same_dev r r' \<and>
     freed_pages r' = freed_pages r \<and> (\<forall>q. q \<noteq> bv_page b \<longrightarrow> rz_mem r' q = rz_mem r q) \<and>
     (case device z r (bio_index b) of
        Some page \<Rightarrow> res = (0, Bio_uptodate) \<and> page_of r' b = page
      | None \<Rightarrow> if backing_swap r then res = (1, Bio_remapped) \<and> rz_mem r' = rz_mem r
                else res = (0, Bio_uptodate) \<and> page_of r' b = replicate PAGE_SIZE 0)"

lemma page_of_st_bytes: "length page = PAGE_SIZE \<Longrightarrow>
    page_of (upd_mem (\<lambda>m. st_bytes m (bv_page b) 0 page) r) b = page"
  by (simp add: page_of_def rz_upd)

lemma read_ok:
  assumes inv: "rz_inv z P S r" and i: "bio_index b < length (table r)" and u: "bv_page b \<notin> owned P r"
  shows "\<exists>res r'. ramzswap_read z b r = Some (res, r') \<and> rz_inv z P S r' \<and> read_post z b r res r'"
    (is ?goal)
proof -
  let ?i = "bio_index b" and ?e = "table r ! bio_index b"
  let ?r0 = "upd_stats (\<lambda>s. s\<lparr>num_reads := num_reads s + 1\<rparr>) r"
  have tv: "tinv z P S (mem_pool r) (table r)" using inv by (simp add: rz_inv_def)
  note ok = tinvD(2)[OF tv i]
  have u0: "bv_page b \<notin> owned P ?r0" using u by simp
  have fill: ?goal if "ramzswap_read z b r = Some ((0, Bio_uptodate), upd_mem (\<lambda>m. st_bytes m (bv_page b) 0 page) ?r0)"
      "length page = PAGE_SIZE" "device z r ?i = Some page \<or> device z r ?i = None \<and> \<not> backing_swap r \<and> page = replicate PAGE_SIZE 0"
    for page
  proof -
    have "read_post z b r (0, Bio_uptodate) (upd_mem (\<lambda>m. st_bytes m (bv_page b) 0 page) ?r0)"
      using that(2,3) user_write(2)[OF _ u0, where f = "\<lambda>_. page" and x = 0] inv page_of_st_bytes[OF that(2), of b ?r0]
      by (auto simp: read_post_def rz_upd same_dev_def st_bytes_def)
    then show ?goal
      using that(1) user_write(1)[OF _ u0, where f = "\<lambda>_. page" and x = 0] inv by simp
  qed
  consider (zero) "zero_entry ?e" | (none) "\<not> zero_entry ?e" "\<not> stored ?e"
    | (plain) "\<not> zero_entry ?e" "stored ?e" "plain ?e" | (packed) "\<not> zero_entry ?e" "stored ?e" "\<not> plain ?e" by blast
  then show ?goal
  proof cases
    case zero
    show ?goal
      by (rule fill[of "replicate PAGE_SIZE 0"])
        (use zero i in \<open>simp_all add: ramzswap_read_def rz_test_flag_entry rz_upd Let_def handle_zero_page_def
          device_def entry_page_def\<close>)
  next
    case none
    have d: "device z r ?i = None" using none i by (simp add: device_def entry_page_def)
    have rd: "ramzswap_read z b r = Some (handle_ramzswap_fault b ?r0)"
      using none i by (simp add: ramzswap_read_def rz_test_flag_entry rz_upd Let_def stored_def)
    show ?goal
    proof (cases "backing_swap r")
      case True
      let ?r' = "upd_stats (\<lambda>s. s\<lparr>num_reads := num_reads s - 1, bdev_num_reads := bdev_num_reads s + 1\<rparr>) ?r0"
      have "handle_ramzswap_fault b ?r0 = ((1, Bio_remapped), ?r')"
        using True by (simp add: handle_ramzswap_fault_def rz_upd)
      moreover have "read_post z b r (1, Bio_remapped) ?r'" using True d by (simp add: read_post_def rz_upd)
      ultimately show ?goal using rd inv by simp
    next
      case False
      show ?goal
        by (rule fill[of "replicate PAGE_SIZE 0"])
          (use rd False d in \<open>simp_all add: handle_ramzswap_fault_def rz_upd\<close>)
    qed
  next
    case plain
    show ?goal
      by (rule fill[of "ld_bytes (rz_mem r) (te_pagenum ?e) 0 PAGE_SIZE"])
        (use plain i ok in \<open>simp_all add: ramzswap_read_def rz_test_flag_entry rz_upd Let_def stored_def
          handle_uncompressed_page_def upd_mem_def upd_stats_def device_def entry_page_def entry_ok_def\<close>)
  next
    case packed
    obtain c page where c: "S (handle ?e) = Some c" "lzo1x_decompress_safe z c PAGE_SIZE = (LZO_E_OK, page)"
      "length page = PAGE_SIZE" using ok packed by (auto simp: entry_ok_def)
    note ob = object_bytes[OF tinvD(1)[OF tv] c(1)]
    show ?goal
      by (rule fill[of page])
        (use packed i ob c in \<open>simp_all add: ramzswap_read_def rz_test_flag_entry rz_upd Let_def stored_def
          device_def entry_page_def\<close>)
  qed
qed

end
