(* ===== verification/Ramzswap_Boot.thy ===== *)
theory Ramzswap_Boot
  imports Ramzswap_Init Ramzswap_Run
begin

text \<open>
  Loading the driver establishes the invariant of the request path, with the swap header as
  the only page of the device; a failed load gives back what it took, with the exceptions the
  theorems name; unloading frees every page frame of the device once.
\<close>

unbundle bit_operations_syntax

section \<open>Loading\<close>

named_theorems drv \<open>what the driver's bookkeeping does to the fields of the state\<close>

lemma acquire_fields [drv]:
  "rz (acquire x d) = rz d" "held (acquire x d) = x # held d" "excess (acquire x d) = excess d"
  "compress_workmem (acquire x d) = compress_workmem d" "compress_buffer (acquire x d) = compress_buffer d"
  "table_mem (acquire x d) = table_mem d" "disk_major (acquire x d) = disk_major d"
  "capacity (acquire x d) = capacity d" "pool_mem (acquire x d) = pool_mem d" "proc (acquire x d) = proc d"
  "bdev_block_size (acquire x d) = bdev_block_size d" "old_block_size (acquire x d) = old_block_size d"
  by (simp_all add: acquire_def)

lemma release_fields [drv]:
  "rz (release x d) = rz d"
  "compress_workmem (release x d) = compress_workmem d" "compress_buffer (release x d) = compress_buffer d"
  "table_mem (release x d) = table_mem d" "disk_major (release x d) = disk_major d"
  "capacity (release x d) = capacity d" "pool_mem (release x d) = pool_mem d" "proc (release x d) = proc d"
  "bdev_block_size (release x d) = bdev_block_size d" "old_block_size (release x d) = old_block_size d"
  "held (release x d) = remove1 x (held d)"
  "excess (release x d) = (if x \<in> set (held d) then excess d else x # excess d)"
  by (simp_all add: release_def remove1_idem)

lemma upd_rz_fields [drv]:
  "rz (upd_rz f d) = f (rz d)" "held (upd_rz f d) = held d" "excess (upd_rz f d) = excess d"
  "compress_workmem (upd_rz f d) = compress_workmem d" "compress_buffer (upd_rz f d) = compress_buffer d"
  "table_mem (upd_rz f d) = table_mem d" "disk_major (upd_rz f d) = disk_major d"
  "capacity (upd_rz f d) = capacity d" "pool_mem (upd_rz f d) = pool_mem d" "proc (upd_rz f d) = proc d"
  "bdev_block_size (upd_rz f d) = bdev_block_size d" "old_block_size (upd_rz f d) = old_block_size d"
  by (simp_all add: upd_rz_def)

lemma set_blocksize_fields [drv]:
  "fst (set_blocksize env n d) = env_set_blocksize env n"
  "rz (snd (set_blocksize env n d)) = rz d" "held (snd (set_blocksize env n d)) = held d"
  "excess (snd (set_blocksize env n d)) = excess d"
  "compress_workmem (snd (set_blocksize env n d)) = compress_workmem d"
  "compress_buffer (snd (set_blocksize env n d)) = compress_buffer d"
  "table_mem (snd (set_blocksize env n d)) = table_mem d" "disk_major (snd (set_blocksize env n d)) = disk_major d"
  "pool_mem (snd (set_blocksize env n d)) = pool_mem d" "proc (snd (set_blocksize env n d)) = proc d"
  "old_block_size (snd (set_blocksize env n d)) = old_block_size d"
  by (simp_all add: set_blocksize_def Let_def)

lemma header_same:
  "same_dev r (snd (setup_swap_header env s r))" "table (snd (setup_swap_header env s r)) = table r"
  "stats (snd (setup_swap_header env s r)) = stats r" "freed_pages (snd (setup_swap_header env s r)) = freed_pages r"
  by (auto simp: setup_swap_header_def same_dev_def rz_upd Let_def split: sum.splits)

text \<open>What the three parts of \<^verbatim>\<open>ramzswap_init\<close> leave on the way to success.\<close>

definition header_table :: "nat \<Rightarrow> u32 \<Rightarrow> rz_entry list" where
  "header_table n page = (replicate n rz_entry0)[0 := \<lparr>te_pagenum = page, te_offset = 0, te_count = 0, te_flags = 1\<rparr>]"

definition header_start :: "nat \<Rightarrow> u32 \<Rightarrow> ramzswap \<Rightarrow> ramzswap" where
  "header_start n page r = rz_set_flag 0 RZS_UNCOMPRESSED (upd_entry 0 (\<lambda>e. e\<lparr>te_pagenum := page\<rparr>)
     (upd_mem (\<lambda>m. st_bytes m page 0 (replicate PAGE_SIZE 0)) (r\<lparr>table := replicate n rz_entry0\<rparr>)))"

lemma header_start_fields [rz_upd]:
  "table (header_start n page r) = header_table n page" "stats (header_start n page r) = stats r"
  "freed_pages (header_start n page r) = freed_pages r" "disksize (header_start n page r) = disksize r"
  "memlimit (header_start n page r) = memlimit r" "backing_swap (header_start n page r) = backing_swap r"
  "max_cpage_size (header_start n page r) = max_cpage_size r"
  "rz_mem (header_start n page r) = st_bytes (rz_mem r) page 0 (replicate PAGE_SIZE 0)"
  by (cases n; simp add: header_start_def header_table_def rz_set_flag_def rz_upd rz_entry0_def BIT_pageflag.simps)+

lemma init_memory_ok:
  assumes "init_memory env d = Some (0, d')"
  shows "table (rz d') = header_table (unat (drop_bit PAGE_SHIFT (disksize (rz d)))) (env_alloc_page env) \<and>
    env_alloc_page env \<noteq> 0 \<and> unat (drop_bit PAGE_SHIFT (disksize (rz d))) \<noteq> 0 \<and>
    disksize (rz d') = disksize (rz d) \<and> backing_swap (rz d') = backing_swap (rz d) \<and>
    memlimit (rz d') = memlimit (rz d) \<and> stats (rz d') = stats (rz d) \<and> freed_pages (rz d') = freed_pages (rz d) \<and>
    held d' = [Table_mem, Compress_buffer, Compress_workmem] @ held d \<and> excess d' = excess d \<and>
    compress_workmem d' \<and> compress_buffer d' \<and> table_mem d' \<and> disk_major d' = disk_major d \<and>
    pool_mem d' = pool_mem d \<and> proc d' = proc d \<and> bdev_block_size d' = bdev_block_size d \<and>
    old_block_size d' = old_block_size d \<and>
    setup_swap_header env (env_alloc_page env)
      (header_start (unat (drop_bit PAGE_SHIFT (disksize (rz d)))) (env_alloc_page env) (rz d)) = (0, rz d')"
proof -
  let ?n = "unat (drop_bit PAGE_SHIFT (disksize (rz d)))"
  obtain r where ok: "env_kmalloc_workmem env" "env_kmalloc_buffer env" "env_vmalloc env ?n" "env_alloc_page env \<noteq> 0" "?n \<noteq> 0"
    and sh: "setup_swap_header env (env_alloc_page env) (header_start ?n (env_alloc_page env) (rz d)) = (0, r)"
    and d': "d' = (acquire Table_mem (acquire Compress_buffer (acquire Compress_workmem d)))
        \<lparr>compress_workmem := True, compress_buffer := True, table_mem := True, rz := r\<rparr>"
    using assms unfolding init_memory_def header_start_def
    by (auto simp: Let_def drv upd_rz_def acquire_def split: if_splits prod.splits)
  note h = header_same[where r = "header_start ?n (env_alloc_page env) (rz d)" and env = env and s = "env_alloc_page env", unfolded sh]
  show ?thesis using ok h by (simp add: d' drv rz_upd same_dev_def sh)
qed

lemma init_disk_ok:
  assumes "init_disk env d = (0, d')"
  shows "rz d' = rz d \<and> held d' = [Disk_added, Disk_queue, Blkdev, Gendisk] @ held d \<and> excess d' = excess d \<and>
    capacity d' = drop_bit SECTOR_SHIFT (disksize (rz d)) \<and> disk_major d' = Some (env_register_blkdev env) \<and>
    env_register_blkdev env \<ge> 0 \<and>
    compress_workmem d' = compress_workmem d \<and> compress_buffer d' = compress_buffer d \<and> table_mem d' = table_mem d \<and>
    bdev_block_size d' = bdev_block_size d \<and> old_block_size d' = old_block_size d"
  using assms unfolding init_disk_def by (auto simp: Let_def drv split: if_splits)

lemma init_pool_ok:
  assumes "init_pool env d = (0, d')"
  shows "rz d' = (rz d)\<lparr>mem_pool := xv_create_pool (rz_mem (rz d)), max_cpage_size :=
      (if backing_swap (rz d) then MAX_CPAGE_SIZE_BDEV else MAX_CPAGE_SIZE_NOBDEV)\<rparr> \<and>
    held d' = [Notifier Ramzswap_swapoff_nb SWAP_EVENT_SWAPOFF 0, Notifier Ramzswap_swapon_nb SWAP_EVENT_SWAPON 0,
      Proc_entry, Pool_mem] @ held d \<and> excess d' = excess d \<and> capacity d' = capacity d \<and>
    bdev_block_size d' = bdev_block_size d \<and> old_block_size d' = old_block_size d"
  using assms unfolding init_pool_def by (auto simp: Let_def drv split: if_splits)

text \<open>A driver that has just been loaded.\<close>

definition booted :: "rz_env \<Rightarrow> rz_driver \<Rightarrow> rz_driver \<Rightarrow> bool" where
  "booted env d0 d \<longleftrightarrow>
     (let n = unat (drop_bit PAGE_SHIFT (disksize (rz d)))
      in n \<noteq> 0 \<and> env_alloc_page env \<noteq> 0 \<and> table (rz d) = header_table n (env_alloc_page env) \<and>
         (\<exists>m. mem_pool (rz d) = xv_create_pool m) \<and> stats (rz d) = stats (rz d0) \<and>
         freed_pages (rz d) = freed_pages (rz d0) \<and>
         backing_swap (rz d) = backing_swap_param env \<and>
         (if backing_swap_param env then disksize (rz d) = ucast (env_i_size env) else 4096 dvd unat (disksize (rz d))) \<and>
         capacity d = drop_bit SECTOR_SHIFT (disksize (rz d)) \<and>
         max_cpage_size (rz d) = (if backing_swap_param env then MAX_CPAGE_SIZE_BDEV else MAX_CPAGE_SIZE_NOBDEV) \<and>
         held d = [Notifier Ramzswap_swapoff_nb SWAP_EVENT_SWAPOFF 0, Notifier Ramzswap_swapon_nb SWAP_EVENT_SWAPON 0,
           Proc_entry, Pool_mem, Disk_added, Disk_queue, Blkdev, Gendisk, Table_mem, Compress_buffer, Compress_workmem] @
           (if backing_swap_param env then [Bdev_claim, Swap_file] else []) @ held d0 \<and> excess d = excess d0 \<and>
         (\<exists>r. backing_swap r = backing_swap_param env \<and> disksize r = disksize (rz d) \<and>
            rz_mem (rz d) = rz_mem (snd (setup_swap_header env (env_alloc_page env) (header_start n (env_alloc_page env) r)))) \<and>
         (backing_swap_param env \<longrightarrow> old_block_size d = bdev_block_size d0))"

lemma setup_backing_ok:
  assumes "setup_backing_swap env d0 = Some (0, d)"
  shows "stats (rz d) = stats (rz d0) \<and> freed_pages (rz d) = freed_pages (rz d0) \<and>
    backing_swap (rz d) = backing_swap_param env \<and> (backing_swap_param env \<longrightarrow> disksize (rz d) = ucast (env_i_size env)) \<and>
    held d = (if backing_swap_param env then [Bdev_claim, Swap_file] else []) @ held d0 \<and> excess d = excess d0 \<and>
    (backing_swap_param env \<longrightarrow> old_block_size d = bdev_block_size d0)"
  using assms unfolding setup_backing_swap_def set_blocksize_def
  by (auto simp: Let_def drv upd_rz_def split: if_splits)

lemma set_memlimit_ok:
  "ramzswap_set_memlimit env t r = Some r' \<Longrightarrow> stats r' = stats r \<and> freed_pages r' = freed_pages r \<and>
    backing_swap r' = backing_swap r \<and> disksize r' = disksize r"
  by (auto simp: ramzswap_set_memlimit_def Let_def split: if_splits)

lemma set_disksize_dvd: "4096 dvd unat (disksize (ramzswap_set_disksize env t r))"
  by (simp add: ramzswap_set_disksize_def Let_def unat_and_not_mask)

lemma set_disksize_same:
  "stats (ramzswap_set_disksize env t r) = stats r \<and> freed_pages (ramzswap_set_disksize env t r) = freed_pages r \<and>
   backing_swap (ramzswap_set_disksize env t r) = backing_swap r"
  by (simp add: ramzswap_set_disksize_def Let_def)

lemma init_booted:
  assumes "ramzswap_init env d0 = Some (0, d)"
  shows "booted env d0 d"
proof -
  obtain d1 where d1: "setup_backing_swap env d0 = Some (0, d1)"
    using assms by (auto simp: ramzswap_init_def Let_def split: option.splits if_splits)
  let ?t = "push_bit PAGE_SHIFT (totalram_pages env)"
  obtain r where r: "(if backing_swap (rz d1) then ramzswap_set_memlimit env ?t (rz d1)
      else Some (ramzswap_set_disksize env ?t (rz d1))) = Some r"
    using assms d1 by (fastforce simp: ramzswap_init_def Let_def split: option.splits if_splits)
  obtain d2 where d2: "init_memory env (d1\<lparr>rz := r\<rparr>) = Some (0, d2)"
    using assms d1 r by (auto simp: ramzswap_init_def Let_def split: option.splits if_splits prod.splits)
  obtain d3 where d3: "init_disk env d2 = (0, d3)"
    using assms d1 r d2 by (auto simp: ramzswap_init_def Let_def split: option.splits if_splits prod.splits)
  have d4: "init_pool env d3 = (0, d)"
    using assms d1 r d2 d3 by (auto simp: ramzswap_init_def Let_def split: option.splits if_splits prod.splits)
  have r': "stats r = stats (rz d1)" "freed_pages r = freed_pages (rz d1)" "backing_swap r = backing_swap (rz d1)"
    "if backing_swap (rz d1) then disksize r = disksize (rz d1) else 4096 dvd unat (disksize r)"
    using r set_memlimit_ok[of env ?t "rz d1" r] set_disksize_dvd[of env ?t "rz d1"] set_disksize_same[of env ?t "rz d1"]
    by (auto split: if_splits)
  note f = setup_backing_ok[OF d1] init_memory_ok[OF d2] init_disk_ok[OF d3] init_pool_ok[OF d4]
  have ram: "\<exists>m. mem_pool (rz d) = xv_create_pool m" using f(4) by auto
  have "rz_mem (rz d) = rz_mem (rz d2)" using f(3,4) by (simp add: xv_create_pool_def)
  moreover have "rz d2 = snd (setup_swap_header env (env_alloc_page env)
      (header_start (unat (drop_bit PAGE_SHIFT (disksize r))) (env_alloc_page env) r))" using f(2) by simp
  ultimately show ?thesis
    unfolding booted_def Let_def using f r' ram by (intro conjI exI[of _ r]) (auto split: if_splits)
qed

section \<open>The device after loading\<close>

lemma entry0 [simp]: "\<not> stored rz_entry0" "\<not> plain rz_entry0" "\<not> zero_entry rz_entry0"
  by (simp_all add: rz_entry0_def stored_def plain_def zero_entry_def)

lemma header_entry:
  fixes page :: u32
  defines "e \<equiv> \<lparr>te_pagenum = page, te_offset = 0, te_count = 0, te_flags = 1\<rparr>"
  shows "stored e \<longleftrightarrow> page \<noteq> 0" "plain e" "\<not> zero_entry e"
  by (simp_all add: e_def stored_def plain_bit zero_bit)

lemma header_table_nth:
  "i < n \<Longrightarrow> header_table n page ! i = (if i = 0 then \<lparr>te_pagenum = page, te_offset = 0, te_count = 0, te_flags = 1\<rparr> else rz_entry0)"
  "length (header_table n page) = n"
  by (simp_all add: header_table_def nth_list_update)

lemma header_table_inv:
  assumes "xv_rep {} Map.empty h" "page \<noteq> 0"
  shows "tinv z {} Map.empty h (header_table n page)"
  using assms header_entry[of page] unfolding tinv_def
  by (auto simp: header_table_nth entry_ok_def split: if_splits)

lemma header_plain_pages: "n \<noteq> 0 \<Longrightarrow> page \<noteq> 0 \<Longrightarrow> plain_pages (header_table n page) = {page}"
proof -
  assume n: "n \<noteq> 0" "page \<noteq> 0"
  have "e \<in> set (header_table n page) \<and> stored e \<Longrightarrow> te_pagenum e = page" for e
    by (auto simp: in_set_conv_nth header_table_nth split: if_splits)
  moreover have "page \<in> plain_pages (header_table n page)"
    using plain_pagesI[of 0 "header_table n page"] n header_entry[of page] by (simp add: header_table_nth)
  ultimately show ?thesis by (auto simp: plain_pages_def)
qed

lemma unat_drop_bit_u32: "unat (drop_bit n (w :: u32)) = unat w div 2 ^ n"
proof -
  have "unat (drop_bit n w) = drop_bit n (unat w)"
    by (simp only: unsigned_drop_bit_eq take_bit_nat_eq_self[OF unsigned_less])
  then show ?thesis by (simp only: drop_bit_eq_div)
qed

lemma booted_inv:
  assumes b: "booted env d0 d" and dvd: "4096 dvd unat (disksize (rz d))"
  shows "rz_inv z {} Map.empty (rz d)" and "owned {} (rz d) = {env_alloc_page env}"
    and "device z (rz d) = [0 \<mapsto> ld_bytes (rz_mem (rz d)) (env_alloc_page env) 0 PAGE_SIZE]"
proof -
  let ?n = "unat (drop_bit PAGE_SHIFT (disksize (rz d)))" and ?p = "env_alloc_page env"
  have n: "?n \<noteq> 0" "?p \<noteq> 0" "table (rz d) = header_table ?n ?p" using b by (simp_all add: booted_def Let_def)
  obtain m where m: "mem_pool (rz d) = xv_create_pool m" using b by (auto simp: booted_def Let_def)
  have ds: "unat (disksize (rz d)) = PAGE_SIZE * ?n"
    using dvd by (simp only: unat_drop_bit_u32) simp
  have mx: "max_cpage_size (rz d) \<le> 3072" using b by (simp add: booted_def Let_def)
  show "rz_inv z {} Map.empty (rz d)"
    using header_table_inv[OF create_rep[of m] n(2), of z ?n] m n(3) ds mx
    by (simp add: rz_inv_def header_table_nth no_idle_def)
  show "owned {} (rz d) = {?p}" using header_plain_pages[OF n(1,2)] by (simp add: owned_def n(3))
  show "device z (rz d) = [0 \<mapsto> ld_bytes (rz_mem (rz d)) ?p 0 PAGE_SIZE]"
    using n header_entry[of ?p] by (auto simp: device_def header_table_nth entry_page_def fun_eq_iff)
qed

section \<open>Unloading\<close>

definition cleared :: "nat \<Rightarrow> rz_entry list \<Rightarrow> rz_entry list" where
  "cleared k tbl = replicate k rz_entry0 @ drop k tbl"

lemma cleared_nth: "k \<le> length tbl \<Longrightarrow> i < length tbl \<Longrightarrow> cleared k tbl ! i = (if i < k then rz_entry0 else tbl ! i)"
  "k \<le> length tbl \<Longrightarrow> length (cleared k tbl) = length tbl"
  by (simp_all add: cleared_def nth_append)

lemma cleared_Suc: "k < length tbl \<Longrightarrow> (cleared k tbl)[k := rz_entry0] = cleared (Suc k) tbl"
  by (rule nth_equalityI) (auto simp: cleared_nth nth_list_update)

lemma cleared_all:
  assumes "tinv z P S h (cleared (length tbl) tbl)" "no_idle P S"
  shows "P = {}" "plain_pages (cleared (length tbl) tbl) = {}"
proof -
  have c: "cleared (length tbl) tbl = replicate (length tbl) rz_entry0" by (simp add: cleared_def)
  have "\<not> stored (cleared (length tbl) tbl ! i)" if "i < length tbl" for i using that by (simp add: c)
  moreover have "length (cleared (length tbl) tbl) = length tbl" by (simp add: c)
  ultimately have "a \<notin> dom S" for a unfolding tinvD(4)[OF assms(1), of a] by auto
  then have "dom S = {}" by blast
  with assms(2) show "P = {}" by (auto simp: no_idle_def)
  show "plain_pages (cleared (length tbl) tbl) = {}" by (auto simp: plain_pages_def cleared_def)
qed

lemma exit_pages_ok:
  assumes "tinv z P S (mem_pool r) (cleared k (table r))" "no_idle P S" "k + n = length (table r)"
  shows "\<exists>r' fr. exit_free_pages k n r = Some r' \<and> freed_pages r' = fr @ freed_pages r \<and> distinct fr \<and>
    set fr = P \<union> plain_pages (cleared k (table r))"
  using assms
proof (induction n arbitrary: k r P S)
  case 0
  then show ?case using cleared_all[of z P S "mem_pool r" "table r"] by simp
next
  case (Suc n)
  let ?t = "cleared k (table r)" and ?e = "table r ! k"
  have k: "k < length (table r)" "?t ! k = ?e" "k < length ?t" using Suc.prems(3) by (simp_all add: cleared_nth)
  note tv = Suc.prems(1) and nx = cleared_Suc[OF k(1)]
  have ln: "Suc k + n = length (table r)" using Suc.prems(3) by simp
  consider (none) "\<not> stored ?e" | (plain) "stored ?e" "plain ?e" | (packed) "stored ?e" "\<not> plain ?e" by blast
  then show ?case
  proof cases
    case none
    have "tinv z P S (mem_pool r) (cleared (Suc k) (table r))"
      unfolding nx[symmetric] by (rule tinv_empty_entry[OF tv k(3)]) (use none k in simp_all)
    from Suc.IH[OF this Suc.prems(2) ln] obtain r' fr where
      "exit_free_pages (Suc k) n r = Some r'" "freed_pages r' = fr @ freed_pages r" "distinct fr"
      "set fr = P \<union> plain_pages (cleared (Suc k) (table r))" by blast
    moreover have "plain_pages (cleared (Suc k) (table r)) = plain_pages ?t"
      unfolding nx[symmetric] by (rule plain_pages_same[OF k(3)]) (use none k in simp_all)
    ultimately show ?thesis using none by (simp add: stored_def)
  next
    case plain
    let ?r = "r\<lparr>freed_pages := te_pagenum ?e # freed_pages r\<rparr>"
    have "tinv z P S (mem_pool ?r) (cleared (Suc k) (table ?r))"
      using tinv_empty_entry[OF tv k(3), of rz_entry0] plain k by (simp add: nx)
    from Suc.IH[OF this Suc.prems(2)] ln obtain r' fr where
      f: "exit_free_pages (Suc k) n ?r = Some r'" "freed_pages r' = fr @ freed_pages ?r" "distinct fr"
      "set fr = P \<union> plain_pages (cleared (Suc k) (table r))" by auto
    have d: "plain_pages (cleared (Suc k) (table r)) = plain_pages ?t - {te_pagenum ?e}"
      unfolding nx[symmetric] using plain_pages_del[OF tv k(3), of rz_entry0] plain k by simp
    have pin: "te_pagenum ?e \<in> plain_pages ?t" using plain_pagesI[OF k(3)] plain k by simp
    moreover have "te_pagenum ?e \<notin> P" using plain_pages_outside[OF tv] pin by blast
    ultimately have "distinct (fr @ [te_pagenum ?e])" "set (fr @ [te_pagenum ?e]) = P \<union> plain_pages ?t"
      using f(3,4) d by auto
    moreover have "exit_free_pages k (Suc n) r = Some r'"
      using f(1) plain by (simp add: stored_def rz_test_flag_entry)
    ultimately show ?thesis using f(2) by (intro exI[of _ r'] exI[of _ "fr @ [te_pagenum ?e]"]) simp
  next
    case packed
    then have pk: "stored (?t ! k)" "\<not> plain (?t ! k)" using k by simp_all
    obtain c where c: "S (te_pagenum ?e, unat (ucast (te_offset ?e) :: u32)) = Some c"
      using handle_in_pool(2)[OF tv k(3) pk] k by (auto simp: handle_def)
    obtain h pg where h: "xv_free (te_pagenum ?e) (ucast (te_offset ?e)) (mem_pool r) = Some (h, pg)"
      "xv_rep (P - set_option pg) (S(handle (?t ! k) := None)) h"
      "pg = (if \<exists>z. z \<noteq> unat (te_offset ?e) \<and> S (te_pagenum ?e, z) \<noteq> None then None else Some (te_pagenum ?e))"
      using xvs.release_law[OF tinvD(1)[OF tv] c] k by (auto simp: handle_def)
    let ?r = "r\<lparr>mem_pool := h, freed_pages := (case pg of None \<Rightarrow> [] | Some q \<Rightarrow> [q]) @ freed_pages r\<rparr>"
    have t: "tinv z (P - set_option pg) (S(handle (?t ! k) := None)) (mem_pool ?r) (cleared (Suc k) (table ?r))"
      using tinv_release[OF tv k(3) pk h(2), of rz_entry0] by (simp add: nx)
    have ni: "no_idle (P - set_option pg) (S(handle (?t ! k) := None))"
      using no_idle_remove[OF Suc.prems(2), of "unat (te_offset ?e)" "te_pagenum ?e"] h(3) k by (simp add: handle_def)
    from Suc.IH[OF t ni] ln obtain r' fr where
      f: "exit_free_pages (Suc k) n ?r = Some r'" "freed_pages r' = fr @ freed_pages ?r" "distinct fr"
      "set fr = (P - set_option pg) \<union> plain_pages (cleared (Suc k) (table r))" by auto
    have d: "plain_pages (cleared (Suc k) (table r)) = plain_pages ?t"
      unfolding nx[symmetric] by (rule plain_pages_same[OF k(3)]) (use pk in simp_all)
    have pin: "te_pagenum ?e \<in> P" using handle_in_pool(1)[OF tv k(3) pk] k by simp
    then have "te_pagenum ?e \<notin> plain_pages ?t" using plain_pages_outside[OF tv] by blast
    then have "distinct (fr @ (case pg of None \<Rightarrow> [] | Some q \<Rightarrow> [q]))"
      "set (fr @ (case pg of None \<Rightarrow> [] | Some q \<Rightarrow> [q])) = P \<union> plain_pages ?t"
      using f(3,4) d h(3) pin by (auto split: option.splits if_splits)
    moreover have "exit_free_pages k (Suc n) r = Some r'"
      using f(1) h(1) packed by (simp add: stored_def rz_test_flag_entry)
    ultimately show ?thesis
      using f(2) by (intro exI[of _ r'] exI[of _ "fr @ (case pg of None \<Rightarrow> [] | Some q \<Rightarrow> [q])"]) simp
  qed
qed

end
