(* ===== verification/Ramzswap_Props.thy ===== *)
theory Ramzswap_Props
  imports Ramzswap_Boot
begin

text \<open>
  The swap device as its users see it: sequences of requests and freed slots from the moment
  the driver is loaded, the refinement to a map from page numbers to pages, and the properties
  of loading, reading, writing, freeing and unloading.
\<close>

unbundle bit_operations_syntax

section \<open>Requests within the device\<close>

lemma unat_drop_bit_u64: "unat (drop_bit n (w :: u64)) = unat w div 2 ^ n"
proof -
  have "unat (drop_bit n w) = drop_bit n (unat w)"
    by (simp only: unsigned_drop_bit_eq take_bit_nat_eq_self[OF unsigned_less])
  then show ?thesis by (simp only: drop_bit_eq_div)
qed

lemma unat_ucast_32_64: "unat (ucast (w :: u32) :: u64) = unat w"
proof -
  have "unat w < 4294967296" by simp
  then have "unat w < 2 ^ 64" by (rule less_trans) simp
  then show ?thesis by (simp add: unsigned_ucast_eq take_bit_nat_eq_self)
qed

lemma bio_index_div:
  assumes "unat (bi_sector b) < 2 ^ 32"
  shows "bio_index b = unat (bi_sector b) div 8"
proof -
  have "unat (bi_sector b) div 8 < 2 ^ 32" using assms by (simp add: div_less_iff_less_mult)
  then show ?thesis
    using unat_drop_bit_u64[of 3 "bi_sector b"]
    by (simp add: bio_index_def unsigned_ucast_eq take_bit_nat_eq_self)
qed

lemma valid_sector:
  assumes "valid_swap_request r b"
  shows "unat (bi_sector b) < unat (disksize r) div 512"
proof -
  have "bi_sector b < ucast (drop_bit SECTOR_SHIFT (disksize r))"
    using assms by (auto simp: valid_swap_request_def not_le)
  then have "unat (bi_sector b) < unat (drop_bit SECTOR_SHIFT (disksize r))"
    by (simp only: word_less_nat_alt unat_ucast_32_64)
  then show ?thesis by (simp only: unat_drop_bit_u32) simp
qed

lemma valid_index:
  assumes "rz_inv z P S r" "valid_swap_request r b"
  shows "bio_index b < length (table r)"
proof -
  have s: "unat (bi_sector b) < 8 * length (table r)"
    using valid_sector[OF assms(2)] assms(1) by (simp add: rz_inv_def)
  have "4096 * length (table r) < 4294967296" using assms(1) unat_u32_lt[of "disksize r"] by (simp add: rz_inv_def)
  with s have "unat (bi_sector b) < 2 ^ 32" by simp
  with s show ?thesis by (simp add: bio_index_div div_less_iff_less_mult mult.commute)
qed

section \<open>Sequences of requests\<close>

text \<open>The device as a map from page numbers to pages, changed by the outcome of a request.\<close>

definition spec_request :: "ramzswap \<Rightarrow> bio \<Rightarrow> bio_result \<Rightarrow> (nat \<Rightarrow> u8 list option) \<Rightarrow> nat \<Rightarrow> u8 list option" where
  "spec_request r b out D =
     (if valid_swap_request r b \<and> bio_data_dir b = WRITE
      then D(bio_index b := (if out = Bio_uptodate then Some (page_of r b) else None)) else D)"

text \<open>
  \<open>rz_run z r U D\<close>: a loaded driver has come to state \<open>r\<close>; \<open>U\<close> holds the page frames handed to
  it and not given back, \<open>D\<close> what the outcomes so far say the device contains. The frames of a
  request are not among \<open>U\<close>, and the rest of the kernel writes to frames outside \<open>U\<close> only.
\<close>

inductive rz_run :: "lzo \<Rightarrow> ramzswap \<Rightarrow> u32 set \<Rightarrow> (nat \<Rightarrow> u8 list option) \<Rightarrow> bool" for z where
  load: "ramzswap_init env (rz_driver0 bsize m) = Some (0, d) \<Longrightarrow>
    (backing_swap_param env \<longrightarrow> 4096 dvd unat (ucast (env_i_size env) :: u32)) \<Longrightarrow>
    rz_run z (rz d) {env_alloc_page env} [0 \<mapsto> ld_bytes (rz_mem (rz d)) (env_alloc_page env) 0 PAGE_SIZE]"
| request: "rz_run z r U D \<Longrightarrow> newpg \<notin> U \<Longrightarrow> bv_page b \<notin> U \<Longrightarrow> newpg \<noteq> bv_page b \<Longrightarrow>
    ramzswap_make_request z newpg nowait b r = Some (res, r') \<Longrightarrow> freed_pages r' = fr @ freed_pages r \<Longrightarrow>
    rz_run z r' (insert newpg U - insert 0 (set fr)) (spec_request r b (snd res) D)"
| slot_free: "rz_run z r U D \<Longrightarrow> ramzswap_slot_free_notify i r = Some r' \<Longrightarrow> freed_pages r' = fr @ freed_pages r \<Longrightarrow>
    rz_run z r' (U - set fr) (D(i := None))"
| other: "rz_run z r U D \<Longrightarrow> (\<forall>q \<in> U. m q = rz_mem r q) \<Longrightarrow> rz_run z (upd_mem (\<lambda>_. m) r) U D"

lemma owned_not_0: "rz_inv z P S r \<Longrightarrow> 0 \<notin> owned P r"
  using xvs.page0[of P S "mem_pool r"] by (auto simp: rz_inv_def tinv_def owned_def plain_pages_def stored_def)

lemma frames_freed_subset:
  "frames_freed P r P' r' \<Longrightarrow> freed_pages r' = fr @ freed_pages r \<Longrightarrow> owned P' r' = owned P r - set fr"
  by (auto simp: frames_freed_def)

lemma slot_free_ok:
  assumes "rz_inv z P S r" "i < length (table r)"
  obtains r' P' S' where "ramzswap_slot_free_notify i r = Some r'" "rz_inv z P' S' r'"
    "device z r' = (device z r)(i := None)" "frames_freed P r P' r'" "same_dev r r'"
proof -
  obtain r' P' S' where f: "ramzswap_free_page i r = Some r'" "rz_inv z P' S' r'" "P' \<subseteq> P"
    "\<not> stored (table r' ! i)" "\<not> zero_entry (table r' ! i)" "device z r' = (device z r)(i := None)"
    "plain_pages (table r') \<subseteq> plain_pages (table r)" "\<And>q. q \<notin> P \<Longrightarrow> rz_mem r' q = rz_mem r q"
    "same_dev r r'" "frames_freed P r P' r'" by (rule free_page_ok[OF assms]; rule that; assumption)
  let ?r = "upd_stats (\<lambda>s. s\<lparr>notify_free := notify_free s + 1\<rparr>) r'"
  have "frames_freed P r P' ?r" using f(10) by (simp add: frames_freed_def rz_upd)
  with f show thesis by (intro that[of ?r P' S']) (simp_all add: ramzswap_slot_free_notify_def)
qed

lemma request_ok:
  assumes inv: "rz_inv z P S r" and fr: "frames_ok P newpg b r" and z: "lzo_ok z"
  shows "\<exists>res r' P' S'. ramzswap_make_request z newpg nowait b r = Some (res, r') \<and> rz_inv z P' S' r' \<and>
    device z r' = spec_request r b (snd res) (device z r) \<and> same_dev r r' \<and>
    (\<exists>fr. freed_pages r' = fr @ freed_pages r \<and> owned P' r' \<subseteq> insert newpg (owned P r) - set fr) \<and>
    (valid_swap_request r b \<and> bio_data_dir b = READ \<longrightarrow> read_post z b r res r') \<and>
    (valid_swap_request r b \<and> bio_data_dir b = WRITE \<longrightarrow> res = (0, Bio_uptodate) \<or> res = (0, Bio_error) \<or>
       (res = (1, Bio_remapped) \<and> backing_swap r))"
proof (cases "valid_swap_request r b")
  case False
  then show ?thesis using inv by (auto simp: ramzswap_make_request_def spec_request_def rz_upd)
next
  case v: True
  note i = valid_index[OF inv v]
  show ?thesis
  proof (cases "bio_data_dir b")
    case READ
    have u: "bv_page b \<notin> owned P r" using fr by (simp add: frames_ok_def)
    obtain res r' where r: "ramzswap_read z b r = Some (res, r')" "rz_inv z P S r'" "read_post z b r res r'"
      using read_ok[OF inv i u] by blast
    then show ?thesis using v READ
      by (intro exI[of _ res] exI[of _ r'] exI[of _ P] exI[of _ S])
        (auto simp: ramzswap_make_request_def spec_request_def read_post_def owned_def)
  next
    case WRITE
    obtain res r' P' S' where w: "ramzswap_write z newpg nowait b r = Some (res, r')" "rz_inv z P' S' r'"
      "write_post z newpg b P r res P' r'" by (rule write_ok[OF inv i fr z])
    obtain P0 r0 where f: "frames_freed P r P0 r0" "owned P' r' \<in> {owned P0 r0, insert newpg (owned P0 r0)}"
      "freed_pages r' = freed_pages r0" using w(3) by (auto simp: write_post_def)
    then obtain fr' where "freed_pages r' = fr' @ freed_pages r" "owned P0 r0 = owned P r - set fr'" "set fr' \<subseteq> owned P r"
      by (auto simp: frames_freed_def)
    moreover have "newpg \<notin> set fr'" using \<open>set fr' \<subseteq> owned P r\<close> fr by (auto simp: frames_ok_def)
    ultimately have "freed_pages r' = fr' @ freed_pages r \<and> owned P' r' \<subseteq> insert newpg (owned P r) - set fr'"
      using f(2) by auto
    then show ?thesis using v WRITE w
      by (intro exI[of _ res] exI[of _ r'] exI[of _ P'] exI[of _ S'])
        (auto simp: ramzswap_make_request_def spec_request_def write_post_def)
  qed
qed

lemma run_inv:
  assumes "rz_run z r U D" "lzo_ok z"
  shows "\<exists>P S. rz_inv z P S r \<and> owned P r \<subseteq> U \<and> device z r = D \<and> table r \<noteq> []"
  using assms(1)
proof induction
  case (load env bsize m d)
  note b = init_booted[OF load(1)]
  have "4096 dvd unat (disksize (rz d))" using b load(2) by (auto simp: booted_def Let_def split: if_splits)
  moreover have "table (rz d) \<noteq> []" using b by (auto simp: booted_def Let_def header_table_def)
  ultimately show ?case using booted_inv(1,3)[OF b, where z = z] booted_inv(2)[OF b] by (intro exI[of _ "{}"] exI[of _ Map.empty]) auto
next
  case (request r U D newpg b nowait res r' fr)
  then obtain P S where I: "rz_inv z P S r" "owned P r \<subseteq> U" "device z r = D" "table r \<noteq> []" by blast
  then have "frames_ok P newpg b r" using request.hyps(2-4) by (auto simp: frames_ok_def)
  from request_ok[OF I(1) this assms(2), of nowait] request.hyps(5,6) obtain P' S' where
    "rz_inv z P' S' r'" "device z r' = spec_request r b (snd res) D" "owned P' r' \<subseteq> insert newpg (owned P r) - set fr"
    "same_dev r r'" using I(3) by auto
  moreover from this(4) I(4) have "table r' \<noteq> []" by (auto simp: same_dev_def)
  moreover have "0 \<notin> owned P' r'" by (rule owned_not_0) fact
  ultimately show ?case using I(2) by (intro exI[of _ P'] exI[of _ S']) auto
next
  case (slot_free r U D i r' fr)
  then obtain P S where I: "rz_inv z P S r" "owned P r \<subseteq> U" "device z r = D" "table r \<noteq> []" by blast
  have i: "i < length (table r)"
    using slot_free.hyps(2) by (auto simp: ramzswap_slot_free_notify_def ramzswap_free_page_def split: if_splits)
  obtain r'' P' S' where "ramzswap_slot_free_notify i r = Some r''" "rz_inv z P' S' r''"
    "device z r'' = (device z r)(i := None)" "frames_freed P r P' r''" "same_dev r r''"
    by (rule slot_free_ok[OF I(1) i])
  moreover from this(5) I(4) have "table r'' \<noteq> []" by (auto simp: same_dev_def)
  ultimately show ?case using slot_free.hyps(2,3) I frames_freed_subset
    by (intro exI[of _ P'] exI[of _ S']) auto
next
  case (other r U D m)
  then obtain P S where I: "rz_inv z P S r" "owned P r \<subseteq> U" "device z r = D" "table r \<noteq> []" by blast
  have tv: "tinv z P S (mem_pool r) (table r)" using I(1) by (simp add: rz_inv_def)
  have m: "q \<in> owned P r \<Longrightarrow> m q = rz_mem r q" for q using other.hyps(2) I(2) by blast
  then have tv': "tinv z P S (mem_pool (upd_mem (\<lambda>_. m) r)) (table r)"
    unfolding rz_upd by (intro tinv_outside[OF tv]) (simp add: owned_def)
  then have "rz_inv z P S (upd_mem (\<lambda>_. m) r)" using I(1) by (simp add: rz_inv_def rz_upd)
  moreover have "device z (upd_mem (\<lambda>_. m) r) = device z r"
    by (rule device_same[OF tv _ tinvD(1)[OF tv']]) (use m in \<open>simp_all add: rz_upd owned_def\<close>)
  ultimately show ?case using I by (intro exI[of _ P] exI[of _ S]) (simp add: rz_upd)
qed

section \<open>A small device\<close>

text \<open>
  Two pages without a backing device, and a compressor that shortens constant pages to one
  byte and leaves the others as they are.
\<close>

definition demo_env :: rz_env where
  "demo_env = \<lparr>totalram_pages = 1024, disksize_kb = 8, memlimit_kb = 0, backing_swap_param = False,
     env_filp_open = False, env_is_blk = False, env_bd_claim = 0, env_set_blocksize = (\<lambda>_. 0), env_i_size = 0,
     env_kmalloc_workmem = True, env_kmalloc_buffer = True, env_vmalloc = (\<lambda>n. n \<noteq> 0), env_alloc_page = 3,
     env_readpage = True, env_read_mapping_page = Inl (- EIO), env_alloc_disk = True,
     env_register_blkdev = 254, env_blk_alloc_queue = True, env_create_pool = True, env_create_proc = True,
     env_reg_swapon = 0, env_reg_swapoff = 0\<rparr>"

definition demo_lzo :: lzo where
  "demo_lzo = \<lparr>lzo1x_1_compress = (\<lambda>page. (0, if page = replicate PAGE_SIZE (hd page) then [hd page] else page)),
     lzo1x_decompress_safe = (\<lambda>c n. (0, if length c = 1 then replicate n (hd c) else c))\<rparr>"

lemma demo_lzo_ok: "lzo_ok demo_lzo"
  by (auto simp: lzo_ok_def demo_lzo_def split: if_splits)

lemma demo_init:
  obtains d where "ramzswap_init demo_env (rz_driver0 4096 m) = Some (0, d)"
    "backing_swap (rz d) = False" "disksize (rz d) = 8192" "memlimit (rz d) = 0"
proof -
  have n: "unat (drop_bit 12 (8192 :: u32)) = 2" by (simp add: unat_drop_bit_u32)
  have ds: "(8192 :: u32) AND NOT (mask 12) = 8192"
    by (simp only: word_eq_unat unat_and_not_mask) simp
  show thesis
    using that
    by (simp add: demo_env_def rz_driver0_def ramzswap_init_def setup_backing_swap_def drv Let_def
        ramzswap_set_disksize_def ds init_memory_def n setup_swap_header_def rz_upd rz_set_flag_def
        init_disk_def init_pool_def)
qed

definition demo_run :: "rz_driver \<Rightarrow> bool" where
  "demo_run d \<longleftrightarrow> ramzswap_init demo_env (rz_driver0 4096 (\<lambda>_ _. 0)) = Some (0, d)"

lemma demo_run_ok:
  obtains d where "demo_run d" "backing_swap (rz d) = False" "disksize (rz d) = 8192"
    "rz_run demo_lzo (rz d) {3} [0 \<mapsto> ld_bytes (rz_mem (rz d)) 3 0 PAGE_SIZE]"
proof -
  obtain d where d: "ramzswap_init demo_env (rz_driver0 4096 (\<lambda>_ _. 0)) = Some (0, d)"
    "backing_swap (rz d) = False" "disksize (rz d) = 8192" "memlimit (rz d) = 0" by (rule demo_init)
  have "backing_swap_param demo_env = False" "env_alloc_page demo_env = 3" by (simp_all add: demo_env_def)
  with rz_run.load[OF d(1), of demo_lzo] d show thesis by (intro that[of d]) (simp_all add: demo_run_def)
qed

definition demo_bio :: "bio_dir \<Rightarrow> u32 \<Rightarrow> bio" where
  "demo_bio dir p = \<lparr>bi_sector = 8, bi_vcnt = 1, bi_size = 4096, bv_offset = 0, bv_page = p, bio_data_dir = dir\<rparr>"

lemma demo_bio_valid: "disksize r = 8192 \<Longrightarrow> valid_swap_request r (demo_bio dir p)"
  by (simp add: valid_swap_request_def demo_bio_def)

lemma demo_bio_index: "bio_index (demo_bio dir p) = 1"
  by (simp add: bio_index_def demo_bio_def)

section \<open>Properties of the request path\<close>

text \<open>
  C9: refinement. Whatever sequence of requests, freed slots and foreign memory writes follows
  a successful load, the table and the pool contain exactly the pages that the outcomes of the
  requests say, the invariant holds, and every page frame the driver uses was handed to it and
  not given back.
\<close>

theorem rz_run_refines:
  assumes "rz_run z r U D" and "lzo_ok z"
  shows "device z r = D \<and> (\<exists>P S. rz_inv z P S r \<and> owned P r \<subseteq> U)"
  using run_inv[OF assms] by blast

theorem rz_run_refines_witness:
  "\<exists>r. rz_run demo_lzo r {3} (device demo_lzo r) \<and> device demo_lzo r 0 \<noteq> None \<and> device demo_lzo r 1 = None"
proof -
  obtain d where d: "demo_run d" "rz_run demo_lzo (rz d) {3} [0 \<mapsto> ld_bytes (rz_mem (rz d)) 3 0 PAGE_SIZE]"
    by (rule demo_run_ok)
  have "device demo_lzo (rz d) = [0 \<mapsto> ld_bytes (rz_mem (rz d)) 3 0 PAGE_SIZE]"
    using rz_run_refines[OF d(2) demo_lzo_ok] by blast
  with d(2) show ?thesis by (intro exI[of _ "rz d"]) simp
qed

lemma run_frames: "rz_inv z P S r \<Longrightarrow> owned P r \<subseteq> U \<Longrightarrow> newpg \<notin> U \<Longrightarrow> bv_page b \<notin> U \<Longrightarrow> newpg \<noteq> bv_page b \<Longrightarrow>
    frames_ok P newpg b r"
  by (auto simp: frames_ok_def)


lemma demo_length: "rz_run demo_lzo r U D \<Longrightarrow> disksize r = 8192 \<Longrightarrow> length (table r) = 2"
  using run_inv[OF _ demo_lzo_ok, of r U D] by (auto simp: rz_inv_def)


text \<open>
  C12: a read within the device delivers the page last written, or zeros where nothing is
  stored and there is no backing device, or goes to the backing device with the memory
  untouched; it writes to no page frame but the requester's.
\<close>

theorem rz_read_delivers:
  assumes "rz_run z r U D" and "lzo_ok z" and "newpg \<notin> U" and "bv_page b \<notin> U" and "newpg \<noteq> bv_page b"
    and "valid_swap_request r b" and "bio_data_dir b = READ"
  shows "\<exists>res r'. ramzswap_make_request z newpg nowait b r = Some (res, r') \<and>
    (\<forall>q. q \<noteq> bv_page b \<longrightarrow> rz_mem r' q = rz_mem r q) \<and>
    (case D (bio_index b) of
       Some page \<Rightarrow> res = (0, Bio_uptodate) \<and> page_of r' b = page
     | None \<Rightarrow> if backing_swap r then res = (1, Bio_remapped) \<and> rz_mem r' = rz_mem r
               else res = (0, Bio_uptodate) \<and> page_of r' b = replicate PAGE_SIZE 0)"
proof -
  obtain P S where I: "rz_inv z P S r" "owned P r \<subseteq> U" "device z r = D" using run_inv[OF assms(1,2)] by blast
  obtain res r' where "ramzswap_make_request z newpg nowait b r = Some (res, r')" "read_post z b r res r'"
    using request_ok[OF I(1) run_frames[OF I(1,2) assms(3-5)] assms(2), of nowait] assms(6,7) by blast
  then show ?thesis unfolding read_post_def I(3) by blast
qed

theorem rz_read_delivers_witness:
  "\<exists>r res r'. demo_run r \<and>
     ramzswap_make_request demo_lzo 7 False (demo_bio READ 5) (rz r) = Some (res, r') \<and>
     res = (0, Bio_uptodate) \<and> page_of r' (demo_bio READ 5) = replicate PAGE_SIZE 0"
proof -
  obtain d where d: "demo_run d" "backing_swap (rz d) = False" "disksize (rz d) = 8192"
    "rz_run demo_lzo (rz d) {3} [0 \<mapsto> ld_bytes (rz_mem (rz d)) 3 0 PAGE_SIZE]" by (rule demo_run_ok)
  have p: "(7 :: u32) \<notin> {3}" "bv_page (demo_bio READ 5) \<notin> {3}" "(7 :: u32) \<noteq> bv_page (demo_bio READ 5)"
    "bio_data_dir (demo_bio READ 5) = READ" by (simp_all add: demo_bio_def)
  from rz_read_delivers[OF d(4) demo_lzo_ok p(1-3) demo_bio_valid[OF d(3)] p(4), of False]
  show ?thesis using d(1,2) by (auto simp: demo_bio_index)
qed

text \<open>
  C10: a page written without error reads back, into any page frame, byte for byte, also when
  it was stored compressed.
\<close>

theorem rz_write_read_roundtrip:
  assumes "rz_run z r U D" and "lzo_ok z" and "newpg \<notin> U" and "bv_page b \<notin> U" and "newpg \<noteq> bv_page b"
    and "valid_swap_request r b" and "bio_data_dir b = WRITE"
    and "ramzswap_make_request z newpg nowait b r = Some ((ret, Bio_uptodate), r1)"
    and "bv_page b2 \<notin> insert newpg U" and "bi_sector b2 = bi_sector b" and "bio_data_dir b2 = READ"
    and "valid_swap_request r1 b2"
  shows "\<exists>r2. ramzswap_make_request z 0 True b2 r1 = Some ((0, Bio_uptodate), r2) \<and> page_of r2 b2 = page_of r b"
proof -
  obtain P S where I: "rz_inv z P S r" "owned P r \<subseteq> U" "device z r = D" using run_inv[OF assms(1,2)] by blast
  obtain P' S' fr where w: "rz_inv z P' S' r1" "device z r1 = spec_request r b Bio_uptodate (device z r)"
    "owned P' r1 \<subseteq> insert newpg (owned P r) - set fr"
    using request_ok[OF I(1) run_frames[OF I(1,2) assms(3-5)] assms(2), of nowait] assms(8) by auto
  have u: "bv_page b2 \<notin> owned P' r1" using w(3) I(2) assms(9) by auto
  obtain res r2 where "ramzswap_read z b2 r1 = Some (res, r2)" "read_post z b2 r1 res r2"
    using read_ok[OF w(1) valid_index[OF w(1) assms(12)] u] by blast
  moreover have "device z r1 (bio_index b2) = Some (page_of r b)"
    using w(2) assms(6,7,10) by (simp add: spec_request_def bio_index_def)
  ultimately show ?thesis using assms(11,12) by (auto simp: ramzswap_make_request_def read_post_def)
qed

text \<open>The small device, with a page of sevens to store.\<close>

lemma malloc_create_ok:
  assumes "newpg \<noteq> 0" "1 \<le> unat sz" "unat sz \<le> 4088"
  shows "fst (fst (xv_malloc newpg False sz (xv_create_pool m))) = 0"
proof -
  obtain L' F' r s' where r: "xv_malloc newpg False sz (xv_create_pool m) = (r, s')"
    "malloc_post Map.empty newpg False sz (xv_create_pool m) r s' L'"
    using malloc_layout[OF xv_inv_create[of m], of newpg False sz] by (metis domIff empty_iff dom_empty)
  then show ?thesis using assms by (cases r) (simp add: malloc_post_def)
qed

lemma demo_filled:
  assumes "rz_run demo_lzo r {3} D"
  shows "rz_run demo_lzo (upd_mem (\<lambda>m. m(5 := \<lambda>_. 7)) r) {3} D"
  using rz_run.other[OF assms, of "(rz_mem r)(5 := \<lambda>_. 7)"] by (simp add: upd_mem_def)

lemma demo_write:
  assumes run: "rz_run demo_lzo r {3} D" and ds: "disksize r = 8192" and bk: "\<not> backing_swap r"
    and mx: "max_cpage_size r = 3072" and mp: "mem_pool r = xv_create_pool m" "m 5 = (\<lambda>_. 7)"
    and tb: "table r = header_table 2 3"
  shows "\<exists>r1. ramzswap_make_request demo_lzo 9 False (demo_bio WRITE 5) r = Some ((0, Bio_uptodate), r1) \<and> disksize r1 = 8192"
proof -
  obtain P S where I: "rz_inv demo_lzo P S r" "owned P r \<subseteq> {3}" using run_inv[OF run demo_lzo_ok] by blast
  let ?b = "demo_bio WRITE 5"
  have b: "bv_page ?b = 5" "bio_data_dir ?b = WRITE" "bio_index ?b = 1" by (simp_all add: demo_bio_def bio_index_def)
  have fr: "frames_ok P 9 ?b r" by (rule run_frames[OF I]) (simp_all add: b)
  obtain res r' P' S' where q: "ramzswap_make_request demo_lzo 9 False ?b r = Some (res, r')" "same_dev r r'"
    using request_ok[OF I(1) fr demo_lzo_ok, of False] by blast
  have e1: "table r ! 1 = rz_entry0" and l: "length (table r) = 2" by (simp_all add: tb header_table_nth)
  have pg: "ld_bytes (rz_mem r) 5 0 4096 = replicate 4096 7"
    using mp by (simp add: ld_bytes_def xv_create_pool_def map_replicate_const)
  have nz: "\<not> page_zero_filled (rz_mem r) 5" by (simp add: page_zero_filled_bytes pg)
  have cz: "lzo1x_1_compress demo_lzo (replicate 4096 7) = (0, [7])" by (simp add: demo_lzo_def)
  let ?r = "upd_stats (\<lambda>s. s\<lparr>num_writes := num_writes s + 1\<rparr>) r"
  have w: "ramzswap_make_request demo_lzo 9 False ?b r = Some (write_store demo_lzo 9 False ?b ?r)"
    using demo_bio_valid[OF ds] e1 l b
    by (simp add: ramzswap_make_request_def ramzswap_write_def rz_upd rz_test_flag_entry Let_def rz_entry0_def zero_bit)
  have "fst (fst (xv_malloc 9 False 1 (mem_pool r))) = 0"
    unfolding mp(1) by (rule malloc_create_ok) simp_all
  then obtain p off h where al: "xv_malloc 9 False 1 (mem_pool r) = ((0, p, off), h)" by (metis prod.collapse)
  have "fst (write_store demo_lzo 9 False ?b ?r) = (0, Bio_uptodate)"
    using nz pg cz bk mx al b
    by (simp add: write_store_def rz_upd Let_def write_memstore_def split: prod.splits)
  moreover have "write_store demo_lzo 9 False ?b ?r = (res, r')" using trans[OF w[symmetric] q(1)] by (rule option.inject[THEN iffD1])
  ultimately have "res = (0, Bio_uptodate)" by (simp only: fst_conv)
  with q ds show ?thesis by (simp add: same_dev_def)
qed

lemma demo_ready:
  obtains r D where "rz_run demo_lzo r {3} D" "disksize r = 8192"
    "\<exists>r1. ramzswap_make_request demo_lzo 9 False (demo_bio WRITE 5) r = Some ((0, Bio_uptodate), r1) \<and> disksize r1 = 8192"
    "page_of r (demo_bio WRITE 5) = replicate PAGE_SIZE 7"
proof -
  obtain d where d: "demo_run d" "backing_swap (rz d) = False" "disksize (rz d) = 8192"
    "rz_run demo_lzo (rz d) {3} [0 \<mapsto> ld_bytes (rz_mem (rz d)) 3 0 PAGE_SIZE]" by (rule demo_run_ok)
  have b: "booted demo_env (rz_driver0 4096 (\<lambda>_ _. 0)) d" using init_booted d(1) by (simp add: demo_run_def)
  let ?r = "upd_mem (\<lambda>m. m(5 := \<lambda>_. 7)) (rz d)"
  have pm: "backing_swap_param demo_env = False" "env_alloc_page demo_env = 3" by (simp_all add: demo_env_def)
  have n: "unat (drop_bit 12 (8192 :: u32)) = 2" by (simp add: unat_drop_bit_u32)
  have f: "table (rz d) = header_table 2 3" "max_cpage_size (rz d) = 3072"
    using b d(3) pm n by (simp_all add: booted_def Let_def)
  obtain m where m: "mem_pool (rz d) = xv_create_pool m" using b by (auto simp: booted_def Let_def)
  have mp: "mem_pool ?r = xv_create_pool (m(5 := \<lambda>_. 7))" by (simp add: rz_upd m xv_create_pool_def)
  note run = demo_filled[OF d(4)]
  have "page_of ?r (demo_bio WRITE 5) = replicate PAGE_SIZE 7"
    by (simp add: page_of_def demo_bio_def rz_upd ld_bytes_def map_replicate_const)
  then show thesis
    using demo_write[OF run, of "m(5 := \<lambda>_. 7)"] d(2,3) f mp run
    by (intro that[of ?r "[0 \<mapsto> ld_bytes (rz_mem (rz d)) 3 0 PAGE_SIZE]"]) (simp_all add: rz_upd)
qed

theorem rz_write_read_roundtrip_witness:
  "\<exists>r r1 r2. ramzswap_make_request demo_lzo 9 False (demo_bio WRITE 5) r = Some ((0, Bio_uptodate), r1) \<and>
     ramzswap_make_request demo_lzo 0 True (demo_bio READ 6) r1 = Some ((0, Bio_uptodate), r2) \<and>
     page_of r2 (demo_bio READ 6) = replicate PAGE_SIZE 7"
proof -
  obtain r D r1 where r: "rz_run demo_lzo r {3} D" "disksize r = 8192"
    "ramzswap_make_request demo_lzo 9 False (demo_bio WRITE 5) r = Some ((0, Bio_uptodate), r1)" "disksize r1 = 8192"
    "page_of r (demo_bio WRITE 5) = replicate PAGE_SIZE 7" using demo_ready by metis
  have h: "(9 :: u32) \<notin> {3}" "bv_page (demo_bio WRITE 5) \<notin> {3}" "(9 :: u32) \<noteq> bv_page (demo_bio WRITE 5)"
    "bio_data_dir (demo_bio WRITE 5) = WRITE" "bv_page (demo_bio READ 6) \<notin> insert 9 {3}"
    "bi_sector (demo_bio READ 6) = bi_sector (demo_bio WRITE 5)" "bio_data_dir (demo_bio READ 6) = READ"
    by (simp_all add: demo_bio_def)
  from rz_write_read_roundtrip[OF r(1) demo_lzo_ok h(1-3) demo_bio_valid[OF r(2)] h(4) r(3) h(5-7) demo_bio_valid[OF r(4)]]
  show ?thesis using r(3,5) by auto
qed

text \<open>
  C14: once the kernel frees a slot its page is absent from the device, so that no read delivers
  the old contents; the other pages stay and the notification is counted.
\<close>

theorem rz_slot_free_erases:
  assumes "rz_run z r U D" and "lzo_ok z" and "i < length (table r)"
  shows "\<exists>r'. ramzswap_slot_free_notify i r = Some r' \<and> device z r' = (device z r)(i := None) \<and>
    notify_free (stats r') = notify_free (stats r) + 1 \<and> length (table r') = length (table r)"
proof -
  obtain P S where I: "rz_inv z P S r" using run_inv[OF assms(1,2)] by blast
  obtain r' P' S' where f: "ramzswap_slot_free_notify i r = Some r'" "rz_inv z P' S' r'"
    "device z r' = (device z r)(i := None)" "frames_freed P r P' r'" "same_dev r r'"
    by (rule slot_free_ok[OF I assms(3)])
  have "notify_free (stats r0) = notify_free (stats r)" if "ramzswap_free_page i r = Some r0" for r0
    using that by (auto simp: ramzswap_free_page_def Let_def rz_upd rz_clear_flag_def free_page_out_def
        split: if_splits option.splits prod.splits)
  then have "notify_free (stats r') = notify_free (stats r) + 1"
    using f(1) by (auto simp: ramzswap_slot_free_notify_def rz_upd)
  with f show ?thesis by (auto simp: same_dev_def)
qed

theorem rz_slot_free_erases_witness:
  "\<exists>r r'. demo_run r \<and> ramzswap_slot_free_notify 0 (rz r) = Some r' \<and> device demo_lzo r' 0 = None"
proof -
  obtain d where d: "demo_run d" "backing_swap (rz d) = False" "disksize (rz d) = 8192"
    "rz_run demo_lzo (rz d) {3} [0 \<mapsto> ld_bytes (rz_mem (rz d)) 3 0 PAGE_SIZE]" by (rule demo_run_ok)
  have "0 < length (table (rz d))" using demo_length[OF d(4,3)] by simp
  from rz_slot_free_erases[OF d(4) demo_lzo_ok this] d(1) show ?thesis by auto
qed

text \<open>
  C19: \<^verbatim>\<open>page_zero_filled\<close>, which reads the page word by word and stops at the first that is
  not zero, is true exactly for the page of 4096 zero bytes.
\<close>

theorem page_zero_filled_correct:
  "page_zero_filled m p \<longleftrightarrow> ld_bytes m p 0 PAGE_SIZE = replicate PAGE_SIZE 0"
  by (rule page_zero_filled_bytes)



section \<open>Properties of loading and unloading\<close>

lemma ld32_st_bytes_other: "y + 4 \<le> x \<or> x + length bs \<le> y \<Longrightarrow> ld32 (st_bytes m p x bs) p y = ld32 m p y"
  by (rule ld32_cong) (auto simp: st_bytes_byte)

lemma header_fields:
  assumes "\<not> backing_swap r"
  shows "ld32 (rz_mem (snd (setup_swap_header env s (header_start n s r)))) s hdr_version = 1"
    and "ld32 (rz_mem (snd (setup_swap_header env s (header_start n s r)))) s hdr_last_page =
      drop_bit PAGE_SHIFT (disksize r) - 1"
    and "ld32 (rz_mem (snd (setup_swap_header env s (header_start n s r)))) s hdr_nr_badpages = 0"
    and "ld_bytes (rz_mem (snd (setup_swap_header env s (header_start n s r)))) s hdr_magic 10 = swap_magic"
    and "i < 1024 \<Longrightarrow> rz_mem (snd (setup_swap_header env s (header_start n s r))) s i = 0"
  using assms
  by (simp_all add: setup_swap_header_def Let_def rz_upd ld32_st_bytes_other ld32_st32_other swap_magic_def
      st_bytes_byte st32_byte) (simp add: st_bytes_def)





section \<open>A load that fails\<close>

text \<open>What a step of the load may leave behind: the resources it holds are those of its flags.\<close>

definition flags_ok :: "rz_driver \<Rightarrow> bool" where
  "flags_ok d \<longleftrightarrow> distinct (held d) \<and>
     (Compress_workmem \<in> set (held d) \<longleftrightarrow> compress_workmem d) \<and>
     (Compress_buffer \<in> set (held d) \<longleftrightarrow> compress_buffer d) \<and>
     (Table_mem \<in> set (held d) \<longleftrightarrow> table_mem d) \<and> (Pool_mem \<in> set (held d) \<longleftrightarrow> pool_mem d) \<and>
     (Proc_entry \<in> set (held d) \<longleftrightarrow> proc d) \<and>
     (Disk_added \<in> set (held d) \<or> Blkdev \<in> set (held d) \<longrightarrow> disk_major d \<noteq> None) \<and>
     (Blkdev \<in> set (held d) \<longrightarrow> the (disk_major d) \<ge> 0)"

lemma setup_backing_flags:
  "setup_backing_swap env (rz_driver0 bsize m) = Some (ret, d) \<Longrightarrow>
    flags_ok d \<and> set (held d) \<subseteq> {Bdev_claim, Swap_file} \<and> table (rz d) = [] \<and> freed_pages (rz d) = [] \<and>
    \<not> table_mem d \<and> \<not> pool_mem d \<and> \<not> proc d \<and> disk_major d = None \<and> \<not> compress_workmem d \<and> \<not> compress_buffer d"
  unfolding setup_backing_swap_def bad_backing_param_def rz_driver0_def
  by (auto simp: Let_def drv upd_rz_def flags_ok_def set_blocksize_def release_def acquire_def
      split: if_splits)

lemma fail_flags:
  assumes "flags_ok d"
  shows "\<forall>x \<in> {Compress_workmem, Compress_buffer, Table_mem, Pool_mem, Proc_entry, Disk_added}.
      x \<notin> set (held (init_fail d))"
    and "x \<in> set (held d) \<Longrightarrow> x \<in> {Gendisk, Disk_queue, Bdev_claim, Swap_file} \<union> range (\<lambda>(n, e, i). Notifier n e i) \<Longrightarrow>
      x \<in> set (held (init_fail d))"
    and "set (held (init_fail d)) \<subseteq> set (held d)"
    and "freed_pages (rz (init_fail d)) = (if table_mem d \<and> te_pagenum (table (rz d) ! 0) \<noteq> 0
      then te_pagenum (table (rz d) ! 0) # freed_pages (rz d) else freed_pages (rz d))"
    and "disk_major d \<noteq> Some 0 \<Longrightarrow> Blkdev \<notin> set (held (init_fail d))"
proof -
  have r: "set (remove1 x xs) = set xs - {x}" if "distinct xs" for x and xs :: "rz_res list"
    using that by simp
  note f = assms[unfolded flags_ok_def]
  note defs = init_fail_def Let_def drv free_header_page_def distinct_remove1
  show "\<forall>x \<in> {Compress_workmem, Compress_buffer, Table_mem, Pool_mem, Proc_entry, Disk_added}.
      x \<notin> set (held (init_fail d))"
    using f by (cases "disk_major d") (auto simp: defs r)
  show "x \<in> set (held d) \<Longrightarrow> x \<in> {Gendisk, Disk_queue, Bdev_claim, Swap_file} \<union> range (\<lambda>(n, e, i). Notifier n e i) \<Longrightarrow>
      x \<in> set (held (init_fail d))"
    using f by (cases "disk_major d") (auto simp: defs r)
  show "set (held (init_fail d)) \<subseteq> set (held d)"
    using f by (cases "disk_major d") (auto simp: defs r)
  show "freed_pages (rz (init_fail d)) = (if table_mem d \<and> te_pagenum (table (rz d) ! 0) \<noteq> 0
      then te_pagenum (table (rz d) ! 0) # freed_pages (rz d) else freed_pages (rz d))"
    by (cases "disk_major d") (auto simp: defs)
  show "disk_major d \<noteq> Some 0 \<Longrightarrow> Blkdev \<notin> set (held (init_fail d))"
    using f by (cases "disk_major d") (auto simp: defs r)
qed

lemma header_same_eq:
  "setup_swap_header env s r = (ret, r') \<Longrightarrow> table r' = table r \<and> freed_pages r' = freed_pages r"
  using header_same(2,4)[where env = env and s = s and r = r] by simp

named_theorems flags \<open>how the steps of the load keep the bookkeeping consistent\<close>

lemma flags_steps [flags]:
  "flags_ok (upd_rz f d) \<longleftrightarrow> flags_ok d" "flags_ok (d\<lparr>rz := r\<rparr>) \<longleftrightarrow> flags_ok d" "flags_ok (d\<lparr>capacity := c\<rparr>) \<longleftrightarrow> flags_ok d"
  by (simp_all add: flags_ok_def drv)

lemma flags_acquire [flags]:
  "flags_ok d \<Longrightarrow> \<not> compress_workmem d \<Longrightarrow> flags_ok ((acquire Compress_workmem d)\<lparr>compress_workmem := True\<rparr>)"
  "flags_ok d \<Longrightarrow> \<not> compress_buffer d \<Longrightarrow> flags_ok ((acquire Compress_buffer d)\<lparr>compress_buffer := True\<rparr>)"
  "flags_ok d \<Longrightarrow> \<not> table_mem d \<Longrightarrow> flags_ok ((acquire Table_mem d)\<lparr>table_mem := True\<rparr>)"
  "flags_ok d \<Longrightarrow> \<not> pool_mem d \<Longrightarrow> flags_ok ((acquire Pool_mem d)\<lparr>pool_mem := True\<rparr>)"
  "flags_ok d \<Longrightarrow> \<not> proc d \<Longrightarrow> flags_ok ((acquire Proc_entry d)\<lparr>proc := True\<rparr>)"
  "flags_ok d \<Longrightarrow> disk_major d = None \<Longrightarrow> Gendisk \<notin> set (held d) \<Longrightarrow>
    flags_ok ((acquire Gendisk d)\<lparr>disk_major := Some major\<rparr>)"
  "flags_ok d \<Longrightarrow> disk_major d = Some major \<Longrightarrow> 0 \<le> major \<Longrightarrow> Blkdev \<notin> set (held d) \<Longrightarrow> flags_ok (acquire Blkdev d)"
  "flags_ok d \<Longrightarrow> disk_major d = Some major \<Longrightarrow> Disk_added \<notin> set (held d) \<Longrightarrow> flags_ok (acquire Disk_added d)"
  "flags_ok d \<Longrightarrow> Disk_queue \<notin> set (held d) \<Longrightarrow> flags_ok (acquire Disk_queue d)"
  "flags_ok d \<Longrightarrow> Notifier n e i \<notin> set (held d) \<Longrightarrow> flags_ok (acquire (Notifier n e i) d)"
  "flags_ok d \<Longrightarrow> flags_ok (release (Notifier n e i) d)"
  by (simp_all add: flags_ok_def drv distinct_remove1)

lemma flags_held: "flags_ok d \<Longrightarrow> Compress_workmem \<in> set (held d) \<longleftrightarrow> compress_workmem d"
  "flags_ok d \<Longrightarrow> Compress_buffer \<in> set (held d) \<longleftrightarrow> compress_buffer d"
  "flags_ok d \<Longrightarrow> Table_mem \<in> set (held d) \<longleftrightarrow> table_mem d"
  "flags_ok d \<Longrightarrow> Pool_mem \<in> set (held d) \<longleftrightarrow> pool_mem d" "flags_ok d \<Longrightarrow> Proc_entry \<in> set (held d) \<longleftrightarrow> proc d"
  by (simp_all add: flags_ok_def)

lemma init_memory_flags:
  assumes "init_memory env d = Some (ret, d')" "flags_ok d" "set (held d) \<subseteq> {Bdev_claim, Swap_file}"
    "\<not> table_mem d" "\<not> compress_workmem d" "\<not> compress_buffer d"
  shows "flags_ok d' \<and> set (held d') = set (held d) \<union> (if compress_workmem d' then {Compress_workmem} else {}) \<union>
      (if compress_buffer d' then {Compress_buffer} else {}) \<union> (if table_mem d' then {Table_mem} else {}) \<and>
    disk_major d' = disk_major d \<and> freed_pages (rz d') = freed_pages (rz d) \<and>
    (table_mem d' \<longrightarrow> table (rz d') = (if env_alloc_page env = 0
        then replicate (unat (drop_bit PAGE_SHIFT (disksize (rz d)))) rz_entry0
        else header_table (unat (drop_bit PAGE_SHIFT (disksize (rz d)))) (env_alloc_page env)) \<and>
       env_vmalloc env (unat (drop_bit PAGE_SHIFT (disksize (rz d))))) \<and>
    (ret = 0 \<longrightarrow> table_mem d' \<and> env_alloc_page env \<noteq> 0)"
proof -
  let ?n = "unat (drop_bit PAGE_SHIFT (disksize (rz d)))"
  have e: "rz_set_flag 0 RZS_UNCOMPRESSED (upd_entry 0 (\<lambda>e. e\<lparr>te_pagenum := env_alloc_page env\<rparr>)
     (upd_mem (\<lambda>m. st_bytes m (env_alloc_page env) 0 (replicate PAGE_SIZE 0)) (r\<lparr>table := replicate n rz_entry0\<rparr>))) =
     header_start n (env_alloc_page env) r" for r n by (simp add: header_start_def)
  show ?thesis
    using assms(1-6) unfolding init_memory_def
    by (auto simp: Let_def drv e rz_upd flags dest!: header_same_eq split: if_splits prod.splits)
qed

lemma init_disk_flags:
  assumes "init_disk env d = (ret, d')" "flags_ok d" "disk_major d = None"
    "set (held d) \<inter> {Gendisk, Disk_queue, Blkdev, Disk_added} = {}"
  shows "flags_ok d' \<and> rz d' = rz d \<and> set (held d) \<subseteq> set (held d') \<and>
    table_mem d' = table_mem d \<and> set (held d') \<subseteq> set (held d) \<union> {Gendisk, Disk_queue, Blkdev, Disk_added} \<and>
    (disk_major d' \<noteq> None \<longrightarrow> disk_major d' = Some (env_register_blkdev env))"
  using assms unfolding init_disk_def by (auto simp: Let_def drv flags split: if_splits)

lemma init_pool_flags:
  assumes "init_pool env d = (ret, d')" "flags_ok d"
    "set (held d) \<inter> {Pool_mem, Proc_entry} = {}" "\<forall>n e i. Notifier n e i \<notin> set (held d)"
  shows "flags_ok d' \<and> table (rz d') = table (rz d) \<and> freed_pages (rz d') = freed_pages (rz d) \<and>
    set (held d) \<subseteq> set (held d') \<and> table_mem d' = table_mem d \<and> disk_major d' = disk_major d"
  using assms flags_held(4,5)[OF assms(2)] unfolding init_pool_def
  by (auto simp: Let_def drv flags remove1_idem split: if_splits)



section \<open>Unloading\<close>



text \<open>
  What unloading leaves behind: the swapoff notifier stays registered although its code is
  gone, because the exit function unregisters the swapon notifier twice, and the disk structure
  and its queue are never released. Everything else is given back, the backing device included.
\<close>

theorem rz_exit_leftover:
  assumes "ramzswap_init env (rz_driver0 bsize m) = Some (0, d0)" and "backing_swap r = backing_swap_param env"
    and "ramzswap_exit env (d0\<lparr>rz := r\<rparr>) = Some d"
  shows "held d = [Notifier Ramzswap_swapoff_nb SWAP_EVENT_SWAPOFF 0, Disk_queue, Gendisk] \<and>
    excess d = [Notifier Ramzswap_swapon_nb SWAP_EVENT_SWAPOFF 0]"
proof -
  have h: "held d0 = [Notifier Ramzswap_swapoff_nb SWAP_EVENT_SWAPOFF 0, Notifier Ramzswap_swapon_nb SWAP_EVENT_SWAPON 0,
           Proc_entry, Pool_mem, Disk_added, Disk_queue, Blkdev, Gendisk, Table_mem, Compress_buffer, Compress_workmem] @
           (if backing_swap_param env then [Bdev_claim, Swap_file] else [])" "excess d0 = []"
    using init_booted[OF assms(1)] by (simp_all add: booted_def Let_def rz_driver0_def)
  show ?thesis
    using assms(2,3) h
    by (cases "backing_swap_param env")
      (auto simp: ramzswap_exit_def Let_def drv free_header_page_def split: option.splits)
qed

theorem rz_exit_leftover_witness:
  "\<exists>d d'. demo_run d \<and> ramzswap_exit demo_env d = Some d' \<and>
     Notifier Ramzswap_swapoff_nb SWAP_EVENT_SWAPOFF 0 \<in> set (held d')"
proof -
  obtain d where d: "demo_run d" "backing_swap (rz d) = False" "disksize (rz d) = 8192"
    "rz_run demo_lzo (rz d) {3} [0 \<mapsto> ld_bytes (rz_mem (rz d)) 3 0 PAGE_SIZE]" by (rule demo_run_ok)
  have t: "table (rz d) = header_table 2 3"
    using init_booted d(1,3) unat_drop_bit_u32[of 12 8192]
    by (fastforce simp: demo_run_def booted_def Let_def demo_env_def)
  have "ramzswap_exit demo_env d \<noteq> None"
    using d(2,3) unat_drop_bit_u32[of 12 8192] header_table_nth(1)[of 1 2 3]
    by (simp add: ramzswap_exit_def Let_def drv free_header_page_def t rz_entry0_def)
  then obtain d' where x: "ramzswap_exit demo_env d = Some d'" by blast
  then have "ramzswap_exit demo_env (d\<lparr>rz := rz d\<rparr>) = Some d'" by simp
  moreover have "backing_swap (rz d) = backing_swap_param demo_env" using d(2) by (simp add: demo_env_def)
  ultimately show ?thesis using rz_exit_leftover[OF d(1)[unfolded demo_run_def], of "rz d" d'] x d(1) by auto
qed

end
