(* ===== verification/Aufs_Base.thy ===== *)
theory Aufs_Base
  imports Kp_Prelude
begin

text \<open>
  What the components of aufs share: branches of the union with their permissions, the branch
  table of the superblock, and the scans for the first and the last entry of an array that
  \<^verbatim>\<open>dinfo.c\<close> and \<^verbatim>\<open>iinfo.c\<close> perform. A branch index (\<^verbatim>\<open>aufs_bindex_t\<close>) is an \<open>int\<close>, negative
  for none; lower superblocks, dentries and inodes are known by a number.
\<close>

abbreviation (input) EAGAIN :: int where "EAGAIN \<equiv> 11"
abbreviation (input) EINTR :: int where "EINTR \<equiv> 4"
abbreviation (input) EFBIG :: int where "EFBIG \<equiv> 27"
abbreviation (input) ENOSYS :: int where "ENOSYS \<equiv> 38"

section \<open>Branches\<close>

datatype au_brperm = AuBrPerm_RW | AuBrPerm_RO | AuBrPerm_RR | AuBrPerm_RWNoLinkWH
  | AuBrPerm_ROWH | AuBrPerm_RRWH

definition au_br_writable :: "au_brperm \<Rightarrow> bool" where
  "au_br_writable brperm \<longleftrightarrow> brperm = AuBrPerm_RW \<or> brperm = AuBrPerm_RWNoLinkWH"

definition au_br_whable :: "au_brperm \<Rightarrow> bool" where
  "au_br_whable brperm \<longleftrightarrow> brperm = AuBrPerm_RW \<or> brperm = AuBrPerm_ROWH \<or> brperm = AuBrPerm_RRWH"

definition au_br_hinotifyable :: "au_brperm \<Rightarrow> bool" where
  "au_br_hinotifyable brperm \<longleftrightarrow> brperm \<noteq> AuBrPerm_RR \<and> brperm \<noteq> AuBrPerm_RRWH"

text \<open>
  \<open>br_sb\<close> is the lower superblock, \<open>br_sb_rdonly\<close> its \<^verbatim>\<open>MS_RDONLY\<close> flag, \<open>wbr_bytes\<close> the free
  space last seen, \<open>xi_file\<close> the inode number file (an index into the open files of \<open>Aufs_Xino\<close>).
\<close>

record au_branch =
  br_id :: int
  br_perm :: au_brperm
  br_count :: int
  br_xino_upper :: int
  br_xino_running :: int
  br_sb :: nat
  br_sb_rdonly :: bool
  wbr_bytes :: u64
  xi_file :: "nat option"

definition au_br_rdonly :: "au_branch \<Rightarrow> int" where
  "au_br_rdonly br = (if br_sb_rdonly br \<or> \<not> au_br_writable (br_perm br) then - EROFS else 0)"

section \<open>The branch table\<close>

type_synonym branches = "au_branch list"

definition au_sbend :: "branches \<Rightarrow> int" where
  "au_sbend brs = int (length brs) - 1"

definition au_sbr :: "branches \<Rightarrow> int \<Rightarrow> au_branch" where
  "au_sbr brs bindex = brs ! nat bindex"

text \<open>The loops over all branches, \<open>n\<close> branches to go.\<close>

fun br_index_loop :: "branches \<Rightarrow> int \<Rightarrow> int \<Rightarrow> nat \<Rightarrow> int" where
  "br_index_loop brs brid bindex 0 = -1"
| "br_index_loop brs brid bindex (Suc n) =
     (if br_id (au_sbr brs bindex) = brid then bindex else br_index_loop brs brid (bindex + 1) n)"

definition au_br_index :: "branches \<Rightarrow> int \<Rightarrow> int" where
  "au_br_index brs brid = br_index_loop brs brid 0 (nat (au_sbend brs + 1))"

lemma au_sbend_nat [simp]: "nat (au_sbend brs + 1) = length brs" "nat (1 + au_sbend brs) = length brs"
  by (simp_all add: au_sbend_def)

lemma br_index_loop_range:
  assumes "br_index_loop brs brid b n = k" "0 \<le> b" "b + int n = int (length brs)"
  shows "k = -1 \<and> (\<forall>i < length brs. b \<le> int i \<longrightarrow> br_id (brs ! i) \<noteq> brid) \<or>
    b \<le> k \<and> k < int (length brs) \<and> br_id (au_sbr brs k) = brid \<and>
    (\<forall>i < nat k. b \<le> int i \<longrightarrow> br_id (brs ! i) \<noteq> brid)"
  using assms
proof (induction n arbitrary: b)
  case (Suc n)
  show ?case
  proof (cases "br_id (au_sbr brs b) = brid")
    case True
    with Suc.prems show ?thesis by auto
  next
    case False
    have r: "br_index_loop brs brid (b + 1) n = k" "0 \<le> b + 1" "b + 1 + int n = int (length brs)"
      using Suc.prems False by simp_all
    have e: "b \<le> int i \<Longrightarrow> \<not> b + 1 \<le> int i \<Longrightarrow> br_id (brs ! i) \<noteq> brid" for i
    proof -
      assume "b \<le> int i" "\<not> b + 1 \<le> int i"
      then have "nat b = i" using Suc.prems(2) by linarith
      with False show ?thesis by (simp add: au_sbr_def)
    qed
    have "(\<forall>i < m. b + 1 \<le> int i \<longrightarrow> br_id (brs ! i) \<noteq> brid) \<Longrightarrow> (\<forall>i < m. b \<le> int i \<longrightarrow> br_id (brs ! i) \<noteq> brid)" for m
      using e by blast
    moreover from Suc.prems have "\<not> k = -1 \<Longrightarrow> b + 1 \<le> k \<Longrightarrow> b \<le> k" by simp
    ultimately show ?thesis using Suc.IH[OF r] by auto
  qed
qed simp

section \<open>Scanning an array of pointers\<close>

text \<open>
  \<^verbatim>\<open>while (++bstart <= bend) if (p[bstart]) break;\<close> and its mirror image, from \<open>b\<close> on with \<open>n\<close>
  entries to look at.
\<close>

fun scan_up :: "'a option list \<Rightarrow> int \<Rightarrow> nat \<Rightarrow> int" where
  "scan_up hs b 0 = b"
| "scan_up hs b (Suc n) = (if hs ! nat b \<noteq> None then b else scan_up hs (b + 1) n)"

fun scan_down :: "'a option list \<Rightarrow> int \<Rightarrow> nat \<Rightarrow> int" where
  "scan_down hs b 0 = b"
| "scan_down hs b (Suc n) = (if hs ! nat b \<noteq> None then b else scan_down hs (b - 1) n)"

lemma scan_up_spec:
  "b \<le> scan_up hs b n \<and> scan_up hs b n \<le> b + int n \<and>
   (scan_up hs b n < b + int n \<longrightarrow> hs ! nat (scan_up hs b n) \<noteq> None) \<and>
   (\<forall>i. b \<le> i \<and> i < scan_up hs b n \<longrightarrow> hs ! nat i = None)"
proof (induction n arbitrary: b)
  case (Suc n)
  have "b \<le> i \<Longrightarrow> i = b \<or> b + 1 \<le> i" for i :: int by linarith
  with Suc[of "b + 1"] show ?case by (auto simp: algebra_simps)
qed auto

lemma scan_down_spec:
  "scan_down hs b n \<le> b \<and> b - int n \<le> scan_down hs b n \<and>
   (b - int n < scan_down hs b n \<longrightarrow> hs ! nat (scan_down hs b n) \<noteq> None) \<and>
   (\<forall>i. scan_down hs b n < i \<and> i \<le> b \<longrightarrow> hs ! nat i = None)"
proof (induction n arbitrary: b)
  case (Suc n)
  have "i \<le> b \<Longrightarrow> i = b \<or> i \<le> b - 1" for i :: int by linarith
  with Suc[of "b - 1"] show ?case by (auto simp: algebra_simps)
qed auto

end
