(* ===== verification/Aufs_Xino.thy ===== *)
theory Aufs_Xino
  imports Aufs_Base
begin

text \<open>
  Inode numbers (\<^verbatim>\<open>xino.c\<close>). Every branch has a file that maps the number of a lower inode to the
  number aufs shows for it, and one bitmap file, of which one page is in memory, says which
  numbers are in use.

  Open files are an array of records with a reference count and their bytes; a file is known by
  its index. What the lower filesystems answer comes from two scripts in the state: \<open>io\<close> for the
  read and write functions, \<open>ops\<close> for every other call that may fail (lookup, create, open, unlink,
  copy, memory, work queue), 0 for success. An empty script is a system where nothing fails any
  more. Locks, inotify and the trace calls are left out.
\<close>

section \<open>State\<close>

text \<open>\<^verbatim>\<open>file_operations\<close>: which of the functions are there.\<close>

record file_operations =
  fop_read :: bool
  fop_aio_read :: bool
  fop_write :: bool
  fop_aio_write :: bool

datatype au_readf = Fop_read | Do_sync_read | Readf_ENOSYS
datatype au_writef = Fop_write | Do_sync_write | Writef_ENOSYS

text \<open>\<open>f_nolocal\<close>: the file is on NFS or eCryptfs.\<close>

record xfile =
  f_count :: int
  f_data :: "u8 list"
  f_parent :: nat
  f_name :: string
  f_nolocal :: bool
  f_op :: "file_operations option"

datatype io_result = Io_Ok | Io_Err int | Io_Short nat

record au_sbinfo =
  si_branch :: branches
  opt_xino :: bool
  opt_trunc_xino :: bool
  si_xread :: "au_readf option"
  si_xwrite :: "au_writef option"
  si_xib :: "nat option"
  si_xib_buf :: "u8 list option"
  si_xib_last_pindex :: nat
  si_xib_next_bit :: int
  si_xino_def_br :: "int option"
  xfiles :: "xfile list"
  io :: "io_result list"
  ops :: "int list"
  in_wkq :: bool
  mnt_count :: int
  jobs :: "int list"
  iunique :: u32
  i_blocks :: "nat \<Rightarrow> int"
  sb_tmpfs :: "nat \<Rightarrow> bool"
  sb_nolocal :: "nat \<Rightarrow> bool"

definition call :: "au_sbinfo \<Rightarrow> int \<times> au_sbinfo" where
  "call s = (case ops s of [] \<Rightarrow> (0, s) | e # es \<Rightarrow> (e, s\<lparr>ops := es\<rparr>))"

definition file_at :: "au_sbinfo \<Rightarrow> nat \<Rightarrow> xfile" where
  "file_at s f = xfiles s ! f"

definition i_size :: "au_sbinfo \<Rightarrow> nat \<Rightarrow> nat" where
  "i_size s f = length (f_data (file_at s f))"

definition upd_file :: "nat \<Rightarrow> (xfile \<Rightarrow> xfile) \<Rightarrow> au_sbinfo \<Rightarrow> au_sbinfo" where
  "upd_file f g s = s\<lparr>xfiles := (xfiles s)[f := g (xfiles s ! f)]\<rparr>"

definition get_file :: "nat \<Rightarrow> au_sbinfo \<Rightarrow> au_sbinfo" where
  "get_file f = upd_file f (\<lambda>x. x\<lparr>f_count := f_count x + 1\<rparr>)"

definition fput :: "nat \<Rightarrow> au_sbinfo \<Rightarrow> au_sbinfo" where
  "fput f = upd_file f (\<lambda>x. x\<lparr>f_count := f_count x - 1\<rparr>)"

definition upd_br :: "int \<Rightarrow> (au_branch \<Rightarrow> au_branch) \<Rightarrow> au_sbinfo \<Rightarrow> au_sbinfo" where
  "upd_br bindex g s = s\<lparr>si_branch := (si_branch s)[nat bindex := g (au_sbr (si_branch s) bindex)]\<rparr>"

abbreviation (input) sbr :: "au_sbinfo \<Rightarrow> int \<Rightarrow> au_branch" where "sbr s \<equiv> au_sbr (si_branch s)"
abbreviation (input) sbend :: "au_sbinfo \<Rightarrow> int" where "sbend s \<equiv> au_sbend (si_branch s)"

section \<open>Reading and writing\<close>

text \<open>
  The result of a file's read and write function, applied to the bytes of the file, the buffer
  and the position: all that was asked for, a part of it, or an error.
\<close>

definition vfs_read :: "io_result \<Rightarrow> u8 list \<Rightarrow> u8 list \<Rightarrow> nat \<Rightarrow> int \<times> u8 list" where
  "vfs_read r bytes buf pos =
     (let got = take (length buf) (drop pos bytes)
      in case r of
           Io_Err e \<Rightarrow> (- e, buf)
         | Io_Ok \<Rightarrow> (int (length got), got @ drop (length got) buf)
         | Io_Short k \<Rightarrow> (let got = take k got in (int (length got), got @ drop (length got) buf)))"

definition bytes_write :: "u8 list \<Rightarrow> nat \<Rightarrow> u8 list \<Rightarrow> u8 list" where
  "bytes_write bytes pos new =
     (if new = [] then bytes
      else take pos bytes @ replicate (pos - length bytes) 0 @ new @ drop (pos + length new) bytes)"

definition vfs_write :: "io_result \<Rightarrow> u8 list \<Rightarrow> u8 list \<Rightarrow> nat \<Rightarrow> int \<times> u8 list" where
  "vfs_write r bytes buf pos =
     (case r of
        Io_Err e \<Rightarrow> (- e, bytes)
      | Io_Ok \<Rightarrow> (int (length buf), bytes_write bytes pos buf)
      | Io_Short k \<Rightarrow> (int (min k (length buf)), bytes_write bytes pos (take k buf)))"

text \<open>\<^verbatim>\<open>do err = func(...); while (err == -EAGAIN || err == -EINTR)\<close>.\<close>

fun io_call :: "io_result list \<Rightarrow> io_result \<times> io_result list" where
  "io_call [] = (Io_Ok, [])"
| "io_call (r # rs) = (if r = Io_Err EAGAIN \<or> r = Io_Err EINTR then io_call rs else (r, rs))"

definition xino_fread :: "au_sbinfo \<Rightarrow> nat \<Rightarrow> u8 list \<Rightarrow> nat \<Rightarrow> int \<times> u8 list \<times> au_sbinfo" where
  "xino_fread s f buf pos =
     (let (r, rs) = io_call (io s);
          (sz, buf) = vfs_read r (f_data (file_at s f)) buf pos
      in (sz, buf, s\<lparr>io := rs\<rparr>))"

definition do_xino_fwrite :: "au_sbinfo \<Rightarrow> nat \<Rightarrow> u8 list \<Rightarrow> nat \<Rightarrow> int \<times> au_sbinfo" where
  "do_xino_fwrite s f buf pos =
     (let (r, rs) = io_call (io s);
          (sz, bytes) = vfs_write r (f_data (file_at s f)) buf pos
      in (sz, upd_file f (\<lambda>x. x\<lparr>f_data := bytes\<rparr>) (s\<lparr>io := rs\<rparr>)))"

definition xino_fwrite :: "au_sbinfo \<Rightarrow> nat \<Rightarrow> u8 list \<Rightarrow> nat \<Rightarrow> int \<times> au_sbinfo" where
  "xino_fwrite s f buf pos =
     (if \<not> in_wkq s then
        let (wkq_err, s) = call s
        in if wkq_err \<noteq> 0 then (wkq_err, s) else do_xino_fwrite s f buf pos
      else do_xino_fwrite s f buf pos)"

section \<open>The map of a branch\<close>

definition le32 :: "u32 \<Rightarrow> u8 list" where
  "le32 w = [ucast w, ucast (drop_bit 8 w), ucast (drop_bit 16 w), ucast (drop_bit 24 w)]"

definition of_le32 :: "u8 list \<Rightarrow> u32" where
  "of_le32 bs = ucast (bs ! 0) OR push_bit 8 (ucast (bs ! 1)) OR push_bit 16 (ucast (bs ! 2))
     OR push_bit 24 (ucast (bs ! 3))"

abbreviation (input) Au_LOFF_MAX :: nat where "Au_LOFF_MAX \<equiv> 9223372036854775807"
abbreviation (input) AUFS_FIRST_INO :: u32 where "AUFS_FIRST_INO \<equiv> 11"
abbreviation (input) AUFS_ROOT_INO :: u32 where "AUFS_ROOT_INO \<equiv> 2"
abbreviation (input) AUFS_XINO_TRUNC_STEP :: int where "AUFS_XINO_TRUNC_STEP \<equiv> 4"

definition au_xino_do_write :: "au_sbinfo \<Rightarrow> nat \<Rightarrow> u32 \<Rightarrow> u32 \<Rightarrow> int \<times> au_sbinfo" where
  "au_xino_do_write s f h_ino ino =
     (let pos = unat h_ino
      in if Au_LOFF_MAX div 4 - 1 < pos then (- EFBIG, s)
         else
           let (sz, s) = xino_fwrite s f (le32 ino) (pos * 4)
           in if sz = 4 then (0, s) else (- EIO, s))"

definition xino_try_trunc :: "au_sbinfo \<Rightarrow> int \<Rightarrow> au_sbinfo" where
  "xino_try_trunc s bindex =
     (let running = (\<lambda>d. upd_br bindex (\<lambda>b. b\<lparr>br_xino_running := br_xino_running b + d\<rparr>));
          br = sbr s bindex
      in if i_blocks s (the (xi_file br)) < br_xino_upper br then s
         else
           let s = running 1 s
           in if br_xino_running (sbr s bindex) > 1 then running (-1) s
              else
                let (e, s) = call s
                in if e \<noteq> 0 then running (-1) s
                   else
                     let s = upd_br bindex (\<lambda>b. b\<lparr>br_count := br_count b + 1\<rparr>) (s\<lparr>mnt_count := mnt_count s + 1\<rparr>);
                         (wkq_err, s) = call s
                     in if wkq_err = 0 then s\<lparr>jobs := jobs s @ [br_id br]\<rparr>
                        else running (-1)
                          (upd_br bindex (\<lambda>b. b\<lparr>br_count := br_count b - 1\<rparr>) (s\<lparr>mnt_count := mnt_count s - 1\<rparr>)))"

definition au_xino_write :: "au_sbinfo \<Rightarrow> int \<Rightarrow> u32 \<Rightarrow> u32 \<Rightarrow> int \<times> au_sbinfo" where
  "au_xino_write s bindex h_ino ino =
     (if \<not> opt_xino s then (0, s)
      else
        let br = sbr s bindex; (err, s) = au_xino_do_write s (the (xi_file br)) h_ino ino
        in if err = 0
           then (0, if opt_trunc_xino s \<and> sb_tmpfs s (br_sb br) then xino_try_trunc s bindex else s)
           else (- EIO, s))"

definition au_xino_read :: "au_sbinfo \<Rightarrow> int \<Rightarrow> u32 \<Rightarrow> int \<times> u32 \<times> au_sbinfo" where
  "au_xino_read s bindex h_ino =
     (if \<not> opt_xino s then (0, 0, s)
      else
        let pos = unat h_ino
        in if Au_LOFF_MAX div 4 - 1 < pos then (- EFBIG, 0, s)
           else
             let f = the (xi_file (sbr s bindex))
             in if i_size s f < pos * 4 + 4 then (0, 0, s)
                else
                  let (sz, buf, s) = xino_fread s f [0, 0, 0, 0] (pos * 4)
                  in if sz = 4 then (0, of_le32 buf, s)
                     else (if sz \<ge> 0 then - EIO else sz, of_le32 buf, s))"

section \<open>The bitmap\<close>

abbreviation (input) page_bits :: nat where "page_bits \<equiv> 32768"

definition test_bit_at :: "nat \<Rightarrow> u8 list \<Rightarrow> bool" where
  "test_bit_at n p = bit (p ! (n div 8)) (n mod 8)"

definition set_bit_at :: "nat \<Rightarrow> u8 list \<Rightarrow> u8 list" where
  "set_bit_at n p = p[n div 8 := set_bit (n mod 8) (p ! (n div 8))]"

definition clear_bit_at :: "nat \<Rightarrow> u8 list \<Rightarrow> u8 list" where
  "clear_bit_at n p = p[n div 8 := unset_bit (n mod 8) (p ! (n div 8))]"

fun first_zero_in :: "nat \<Rightarrow> nat \<Rightarrow> u8 \<Rightarrow> nat" where
  "first_zero_in n 0 w = n"
| "first_zero_in n (Suc k) w = (if \<not> bit w n then n else first_zero_in (n + 1) k w)"

text \<open>\<^verbatim>\<open>find_first_zero_bit\<close>: the number of bits when all are set.\<close>

fun find_first_zero_bit :: "u8 list \<Rightarrow> nat" where
  "find_first_zero_bit [] = 0"
| "find_first_zero_bit (w # ws) =
     (let n = first_zero_in 0 8 w in if n < 8 then n else 8 + find_first_zero_bit ws)"

definition xib_calc_ino :: "nat \<Rightarrow> nat \<Rightarrow> u32" where
  "xib_calc_ino pindex b = AUFS_FIRST_INO + of_nat pindex * of_nat page_bits + of_nat b"

definition xib_calc_bit :: "u32 \<Rightarrow> nat \<times> nat" where
  "xib_calc_bit ino = (let ino = ino - AUFS_FIRST_INO in (unat ino div page_bits, unat ino mod page_bits))"

abbreviation (input) xib_buf :: "au_sbinfo \<Rightarrow> u8 list" where "xib_buf s \<equiv> the (si_xib_buf s)"

definition xib_pindex :: "au_sbinfo \<Rightarrow> nat \<Rightarrow> int \<times> au_sbinfo" where
  "xib_pindex s pindex =
     (if pindex = si_xib_last_pindex s then (0, s)
      else
        let xib = the (si_xib s);
            (sz, s) = xino_fwrite s xib (xib_buf s) (si_xib_last_pindex s * PAGE_SIZE)
        in if sz \<noteq> int PAGE_SIZE then (if sz \<ge> 0 then - EIO else sz, s)
           else
             let pos = pindex * PAGE_SIZE;
                 (sz, s) =
                   (if i_size s xib \<ge> pos + PAGE_SIZE then
                      let (sz, p, s) = xino_fread s xib (xib_buf s) pos in (sz, s\<lparr>si_xib_buf := Some p\<rparr>)
                    else
                      let s = s\<lparr>si_xib_buf := Some (replicate PAGE_SIZE 0)\<rparr>
                      in xino_fwrite s xib (xib_buf s) pos)
             in if sz = int PAGE_SIZE then (0, s\<lparr>si_xib_last_pindex := pindex\<rparr>)
                else (if sz \<ge> 0 then - EIO else sz, s))"

definition au_xino_write0 :: "au_sbinfo \<Rightarrow> int \<Rightarrow> u32 \<Rightarrow> u32 \<Rightarrow> int \<times> au_sbinfo" where
  "au_xino_write0 s bindex h_ino ino =
     (if \<not> opt_xino s then (0, s)
      else
        let (err, s) =
              (if ino \<noteq> 0 then
                 let (pindex, b) = xib_calc_bit ino; (err, s) = xib_pindex s pindex
                 in (err, if err = 0 then s\<lparr>si_xib_buf := Some (clear_bit_at b (xib_buf s)),
                                            si_xib_next_bit := int b\<rparr> else s)
               else (0, s))
        in if err = 0 then au_xino_write s bindex h_ino 0 else (err, s))"

datatype search = Hit nat | Fail | Miss

text \<open>The pages \<open>n - 1\<close> down to 0, and the \<open>n\<close> pages from \<open>ul\<close> on.\<close>

fun new_ino_down :: "nat \<Rightarrow> au_sbinfo \<Rightarrow> search \<times> au_sbinfo" where
  "new_ino_down 0 s = (Miss, s)"
| "new_ino_down (Suc ul) s =
     (let (err, s) = xib_pindex s ul
      in if err \<noteq> 0 then (Fail, s)
         else let free_bit = find_first_zero_bit (xib_buf s)
              in if free_bit < page_bits then (Hit free_bit, s) else new_ino_down ul s)"

fun new_ino_up :: "nat \<Rightarrow> nat \<Rightarrow> au_sbinfo \<Rightarrow> search \<times> au_sbinfo" where
  "new_ino_up 0 ul s = (Miss, s)"
| "new_ino_up (Suc n) ul s =
     (let (err, s) = xib_pindex s ul
      in if err \<noteq> 0 then (Fail, s)
         else let free_bit = find_first_zero_bit (xib_buf s)
              in if free_bit < page_bits then (Hit free_bit, s) else new_ino_up n (ul + 1) s)"

definition int_inc :: "int \<Rightarrow> int" where
  "int_inc i = (if i = 2147483647 then -2147483648 else i + 1)"

definition new_ino_out :: "nat \<Rightarrow> au_sbinfo \<Rightarrow> u32 \<times> au_sbinfo" where
  "new_ino_out free_bit s =
     (xib_calc_ino (si_xib_last_pindex s) free_bit,
      s\<lparr>si_xib_buf := Some (set_bit_at free_bit (xib_buf s)), si_xib_next_bit := int_inc (si_xib_next_bit s)\<rparr>)"

text \<open>The scan of the other pages: below the page in memory, then above it.\<close>

definition new_ino_scan :: "au_sbinfo \<Rightarrow> search \<times> au_sbinfo" where
  "new_ino_scan s =
     (let pindex = si_xib_last_pindex s; (r, s) = new_ino_down pindex s
      in if r \<noteq> Miss then (r, s)
         else
           let pend = i_size s (the (si_xib s)) div PAGE_SIZE
           in new_ino_up (pend + 1 - (pindex + 1)) (pindex + 1) s)"

text \<open>
  \<open>None\<close> is a fault: \<^verbatim>\<open>BUG()\<close>, or a bit tested before the start of the page when \<open>next_bit\<close> has
  wrapped around. The number 0 is an I/O error.
\<close>

definition au_xino_new_ino :: "au_sbinfo \<Rightarrow> (u32 \<times> au_sbinfo) option" where
  "au_xino_new_ino s =
     (if \<not> opt_xino s then Some (iunique s, s)
      else if si_xib_next_bit s < 0 then None
      else
        let p = xib_buf s; free_bit = nat (si_xib_next_bit s)
        in if free_bit < page_bits \<and> \<not> test_bit_at free_bit p then Some (new_ino_out free_bit s)
           else
             let free_bit = find_first_zero_bit p
             in if free_bit < page_bits then Some (new_ino_out free_bit s)
                else (case new_ino_scan s of
                        (Hit free_bit, s) \<Rightarrow> Some (new_ino_out free_bit s)
                      | (Fail, s) \<Rightarrow> Some (0, s)
                      | (Miss, s) \<Rightarrow> None))"

end
