(* ===== verification/Aufs_Xino_Set.thy ===== *)
theory Aufs_Xino_Set
  imports Aufs_Xino
begin

text \<open>
  The second half of \<^verbatim>\<open>xino.c\<close>: creating the files, sharing them between the branches of one
  filesystem, rebuilding the bitmap from the maps, the mount options, truncation. A failing
  function that returns \<^verbatim>\<open>ERR_PTR\<close> gives \<open>Inl\<close> of the error.
\<close>

section \<open>Creating files\<close>

definition new_file :: "xfile \<Rightarrow> au_sbinfo \<Rightarrow> nat \<times> au_sbinfo" where
  "new_file x s = (length (xfiles s), s\<lparr>xfiles := xfiles s @ [x\<lparr>f_count := 1\<rparr>]\<rparr>)"

text \<open>\<open>x\<close> is the file that the open creates, \<open>same_sb\<close> whether it lies inside of the union.\<close>

definition au_xino_create :: "au_sbinfo \<Rightarrow> xfile \<Rightarrow> bool \<Rightarrow> (int + nat) \<times> au_sbinfo" where
  "au_xino_create s x same_sb =
     (let (e, s) = call s
      in if e \<noteq> 0 then (Inl e, s)
         else
           let (f, s) = new_file x s; (err, s) = call s
           in if err \<noteq> 0 then (Inl err, fput f s)
              else if \<not> same_sb then (Inr f, s)
              else (Inl (- EINVAL), fput f s))"

definition is_sb_shared :: "branches \<Rightarrow> int \<Rightarrow> int \<Rightarrow> int" where
  "is_sb_shared brs btgt bend =
     (let tgt_sb = br_sb (au_sbr brs btgt)
      in case find (\<lambda>i. br_sb (au_sbr brs i) = tgt_sb) [0..btgt - 1] of
           Some i \<Rightarrow> i
         | None \<Rightarrow> (case find (\<lambda>i. br_sb (au_sbr brs i) = tgt_sb) [btgt + 1..bend] of Some i \<Rightarrow> i | None \<Rightarrow> -1))"

text \<open>The calls are lookup, create, open, unlink, copy, in this order.\<close>

definition au_xino_create2 :: "au_sbinfo \<Rightarrow> nat \<Rightarrow> nat option \<Rightarrow> (int + nat) \<times> au_sbinfo" where
  "au_xino_create2 s base_file copy_src =
     (if f_nolocal (file_at s base_file) then (Inl (- EINVAL), s)
      else
        let (e, s) = call s
        in if e \<noteq> 0 then (Inl e, s)
           else
             let (err, s) = call s
             in if err \<noteq> 0 then (Inl err, s)
                else
                  let (e, s) = call s
                  in if e \<noteq> 0 then (Inl e, s)
                     else
                       let (f, s) = new_file ((file_at s base_file)\<lparr>f_data := []\<rparr>) s; (err, s) = call s
                       in if err \<noteq> 0 then (Inl err, fput f s)
                          else (case copy_src of
                                  None \<Rightarrow> (Inr f, s)
                                | Some src \<Rightarrow>
                                    let (err, s) = call s
                                    in if err \<noteq> 0 then (Inl err, fput f s)
                                       else (Inr f, upd_file f (\<lambda>x. x\<lparr>f_data := f_data (file_at s src)\<rparr>) s)))"

text \<open>The map for the new branch \<open>br\<close>, which is not in the table yet.\<close>

definition au_xino_br :: "au_sbinfo \<Rightarrow> au_branch \<Rightarrow> u32 \<Rightarrow> nat \<Rightarrow> bool \<Rightarrow> int \<times> au_branch \<times> au_sbinfo" where
  "au_xino_br s br h_ino base_file do_test =
     (let bshared = (if do_test then find (\<lambda>i. br_sb br = br_sb (sbr s i)) [0..sbend s] else None);
          do_create = (case bshared of None \<Rightarrow> True | Some b \<Rightarrow> xi_file (sbr s b) = None);
          (r, s) = (if do_create then au_xino_create2 s base_file None
                    else let f = the (xi_file (sbr s (the bshared))) in (Inr f, get_file f s))
      in case r of
           Inl err \<Rightarrow> (err, br, s)
         | Inr f \<Rightarrow> let (err, s) = au_xino_do_write s f h_ino AUFS_ROOT_INO in (err, br\<lparr>xi_file := Some f\<rparr>, s))"

section \<open>Rebuilding the bitmap\<close>

text \<open>The entries of one buffer, \<open>n\<close> of them from number \<open>k\<close> on.\<close>

fun restore_entries :: "nat \<Rightarrow> nat \<Rightarrow> u8 list \<Rightarrow> au_sbinfo \<Rightarrow> int \<times> au_sbinfo" where
  "restore_entries 0 k page s = (0, s)"
| "restore_entries (Suc n) k page s =
     (let ino = of_le32 (drop (4 * k) page)
      in if ino < AUFS_FIRST_INO then restore_entries n (k + 1) page s
         else
           let (pindex, b) = xib_calc_bit ino; (err, s) = xib_pindex s pindex
           in if err = 0 then restore_entries n (k + 1) page (s\<lparr>si_xib_buf := Some (set_bit_at b (xib_buf s))\<rparr>)
              else (err, s))"

function restore_loop :: "nat \<Rightarrow> nat \<Rightarrow> nat \<Rightarrow> u8 list \<Rightarrow> au_sbinfo \<Rightarrow> int \<times> u8 list \<times> au_sbinfo" where
  "restore_loop pend pos f page s =
     (if pos < pend then
        let (sz, page, s) = xino_fread s f page pos
        in if sz \<le> 0 then (sz, page, s)
           else
             let (err, s) = restore_entries ((nat sz + 3) div 4) 0 page s
             in if err \<noteq> 0 then (err, page, s) else restore_loop pend (pos + nat sz) f page s
      else (0, page, s))"
  by pat_completeness auto
termination
  by (relation "measure (\<lambda>(pend, pos, f, page, s). pend - pos)") auto

definition do_xib_restore :: "au_sbinfo \<Rightarrow> nat \<Rightarrow> u8 list \<Rightarrow> int \<times> u8 list \<times> au_sbinfo" where
  "do_xib_restore s f page = restore_loop (i_size s f) 0 f page s"

fun xib_restore_loop :: "nat \<Rightarrow> int \<Rightarrow> u8 list \<Rightarrow> au_sbinfo \<Rightarrow> int \<times> au_sbinfo" where
  "xib_restore_loop 0 bindex page s = (0, s)"
| "xib_restore_loop (Suc n) bindex page s =
     (if bindex = 0 \<or> is_sb_shared (si_branch s) bindex (bindex - 1) < 0 then
        let (err, page, s) = do_xib_restore s (the (xi_file (sbr s bindex))) page
        in if err \<noteq> 0 then (err, s) else xib_restore_loop n (bindex + 1) page s
      else xib_restore_loop n (bindex + 1) page s)"

text \<open>\<open>page\<close> is what the fresh page happens to hold.\<close>

definition xib_restore :: "au_sbinfo \<Rightarrow> u8 list \<Rightarrow> int \<times> au_sbinfo" where
  "xib_restore s page =
     (let (e, s) = call s
      in if e \<noteq> 0 then (- ENOMEM, s) else xib_restore_loop (nat (sbend s + 1)) 0 page s)"

definition au_xib_trunc :: "au_sbinfo \<Rightarrow> u8 list \<Rightarrow> int \<times> au_sbinfo" where
  "au_xib_trunc s page =
     (if \<not> opt_xino s then (0, s)
      else
        let xib = the (si_xib s)
        in if i_size s xib \<le> PAGE_SIZE then (0, s)
           else (case au_xino_create2 s xib None of
              (Inl err, s) \<Rightarrow> (err, s)
            | (Inr f, s) \<Rightarrow>
                let s = (fput xib s)\<lparr>si_xib := Some f, si_xib_buf := Some (replicate PAGE_SIZE 0)\<rparr>;
                    (sz, s) = xino_fwrite s f (xib_buf s) 0
                in if sz \<noteq> int PAGE_SIZE then (if sz \<ge> 0 then - EIO else sz, s)
                   else xib_restore s page))"

section \<open>Mount options\<close>

definition find_readf :: "xfile \<Rightarrow> au_readf" where
  "find_readf h_file =
     (case f_op h_file of
        None \<Rightarrow> Readf_ENOSYS
      | Some fop \<Rightarrow> if fop_read fop then Fop_read else if fop_aio_read fop then Do_sync_read else Readf_ENOSYS)"

definition find_writef :: "xfile \<Rightarrow> au_writef" where
  "find_writef h_file =
     (case f_op h_file of
        None \<Rightarrow> Writef_ENOSYS
      | Some fop \<Rightarrow> if fop_write fop then Fop_write else if fop_aio_write fop then Do_sync_write else Writef_ENOSYS)"

definition xino_clear_xib :: "au_sbinfo \<Rightarrow> au_sbinfo" where
  "xino_clear_xib s =
     (let s = s\<lparr>si_xread := None, si_xwrite := None\<rparr>;
          s = (case si_xib s of Some f \<Rightarrow> fput f s | None \<Rightarrow> s)
      in s\<lparr>si_xib := None, si_xib_buf := None\<rparr>)"

definition au_xino_set_xib :: "au_sbinfo \<Rightarrow> nat \<Rightarrow> int \<times> au_sbinfo" where
  "au_xino_set_xib s base =
     (case au_xino_create2 s base (si_xib s) of
        (Inl err, s) \<Rightarrow> (err, s)
      | (Inr f, s) \<Rightarrow>
          let s = (case si_xib s of Some old \<Rightarrow> fput old s | None \<Rightarrow> s);
              s = s\<lparr>si_xib := Some f, si_xread := Some (find_readf (file_at s f)),
                    si_xwrite := Some (find_writef (file_at s f))\<rparr>;
              unset = (\<lambda>s. (fput f s)\<lparr>si_xib := None, si_xread := None, si_xwrite := None\<rparr>);
              s = (if si_xib_buf s = None
                   then let (e, s) = call s
                        in s\<lparr>si_xib_buf := (if e = 0 then Some (replicate PAGE_SIZE 0) else None)\<rparr>
                   else s)
          in if si_xib_buf s = None then (- ENOMEM, unset s)
             else
               let s = s\<lparr>si_xib_last_pindex := 0, si_xib_next_bit := 0\<rparr>
               in if i_size s f < PAGE_SIZE then
                    let (err, s) = xino_fwrite s f (xib_buf s) 0
                    in if err \<noteq> int PAGE_SIZE
                       then (if err \<ge> 0 then - EIO else err, unset (s\<lparr>si_xib_buf := None\<rparr>))
                       else (0, s)
                  else (0, s))"

fun clear_br_loop :: "nat \<Rightarrow> int \<Rightarrow> au_sbinfo \<Rightarrow> au_sbinfo" where
  "clear_br_loop 0 bindex s = s"
| "clear_br_loop (Suc n) bindex s =
     clear_br_loop n (bindex + 1)
       (case xi_file (sbr s bindex) of
          None \<Rightarrow> s
        | Some f \<Rightarrow> upd_br bindex (\<lambda>b. b\<lparr>xi_file := None\<rparr>) (fput f s))"

definition xino_clear_br :: "au_sbinfo \<Rightarrow> au_sbinfo" where
  "xino_clear_br s = clear_br_loop (nat (sbend s + 1)) 0 s"

type_synonym fpair = "nat option \<times> nat option"

text \<open>
  The first loop of \<^verbatim>\<open>au_xino_set_br\<close>: \<open>fp\<close> holds the pairs of the branches before \<open>bindex\<close>, the
  array behind them is zero; \<open>root\<close> are the numbers of the lower root inodes.
\<close>

fun set_br_pairs :: "nat \<Rightarrow> int \<Rightarrow> nat \<Rightarrow> u32 list \<Rightarrow> fpair list \<Rightarrow> au_sbinfo \<Rightarrow> int \<times> fpair list \<times> au_sbinfo" where
  "set_br_pairs 0 bindex base root fp s = (0, fp, s)"
| "set_br_pairs (Suc n) bindex base root fp s =
     (let bshared = is_sb_shared (si_branch s) bindex (bindex - 1);
          (p, s) = (if bshared \<ge> 0 then let p = fp ! nat bshared in (p, get_file (the (snd p)) s)
                    else ((None, None), s));
          (err, p, s) =
            (if snd p = None then
               let old = xi_file (sbr s bindex)
               in case au_xino_create2 s base old of
                    (Inl err, s) \<Rightarrow> (err, (old, None), s)
                  | (Inr f, s) \<Rightarrow> (0, (old, Some f), s)
             else (0, p, s))
      in if err \<noteq> 0 then (err, fp @ [p], s)
         else
           let (err, s) = au_xino_do_write s (the (snd p)) (root ! nat bindex) AUFS_ROOT_INO
           in if err \<noteq> 0 then (err, fp @ [p], s) else set_br_pairs n (bindex + 1) base root (fp @ [p]) s)"

fun set_br_commit :: "fpair list \<Rightarrow> int \<Rightarrow> au_sbinfo \<Rightarrow> au_sbinfo" where
  "set_br_commit [] bindex s = s"
| "set_br_commit (p # ps) bindex s =
     (let s = (case xi_file (sbr s bindex) of Some f \<Rightarrow> fput f s | None \<Rightarrow> s);
          s = get_file (the (snd p)) s
      in set_br_commit ps (bindex + 1) (upd_br bindex (\<lambda>b. b\<lparr>xi_file := snd p\<rparr>) s))"

fun set_br_out :: "fpair list \<Rightarrow> au_sbinfo \<Rightarrow> au_sbinfo" where
  "set_br_out [] s = s"
| "set_br_out (p # ps) s = (case snd p of Some f \<Rightarrow> set_br_out ps (fput f s) | None \<Rightarrow> s)"

definition au_xino_set_br :: "au_sbinfo \<Rightarrow> nat \<Rightarrow> u32 list \<Rightarrow> int \<times> au_sbinfo" where
  "au_xino_set_br s base root =
     (let (e, s) = call s
      in if e \<noteq> 0 then (- ENOMEM, s)
         else
           let (err, fp, s) = set_br_pairs (nat (sbend s + 1)) 0 base root [] s;
               s = (if err = 0 then set_br_commit fp 0 s else s)
           in (err, set_br_out fp s))"

definition au_xino_clr :: "au_sbinfo \<Rightarrow> au_sbinfo" where
  "au_xino_clr s = (xino_clear_br (xino_clear_xib s))\<lparr>opt_xino := False, si_xino_def_br := None\<rparr>"

text \<open>The inode generation file (\<^verbatim>\<open>au_xigen_set\<close>) is one call that may fail.\<close>

definition au_xino_set :: "au_sbinfo \<Rightarrow> nat \<Rightarrow> bool \<Rightarrow> u32 list \<Rightarrow> int \<times> au_sbinfo" where
  "au_xino_set s xfile remount root =
     (let skip = (remount \<and> (case si_xib s of
                    None \<Rightarrow> False
                  | Some cur \<Rightarrow> f_parent (file_at s cur) = f_parent (file_at s xfile) \<and>
                                f_name (file_at s cur) = f_name (file_at s xfile)))
      in if skip then (0, s)
         else
           let s = s\<lparr>opt_xino := True, si_xino_def_br := None\<rparr>;
               (err, s) = au_xino_set_xib s xfile;
               (err, s) = (if err = 0 then call s else (err, s))
           in if err = 0 then au_xino_set_br s xfile root else (err, s))"

section \<open>Truncation\<close>

fun trunc_share :: "nat \<Rightarrow> int \<Rightarrow> int \<Rightarrow> nat \<Rightarrow> nat \<Rightarrow> au_sbinfo \<Rightarrow> au_sbinfo" where
  "trunc_share 0 bi bindex h_sb f s = s"
| "trunc_share (Suc n) bi bindex h_sb f s =
     trunc_share n (bi + 1) bindex h_sb f
       (if bi = bindex \<or> br_sb (sbr s bi) \<noteq> h_sb then s
        else get_file f (upd_br bi (\<lambda>b. b\<lparr>xi_file := Some f\<rparr>) (fput (the (xi_file (sbr s bi))) s)))"

definition au_xino_trunc :: "au_sbinfo \<Rightarrow> int \<Rightarrow> int \<times> au_sbinfo" where
  "au_xino_trunc s bindex =
     (if bindex < 0 \<or> sbend s < bindex then (- EINVAL, s)
      else
        let br = sbr s bindex
        in case xi_file br of
             None \<Rightarrow> (- EINVAL, s)
           | Some old \<Rightarrow>
               (case au_xino_create2 s old (Some old) of
                  (Inl err, s) \<Rightarrow> (err, s)
                | (Inr f, s) \<Rightarrow>
                    let s = upd_br bindex (\<lambda>b. b\<lparr>xi_file := Some f\<rparr>) (fput old s)
                    in (0, trunc_share (nat (sbend s + 1)) 0 bindex (br_sb br) f s)))"

definition xino_do_trunc :: "au_sbinfo \<Rightarrow> int \<Rightarrow> au_sbinfo" where
  "xino_do_trunc s brid =
     (let bindex = au_br_index (si_branch s) brid;
          (err, s) = au_xino_trunc s bindex;
          br = sbr s bindex;
          s = (if err = 0 \<and> i_blocks s (the (xi_file br)) \<ge> br_xino_upper br
               then upd_br bindex (\<lambda>b. b\<lparr>br_xino_upper := br_xino_upper b + AUFS_XINO_TRUNC_STEP\<rparr>) s else s)
      in (upd_br bindex (\<lambda>b. b\<lparr>br_xino_running := br_xino_running b - 1, br_count := br_count b - 1\<rparr>) s)
           \<lparr>mnt_count := mnt_count s - 1\<rparr>)"

section \<open>The default place\<close>

text \<open>
  \<open>on_br\<close> and \<open>on_def\<close> are the files that the open creates on a branch and at the default path.
  \<open>None\<close> is a fault: the code looks at the file of \<^verbatim>\<open>AUFS_XINO_DEFPATH\<close> before it tests that there
  is one. The calls of the first case are \<^verbatim>\<open>__getname\<close> and \<^verbatim>\<open>d_path\<close>.
\<close>

definition au_xino_def :: "au_sbinfo \<Rightarrow> (int \<Rightarrow> xfile) \<Rightarrow> xfile \<Rightarrow> bool \<Rightarrow> ((int + nat) \<times> au_sbinfo) option" where
  "au_xino_def s on_br on_def same_sb =
     (case find (\<lambda>i. au_br_writable (br_perm (sbr s i)) \<and> \<not> sb_nolocal s (br_sb (sbr s i))) [0..sbend s] of
        Some bwr \<Rightarrow>
          let (e, s) = call s
          in if e \<noteq> 0 then Some (Inl (- ENOMEM), s)
             else
               let (e, s) = call s
               in if e \<noteq> 0 then Some (Inl e, s)
                  else (case au_xino_create s (on_br bwr) same_sb of
                          (Inl err, s) \<Rightarrow> Some (Inl err, s)
                        | (Inr f, s) \<Rightarrow> Some (Inr f, s\<lparr>si_xino_def_br := Some (br_id (sbr s bwr))\<rparr>))
      | None \<Rightarrow>
          (case au_xino_create s on_def same_sb of
             (Inl err, s) \<Rightarrow> None
           | (Inr f, s) \<Rightarrow>
               if f_nolocal (file_at s f) then Some (Inl (- EINVAL), fput f s)
               else Some (Inr f, s\<lparr>si_xino_def_br := None\<rparr>)))"

end
