(* ===== verification/Aufs_Xib.thy ===== *)
theory Aufs_Xib
  imports Aufs_Xino_Set
begin

text \<open>
  The bitmap of inode numbers, seen as one sequence of bytes: the page in memory lies over the
  bytes of the file, and the file is zero behind its end. While the lower filesystem does what it
  is asked to (it may interrupt any call, which is then repeated) moving to another page keeps
  this view.
\<close>

section \<open>Bytes written\<close>

lemma nth_bytes_write:
  "i < max (length bytes) (pos + length new) \<Longrightarrow> new \<noteq> [] \<Longrightarrow>
   bytes_write bytes pos new ! i =
     (if i < pos then (if i < length bytes then bytes ! i else 0)
      else if i < pos + length new then new ! (i - pos) else bytes ! i)"
  by (auto simp: bytes_write_def nth_append min_def)

lemma length_bytes_write:
  "new \<noteq> [] \<Longrightarrow> length (bytes_write bytes pos new) = max (length bytes) (pos + length new)"
  by (auto simp: bytes_write_def)

section \<open>State lemmas\<close>

lemma upd_file_sel [simp]:
  "si_branch (upd_file f g s) = si_branch s" "opt_xino (upd_file f g s) = opt_xino s"
  "si_xib (upd_file f g s) = si_xib s" "si_xib_buf (upd_file f g s) = si_xib_buf s"
  "si_xib_last_pindex (upd_file f g s) = si_xib_last_pindex s"
  "si_xib_next_bit (upd_file f g s) = si_xib_next_bit s" "io (upd_file f g s) = io s"
  "ops (upd_file f g s) = ops s" "in_wkq (upd_file f g s) = in_wkq s"
  "length (xfiles (upd_file f g s)) = length (xfiles s)" "si_xread (upd_file f g s) = si_xread s"
  "si_xwrite (upd_file f g s) = si_xwrite s" "opt_trunc_xino (upd_file f g s) = opt_trunc_xino s"
  "sb_tmpfs (upd_file f g s) = sb_tmpfs s" "i_blocks (upd_file f g s) = i_blocks s"
  by (simp_all add: upd_file_def)

lemma file_at_upd_file:
  "f < length (xfiles s) \<Longrightarrow> file_at (upd_file f g s) h = (if h = f then g (file_at s f) else file_at s h)"
  by (simp add: upd_file_def file_at_def)

lemma file_at_cong [simp]:
  "file_at (s\<lparr>si_branch := a\<rparr>) h = file_at s h" "file_at (s\<lparr>si_xib_buf := b\<rparr>) h = file_at s h"
  "file_at (s\<lparr>si_xib_last_pindex := l\<rparr>) h = file_at s h" "file_at (s\<lparr>si_xib_next_bit := n\<rparr>) h = file_at s h"
  "file_at (s\<lparr>io := rs\<rparr>) h = file_at s h" "file_at (s\<lparr>ops := os\<rparr>) h = file_at s h"
  "file_at (s\<lparr>mnt_count := c\<rparr>) h = file_at s h" "file_at (s\<lparr>jobs := j\<rparr>) h = file_at s h"
  "file_at (s\<lparr>si_xib := x\<rparr>) h = file_at s h" "file_at (s\<lparr>si_xread := r\<rparr>) h = file_at s h"
  "file_at (s\<lparr>si_xwrite := w\<rparr>) h = file_at s h"
  by (simp_all add: file_at_def)

definition io_fine :: "io_result list \<Rightarrow> bool" where
  "io_fine rs \<longleftrightarrow> (\<forall>r \<in> set rs. r = Io_Ok \<or> r = Io_Err EAGAIN \<or> r = Io_Err EINTR)"

definition fine :: "au_sbinfo \<Rightarrow> bool" where
  "fine s \<longleftrightarrow> io_fine (io s) \<and> (\<forall>e \<in> set (ops s). e = 0)"

lemma fine_upd [simp]:
  "fine (upd_file f g s) = fine s" "fine (s\<lparr>si_branch := a\<rparr>) = fine s" "fine (s\<lparr>si_xib_buf := b\<rparr>) = fine s"
  "fine (s\<lparr>si_xib_last_pindex := l\<rparr>) = fine s" "fine (s\<lparr>si_xib_next_bit := n\<rparr>) = fine s"
  "fine (s\<lparr>mnt_count := c\<rparr>) = fine s" "fine (s\<lparr>jobs := j\<rparr>) = fine s"
  "fine (s\<lparr>si_xib := x\<rparr>) = fine s"
  by (simp_all add: fine_def)

lemma io_call_fine: "io_fine rs \<Longrightarrow> \<exists>rs'. io_call rs = (Io_Ok, rs') \<and> io_fine rs'"
  by (induction rs) (auto simp: io_fine_def)

lemma call_fine:
  assumes "fine s"
  shows "call s = (0, s\<lparr>ops := tl (ops s)\<rparr>) \<and> fine (s\<lparr>ops := tl (ops s)\<rparr>)"
proof (cases "ops s")
  case Nil
  moreover have "s\<lparr>ops := ops s\<rparr> = s" by simp
  ultimately show ?thesis using assms by (simp add: call_def fine_def)
qed (use assms in \<open>auto simp: call_def fine_def\<close>)

lemma fwrite_fine:
  assumes "fine s"
  shows "\<exists>rs os. xino_fwrite s f buf pos = (int (length buf),
      upd_file f (\<lambda>x. x\<lparr>f_data := bytes_write (f_data (file_at s f)) pos buf\<rparr>) (s\<lparr>ops := os, io := rs\<rparr>)) \<and>
    fine (s\<lparr>ops := os, io := rs\<rparr>)"
proof -
  obtain rs where rs: "io_call (io s) = (Io_Ok, rs)" "io_fine rs"
    using io_call_fine assms unfolding fine_def by blast
  show ?thesis
  proof (cases "in_wkq s")
    case True
    have e: "s\<lparr>ops := ops s\<rparr> = s" by simp
    have "xino_fwrite s f buf pos = (int (length buf),
        upd_file f (\<lambda>x. x\<lparr>f_data := bytes_write (f_data (file_at s f)) pos buf\<rparr>) (s\<lparr>ops := ops s, io := rs\<rparr>))"
      unfolding e using True rs(1) by (simp add: xino_fwrite_def do_xino_fwrite_def vfs_write_def)
    moreover have "fine (s\<lparr>ops := ops s, io := rs\<rparr>)" using assms rs(2) by (simp add: fine_def)
    ultimately show ?thesis by blast
  next
    case False
    with rs call_fine[OF assms] show ?thesis
      by (intro exI[of _ rs] exI[of _ "tl (ops s)"]) (simp add: xino_fwrite_def do_xino_fwrite_def vfs_write_def fine_def)
  qed
qed

lemma fread_fine:
  assumes "fine s" "pos + length buf \<le> i_size s f"
  shows "\<exists>rs. xino_fread s f buf pos =
      (int (length buf), take (length buf) (drop pos (f_data (file_at s f))), s\<lparr>io := rs\<rparr>) \<and> fine (s\<lparr>io := rs\<rparr>)"
proof -
  obtain rs where "io_call (io s) = (Io_Ok, rs)" "io_fine rs"
    using io_call_fine assms(1) unfolding fine_def by blast
  with assms show ?thesis by (auto simp: xino_fread_def vfs_read_def fine_def i_size_def Let_def min_def)
qed

section \<open>The view\<close>

definition xib_byte :: "au_sbinfo \<Rightarrow> nat \<Rightarrow> u8" where
  "xib_byte s i =
     (if i div PAGE_SIZE = si_xib_last_pindex s then xib_buf s ! (i mod PAGE_SIZE)
      else let bytes = f_data (file_at s (the (si_xib s))) in if i < length bytes then bytes ! i else 0)"

definition used_bit :: "au_sbinfo \<Rightarrow> nat \<Rightarrow> bool" where
  "used_bit s n = bit (xib_byte s (n div 8)) (n mod 8)"

definition xib_pages :: "au_sbinfo \<Rightarrow> nat" where
  "xib_pages s = i_size s (the (si_xib s)) div PAGE_SIZE"

definition maps_ok :: "au_sbinfo \<Rightarrow> bool" where
  "maps_ok s \<longleftrightarrow> (\<forall>br \<in> set (si_branch s). \<exists>g. xi_file br = Some g \<and> g < length (xfiles s) \<and>
     si_xib s \<noteq> Some g \<and> 4 dvd length (f_data (file_at s g)))"

definition xib_ok :: "au_sbinfo \<Rightarrow> bool" where
  "xib_ok s \<longleftrightarrow> opt_xino s \<and> fine s \<and>
     (\<exists>f p. si_xib s = Some f \<and> f < length (xfiles s) \<and> si_xib_buf s = Some p \<and> length p = PAGE_SIZE \<and>
       i_size s f = xib_pages s * PAGE_SIZE) \<and> si_xib_last_pindex s < xib_pages s \<and> maps_ok s"

text \<open>The page in memory may be one the file does not reach (after a truncation).\<close>

definition xib_ok0 :: "au_sbinfo \<Rightarrow> bool" where
  "xib_ok0 s \<longleftrightarrow> opt_xino s \<and> fine s \<and>
     (\<exists>f p. si_xib s = Some f \<and> f < length (xfiles s) \<and> si_xib_buf s = Some p \<and> length p = PAGE_SIZE \<and>
       i_size s f = xib_pages s * PAGE_SIZE) \<and> maps_ok s"

lemma xib_ok_ok0: "xib_ok s \<Longrightarrow> xib_ok0 s"
  by (simp add: xib_ok_def xib_ok0_def)

text \<open>What the operations on the bitmap leave alone.\<close>

definition xib_frame :: "au_sbinfo \<Rightarrow> au_sbinfo \<Rightarrow> bool" where
  "xib_frame s s' \<longleftrightarrow> si_branch s' = si_branch s \<and> si_xib s' = si_xib s \<and> opt_xino s' = opt_xino s \<and>
     length (xfiles s') = length (xfiles s) \<and> (\<forall>g. si_xib s \<noteq> Some g \<longrightarrow> file_at s' g = file_at s g)"

lemma xib_frame_refl: "xib_frame s s"
  by (simp add: xib_frame_def)

lemma xib_frame_trans: "xib_frame s s' \<Longrightarrow> xib_frame s' s'' \<Longrightarrow> xib_frame s s''"
  by (auto simp: xib_frame_def)

lemma maps_ok_frame:
  assumes "maps_ok s" "xib_frame s s'"
  shows "maps_ok s'"
  unfolding maps_ok_def
proof
  fix br assume "br \<in> set (si_branch s')"
  then have "br \<in> set (si_branch s)" using assms(2) by (simp add: xib_frame_def)
  then obtain g where "xi_file br = Some g" "g < length (xfiles s)" "si_xib s \<noteq> Some g" "4 dvd length (f_data (file_at s g))"
    using assms(1) by (auto simp: maps_ok_def)
  then show "\<exists>g. xi_file br = Some g \<and> g < length (xfiles s') \<and> si_xib s' \<noteq> Some g \<and> 4 dvd length (f_data (file_at s' g))"
    using assms(2) by (intro exI[of _ g]) (simp add: xib_frame_def)
qed

lemma xib_ok_obtain:
  assumes "xib_ok s"
  obtains f p where "si_xib s = Some f" "f < length (xfiles s)" "si_xib_buf s = Some p" "length p = 4096"
    "length (f_data (file_at s f)) = xib_pages s * 4096" "si_xib_last_pindex s < xib_pages s" "fine s"
  using assms by (auto simp: xib_ok_def i_size_def)

lemma xib_pages_eq: "si_xib s = Some f \<Longrightarrow> length (f_data (file_at s f)) = n * 4096 \<Longrightarrow> xib_pages s = n"
  by (simp add: xib_pages_def i_size_def)

lemma page_of: "(i :: nat) div 4096 = p \<longleftrightarrow> p * 4096 \<le> i \<and> i < p * 4096 + 4096"
  by (auto simp: div_nat_eqI)

lemma mod_page: "(i :: nat) div 4096 = p \<Longrightarrow> i mod 4096 = i - p * 4096"
  by (simp add: modulo_nat_def)

text \<open>Moving to another page; the page in memory may lie behind the end of the file.\<close>

lemma xib_pindex_move:
  assumes ok: "xib_ok0 s" and False: "p \<noteq> si_xib_last_pindex s"
  shows "\<exists>s'. xib_pindex s p = (0, s') \<and> xib_ok s' \<and> xib_frame s s' \<and> si_xib_last_pindex s' = p \<and>
    xib_byte s' = xib_byte s \<and> si_xib_next_bit s' = si_xib_next_bit s \<and>
    xib_pages s' = max (max (xib_pages s) (si_xib_last_pindex s + 1)) (p + 1)"
proof -
  obtain f b where f: "si_xib s = Some f" "f < length (xfiles s)" "si_xib_buf s = Some b" "length b = 4096"
    "length (f_data (file_at s f)) = xib_pages s * 4096" "fine s"
    using ok by (auto simp: xib_ok0_def i_size_def)
  let ?l = "si_xib_last_pindex s" and ?d = "f_data (file_at s f)"
  let ?d1 = "bytes_write ?d (?l * 4096) b"
  obtain rs os where w: "xino_fwrite s f b (?l * 4096) =
      (4096, upd_file f (\<lambda>x. x\<lparr>f_data := ?d1\<rparr>) (s\<lparr>ops := os, io := rs\<rparr>))" "fine (s\<lparr>ops := os, io := rs\<rparr>)"
    using fwrite_fine[OF f(6), of f b "?l * 4096"] f(4) by auto
  let ?s1 = "upd_file f (\<lambda>x. x\<lparr>f_data := ?d1\<rparr>) (s\<lparr>ops := os, io := rs\<rparr>)"
  have bn: "b \<noteq> []" using f(4) by auto
  define m where "m = max (xib_pages s) (?l + 1)"
  have m: "xib_pages s \<le> m" "?l < m" "xib_pages s * 4096 \<le> m * 4096" by (simp_all add: m_def)
  have l1: "length ?d1 = m * 4096" using f(4,5) bn by (simp add: length_bytes_write m_def max_def)
  have n1: "?d1 ! i = (if i div 4096 = ?l then b ! (i mod 4096) else if i < xib_pages s * 4096 then ?d ! i else 0)"
    if "i < m * 4096" for i
  proof -
    have "i < max (length ?d) (?l * 4096 + length b)" using that l1 bn by (simp add: length_bytes_write)
    from nth_bytes_write[OF this bn] show ?thesis
      using f(4,5) mod_page[of i ?l] \<open>i < max _ _\<close> by (auto simp: page_of)
  qed
  have fa1: "f_data (file_at ?s1 f) = ?d1" using f(2) by (simp add: file_at_upd_file)
  show ?thesis
  proof (cases "p < m")
    case True
    let ?b = "take 4096 (drop (p * 4096) ?d1)"
    have sz: "p * 4096 + length b \<le> i_size ?s1 f" using True l1 f(4) by (simp add: i_size_def fa1)
    obtain rs' where r: "xino_fread ?s1 f b (p * 4096) = (4096, ?b, ?s1\<lparr>io := rs'\<rparr>)" "fine (?s1\<lparr>io := rs'\<rparr>)"
      using fread_fine[of ?s1, OF _ sz] w(2) f(4) by (auto simp: fa1)
    let ?s' = "?s1\<lparr>io := rs', si_xib_buf := Some ?b, si_xib_last_pindex := p\<rparr>"
    have e: "xib_pindex s p = (0, ?s')"
      using False f(1,3,4) w(1) r(1) sz by (simp add: xib_pindex_def)
    have fa: "file_at ?s' g = (if g = f then (file_at s f)\<lparr>f_data := ?d1\<rparr> else file_at s g)" for g
      using f(2) by (simp add: file_at_upd_file)
    have pg: "xib_pages ?s' = m" by (rule xib_pages_eq[of _ f]) (use l1 f(1) fa[of f] in simp_all)
    have lb: "length ?b = 4096" using l1 True by simp
    have "xib_byte ?s' i = xib_byte s i" for i
    proof (cases "i div 4096 = p")
      case True
      have i: "i < m * 4096" "p * 4096 + i mod 4096 = i"
        using \<open>p < m\<close> True mod_page[OF True] by (auto simp: page_of)
      show ?thesis using True i l1 False n1[OF i(1)] f(1,5) by (simp add: xib_byte_def Let_def)
    next
      case np: False
      have sb: "the (si_xib_buf s) = b" using f(3) by simp
      have "i div 4096 = ?l \<Longrightarrow> i < m * 4096" using m(2) by (auto simp: page_of)
      then show ?thesis using np l1 n1[of i] f(1,5) sb f(2) m(3) by (auto simp: xib_byte_def Let_def file_at_upd_file)
    qed
    moreover have fr: "xib_frame s ?s'" using f(1,2) by (simp add: xib_frame_def file_at_upd_file)
    moreover have mo: "maps_ok ?s'" using maps_ok_frame[OF _ fr] ok by (simp add: xib_ok0_def)
    moreover have "xib_ok ?s'" using ok f r(2) True lb l1 mo
      by (simp add: xib_ok0_def xib_ok_def pg) (simp add: i_size_def file_at_upd_file)
    moreover have "max (max (xib_pages s) (?l + 1)) (p + 1) = m" using True by (simp add: m_def)
    ultimately show ?thesis using e pg by (intro exI[of _ ?s'] conjI ext) simp_all
  next
    case np: False
    let ?z = "replicate 4096 (0 :: u8)"
    let ?s2 = "?s1\<lparr>si_xib_buf := Some ?z\<rparr>"
    let ?d2 = "bytes_write ?d1 (p * 4096) ?z"
    have "fine ?s2" using w(2) by simp
    from fwrite_fine[OF this, of f ?z "p * 4096"] obtain rs' os' where
      r: "xino_fwrite ?s2 f ?z (p * 4096) = (4096, upd_file f (\<lambda>x. x\<lparr>f_data := ?d2\<rparr>) (?s2\<lparr>ops := os', io := rs'\<rparr>))"
      "fine (?s2\<lparr>ops := os', io := rs'\<rparr>)" using fa1 by auto
    let ?s' = "(upd_file f (\<lambda>x. x\<lparr>f_data := ?d2\<rparr>) (?s2\<lparr>ops := os', io := rs'\<rparr>))\<lparr>si_xib_last_pindex := p\<rparr>"
    have sz: "\<not> p * 4096 + 4096 \<le> i_size ?s1 f" using np l1 by (simp add: i_size_def fa1)
    have e: "xib_pindex s p = (0, ?s')"
      using False f(1,3,4) w(1) r(1) sz by (simp add: xib_pindex_def i_size_def)
    have fa: "file_at ?s' g = (if g = f then (file_at s f)\<lparr>f_data := ?d2\<rparr> else file_at s g)" for g
      using f(2) by (simp add: file_at_upd_file)
    have l2: "length ?d2 = (p + 1) * 4096" using np l1 by (simp add: length_bytes_write)
    have n2: "?d2 ! i = (if i < m * 4096 then ?d1 ! i else 0)" if "i < (p + 1) * 4096" for i
      using that np l1 by (auto simp: nth_bytes_write max_def)
    have pg: "xib_pages ?s' = p + 1" by (rule xib_pages_eq[of _ f]) (use l2 f(1) fa[of f] in simp_all)
    have "xib_byte ?s' i = xib_byte s i" for i
    proof (cases "i div 4096 = p")
      case True
      have i: "\<not> i < m * 4096" using np True by (auto simp: page_of)
      show ?thesis using True i False f(1,5) m(3) by (simp add: xib_byte_def Let_def)
    next
      case nip: False
      have sb: "the (si_xib_buf s) = b" using f(3) by simp
      have "i div 4096 = ?l \<Longrightarrow> i < m * 4096" using m(2) by (auto simp: page_of)
      moreover have "i < m * 4096 \<Longrightarrow> i < (p + 1) * 4096" using np by simp
      ultimately show ?thesis using nip l2 n2[of i] n1[of i] f(1,5) sb f(2) m(3) by (auto simp: xib_byte_def Let_def file_at_upd_file)
    qed
    moreover have fr: "xib_frame s ?s'" using f(1,2) by (simp add: xib_frame_def file_at_upd_file)
    moreover have mo: "maps_ok ?s'" using maps_ok_frame[OF _ fr] ok by (simp add: xib_ok0_def)
    moreover have "xib_ok ?s'" using ok f r(2) l2 mo
      by (simp add: xib_ok0_def xib_ok_def pg) (simp add: i_size_def file_at_upd_file)
    moreover have "max (max (xib_pages s) (?l + 1)) (p + 1) = p + 1" using np by (simp add: m_def)
    ultimately show ?thesis using e pg by (intro exI[of _ ?s'] conjI ext) simp_all
  qed
qed

lemma xib_pindex_fine:
  assumes ok: "xib_ok s"
  shows "\<exists>s'. xib_pindex s p = (0, s') \<and> xib_ok s' \<and> xib_frame s s' \<and> si_xib_last_pindex s' = p \<and>
    xib_byte s' = xib_byte s \<and> si_xib_next_bit s' = si_xib_next_bit s \<and>
    xib_pages s' = max (xib_pages s) (p + 1)"
proof (cases "p = si_xib_last_pindex s")
  case True
  then show ?thesis using ok by (auto simp: xib_pindex_def xib_frame_refl xib_ok_def)
next
  case False
  have "max (xib_pages s) (si_xib_last_pindex s + 1) = xib_pages s" using ok by (simp add: xib_ok_def)
  with xib_pindex_move[OF xib_ok_ok0[OF ok] False] show ?thesis by simp
qed

end
