(* ===== verification/Aufs_Xino_Run.thy ===== *)
theory Aufs_Xino_Run
  imports Aufs_Xib
begin

text \<open>
  The operations on inode numbers against a table: the set of numbers in use and, for every map
  file, the number of each lower inode.
\<close>

section \<open>Bits of the page in memory\<close>

lemma first_zero_in_spec:
  "n \<le> first_zero_in n k w \<and> first_zero_in n k w \<le> n + k \<and>
   (first_zero_in n k w < n + k \<longrightarrow> \<not> bit w (first_zero_in n k w)) \<and>
   (\<forall>m. n \<le> m \<and> m < first_zero_in n k w \<longrightarrow> bit w m)"
proof (induction k arbitrary: n)
  case (Suc k)
  have "n \<le> m \<Longrightarrow> m = n \<or> n + 1 \<le> m" for m :: nat by linarith
  with Suc[of "n + 1"] show ?case by auto
qed auto

lemma find_first_zero_bit_spec:
  "(find_first_zero_bit p < 8 * length p \<longrightarrow> \<not> test_bit_at (find_first_zero_bit p) p) \<and>
   (\<forall>m < find_first_zero_bit p. m < 8 * length p \<longrightarrow> test_bit_at m p)"
proof (induction p)
  case (Cons w ws)
  let ?n = "first_zero_in 0 8 w"
  note z = first_zero_in_spec[of 0 8 w]
  show ?case
  proof (cases "?n < 8")
    case True
    with z show ?thesis by (auto simp: test_bit_at_def)
  next
    case False
    then have n: "?n = 8" using z by simp
    have "test_bit_at m (w # ws) = (if m < 8 then bit w m else test_bit_at (m - 8) ws)" for m
    proof (cases "m < 8")
      case False
      then obtain k where "m = k + 8" by (metis add.commute le_Suc_ex not_less)
      moreover have "(k + 8) div 8 = Suc (k div 8)" by presburger
      ultimately show ?thesis by (simp add: test_bit_at_def)
    qed (simp add: test_bit_at_def)
    moreover have "bit w m" if "m < 8" for m using z n that by simp
    ultimately show ?thesis using Cons n by auto
  qed
qed simp

lemma find_first_zero_bit_none:
  assumes "\<not> find_first_zero_bit p < 8 * length p" "m < 8 * length p"
  shows "test_bit_at m p"
  using find_first_zero_bit_spec[of p] assms by auto

lemma page_bit_index:
  assumes "b < page_bits"
  shows "(L * page_bits + b) div 8 div PAGE_SIZE = L" "(L * page_bits + b) div 8 mod PAGE_SIZE = b div 8"
    "(L * page_bits + b) mod 8 = b mod 8"
proof -
  have e: "L * 32768 + b = b + (L * 4096) * 8" by simp
  have d: "(L * 32768 + b) div 8 = L * 4096 + b div 8" unfolding e by (rule div_mult_self1) simp
  have "b div 8 < 4096" using assms by simp
  then show "(L * 32768 + b) div 8 div 4096 = L" "(L * 32768 + b) div 8 mod 4096 = b div 8" unfolding d by simp_all
  show "(L * 32768 + b) mod 8 = b mod 8" unfolding e by (rule mod_mult_self1)
qed

lemma page_bit_unique:
  assumes "b < page_bits"
  shows "n div 8 div PAGE_SIZE = L \<and> n div 8 mod PAGE_SIZE = b div 8 \<and> n mod 8 = b mod 8 \<longleftrightarrow> n = L * page_bits + b"
proof
  assume a: "n div 8 div 4096 = L \<and> n div 8 mod 4096 = b div 8 \<and> n mod 8 = b mod 8"
  have "n div 8 = L * 4096 + b div 8" using div_mult_mod_eq[of "n div 8" 4096] a by simp
  then show "n = L * 32768 + b" using div_mult_mod_eq[of n 8] div_mult_mod_eq[of b 8] a by linarith
qed (use page_bit_index[OF assms] in simp)

lemma used_bit_page:
  assumes "b < page_bits"
  shows "used_bit s (si_xib_last_pindex s * page_bits + b) = test_bit_at b (xib_buf s)"
  using page_bit_index[OF assms, of "si_xib_last_pindex s"] by (simp add: used_bit_def xib_byte_def test_bit_at_def)

lemma used_bit_buf:
  assumes "b < page_bits" "length (xib_buf s) = PAGE_SIZE"
  shows "used_bit (s\<lparr>si_xib_buf := Some (set_bit_at b (xib_buf s))\<rparr>) n =
      (n = si_xib_last_pindex s * page_bits + b \<or> used_bit s n)"
    and "used_bit (s\<lparr>si_xib_buf := Some (clear_bit_at b (xib_buf s))\<rparr>) n =
      (n \<noteq> si_xib_last_pindex s * page_bits + b \<and> used_bit s n)"
proof -
  let ?L = "si_xib_last_pindex s"
  have d: "n div 8 div 4096 = ?L \<and> n div 8 mod 4096 = b div 8 \<and> n mod 8 = b mod 8 \<longleftrightarrow> n = ?L * 32768 + b"
    by (rule page_bit_unique[OF assms(1)])
  have m: "n mod 8 < 8" "b div 8 < 4096" using assms(1) by auto
  show "used_bit (s\<lparr>si_xib_buf := Some (set_bit_at b (xib_buf s))\<rparr>) n =
      (n = ?L * 32768 + b \<or> used_bit s n)"
    using d m assms(2)
    by (auto simp: used_bit_def xib_byte_def Let_def set_bit_at_def nth_list_update bit_set_bit_iff)
  show "used_bit (s\<lparr>si_xib_buf := Some (clear_bit_at b (xib_buf s))\<rparr>) n =
      (n \<noteq> ?L * 32768 + b \<and> used_bit s n)"
    using d m assms(2)
    by (auto simp: used_bit_def xib_byte_def Let_def clear_bit_at_def nth_list_update bit_unset_bit_iff)
qed

lemma xib_ok_buf:
  "xib_ok s \<Longrightarrow> length p = PAGE_SIZE \<Longrightarrow> xib_ok (s\<lparr>si_xib_buf := Some p\<rparr>)"
  by (auto simp: xib_ok_def i_size_def xib_pages_def maps_ok_def)

lemma xib_upd [simp]:
  "xib_ok (s\<lparr>si_xib_next_bit := n\<rparr>) = xib_ok s" "xib_byte (s\<lparr>si_xib_next_bit := n\<rparr>) = xib_byte s"
  "used_bit (s\<lparr>si_xib_next_bit := n\<rparr>) = used_bit s" "xib_pages (s\<lparr>si_xib_next_bit := n\<rparr>) = xib_pages s"
  "xib_pages (s\<lparr>si_xib_buf := p\<rparr>) = xib_pages s"
  by (simp_all add: xib_ok_def i_size_def xib_pages_def maps_ok_def xib_byte_def used_bit_def fun_eq_iff)

lemma xib_frame_upd [simp]:
  "xib_frame s (s'\<lparr>si_xib_next_bit := n\<rparr>) = xib_frame s s'" "xib_frame s (s'\<lparr>si_xib_buf := p\<rparr>) = xib_frame s s'"
  by (simp_all add: xib_frame_def)

lemma xib_buf_length: "xib_ok s \<Longrightarrow> length (xib_buf s) = PAGE_SIZE"
  by (auto simp: xib_ok_def)

lemma used_bit_cong: "xib_byte s' = xib_byte s \<Longrightarrow> used_bit s' = used_bit s"
  by (simp add: used_bit_def fun_eq_iff)

section \<open>A new number\<close>

lemma new_ino_out_ok:
  assumes "xib_ok s" "b < page_bits" "new_ino_out b s = (ino, s')"
  shows "ino = 11 + of_nat (si_xib_last_pindex s * page_bits + b) \<and> xib_ok s' \<and> xib_frame s s' \<and>
    xib_pages s' = xib_pages s \<and> si_xib_next_bit s' = int_inc (si_xib_next_bit s) \<and>
    used_bit s' = (\<lambda>n. n = si_xib_last_pindex s * page_bits + b \<or> used_bit s n)"
proof -
  have s': "s' = s\<lparr>si_xib_buf := Some (set_bit_at b (xib_buf s)), si_xib_next_bit := int_inc (si_xib_next_bit s)\<rparr>"
    and i: "ino = xib_calc_ino (si_xib_last_pindex s) b" using assms(3) by (simp_all add: new_ino_out_def)
  have "xib_ok s'" unfolding s' using xib_ok_buf[OF assms(1)] xib_buf_length[OF assms(1)]
    by (simp add: set_bit_at_def)
  moreover have "used_bit s' = (\<lambda>n. n = si_xib_last_pindex s * page_bits + b \<or> used_bit s n)"
    using used_bit_buf(1)[OF assms(2) xib_buf_length[OF assms(1)]] by (simp add: s' fun_eq_iff)
  ultimately show ?thesis using i by (simp add: s' xib_calc_ino_def xib_frame_refl)
qed

text \<open>What a scan guarantees: it finds a clear bit of the page it leaves in memory, or nothing.\<close>

definition scan_ok :: "au_sbinfo \<Rightarrow> search \<times> au_sbinfo \<Rightarrow> bool" where
  "scan_ok s rs = (case rs of (r, s') \<Rightarrow> xib_ok s' \<and> xib_frame s s' \<and> xib_byte s' = xib_byte s \<and>
     si_xib_next_bit s' = si_xib_next_bit s \<and> r \<noteq> Fail \<and>
     (\<forall>b. r = Hit b \<longrightarrow> b < page_bits \<and> \<not> test_bit_at b (xib_buf s')))"

lemma scan_ok_trans:
  assumes "xib_frame s s1" "xib_byte s1 = xib_byte s" "si_xib_next_bit s1 = si_xib_next_bit s" "scan_ok s1 rs"
  shows "scan_ok s rs"
  using assms xib_frame_trans[of s s1] by (auto simp: scan_ok_def split: prod.splits)

lemma scan_hit:
  assumes "xib_ok s1" "xib_frame s s1" "xib_byte s1 = xib_byte s" "si_xib_next_bit s1 = si_xib_next_bit s"
    "find_first_zero_bit (xib_buf s1) < page_bits"
  shows "scan_ok s (Hit (find_first_zero_bit (xib_buf s1)), s1)"
  using assms find_first_zero_bit_spec[of "xib_buf s1"] xib_buf_length[OF assms(1)] by (auto simp: scan_ok_def)

lemma new_ino_down_ok:
  "xib_ok s \<Longrightarrow> n \<le> xib_pages s \<Longrightarrow>
   scan_ok s (new_ino_down n s) \<and> xib_pages (snd (new_ino_down n s)) = xib_pages s"
proof (induction n arbitrary: s)
  case 0
  then show ?case by (simp add: scan_ok_def xib_frame_refl)
next
  case (Suc n)
  obtain s1 where s1: "xib_pindex s n = (0, s1)" "xib_ok s1" "xib_frame s s1" "xib_byte s1 = xib_byte s"
    "si_xib_next_bit s1 = si_xib_next_bit s" "xib_pages s1 = xib_pages s"
    using xib_pindex_fine[OF Suc.prems(1), of n] Suc.prems(2) by (auto simp: max_def)
  have "scan_ok s1 (new_ino_down n s1)" "xib_pages (snd (new_ino_down n s1)) = xib_pages s"
    using Suc.IH[OF s1(2)] s1(6) Suc.prems(2) by auto
  then show ?case using s1 scan_hit[OF s1(2-5)] scan_ok_trans[OF s1(3-5)] by (simp add: Let_def)
qed

lemma xib_byte_beyond:
  assumes "xib_ok s" "xib_pages s \<le> i div 4096"
  shows "xib_byte s i = 0"
proof -
  obtain f p where "si_xib s = Some f" "length (f_data (file_at s f)) = xib_pages s * 4096"
    "si_xib_last_pindex s < xib_pages s" by (rule xib_ok_obtain[OF assms(1)])
  moreover have "\<not> i < xib_pages s * 4096" using assms(2) by (simp add: less_mult_imp_div_less not_less)
  ultimately show ?thesis using assms(2) by (auto simp: xib_byte_def)
qed

lemma new_ino_up_ok:
  "xib_ok s \<Longrightarrow> ul \<le> xib_pages s \<Longrightarrow> ul + n = xib_pages s + 1 \<Longrightarrow>
   scan_ok s (new_ino_up n ul s) \<and> fst (new_ino_up n ul s) \<noteq> Miss \<and>
   xib_pages (snd (new_ino_up n ul s)) \<le> xib_pages s + 1"
proof (induction n arbitrary: s ul)
  case 0
  then show ?case by simp
next
  case (Suc n)
  obtain s1 where s1: "xib_pindex s ul = (0, s1)" "xib_ok s1" "xib_frame s s1" "xib_byte s1 = xib_byte s"
    "si_xib_next_bit s1 = si_xib_next_bit s" "xib_pages s1 = max (xib_pages s) (ul + 1)" "si_xib_last_pindex s1 = ul"
    using xib_pindex_fine[OF Suc.prems(1), of ul] by auto
  note hit = scan_hit[OF s1(2-5)]
  show ?case
  proof (cases "find_first_zero_bit (xib_buf s1) < 32768")
    case True
    with s1 hit Suc.prems show ?thesis by (simp add: Let_def)
  next
    case False
    have "ul < xib_pages s"
    proof (rule ccontr)
      assume "\<not> ul < xib_pages s"
      then have "xib_byte s (4096 * ul) = 0" using xib_byte_beyond[OF Suc.prems(1)] by simp
      then have "\<not> used_bit s1 (ul * 32768 + 0)" using s1(4) by (simp add: used_bit_def)
      then have "\<not> test_bit_at 0 (xib_buf s1)" using used_bit_page[of 0 s1] s1(7) by simp
      then show False using False find_first_zero_bit_none[of "xib_buf s1" 0] xib_buf_length[OF s1(2)] by simp
    qed
    then have p: "ul + 1 \<le> xib_pages s1" "ul + 1 + n = xib_pages s1 + 1" "xib_pages s1 = xib_pages s"
      using s1(6) Suc.prems by auto
    show ?thesis using Suc.IH[OF s1(2) p(1,2)] p(3) s1 False scan_ok_trans[OF s1(3-5)] by (simp add: Let_def)
  qed
qed

lemma new_ino_scan_ok:
  assumes "xib_ok s"
  shows "\<exists>b s'. new_ino_scan s = (Hit b, s') \<and> scan_ok s (Hit b, s') \<and> xib_pages s' \<le> xib_pages s + 1"
proof -
  let ?p = "si_xib_last_pindex s"
  obtain r s1 where d: "new_ino_down ?p s = (r, s1)" by fastforce
  have lt: "?p < xib_pages s" using assms by (simp add: xib_ok_def)
  have d1: "scan_ok s (r, s1)" "xib_pages s1 = xib_pages s" using new_ino_down_ok[OF assms, of ?p] lt d by auto
  show ?thesis
  proof (cases "r = Miss")
    case False
    then show ?thesis using d d1 by (cases r) (auto simp: new_ino_scan_def scan_ok_def)
  next
    case True
    have o: "xib_ok s1" "xib_frame s s1" "xib_byte s1 = xib_byte s" "si_xib_next_bit s1 = si_xib_next_bit s"
      using d1 by (auto simp: scan_ok_def)
    have "?p + 1 \<le> xib_pages s1" "?p + 1 + (xib_pages s1 + 1 - (?p + 1)) = xib_pages s1 + 1" using lt d1(2) by auto
    note u = new_ino_up_ok[OF o(1) this]
    have e: "new_ino_scan s = new_ino_up (xib_pages s1 + 1 - (?p + 1)) (?p + 1) s1"
      using d True by (simp add: new_ino_scan_def xib_pages_def Let_def)
    have "scan_ok s (new_ino_scan s)" "fst (new_ino_scan s) \<noteq> Miss" "xib_pages (snd (new_ino_scan s)) \<le> xib_pages s + 1"
      unfolding e using u scan_ok_trans[OF o(2-4)] d1(2) by auto
    then show ?thesis by (cases "new_ino_scan s"; cases "fst (new_ino_scan s)") (auto simp: scan_ok_def)
  qed
qed

lemma new_ino_fine:
  assumes ok: "xib_ok s" and nb: "0 \<le> si_xib_next_bit s"
  shows "\<exists>n s'. au_xino_new_ino s = Some (11 + of_nat n, s') \<and> \<not> used_bit s n \<and>
    used_bit s' = (\<lambda>m. m = n \<or> used_bit s m) \<and> xib_ok s' \<and> xib_frame s s' \<and> n < xib_pages s' * page_bits \<and>
    xib_pages s' \<le> xib_pages s + 1 \<and> si_xib_next_bit s' = int_inc (si_xib_next_bit s)"
proof -
  have out: ?thesis
    if r: "au_xino_new_ino s = Some (new_ino_out b s1)" and s1: "scan_ok s (Hit b, s1)" "xib_pages s1 \<le> xib_pages s + 1"
    for b s1
  proof -
    let ?n = "si_xib_last_pindex s1 * 32768 + b"
    have o: "xib_ok s1" "xib_frame s s1" "xib_byte s1 = xib_byte s" "si_xib_next_bit s1 = si_xib_next_bit s"
      "b < 32768" "\<not> test_bit_at b (xib_buf s1)" using s1 by (auto simp: scan_ok_def)
    obtain ino s' where n: "new_ino_out b s1 = (ino, s')" by fastforce
    note no = new_ino_out_ok[OF o(1,5) n]
    have u: "used_bit s1 = used_bit s" by (rule used_bit_cong[OF o(3)])
    have "\<not> used_bit s ?n" using used_bit_page[OF o(5), of s1] o(6) u by simp
    moreover have "?n < xib_pages s' * 32768"
    proof -
      have "si_xib_last_pindex s1 + 1 \<le> xib_pages s'" using o(1) no by (simp add: xib_ok_def)
      then show ?thesis using o(5) mult_le_mono1[of "si_xib_last_pindex s1 + 1" "xib_pages s'" 32768] by simp
    qed
    moreover have "au_xino_new_ino s = Some (11 + of_nat ?n, s')" using r n no by simp
    moreover have "xib_frame s s'" using xib_frame_trans[OF o(2)] no by blast
    ultimately show ?thesis using no u o(4) s1(2) by (intro exI[of _ ?n] exI[of _ s']) simp
  qed
  have ox: "opt_xino s" using ok by (simp add: xib_ok_def)
  have self: "scan_ok s (Hit b, s)" if "b < 32768" "\<not> test_bit_at b (xib_buf s)" for b
    using ok that by (simp add: scan_ok_def xib_frame_refl)
  obtain b s1 where sc: "new_ino_scan s = (Hit b, s1)" "scan_ok s (Hit b, s1)" "xib_pages s1 \<le> xib_pages s + 1"
    using new_ino_scan_ok[OF ok] by blast
  let ?fb = "nat (si_xib_next_bit s)" and ?z = "find_first_zero_bit (xib_buf s)"
  consider "?fb < 32768 \<and> \<not> test_bit_at ?fb (xib_buf s)" | "\<not> (?fb < 32768 \<and> \<not> test_bit_at ?fb (xib_buf s))" "?z < 32768"
    | "\<not> (?fb < 32768 \<and> \<not> test_bit_at ?fb (xib_buf s))" "\<not> ?z < 32768" by blast
  then show ?thesis
  proof cases
    case 1
    then have "au_xino_new_ino s = Some (new_ino_out ?fb s)" using ox nb by (simp add: au_xino_new_ino_def)
    then show ?thesis by (rule out) (use 1 self in auto)
  next
    case 2
    have nz: "\<not> test_bit_at ?z (xib_buf s)" using find_first_zero_bit_spec[of "xib_buf s"] xib_buf_length[OF ok] 2(2) by simp
    have "au_xino_new_ino s = Some (new_ino_out ?z s)"
      using ox nb 2 by (simp only: au_xino_new_ino_def Let_def if_False if_True simp_thms not_less[symmetric])
    then show ?thesis by (rule out) (use 2 nz self in auto)
  next
    case 3
    have "au_xino_new_ino s = Some (new_ino_out b s1)"
      using ox nb 3 sc(1) by (simp only: au_xino_new_ino_def Let_def if_False if_True simp_thms not_less[symmetric] prod.case search.case)
    then show ?thesis by (rule out) (use sc in auto)
  qed
qed

section \<open>The maps\<close>

lemma le32_roundtrip: "of_le32 (le32 w @ bs) = w"
proof (rule bit_word_eqI)
  fix n assume "n < LENGTH(32)"
  then have n: "n < 8 \<or> 8 \<le> n \<and> n < 16 \<or> 16 \<le> n \<and> n < 24 \<or> 24 \<le> n \<and> n < 32" by auto
  have e: "(le32 w @ bs) ! 0 = ucast w" "(le32 w @ bs) ! 1 = ucast (drop_bit 8 w)"
    "(le32 w @ bs) ! 2 = ucast (drop_bit 16 w)" "(le32 w @ bs) ! 3 = ucast (drop_bit 24 w)"
    by (simp_all add: le32_def)
  show "bit (of_le32 (le32 w @ bs)) n = bit w n"
    unfolding of_le32_def e bit_or_iff bit_push_bit_iff bit_ucast_iff bit_drop_bit_eq using n by auto
qed

lemma length_le32: "length (le32 w) = 4"
  by (simp add: le32_def)

lemma of_le32_cong: "(\<And>k. k < 4 \<Longrightarrow> a ! k = b ! k) \<Longrightarrow> of_le32 a = of_le32 b"
  by (simp add: of_le32_def)

text \<open>The number that map \<open>g\<close> has for the lower inode \<open>h\<close>, 0 for none.\<close>

definition xino_entry :: "au_sbinfo \<Rightarrow> nat \<Rightarrow> u32 \<Rightarrow> u32" where
  "xino_entry s g h =
     (let bytes = f_data (file_at s g)
      in if length bytes < unat h * 4 + 4 then 0 else of_le32 (take 4 (drop (unat h * 4) bytes)))"

lemma write_entry:
  assumes "4 dvd length bytes"
  shows "4 dvd length (bytes_write bytes (unat h * 4) (le32 w))"
    and "(let bs = bytes_write bytes (unat h * 4) (le32 w)
      in if length bs < unat k * 4 + 4 then 0 else of_le32 (take 4 (drop (unat k * 4) bs))) =
      (if k = h then w
       else if length bytes < unat k * 4 + 4 then 0 else of_le32 (take 4 (drop (unat k * 4) bytes)))"
proof -
  let ?bs = "bytes_write bytes (unat h * 4) (le32 w)"
  have ne: "le32 w \<noteq> []" by (simp add: le32_def)
  have l: "length ?bs = max (length bytes) (unat h * 4 + 4)" using length_bytes_write[OF ne] by (simp add: length_le32)
  then show "4 dvd length ?bs" using assms by (simp add: max_def)
  have n: "i < length ?bs \<Longrightarrow> ?bs ! i = (if i < unat h * 4 then (if i < length bytes then bytes ! i else 0)
      else if i < unat h * 4 + 4 then le32 w ! (i - unat h * 4) else bytes ! i)" for i
    using nth_bytes_write[of i bytes "unat h * 4" "le32 w"] ne l by (simp add: length_le32)
  obtain q where q: "length bytes = q * 4" using assms by (auto simp: dvd_def mult.commute)
  show "(let bs = ?bs in if length bs < unat k * 4 + 4 then 0 else of_le32 (take 4 (drop (unat k * 4) bs))) =
      (if k = h then w
       else if length bytes < unat k * 4 + 4 then 0 else of_le32 (take 4 (drop (unat k * 4) bytes)))"
  proof (cases "k = h")
    case True
    have "of_le32 (take 4 (drop (unat h * 4) ?bs)) = of_le32 (le32 w @ [])"
      by (rule of_le32_cong) (use l n in \<open>simp add: length_le32\<close>)
    then show ?thesis using True l le32_roundtrip[of w "[]"] by (simp add: Let_def)
  next
    case False
    then have d: "unat k < unat h \<or> unat h < unat k" using word_eq_unat[of k h] by linarith
    show ?thesis
    proof (cases "length ?bs < unat k * 4 + 4")
      case True
      then show ?thesis using False l by (simp add: Let_def)
    next
      case nl: False
      have e: "take 4 (drop (unat k * 4) ?bs) ! i =
          (if unat k < q then bytes ! (unat k * 4 + i) else 0)" if "i < 4" for i
      proof -
        have i: "unat k * 4 + i < length ?bs" using nl that by simp
        have t: "take 4 (drop (unat k * 4) ?bs) ! i = ?bs ! (unat k * 4 + i)" using nl that by simp
        from d show ?thesis
        proof
          assume "unat k < unat h"
          then have "unat k * 4 + i < unat h * 4" "unat k * 4 + i < length bytes \<longleftrightarrow> unat k < q" using that q by linarith+
          then show ?thesis using n[OF i] t by simp
        next
          assume hk: "unat h < unat k"
          then have "\<not> unat k * 4 + i < unat h * 4 + 4" "\<not> unat k * 4 + i < unat h * 4" by linarith+
          moreover have "unat k < q"
          proof (rule ccontr)
            assume "\<not> unat k < q"
            then have "q * 4 < unat k * 4 + 4" "unat h * 4 + 4 < unat k * 4 + 4" using hk by simp_all
            then have "max (length bytes) (unat h * 4 + 4) < unat k * 4 + 4" unfolding q max_less_iff_conj by blast
            with nl l show False by metis
          qed
          ultimately show ?thesis using n[OF i] t by simp
        qed
      qed
      show ?thesis
      proof (cases "unat k < q")
        case True
        have "of_le32 (take 4 (drop (unat k * 4) ?bs)) = of_le32 (take 4 (drop (unat k * 4) bytes))"
          by (rule of_le32_cong) (use e q True in simp)
        moreover have "\<not> length bytes < unat k * 4 + 4" unfolding q using True by linarith
        ultimately show ?thesis unfolding Let_def using False nl by (simp only: if_False if_True simp_thms)
      next
        case np: False
        have "of_le32 (take 4 (drop (unat k * 4) ?bs)) = of_le32 (replicate 4 0)"
          by (rule of_le32_cong) (use e np in simp)
        moreover have "of_le32 (replicate 4 0) = 0" by (simp add: of_le32_def)
        moreover have "length bytes < unat k * 4 + 4" unfolding q using np by linarith
        ultimately show ?thesis unfolding Let_def using False nl by (simp only: if_False if_True simp_thms)
      qed
    qed
  qed
qed

section \<open>Writing an entry\<close>

text \<open>The file of a branch.\<close>

definition br_file :: "au_sbinfo \<Rightarrow> int \<Rightarrow> nat" where
  "br_file s b = the (map xi_file (si_branch s) ! nat b)"

text \<open>What an operation on the maps leaves alone.\<close>

definition map_frame :: "au_sbinfo \<Rightarrow> au_sbinfo \<Rightarrow> bool" where
  "map_frame s s' \<longleftrightarrow> map xi_file (si_branch s') = map xi_file (si_branch s) \<and> xib_byte s' = xib_byte s \<and>
     xib_pages s' = xib_pages s \<and> si_xib_next_bit s' = si_xib_next_bit s \<and> si_xib s' = si_xib s \<and>
     map br_id (si_branch s') = map br_id (si_branch s)"

lemma upd_br_counters:
  assumes "\<And>b. xi_file (g b) = xi_file b \<and> br_id (g b) = br_id b" "xib_ok s" "0 \<le> bi" "bi \<le> sbend s"
  shows "xib_ok (upd_br bi g s)" "map_frame s (upd_br bi g s)"
    "\<And>h. file_at (upd_br bi g s) h = file_at s h"
    "si_branch (upd_br bi g s) = (si_branch s)[nat bi := g (sbr s bi)]"
proof -
  have fa: "file_at (upd_br bi g s) h = file_at s h" for h by (simp add: upd_br_def)
  have m: "map xi_file ((si_branch s)[nat bi := g (sbr s bi)]) = map xi_file (si_branch s)"
    "map br_id ((si_branch s)[nat bi := g (sbr s bi)]) = map br_id (si_branch s)"
    using assms(3,4) by (simp_all add: map_update assms(1) au_sbr_def au_sbend_def list_update_same_conv)
  have "maps_ok (upd_br bi g s)"
    unfolding maps_ok_def
  proof
    fix br assume "br \<in> set (si_branch (upd_br bi g s))"
    then have "xi_file br \<in> set (map xi_file (si_branch s))" unfolding m(1)[symmetric] by (auto simp: upd_br_def)
    then obtain br' where br': "br' \<in> set (si_branch s)" "xi_file br' = xi_file br" by auto
    then obtain g' where "xi_file br' = Some g'" "g' < length (xfiles s)" "si_xib s \<noteq> Some g'"
      "4 dvd length (f_data (file_at s g'))"
      using assms(2) br'(1) unfolding xib_ok_def maps_ok_def by blast
    then show "\<exists>g'. xi_file br = Some g' \<and> g' < length (xfiles (upd_br bi g s)) \<and> si_xib (upd_br bi g s) \<noteq> Some g' \<and>
        4 dvd length (f_data (file_at (upd_br bi g s) g'))"
      using br'(2) by (intro exI[of _ g']) (simp add: fa, simp add: upd_br_def)
  qed
  moreover have pg: "xib_pages (upd_br bi g s) = xib_pages s" "xib_byte (upd_br bi g s) = xib_byte s"
    by (simp_all add: xib_pages_def i_size_def xib_byte_def fun_eq_iff fa Let_def) (simp_all add: upd_br_def)
  ultimately show "xib_ok (upd_br bi g s)"
    using assms(2) by (auto simp: xib_ok_def pg) (auto simp: upd_br_def i_size_def)
  show "map_frame s (upd_br bi g s)" unfolding map_frame_def pg using m by (simp add: upd_br_def)
  show "\<And>h. file_at (upd_br bi g s) h = file_at s h" by (rule fa)
  show "si_branch (upd_br bi g s) = (si_branch s)[nat bi := g (sbr s bi)]" by (simp add: upd_br_def)
qed

lemma map_frame_trans: "map_frame s s' \<Longrightarrow> map_frame s' s'' \<Longrightarrow> map_frame s s''"
  by (simp add: map_frame_def)

text \<open>A state that differs in the parts the bitmap does not depend on.\<close>

lemma same_parts_ok:
  assumes "xib_ok s" "fine s'" "si_branch s' = si_branch s" "xfiles s' = xfiles s" "si_xib s' = si_xib s"
    "si_xib_buf s' = si_xib_buf s" "si_xib_last_pindex s' = si_xib_last_pindex s" "opt_xino s' = opt_xino s"
    "si_xib_next_bit s' = si_xib_next_bit s"
  shows "xib_ok s'" "map_frame s s'" "\<And>g. file_at s' g = file_at s g"
  using assms by (simp_all add: xib_ok_def maps_ok_def i_size_def xib_pages_def file_at_def map_frame_def
    xib_byte_def fun_eq_iff)

lemma try_trunc_fine:
  assumes ok: "xib_ok s" and b: "0 \<le> b" "b \<le> sbend s"
  shows "xib_ok (xino_try_trunc s b) \<and> map_frame s (xino_try_trunc s b) \<and>
    (\<forall>g. file_at (xino_try_trunc s b) g = file_at s g)"
proof -
  define Q where "Q s' \<longleftrightarrow> xib_ok s' \<and> map_frame s s' \<and> (\<forall>g. file_at s' g = file_at s g)" for s'
  have q0: "Q s" using ok by (simp add: Q_def map_frame_def)
  have qend: "b \<le> sbend s'" if "Q s'" for s'
    using that b(2) by (auto simp: Q_def map_frame_def au_sbend_def dest: map_eq_imp_length_eq)
  have qu: "Q (upd_br b g s')" if "Q s'" "\<And>x. xi_file (g x) = xi_file x \<and> br_id (g x) = br_id x" for s' g
    using upd_br_counters[OF that(2), of s' b] qend[OF that(1)] that(1) b(1) map_frame_trans unfolding Q_def by metis
  have qc: "Q (snd (call s'))" "fst (call s') = 0" if "Q s'" for s'
  proof -
    have f: "fine s'" using that by (simp add: Q_def xib_ok_def)
    note same_parts_ok[of s' "s'\<lparr>ops := tl (ops s')\<rparr>"]
    with call_fine[OF f] that map_frame_trans show "Q (snd (call s'))" "fst (call s') = 0" unfolding Q_def by auto
  qed
  have qm: "Q (s'\<lparr>mnt_count := c\<rparr>)" "Q (s'\<lparr>jobs := j\<rparr>)" if "Q s'" for s' c j
    using that same_parts_ok[of s' "s'\<lparr>mnt_count := c\<rparr>"] same_parts_ok[of s' "s'\<lparr>jobs := j\<rparr>"] map_frame_trans
    unfolding Q_def by (auto simp: xib_ok_def)
  let ?run = "\<lambda>d. upd_br b (\<lambda>x. x\<lparr>br_xino_running := br_xino_running x + d\<rparr>)"
  have r1: "Q (?run 1 s)" by (rule qu[OF q0]) simp
  obtain e s2 where c2: "call (?run 1 s) = (e, s2)" by fastforce
  have q2: "Q s2" "e = 0" using qc[OF r1] c2 by auto
  let ?s3 = "upd_br b (\<lambda>x. x\<lparr>br_count := br_count x + 1\<rparr>) (s2\<lparr>mnt_count := mnt_count s2 + 1\<rparr>)"
  have r3: "Q ?s3" by (rule qu[OF qm(1)[OF q2(1)]]) simp
  obtain e' s4 where c4: "call ?s3 = (e', s4)" by fastforce
  have q4: "Q s4" "e' = 0" using qc[OF r3] c4 by auto
  have "xino_try_trunc s b \<in> {s, ?run (-1) (?run 1 s), s4\<lparr>jobs := jobs s4 @ [br_id (sbr s b)]\<rparr>}"
    unfolding xino_try_trunc_def Let_def c2 prod.case using q2(2) q4(2) c4 by simp
  moreover have "Q (?run (-1) (?run 1 s))" by (rule qu[OF r1]) simp
  ultimately have "Q (xino_try_trunc s b)" using q0 qm(2)[OF q4(1)] by auto
  then show ?thesis by (simp add: Q_def)
qed

lemma write_map_ok:
  assumes ok: "xib_ok s" and g: "g < length (xfiles s)" "si_xib s \<noteq> Some g" and d: "4 dvd length d"
    and fine: "fine (s\<lparr>ops := os, io := rs\<rparr>)"
  defines "s1 \<equiv> upd_file g (\<lambda>x. x\<lparr>f_data := d\<rparr>) (s\<lparr>ops := os, io := rs\<rparr>)"
  shows "xib_ok s1 \<and> map_frame s s1"
proof -
  have fa: "file_at s1 h = (if h = g then (file_at s g)\<lparr>f_data := d\<rparr> else file_at s h)" for h
    using g(1) by (simp add: s1_def file_at_upd_file)
  have same: "si_branch s1 = si_branch s" "si_xib s1 = si_xib s" "si_xib_buf s1 = si_xib_buf s"
    "si_xib_last_pindex s1 = si_xib_last_pindex s" "opt_xino s1 = opt_xino s" "fine s1"
    "si_xib_next_bit s1 = si_xib_next_bit s" "length (xfiles s1) = length (xfiles s)"
    using fine by (simp_all add: s1_def)
  obtain f where f: "si_xib s = Some f" "f \<noteq> g" using ok g(2) by (auto simp: xib_ok_def)
  have pg: "xib_pages s1 = xib_pages s" "i_size s1 f = i_size s f" "xib_byte s1 = xib_byte s"
    using f by (simp_all add: xib_pages_def i_size_def xib_byte_def fun_eq_iff Let_def same fa)
  have "maps_ok s1"
    unfolding maps_ok_def same
  proof
    fix br assume "br \<in> set (si_branch s)"
    then obtain k where "xi_file br = Some k" "k < length (xfiles s)" "si_xib s \<noteq> Some k" "4 dvd length (f_data (file_at s k))"
      using ok unfolding xib_ok_def maps_ok_def by blast
    then show "\<exists>k. xi_file br = Some k \<and> k < length (xfiles s) \<and> si_xib s \<noteq> Some k \<and> 4 dvd length (f_data (file_at s1 k))"
      using d by (intro exI[of _ k]) (simp add: fa)
  qed
  then show ?thesis using ok f pg by (auto simp: xib_ok_def map_frame_def same)
qed

lemma branch_file:
  assumes "xib_ok s" "0 \<le> b" "b \<le> sbend s"
  shows "xi_file (sbr s b) = Some (br_file s b)" "br_file s b < length (xfiles s)" "si_xib s \<noteq> Some (br_file s b)"
    "4 dvd length (f_data (file_at s (br_file s b)))"
proof -
  have n: "nat b < length (si_branch s)" using assms(2,3) by (auto simp: au_sbend_def)
  then have "sbr s b \<in> set (si_branch s)" by (simp add: au_sbr_def)
  then obtain g where "xi_file (sbr s b) = Some g" "g < length (xfiles s)" "si_xib s \<noteq> Some g"
    "4 dvd length (f_data (file_at s g))" using assms(1) unfolding xib_ok_def maps_ok_def by blast
  moreover have "br_file s b = the (xi_file (sbr s b))" using n by (simp add: br_file_def au_sbr_def)
  ultimately show "xi_file (sbr s b) = Some (br_file s b)" "br_file s b < length (xfiles s)"
    "si_xib s \<noteq> Some (br_file s b)" "4 dvd length (f_data (file_at s (br_file s b)))" by simp_all
qed

text \<open>The map after an entry is written, and the entry read.\<close>

definition entry_upd :: "(nat \<Rightarrow> u32 \<Rightarrow> u32) \<Rightarrow> nat \<Rightarrow> u32 \<Rightarrow> u32 \<Rightarrow> nat \<Rightarrow> u32 \<Rightarrow> u32" where
  "entry_upd T g h ino = (\<lambda>g' h'. if g' = g \<and> h' = h then ino else T g' h')"

lemma xino_write_fine:
  assumes ok: "xib_ok s" and b: "0 \<le> b" "b \<le> sbend s"
  shows "\<exists>s'. au_xino_write s b h ino = (0, s') \<and> xib_ok s' \<and> map_frame s s' \<and>
    xino_entry s' = entry_upd (xino_entry s) (br_file s b) h ino"
proof -
  let ?g = "br_file s b" and ?d = "bytes_write (f_data (file_at s (br_file s b))) (unat h * 4) (le32 ino)"
  note g = branch_file[OF ok b]
  have fi: "fine s" and ox: "opt_xino s" using ok by (simp_all add: xib_ok_def)
  obtain rs os where w: "xino_fwrite s ?g (le32 ino) (unat h * 4) =
      (4, upd_file ?g (\<lambda>x. x\<lparr>f_data := ?d\<rparr>) (s\<lparr>ops := os, io := rs\<rparr>))" "fine (s\<lparr>ops := os, io := rs\<rparr>)"
    using fwrite_fine[OF fi, of ?g "le32 ino" "unat h * 4"] by (auto simp: length_le32)
  let ?s1 = "upd_file ?g (\<lambda>x. x\<lparr>f_data := ?d\<rparr>) (s\<lparr>ops := os, io := rs\<rparr>)"
  have s1: "xib_ok ?s1" "map_frame s ?s1"
    using write_map_ok[OF ok g(2,3) write_entry(1)[OF g(4)] w(2)] by auto
  have "\<not> Au_LOFF_MAX div 4 - 1 < unat h" using unat_u32_lt[of h] by linarith
  then have dw: "au_xino_do_write s ?g h ino = (0, ?s1)" using w(1) by (simp add: au_xino_do_write_def)
  have fa: "file_at ?s1 k = (if k = ?g then (file_at s ?g)\<lparr>f_data := ?d\<rparr> else file_at s k)" for k
    using g(2) by (simp add: file_at_upd_file)
  have en: "xino_entry ?s1 = entry_upd (xino_entry s) ?g h ino"
  proof (intro ext)
    fix g' k
    show "xino_entry ?s1 g' k = entry_upd (xino_entry s) ?g h ino g' k"
    proof (cases "g' = ?g")
      case True
      then show ?thesis using write_entry(2)[OF g(4), of h ino k] unfolding xino_entry_def entry_upd_def fa by simp
    next
      case False
      then show ?thesis unfolding xino_entry_def entry_upd_def fa by simp
    qed
  qed
  have b1: "b \<le> sbend ?s1" using b(2) by simp
  note tt = try_trunc_fine[OF s1(1) b(1) b1]
  let ?s' = "if opt_trunc_xino ?s1 \<and> sb_tmpfs ?s1 (br_sb (sbr s b)) then xino_try_trunc ?s1 b else ?s1"
  have "au_xino_write s b h ino = (0, ?s')" using ox dw g(1) by (simp add: au_xino_write_def)
  moreover have "xib_ok ?s' \<and> map_frame s ?s'" using s1 tt map_frame_trans[OF s1(2)] by simp
  moreover have "xino_entry ?s' = xino_entry ?s1" using tt by (simp add: xino_entry_def fun_eq_iff)
  ultimately show ?thesis using en by auto
qed

lemma xino_read_fine:
  assumes ok: "xib_ok s" and b: "0 \<le> b" "b \<le> sbend s"
  shows "\<exists>s'. au_xino_read s b h = (0, xino_entry s (br_file s b) h, s') \<and> xib_ok s' \<and> map_frame s s' \<and>
    xino_entry s' = xino_entry s"
proof -
  let ?g = "br_file s b"
  note g = branch_file[OF ok b]
  have fi: "fine s" and ox: "opt_xino s" using ok by (simp_all add: xib_ok_def)
  have lim: "\<not> Au_LOFF_MAX div 4 - 1 < unat h" using unat_u32_lt[of h] by linarith
  show ?thesis
  proof (cases "i_size s ?g < unat h * 4 + 4")
    case True
    then have "au_xino_read s b h = (0, xino_entry s ?g h, s)"
      using ox lim g(1) by (simp add: au_xino_read_def xino_entry_def i_size_def)
    then show ?thesis using ok by (auto simp: map_frame_def)
  next
    case False
    have l4: "length [0, 0, 0, 0 :: u8] = 4" by simp
    from False obtain rs where r: "xino_fread s ?g [0, 0, 0, 0] (unat h * 4) =
        (4, take 4 (drop (unat h * 4) (f_data (file_at s ?g))), s\<lparr>io := rs\<rparr>)" "fine (s\<lparr>io := rs\<rparr>)"
      using fread_fine[OF fi, of "unat h * 4" "[0, 0, 0, 0]" ?g, unfolded l4] by auto
    have "au_xino_read s b h = (0, xino_entry s ?g h, s\<lparr>io := rs\<rparr>)"
      using ox lim g(1) False r(1) by (simp add: au_xino_read_def xino_entry_def i_size_def)
    moreover note same_parts_ok[OF ok r(2)]
    ultimately show ?thesis by (auto simp: xino_entry_def fun_eq_iff)
  qed
qed

text \<open>All maps; the bitmap file is none.\<close>

definition map_tab :: "au_sbinfo \<Rightarrow> nat \<Rightarrow> u32 \<Rightarrow> u32" where
  "map_tab s g h = (if si_xib s = Some g then 0 else xino_entry s g h)"

lemma map_tab_write:
  assumes "xino_entry s' = entry_upd (xino_entry s) g h ino" "si_xib s' = si_xib s" "si_xib s \<noteq> Some g"
  shows "map_tab s' = entry_upd (map_tab s) g h ino"
  using assms by (auto simp: map_tab_def entry_upd_def fun_eq_iff)

lemma map_tab_frame: "xib_frame s s' \<Longrightarrow> map_tab s' = map_tab s"
  by (auto simp: map_tab_def xino_entry_def xib_frame_def fun_eq_iff Let_def)

lemma write0_fine:
  assumes ok: "xib_ok s" and b: "0 \<le> b" "b \<le> sbend s"
  shows "\<exists>s'. au_xino_write0 s b h ino = (0, s') \<and> xib_ok s' \<and>
    map xi_file (si_branch s') = map xi_file (si_branch s) \<and> map br_id (si_branch s') = map br_id (si_branch s) \<and>
    map_tab s' = entry_upd (map_tab s) (br_file s b) h 0 \<and>
    used_bit s' = (\<lambda>n. (ino = 0 \<or> n \<noteq> unat (ino - 11)) \<and> used_bit s n) \<and>
    xib_pages s' \<le> (if ino = 0 then xib_pages s else max (xib_pages s) (unat (ino - 11) div page_bits + 1)) \<and>
    (si_xib_next_bit s' = si_xib_next_bit s \<or> 0 \<le> si_xib_next_bit s' \<and> si_xib_next_bit s' < int page_bits)"
proof (cases "ino = 0")
  case True
  obtain s' where s': "au_xino_write s b h 0 = (0, s')" "xib_ok s'" "map_frame s s'"
    "xino_entry s' = entry_upd (xino_entry s) (br_file s b) h 0" using xino_write_fine[OF ok b] by blast
  have "au_xino_write0 s b h ino = (0, s')" using s'(1) True ok by (simp add: au_xino_write0_def xib_ok_def)
  moreover have "used_bit s' = used_bit s" by (rule used_bit_cong) (use s'(3) in \<open>simp add: map_frame_def\<close>)
  moreover have "map_tab s' = entry_upd (map_tab s) (br_file s b) h 0"
    by (rule map_tab_write[OF s'(4)]) (use s'(3) branch_file(3)[OF ok b] in \<open>simp_all add: map_frame_def\<close>)
  ultimately show ?thesis using s' True by (intro exI[of _ s']) (simp add: map_frame_def)
next
  case False
  let ?n = "unat (ino - 11)"
  let ?p = "?n div 32768" and ?b = "?n mod 32768"
  obtain s1 where s1: "xib_pindex s ?p = (0, s1)" "xib_ok s1" "xib_frame s s1" "si_xib_last_pindex s1 = ?p"
    "xib_byte s1 = xib_byte s" "si_xib_next_bit s1 = si_xib_next_bit s" "xib_pages s1 = max (xib_pages s) (?p + 1)"
    using xib_pindex_fine[OF ok, of ?p] by blast
  let ?s2 = "s1\<lparr>si_xib_buf := Some (clear_bit_at ?b (xib_buf s1)), si_xib_next_bit := int ?b\<rparr>"
  have n: "?n = ?p * 32768 + ?b" by simp
  have lb: "length (xib_buf s1) = 4096" by (rule xib_buf_length[OF s1(2)])
  have u2: "used_bit ?s2 = (\<lambda>m. m \<noteq> ?n \<and> used_bit s m)"
  proof
    fix m
    have "used_bit ?s2 m = (m \<noteq> ?p * 32768 + ?b \<and> used_bit s1 m)"
      using used_bit_buf(2)[of ?b s1 m] lb s1(4) by simp
    then show "used_bit ?s2 m = (m \<noteq> ?n \<and> used_bit s m)" using n used_bit_cong[OF s1(5)] by metis
  qed
  have o2: "xib_ok ?s2" using xib_ok_buf[OF s1(2)] lb by (simp add: clear_bit_at_def)
  have fr: "xib_frame s ?s2" using s1(3) by simp
  have e2: "si_branch ?s2 = si_branch s" "xib_pages ?s2 = xib_pages s1" "si_xib ?s2 = si_xib s"
    using s1(3) by (simp_all add: xib_frame_def)
  have b2: "b \<le> sbend ?s2" using b(2) e2(1) by simp
  obtain s' where s': "au_xino_write ?s2 b h 0 = (0, s')" "xib_ok s'" "map_frame ?s2 s'"
    "xino_entry s' = entry_upd (xino_entry ?s2) (br_file ?s2 b) h 0" using xino_write_fine[OF o2 b(1) b2] by blast
  have f2: "br_file ?s2 b = br_file s b" using e2(1) by (simp add: br_file_def)
  have sx: "si_xib s' = si_xib ?s2" using s'(3) by (simp add: map_frame_def)
  have "si_xib ?s2 \<noteq> Some (br_file ?s2 b)" unfolding e2(3) f2 by (rule branch_file(3)[OF ok b])
  from map_tab_write[OF s'(4) sx this] have en: "map_tab s' = entry_upd (map_tab s) (br_file s b) h 0"
    unfolding f2 map_tab_frame[OF fr] .
  have "au_xino_write0 s b h ino = (0, s')"
    using False s1(1) s'(1) ok by (simp add: au_xino_write0_def xib_calc_bit_def Let_def xib_ok_def)
  moreover have "used_bit s' = used_bit ?s2" by (rule used_bit_cong) (use s'(3) in \<open>simp only: map_frame_def\<close>)
  moreover have "map xi_file (si_branch s') = map xi_file (si_branch s)" "map br_id (si_branch s') = map br_id (si_branch s)"
    "xib_pages s' = max (xib_pages s) (?p + 1)"
    "si_xib_next_bit s' = int ?b" using s'(3) e2 s1(7) by (simp_all add: map_frame_def)
  ultimately show ?thesis using s'(2) en u2 False by (intro exI[of _ s']) simp
qed

end
