(* ===== verification/Aufs_Xino_Props.thy ===== *)
theory Aufs_Xino_Props
  imports Aufs_Xino_Run
begin

text \<open>
  Sequences of the four operations on inode numbers refine a table of the numbers in use and of the
  maps, and what happens to the bitmap when the lower filesystem fails.
\<close>

section \<open>Runs\<close>

datatype xino_op = New_Ino | Put_Ino int u32 u32 | Set_Ino int u32 u32 | Get_Ino int u32
datatype xino_out = Ino u32 | Done int | Got int u32

fun xino_step :: "xino_op \<Rightarrow> au_sbinfo \<Rightarrow> (xino_out \<times> au_sbinfo) option" where
  "xino_step New_Ino s = (case au_xino_new_ino s of None \<Rightarrow> None | Some (ino, s) \<Rightarrow> Some (Ino ino, s))"
| "xino_step (Put_Ino b h ino) s = (let (err, s) = au_xino_write0 s b h ino in Some (Done err, s))"
| "xino_step (Set_Ino b h ino) s = (let (err, s) = au_xino_write s b h ino in Some (Done err, s))"
| "xino_step (Get_Ino b h) s = (let (err, ino, s) = au_xino_read s b h in Some (Got err ino, s))"

fun xino_run :: "xino_op list \<Rightarrow> au_sbinfo \<Rightarrow> (xino_out list \<times> au_sbinfo) option" where
  "xino_run [] s = Some ([], s)"
| "xino_run (x # xs) s =
     (case xino_step x s of
        None \<Rightarrow> None
      | Some (y, s) \<Rightarrow> (case xino_run xs s of None \<Rightarrow> None | Some (ys, s) \<Rightarrow> Some (y # ys, s)))"

text \<open>
  The table: a number \<open>11 + n\<close> is in use when \<open>n\<close> is in the set; \<open>fb\<close> gives the file of a branch. An
  operation that answers otherwise is not allowed.
\<close>

type_synonym xino_table = "nat set \<times> (nat \<Rightarrow> u32 \<Rightarrow> u32)"

fun table_step :: "(int \<Rightarrow> nat) \<Rightarrow> xino_op \<Rightarrow> xino_out \<Rightarrow> xino_table \<Rightarrow> xino_table option" where
  "table_step fb New_Ino (Ino ino) (U, T) =
     (if 11 \<le> ino \<and> unat (ino - 11) \<notin> U then Some (insert (unat (ino - 11)) U, T) else None)"
| "table_step fb (Put_Ino b h ino) (Done err) (U, T) =
     (if err = 0 then Some (if ino = 0 then U else U - {unat (ino - 11)}, entry_upd T (fb b) h 0) else None)"
| "table_step fb (Set_Ino b h ino) (Done err) (U, T) =
     (if err = 0 then Some (U, entry_upd T (fb b) h ino) else None)"
| "table_step fb (Get_Ino b h) (Got err ino) (U, T) =
     (if err = 0 \<and> ino = T (fb b) h then Some (U, T) else None)"
| "table_step fb _ _ _ = None"

fun table_run :: "(int \<Rightarrow> nat) \<Rightarrow> xino_op list \<Rightarrow> xino_out list \<Rightarrow> xino_table \<Rightarrow> xino_table option" where
  "table_run fb [] [] tab = Some tab"
| "table_run fb (x # xs) (y # ys) tab =
     (case table_step fb x y tab of None \<Rightarrow> None | Some tab \<Rightarrow> table_run fb xs ys tab)"
| "table_run fb _ _ _ = None"

definition table_of :: "au_sbinfo \<Rightarrow> xino_table" where
  "table_of s = ({n. used_bit s n}, map_tab s)"

text \<open>The operation names a branch, and gives back a number of the first \<open>N\<close> pages at most.\<close>

fun op_ok :: "nat \<Rightarrow> int \<Rightarrow> xino_op \<Rightarrow> bool" where
  "op_ok N bend New_Ino = True"
| "op_ok N bend (Put_Ino b h ino) =
     (0 \<le> b \<and> b \<le> bend \<and> (ino = 0 \<or> 11 \<le> ino \<and> unat (ino - 11) < N * page_bits))"
| "op_ok N bend (Set_Ino b h ino) = (0 \<le> b \<and> b \<le> bend)"
| "op_ok N bend (Get_Ino b h) = (0 \<le> b \<and> b \<le> bend)"

lemma op_ok_mono: "op_ok N bend x \<Longrightarrow> N \<le> M \<Longrightarrow> op_ok M bend x"
  by (cases x) (auto elim: order_less_le_trans)

lemma number_of_bit:
  assumes "n < 131071 * page_bits"
  shows "11 \<le> (11 + of_nat n :: u32)" "unat ((11 + of_nat n :: u32) - 11) = n"
proof -
  have n: "n < 4294934528" using assms by simp
  then have u: "unat (of_nat n :: u32) = n" by (intro unat_of_nat_u32) simp
  then have "unat (11 + of_nat n :: u32) = 11 + n" using n by (subst unat_add_lt) simp_all
  then show "11 \<le> (11 + of_nat n :: u32)" by (simp add: word_le_nat_alt)
  show "unat ((11 + of_nat n :: u32) - 11) = n" using u by simp
qed

lemma xino_step_refines:
  assumes ok: "xib_ok s" "0 \<le> si_xib_next_bit s" "si_xib_next_bit s < 2147483647"
    and n: "xib_pages s \<le> N" "N < 131071" and x: "op_ok N (sbend s) x"
  shows "\<exists>y s'. xino_step x s = Some (y, s') \<and> xib_ok s' \<and>
    map xi_file (si_branch s') = map xi_file (si_branch s) \<and>
    table_step (br_file s) x y (table_of s) = Some (table_of s') \<and> xib_pages s' \<le> N + 1 \<and>
    0 \<le> si_xib_next_bit s' \<and> si_xib_next_bit s' \<le> max 32767 (si_xib_next_bit s + 1)"
proof (cases x)
  case New_Ino
  obtain n s' where a: "au_xino_new_ino s = Some (11 + of_nat n, s')" "\<not> used_bit s n"
    "used_bit s' = (\<lambda>m. m = n \<or> used_bit s m)" "xib_ok s'" "xib_frame s s'" "n < xib_pages s' * 32768"
    "xib_pages s' \<le> xib_pages s + 1" "si_xib_next_bit s' = int_inc (si_xib_next_bit s)"
    using new_ino_fine[OF ok(1,2)] by blast
  have "xib_pages s' * 32768 \<le> 131071 * 32768" using a(7) n by simp
  then have nb: "n < 131071 * 32768" using a(6) by linarith
  note k = number_of_bit[OF nb]
  have ins: "{m. m = n \<or> used_bit s m} = insert n {m. used_bit s m}" by auto
  have "table_step (br_file s) x (Ino (11 + of_nat n)) (table_of s) = Some (table_of s')"
    using k a(2) by (simp only: New_Ino table_of_def table_step.simps map_tab_frame[OF a(5)] a(3) ins if_True mem_Collect_eq simp_thms)
  moreover have "map xi_file (si_branch s') = map xi_file (si_branch s)" using a(5) by (simp add: xib_frame_def)
  ultimately show ?thesis
    using a(1,4,7,8) n(1) ok(2,3) New_Ino by (intro exI[of _ "Ino (11 + of_nat n)"] exI[of _ s']) (simp add: int_inc_def)
next
  case (Put_Ino b h ino)
  then have b: "0 \<le> b" "b \<le> sbend s" and i: "ino = 0 \<or> unat (ino - 11) < N * 32768" using x by auto
  obtain s' where a: "au_xino_write0 s b h ino = (0, s')" "xib_ok s'"
    "map xi_file (si_branch s') = map xi_file (si_branch s)"
    "map_tab s' = entry_upd (map_tab s) (br_file s b) h 0"
    "used_bit s' = (\<lambda>n. (ino = 0 \<or> n \<noteq> unat (ino - 11)) \<and> used_bit s n)"
    "xib_pages s' \<le> (if ino = 0 then xib_pages s else max (xib_pages s) (unat (ino - 11) div page_bits + 1))"
    "si_xib_next_bit s' = si_xib_next_bit s \<or> 0 \<le> si_xib_next_bit s' \<and> si_xib_next_bit s' < int page_bits"
    using write0_fine[OF ok(1) b, of h ino] by blast
  have "xib_pages s' \<le> N + 1"
  proof (cases "ino = 0")
    case False
    then have "unat (ino - 11) div 32768 < N" using i by (simp add: less_mult_imp_div_less)
    then show ?thesis using a(6) n(1) False by (auto simp: max_def split: if_splits)
  qed (use a(6) n(1) in simp)
  moreover have "{n. (ino = 0 \<or> n \<noteq> unat (ino - 11)) \<and> used_bit s n} =
      (if ino = 0 then {n. used_bit s n} else {n. used_bit s n} - {unat (ino - 11)})" by auto
  ultimately show ?thesis using a(1-5,7) Put_Ino ok(2)
    by (intro exI[of _ "Done 0"] exI[of _ s']) (auto simp: table_of_def)
next
  case (Set_Ino b h ino)
  then have b: "0 \<le> b" "b \<le> sbend s" using x by auto
  obtain s' where a: "au_xino_write s b h ino = (0, s')" "xib_ok s'" "map_frame s s'"
    "xino_entry s' = entry_upd (xino_entry s) (br_file s b) h ino" using xino_write_fine[OF ok(1) b] by blast
  have t: "map_tab s' = entry_upd (map_tab s) (br_file s b) h ino"
    by (rule map_tab_write[OF a(4)]) (use a(3) branch_file(3)[OF ok(1) b] in \<open>simp_all add: map_frame_def\<close>)
  have "used_bit s' = used_bit s" by (rule used_bit_cong) (use a(3) in \<open>simp add: map_frame_def\<close>)
  with t show ?thesis using a Set_Ino ok(2) n(1)
    by (intro exI[of _ "Done 0"] exI[of _ s']) (simp add: table_of_def map_frame_def)
next
  case (Get_Ino b h)
  then have b: "0 \<le> b" "b \<le> sbend s" using x by auto
  obtain s' where a: "au_xino_read s b h = (0, xino_entry s (br_file s b) h, s')" "xib_ok s'" "map_frame s s'"
    "xino_entry s' = xino_entry s" using xino_read_fine[OF ok(1) b] by blast
  have t: "map_tab s' = map_tab s" using a(3,4) by (simp add: map_tab_def map_frame_def fun_eq_iff)
  have e: "xino_entry s (br_file s b) h = map_tab s (br_file s b) h"
    using branch_file(3)[OF ok(1) b] by (simp add: map_tab_def)
  have "used_bit s' = used_bit s" by (rule used_bit_cong) (use a(3) in \<open>simp add: map_frame_def\<close>)
  with t e show ?thesis using a Get_Ino ok(2) n(1)
    by (intro exI[of _ "Got 0 (xino_entry s (br_file s b) h)"] exI[of _ s']) (simp add: table_of_def map_frame_def)
qed

lemma xino_run_table:
  assumes "xib_ok s" "0 \<le> si_xib_next_bit s" "si_xib_next_bit s + int (length xs) < 2147483647"
    "xib_pages s \<le> N" "N + length xs < 131072" "\<forall>x \<in> set xs. op_ok N (sbend s) x"
  shows "\<exists>ys s'. xino_run xs s = Some (ys, s') \<and> xib_ok s' \<and>
    map xi_file (si_branch s') = map xi_file (si_branch s) \<and>
    table_run (br_file s) xs ys (table_of s) = Some (table_of s')"
  using assms
proof (induction xs arbitrary: s N)
  case (Cons x xs)
  have p: "si_xib_next_bit s < 2147483647" "N < 131071" "op_ok N (sbend s) x" using Cons.prems by auto
  obtain y s1 where s1: "xino_step x s = Some (y, s1)" "xib_ok s1"
    "map xi_file (si_branch s1) = map xi_file (si_branch s)"
    "table_step (br_file s) x y (table_of s) = Some (table_of s1)" "xib_pages s1 \<le> N + 1"
    "0 \<le> si_xib_next_bit s1" "si_xib_next_bit s1 \<le> max 32767 (si_xib_next_bit s + 1)"
    using xino_step_refines[OF Cons.prems(1,2) p(1) Cons.prems(4) p(2,3)] by blast
  have e: "sbend s1 = sbend s" "br_file s1 = br_file s"
    using s1(3) map_eq_imp_length_eq[OF s1(3)] by (simp_all add: au_sbend_def br_file_def fun_eq_iff)
  have l: "int (length xs) < 131072" using Cons.prems(5) by simp
  have q: "si_xib_next_bit s1 + int (length xs) < 2147483647" "N + 1 + length xs < 131072"
    "\<forall>x \<in> set xs. op_ok (N + 1) (sbend s1) x"
    using s1(7) Cons.prems(3,5,6) l op_ok_mono[of N _ _ "N + 1"] unfolding e by (auto simp: max_def split: if_splits)
  obtain ys s' where "xino_run xs s1 = Some (ys, s')" "xib_ok s'"
    "map xi_file (si_branch s') = map xi_file (si_branch s1)"
    "table_run (br_file s1) xs ys (table_of s1) = Some (table_of s')"
    using Cons.IH[OF s1(2,6) q(1) s1(5) q(2,3)] by blast
  then show ?case using s1 e by (intro exI[of _ "y # ys"] exI[of _ s']) simp
qed simp

section \<open>The shape of the state\<close>

text \<open>As \<open>xib_ok\<close>, with no word on what the lower filesystem does.\<close>

definition xib_wf :: "au_sbinfo \<Rightarrow> bool" where
  "xib_wf s \<longleftrightarrow> opt_xino s \<and>
     (\<exists>f p. si_xib s = Some f \<and> f < length (xfiles s) \<and> si_xib_buf s = Some p \<and> length p = PAGE_SIZE \<and>
       i_size s f = xib_pages s * PAGE_SIZE) \<and> si_xib_last_pindex s < xib_pages s \<and> maps_ok s"

lemma xib_ok_wf: "xib_ok s \<longleftrightarrow> fine s \<and> xib_wf s"
  by (auto simp: xib_ok_def xib_wf_def)

lemma xib_wf_obtain:
  assumes "xib_wf s"
  obtains f p where "si_xib s = Some f" "f < length (xfiles s)" "si_xib_buf s = Some p" "length p = 4096"
    "length (f_data (file_at s f)) = xib_pages s * 4096" "si_xib_last_pindex s < xib_pages s"
  using assms by (auto simp: xib_wf_def i_size_def)

section \<open>A small union\<close>

text \<open>One branch whose map is file 1; the bitmap is file 0, one page; \<open>p\<close> is the page in memory.\<close>

definition demo_sb :: "u8 list \<Rightarrow> io_result list \<Rightarrow> au_sbinfo" where
  "demo_sb p rs = \<lparr>si_branch = [\<lparr>br_id = 1, br_perm = AuBrPerm_RW, br_count = 0, br_xino_upper = 64,
       br_xino_running = 0, br_sb = 7, br_sb_rdonly = False, wbr_bytes = 0, xi_file = Some 1\<rparr>],
     opt_xino = True, opt_trunc_xino = False, si_xread = Some Fop_read, si_xwrite = Some Fop_write,
     si_xib = Some 0, si_xib_buf = Some p, si_xib_last_pindex = 0, si_xib_next_bit = 0, si_xino_def_br = None,
     xfiles = [\<lparr>f_count = 1, f_data = replicate 4096 0, f_parent = 1, f_name = ''x'', f_nolocal = False, f_op = None\<rparr>,
       \<lparr>f_count = 1, f_data = [], f_parent = 1, f_name = ''x'', f_nolocal = False, f_op = None\<rparr>],
     io = rs, ops = [], in_wkq = True, mnt_count = 1, jobs = [], iunique = 100, i_blocks = (\<lambda>_. 0),
     sb_tmpfs = (\<lambda>_. False), sb_nolocal = (\<lambda>_. False)\<rparr>"

lemma demo_sb_wf: "length p = 4096 \<Longrightarrow> xib_wf (demo_sb p rs) \<and> xib_pages (demo_sb p rs) = 1"
  by (simp add: xib_wf_def demo_sb_def i_size_def file_at_def xib_pages_def maps_ok_def)

lemma demo_sb_ok: "length p = 4096 \<Longrightarrow> io_fine rs \<Longrightarrow> xib_ok (demo_sb p rs) \<and> xib_pages (demo_sb p rs) = 1"
  unfolding xib_ok_wf using demo_sb_wf[of p rs] by (simp add: fine_def) (simp add: demo_sb_def)

section \<open>Properties\<close>

text \<open>
  C21: while the lower filesystem at most interrupts calls, every sequence of taking a number, giving
  one back, setting and reading map entries ends without a fault, and does what the table does:
  a new number was not in use, a number given back is free again, an entry reads as last set.
  The bound on the length keeps the numbers below the end of a 32-bit \<open>ino_t\<close>.
\<close>

theorem xino_run_refines:
  assumes "xib_ok s" "0 \<le> si_xib_next_bit s" "si_xib_next_bit s + int (length xs) < 2147483647"
    "xib_pages s \<le> N" "N + length xs < 131072" "\<forall>x \<in> set xs. op_ok N (sbend s) x"
  shows "\<exists>ys s'. xino_run xs s = Some (ys, s') \<and> xib_ok s' \<and>
    table_run (br_file s) xs ys (table_of s) = Some (table_of s')"
  using xino_run_table[OF assms] by blast

theorem xino_run_refines_witness:
  "\<exists>ys s'. xino_run [New_Ino, Set_Ino 0 5 11, Put_Ino 0 5 11, Get_Ino 0 5]
      (demo_sb (replicate 4096 0) [Io_Err EINTR, Io_Ok]) = Some (ys, s') \<and> xib_ok s' \<and>
    table_run (br_file (demo_sb (replicate 4096 0) [Io_Err EINTR, Io_Ok]))
      [New_Ino, Set_Ino 0 5 11, Put_Ino 0 5 11, Get_Ino 0 5] ys
      (table_of (demo_sb (replicate 4096 0) [Io_Err EINTR, Io_Ok])) = Some (table_of s')"
proof -
  let ?s = "demo_sb (replicate 4096 0) [Io_Err EINTR, Io_Ok]"
  have ok: "xib_ok ?s" "xib_pages ?s \<le> 1" using demo_sb_ok[of "replicate 4096 0"] by (simp_all add: io_fine_def)
  have n: "0 \<le> si_xib_next_bit ?s" "si_xib_next_bit ?s + int (length [New_Ino, Set_Ino 0 5 11, Put_Ino 0 5 11, Get_Ino 0 5]) < 2147483647"
    by (simp_all add: demo_sb_def)
  have o: "\<forall>x \<in> set [New_Ino, Set_Ino 0 5 11, Put_Ino 0 5 11, Get_Ino 0 5]. op_ok 1 (sbend ?s) x"
    by (simp add: demo_sb_def au_sbend_def)
  show ?thesis by (rule xino_run_refines[OF ok(1) n ok(2) _ o]) simp
qed

text \<open>
  When the page in memory cannot be written back, moving to another page fails and the set of
  numbers in use stays what it was, whatever the write left in the file.
\<close>

theorem writeback_failure_keeps_bits:
  assumes "xib_wf s" "in_wkq s" "io s = r # rs" "pindex \<noteq> si_xib_last_pindex s"
    "r = Io_Err e \<and> 0 < e \<and> e \<noteq> EAGAIN \<and> e \<noteq> EINTR \<or> r = Io_Short k \<and> k < PAGE_SIZE"
    "xib_pindex s pindex = (err, s')"
  shows "err < 0 \<and> used_bit s' = used_bit s"
proof -
  obtain f p where f: "si_xib s = Some f" "f < length (xfiles s)" "si_xib_buf s = Some p" "length p = 4096"
    "length (f_data (file_at s f)) = xib_pages s * 4096" "si_xib_last_pindex s < xib_pages s"
    by (rule xib_wf_obtain[OF assms(1)])
  let ?pos = "si_xib_last_pindex s * 4096" and ?d = "f_data (file_at s f)"
  define d where "d = snd (vfs_write r ?d p ?pos)"
  have c: "io_call (io s) = (r, rs)" using assms(3,5) by auto
  have w: "\<exists>sz. vfs_write r ?d p ?pos = (sz, d) \<and> sz < 4096" using assms(5) f(4) by (auto simp: d_def vfs_write_def)
  have len: "length d = length ?d" and same: "\<And>i. i div 4096 \<noteq> si_xib_last_pindex s \<Longrightarrow> i < length ?d \<Longrightarrow> d ! i = ?d ! i"
  proof -
    have k: "d = ?d \<or> (\<exists>n. n \<noteq> [] \<and> length n \<le> 4096 \<and> d = bytes_write ?d ?pos n)"
    proof (cases r)
      case (Io_Short k)
      then have "d = bytes_write ?d ?pos (take k p)" by (simp add: d_def vfs_write_def)
      moreover have "bytes_write ?d ?pos [] = ?d" by (simp add: bytes_write_def)
      moreover have "length (take k p) \<le> 4096" using f(4) by simp
      ultimately show ?thesis by metis
    qed (use assms(5) in \<open>auto simp: d_def vfs_write_def\<close>)
    have fit: "?pos + 4096 \<le> length ?d" using f(5,6) by simp
    have "length (bytes_write ?d ?pos n) = length ?d" if "n \<noteq> []" "length n \<le> 4096" for n
      using length_bytes_write[OF that(1), of ?d ?pos] that(2) fit by (simp only: max_absorb1)
    with k show "length d = length ?d" by blast
    fix i assume i: "i div 4096 \<noteq> si_xib_last_pindex s" "i < length ?d"
    have o: "i < ?pos \<or> ?pos + 4096 \<le> i" using i(1) by (auto simp: page_of)
    have "bytes_write ?d ?pos n ! i = ?d ! i" if "n \<noteq> []" "length n \<le> 4096" for n
      using that i(2) o nth_bytes_write[of i ?d ?pos n] by (simp add: less_max_iff_disj) auto
    with k show "d ! i = ?d ! i" by blast
  qed
  obtain sz where sz: "vfs_write r ?d p ?pos = (sz, d)" "sz < 4096" using w by blast
  have "xib_pindex s pindex = (if sz \<ge> 0 then - 5 else sz, upd_file f (\<lambda>x. x\<lparr>f_data := d\<rparr>) (s\<lparr>io := rs\<rparr>))"
    using assms(2,4) f(1,3) c sz by (simp add: xib_pindex_def xino_fwrite_def do_xino_fwrite_def)
  then have e: "err = (if sz \<ge> 0 then - 5 else sz)" and s': "s' = upd_file f (\<lambda>x. x\<lparr>f_data := d\<rparr>) (s\<lparr>io := rs\<rparr>)"
    using assms(6) by auto
  have "xib_byte s' i = xib_byte s i" for i
    using f(1,2,3) len same[of i] by (simp add: s' xib_byte_def Let_def file_at_upd_file)
  then show ?thesis using e used_bit_cong by (auto simp: fun_eq_iff)
qed

theorem writeback_failure_keeps_bits_witness:
  "fst (xib_pindex (demo_sb (replicate 4096 (-1)) [Io_Short 100]) 1) < 0 \<and>
   used_bit (snd (xib_pindex (demo_sb (replicate 4096 (-1)) [Io_Short 100]) 1)) =
   used_bit (demo_sb (replicate 4096 (-1)) [Io_Short 100])"
proof -
  let ?s = "demo_sb (replicate 4096 (-1)) [Io_Short 100]"
  obtain err s' where x: "xib_pindex ?s 1 = (err, s')" by fastforce
  have wf: "xib_wf ?s" using demo_sb_wf[of "replicate 4096 (-1)"] by simp
  have d: "in_wkq ?s" "io ?s = Io_Short 100 # []" "1 \<noteq> si_xib_last_pindex ?s" by (simp_all add: demo_sb_def)
  have r: "Io_Short 100 = Io_Err 0 \<and> 0 < (0 :: int) \<and> 0 \<noteq> EAGAIN \<and> 0 \<noteq> EINTR \<or> Io_Short 100 = Io_Short 100 \<and> 100 < PAGE_SIZE"
    by simp
  show ?thesis using writeback_failure_keeps_bits[OF wf d r x] x by simp
qed

text \<open>
  C24: when every number of the only page is in use and the new page cannot be written (no space),
  taking a number fails as it should, but the page in memory has been cleared: the next number
  taken is one in use.
\<close>

theorem failed_extension_reuses_numbers:
  assumes "xib_wf s" "in_wkq s" "io s = [Io_Ok, Io_Err 28]" "xib_pages s = 1"
    "0 \<le> si_xib_next_bit s" "\<forall>n < page_bits. used_bit s n"
  shows "\<exists>s' ino s''. au_xino_new_ino s = Some (0, s') \<and> au_xino_new_ino s' = Some (ino, s'') \<and>
    11 \<le> ino \<and> used_bit s (unat (ino - 11))"
proof -
  obtain f p where f: "si_xib s = Some f" "f < length (xfiles s)" "si_xib_buf s = Some p" "length p = 4096"
    "length (f_data (file_at s f)) = 4096" "si_xib_last_pindex s = 0"
    using assms(4) by (rule_tac xib_wf_obtain[OF assms(1)]) simp
  have ox: "opt_xino s" using assms(1) by (simp add: xib_wf_def)
  have full: "test_bit_at n p" if "n < 32768" for n
    using used_bit_page[OF that, of s] assms(6) that f(3,6) by simp
  then have nz: "\<not> find_first_zero_bit p < 32768"
    using find_first_zero_bit_spec[of p] f(4) by auto
  let ?d = "bytes_write (f_data (file_at s f)) 0 p" and ?z = "replicate 4096 (0 :: u8)"
  let ?s1 = "upd_file f (\<lambda>x. x\<lparr>f_data := ?d\<rparr>) (s\<lparr>io := [Io_Err 28]\<rparr>)"
  have w1: "xino_fwrite s f p 0 = (4096, ?s1)"
    using assms(2,3) f(4) by (simp add: xino_fwrite_def do_xino_fwrite_def vfs_write_def)
  have l1: "i_size ?s1 f = 4096"
    using f(2,4,5) length_bytes_write[of p "f_data (file_at s f)" 0] by (cases p) (simp_all add: i_size_def file_at_upd_file)
  let ?s2 = "?s1\<lparr>si_xib_buf := Some ?z\<rparr>"
  obtain s3 where w2: "xino_fwrite ?s2 f ?z 4096 = (-28, s3)" "si_xib_buf s3 = Some ?z"
      "si_xib_next_bit s3 = si_xib_next_bit s" "si_xib_last_pindex s3 = 0" "opt_xino s3"
    using assms(2) f(6) ox by (simp add: xino_fwrite_def do_xino_fwrite_def vfs_write_def)
  have px: "xib_pindex s 1 = (-28, s3)"
    using f(1,3,6) w1 w2(1) l1 by (simp add: xib_pindex_def)
  have sc: "new_ino_scan s = (Fail, s3)"
    using f(1,5,6) px by (simp add: new_ino_scan_def i_size_def)
  have one: "au_xino_new_ino s = Some (0, s3)"
  proof -
    have "\<not> (nat (si_xib_next_bit s) < 32768 \<and> \<not> test_bit_at (nat (si_xib_next_bit s)) p)" using full by blast
    then show ?thesis using ox assms(5) f(3) nz sc
      by (simp only: au_xino_new_ino_def Let_def if_False if_True simp_thms not_less[symmetric] prod.case search.case option.sel)
  qed
  have zb: "\<not> test_bit_at n ?z" if "n < 32768" for n using that by (simp add: test_bit_at_def)
  obtain b where b: "b < 32768" "au_xino_new_ino s3 = Some (new_ino_out b s3)"
  proof (cases "nat (si_xib_next_bit s) < 32768")
    case True
    then have "au_xino_new_ino s3 = Some (new_ino_out (nat (si_xib_next_bit s)) s3)"
      using w2 assms(5) zb by (simp add: au_xino_new_ino_def Let_def)
    with True that show ?thesis by blast
  next
    case False
    have "find_first_zero_bit ?z = 0" by (simp add: numeral_eq_Suc)
    then have "au_xino_new_ino s3 = Some (new_ino_out 0 s3)"
      using w2 assms(5) False by (simp add: au_xino_new_ino_def Let_def)
    with that[of 0] show ?thesis by simp
  qed
  obtain s4 where o: "new_ino_out b s3 = (11 + of_nat b, s4)" using w2(4) by (simp add: new_ino_out_def xib_calc_ino_def)
  have "b < 131071 * 32768" using b(1) by simp
  note k = number_of_bit[OF this]
  show ?thesis using one b o k assms(6) by (intro exI[of _ s3] exI[of _ "11 + of_nat b"] exI[of _ s4]) simp
qed

theorem failed_extension_reuses_numbers_witness:
  "\<exists>s' ino s''. au_xino_new_ino (demo_sb (replicate 4096 (-1)) [Io_Ok, Io_Err 28]) = Some (0, s') \<and>
    au_xino_new_ino s' = Some (ino, s'') \<and> 11 \<le> ino \<and>
    used_bit (demo_sb (replicate 4096 (-1)) [Io_Ok, Io_Err 28]) (unat (ino - 11))"
proof -
  let ?s = "demo_sb (replicate 4096 (-1)) [Io_Ok, Io_Err 28]"
  have wf: "xib_wf ?s" "xib_pages ?s = 1" using demo_sb_wf[of "replicate 4096 (-1)"] by simp_all
  have d: "in_wkq ?s" "io ?s = [Io_Ok, Io_Err 28]" "0 \<le> si_xib_next_bit ?s" by (simp_all add: demo_sb_def)
  have "used_bit ?s n" if "n < 32768" for n
    using that used_bit_page[OF that, of ?s] by (simp add: demo_sb_def test_bit_at_def)
  then have u: "\<forall>n < page_bits. used_bit ?s n" by simp
  show ?thesis by (rule failed_extension_reuses_numbers[OF wf(1) d(1,2) wf(2) d(3) u])
qed

end
