(* ===== verification/Aufs_Xino_Refs.thy ===== *)
theory Aufs_Xino_Refs
  imports Aufs_Xino_Props
begin

text \<open>
  References to the map files when the maps are moved (\<open>au_xino_set_br\<close>), whatever fails on the way:
  each file is held once by every branch that uses it, and files made in vain are released.
\<close>

section \<open>Counting references\<close>

definition cnt :: "au_sbinfo \<Rightarrow> nat \<Rightarrow> int" where
  "cnt s f = f_count (file_at s f)"

definition refs :: "nat option list \<Rightarrow> nat \<Rightarrow> int" where
  "refs fs f = int (length (filter (\<lambda>x. x = Some f) fs))"

lemma refs_simps [simp]:
  "refs [] f = 0" "refs (x # xs) f = (if x = Some f then 1 else 0) + refs xs f"
  "refs (xs @ ys) f = refs xs f + refs ys f"
  by (simp_all add: refs_def)

lemma cnt_file [simp]:
  "g < length (xfiles s) \<Longrightarrow> cnt (get_file g s) f = cnt s f + (if f = g then 1 else 0)"
  "g < length (xfiles s) \<Longrightarrow> cnt (fput g s) f = cnt s f - (if f = g then 1 else 0)"
  "length (xfiles (get_file g s)) = length (xfiles s)" "length (xfiles (fput g s)) = length (xfiles s)"
  "si_branch (get_file g s) = si_branch s" "si_branch (fput g s) = si_branch s"
  by (simp_all add: cnt_def get_file_def fput_def file_at_upd_file)

lemma call_frame: "call s = (e, s') \<Longrightarrow> xfiles s' = xfiles s \<and> si_branch s' = si_branch s"
  by (auto simp: call_def split: list.splits)

lemma do_write_cnt:
  assumes "au_xino_do_write s f h i = (e, s')" "f < length (xfiles s)"
  shows "cnt s' g = cnt s g" "length (xfiles s') = length (xfiles s)" "si_branch s' = si_branch s"
proof -
  have w: "cnt s1 g = cnt s g \<and> length (xfiles s1) = length (xfiles s) \<and> si_branch s1 = si_branch s"
    if "do_xino_fwrite s f b p = (z, s1)" "f < length (xfiles s)" for s b p z s1
    using that by (auto simp: do_xino_fwrite_def cnt_def file_at_upd_file split: prod.splits)
  have w': "cnt s1 g = cnt s g \<and> length (xfiles s1) = length (xfiles s) \<and> si_branch s1 = si_branch s"
    if "xino_fwrite s f b p = (z, s1)" for b p z s1
  proof (cases "in_wkq s")
    case True
    then show ?thesis using that w[of s b p z s1] assms(2) by (simp add: xino_fwrite_def)
  next
    case False
    obtain e2 s2 where c: "call s = (e2, s2)" by fastforce
    with call_frame[OF c] show ?thesis using that False w[of s2 b p z s1] assms(2)
      by (auto simp: xino_fwrite_def cnt_def file_at_def split: if_splits)
  qed
  have "cnt s' g = cnt s g \<and> length (xfiles s') = length (xfiles s) \<and> si_branch s' = si_branch s"
    using assms(1) w' by (auto simp: au_xino_do_write_def Let_def split: prod.splits if_splits)
  then show "cnt s' g = cnt s g" "length (xfiles s') = length (xfiles s)" "si_branch s' = si_branch s" by simp_all
qed

text \<open>A created file is held once; one that is given up is not held at all.\<close>

lemma create2_cases:
  assumes "au_xino_create2 s base src = (r, s')"
  shows "si_branch s' = si_branch s \<and> length (xfiles s) \<le> length (xfiles s') \<and>
    (\<forall>f < length (xfiles s). file_at s' f = file_at s f) \<and>
    (case r of
       Inl e \<Rightarrow> e \<noteq> 0 \<and> (\<forall>f. length (xfiles s) \<le> f \<and> f < length (xfiles s') \<longrightarrow> cnt s' f = 0)
     | Inr f \<Rightarrow> f = length (xfiles s) \<and> length (xfiles s') = f + 1 \<and> cnt s' f = 1)"
proof -
  let ?P = "\<lambda>(r, s'). si_branch s' = si_branch s \<and> length (xfiles s) \<le> length (xfiles s') \<and>
    (\<forall>f < length (xfiles s). file_at s' f = file_at s f) \<and>
    (case r of
       Inl e \<Rightarrow> e \<noteq> 0 \<and> (\<forall>f. length (xfiles s) \<le> f \<and> f < length (xfiles s') \<longrightarrow> cnt s' f = 0)
     | Inr f \<Rightarrow> f = length (xfiles s) \<and> length (xfiles s') = f + 1 \<and> cnt s' f = 1)"
  obtain e1 s1 where c1: "call s = (e1, s1)" by fastforce
  obtain e2 s2 where c2: "call s1 = (e2, s2)" by fastforce
  obtain e3 s3 where c3: "call s2 = (e3, s3)" by fastforce
  note fr = call_frame[OF c1] call_frame[OF c2] call_frame[OF c3]
  define x where "x = (file_at s base)\<lparr>f_data := [], f_count := 1\<rparr>"
  let ?s4 = "s3\<lparr>xfiles := xfiles s @ [x]\<rparr>" and ?f = "length (xfiles s)"
  obtain e5 s5 where c5: "call ?s4 = (e5, s5)" by fastforce
  obtain e6 s6 where c6: "call s5 = (e6, s6)" by fastforce
  note fr5 = call_frame[OF c5] and fr6 = call_frame[OF c6]
  have nf: "new_file ((file_at s3 base)\<lparr>f_data := []\<rparr>) s3 = (?f, ?s4)"
    using fr by (simp add: new_file_def x_def file_at_def)
  have fx: "xfiles s5 = xfiles s @ [x]" "xfiles s6 = xfiles s @ [x]" using fr5 fr6 by simp_all
  have at: "file_at (upd_file ?f g t) f = (if f = ?f then g x else file_at s f)"
    if "xfiles t = xfiles s @ [x]" "f \<le> ?f" for g t f
    using that by (auto simp: file_at_def upd_file_def nth_append)
  have tail: "?P (Inl e, fput ?f t)" if "xfiles t = xfiles s @ [x]" "si_branch t = si_branch s" "e \<noteq> 0" for e t
    using that at[OF that(1)] by (auto simp: fput_def cnt_def x_def dest: le_less_Suc_eq)
  have ok1: "?P (Inr ?f, s5)" using fx fr fr5 by (auto simp: cnt_def file_at_def nth_append x_def)
  have ok2: "?P (Inr ?f, upd_file ?f (\<lambda>y. y\<lparr>f_data := d\<rparr>) s6)" for d
    using at[OF fx(2)] fx fr fr5 fr6 by (auto simp: cnt_def x_def)
  have "?P (au_xino_create2 s base src)"
  proof (cases "f_nolocal (file_at s base) \<or> e1 \<noteq> 0 \<or> e2 \<noteq> 0 \<or> e3 \<noteq> 0")
    case True
    then show ?thesis using fr c1 c2 c3 by (auto simp: au_xino_create2_def file_at_def)
  next
    case False
    have e: "au_xino_create2 s base src =
        (if e5 \<noteq> 0 then (Inl e5, fput ?f s5)
         else case src of None \<Rightarrow> (Inr ?f, s5)
           | Some g \<Rightarrow> if e6 \<noteq> 0 then (Inl e6, fput ?f s6)
                else (Inr ?f, upd_file ?f (\<lambda>y. y\<lparr>f_data := f_data (file_at s6 g)\<rparr>) s6))"
      using False c1 c2 c3 c5 c6 nf by (auto simp: au_xino_create2_def split: option.split)
    have t5: "e5 \<noteq> 0 \<Longrightarrow> ?P (Inl e5, fput ?f s5)" by (rule tail) (use fx fr fr5 in auto)
    have t6: "e6 \<noteq> 0 \<Longrightarrow> ?P (Inl e6, fput ?f s6)" by (rule tail) (use fx fr fr5 fr6 in auto)
    show ?thesis unfolding e using t5 t6 ok1 ok2 by (simp split: option.split)
  qed
  then show ?thesis unfolding assms by simp
qed

section \<open>Branches on one filesystem\<close>

lemma find_upto:
  "find P [a..b] = Some i \<Longrightarrow> a \<le> i \<and> i \<le> b \<and> P i"
  "find P [a..b] = None \<longleftrightarrow> (\<forall>i. a \<le> i \<and> i \<le> b \<longrightarrow> \<not> P i)"
  by (auto simp: find_Some_iff find_None_iff)

lemma is_sb_shared_below:
  assumes "k = is_sb_shared brs b (b - 1)" "0 \<le> b"
  shows "k = -1 \<and> (\<forall>i. 0 \<le> i \<and> i < b \<longrightarrow> br_sb (au_sbr brs i) \<noteq> br_sb (au_sbr brs b)) \<or>
    0 \<le> k \<and> k < b \<and> br_sb (au_sbr brs k) = br_sb (au_sbr brs b)"
proof -
  have e: "[b + 1..b - 1] = []" by simp
  show ?thesis
  proof (cases "find (\<lambda>i. br_sb (au_sbr brs i) = br_sb (au_sbr brs b)) [0..b - 1]")
    case None
    from None[unfolded find_upto(2)] have "br_sb (au_sbr brs i) \<noteq> br_sb (au_sbr brs b)" if "0 \<le> i" "i < b" for i
      using that by simp
    moreover have "k = -1" using assms(1) None by (simp add: is_sb_shared_def e)
    ultimately show ?thesis by blast
  next
    case (Some i)
    with find_upto(1)[OF Some] show ?thesis using assms by (simp add: is_sb_shared_def)
  qed
qed

section \<open>Moving the maps\<close>

text \<open>Between the loops: the pairs hold every new file, and nothing else does.\<close>

definition pairs_ok :: "au_sbinfo \<Rightarrow> fpair list \<Rightarrow> au_sbinfo \<Rightarrow> bool" where
  "pairs_ok s0 fp s \<longleftrightarrow> si_branch s = si_branch s0 \<and> length (xfiles s0) \<le> length (xfiles s) \<and>
     (\<forall>f < length (xfiles s0). cnt s f = cnt s0 f) \<and>
     (\<forall>f. length (xfiles s0) \<le> f \<and> f < length (xfiles s) \<longrightarrow> cnt s f = refs (map snd fp) f) \<and>
     (\<forall>p \<in> set fp. \<forall>f. snd p = Some f \<longrightarrow> length (xfiles s0) \<le> f \<and> f < length (xfiles s))"

definition pairs_full :: "au_sbinfo \<Rightarrow> fpair list \<Rightarrow> bool" where
  "pairs_full s0 fp \<longleftrightarrow> (\<forall>p \<in> set fp. snd p \<noteq> None) \<and>
     (\<forall>i < length fp. \<forall>j < length fp. br_sb (si_branch s0 ! i) = br_sb (si_branch s0 ! j) \<longrightarrow> snd (fp ! i) = snd (fp ! j))"

lemma pairs_fullD:
  "pairs_full s0 fp \<Longrightarrow> i < length fp \<Longrightarrow> j < length fp \<Longrightarrow>
   br_sb (si_branch s0 ! i) = br_sb (si_branch s0 ! j) \<Longrightarrow> snd (fp ! i) = snd (fp ! j)"
  unfolding pairs_full_def by blast

lemma refs_zero: "\<forall>x \<in> set xs. x \<noteq> Some f \<Longrightarrow> refs xs f = 0"
  by (induction xs) auto

lemma pairs_share:
  assumes "pairs_ok s0 fp s" "p \<in> set fp" "snd p = Some g"
  shows "pairs_ok s0 (fp @ [p]) (get_file g s)"
proof -
  have g: "length (xfiles s0) \<le> g" "g < length (xfiles s)" using assms by (auto simp: pairs_ok_def)
  then show ?thesis using assms by (auto simp: pairs_ok_def)
qed

lemma pairs_create:
  assumes ok: "pairs_ok s0 fp s" and c: "au_xino_create2 s base src = (r, s')"
  shows "case r of Inl e \<Rightarrow> e \<noteq> 0 \<and> pairs_ok s0 (fp @ [(old, None)]) s'
    | Inr f \<Rightarrow> pairs_ok s0 (fp @ [(old, Some f)]) s'"
proof -
  note cc = create2_cases[OF c]
  have old: "f < length (xfiles s) \<Longrightarrow> cnt s' f = cnt s f" for f using cc by (simp add: cnt_def)
  have z: "refs (map snd fp) f = 0" if "length (xfiles s) \<le> f" for f
    by (rule refs_zero) (use ok that in \<open>fastforce simp: pairs_ok_def\<close>)
  show ?thesis
  proof (cases r)
    case (Inl e)
    have "cnt s' f = refs (map snd fp) f" if "length (xfiles s0) \<le> f" "f < length (xfiles s')" for f
      using that cc Inl old[of f] z[of f] ok by (cases "f < length (xfiles s)") (auto simp: pairs_ok_def)
    then show ?thesis using Inl cc ok old by (auto simp: pairs_ok_def)
  next
    case (Inr f)
    have "cnt s' k = refs (map snd (fp @ [(old, Some f)])) k" if "length (xfiles s0) \<le> k" "k < length (xfiles s')" for k
    proof (cases "k < length (xfiles s)")
      case False
      then have kf: "k = f" using that(2) cc Inr by simp
      have c1: "cnt s' f = 1" using cc Inr by auto
      have "refs (map snd fp) f = 0" using z[of f] cc Inr by auto
      with c1 show ?thesis unfolding kf by simp
    qed (use that cc Inr old[of k] ok in \<open>auto simp: pairs_ok_def\<close>)
    then show ?thesis using Inr cc ok old by (auto simp: pairs_ok_def)
  qed
qed

lemma pairs_write:
  assumes "pairs_ok s0 fp s" "au_xino_do_write s f h i = (e, s')" "f < length (xfiles s)"
  shows "pairs_ok s0 fp s'"
  using assms(1) do_write_cnt[OF assms(2,3)] by (simp add: pairs_ok_def)

lemma full_snoc:
  assumes "pairs_full s0 fp" "snd p \<noteq> None"
    "\<And>i. i < length fp \<Longrightarrow> br_sb (si_branch s0 ! i) = br_sb (si_branch s0 ! length fp) \<Longrightarrow> snd (fp ! i) = snd p"
  shows "pairs_full s0 (fp @ [p])"
proof -
  let ?q = "fp @ [p]"
  have "snd (?q ! i) = snd (?q ! j)"
    if "i < length ?q" "j < length ?q" "br_sb (si_branch s0 ! i) = br_sb (si_branch s0 ! j)" for i j
  proof (cases "i < length fp"; cases "j < length fp")
    assume "i < length fp" "j < length fp"
    then show ?thesis using pairs_fullD[OF assms(1) _ _ that(3)] by (simp only: nth_append if_True)
  next
    assume a: "i < length fp" "\<not> j < length fp"
    then have "j = length fp" using that(2) by simp
    then show ?thesis using assms(3)[of i] a(1) that(3) by (simp add: nth_append)
  next
    assume a: "\<not> i < length fp" "j < length fp"
    then have "i = length fp" using that(1) by simp
    then show ?thesis using assms(3)[of j] a(2) that(3) by (simp add: nth_append)
  next
    assume "\<not> i < length fp" "\<not> j < length fp"
    then have "i = j" using that(1,2) by simp
    then show ?thesis by simp
  qed
  moreover have "\<forall>x \<in> set ?q. snd x \<noteq> None" using assms(1,2) by (auto simp: pairs_full_def)
  ultimately show ?thesis unfolding pairs_full_def by blast
qed

lemma set_br_pairs_ok:
  assumes "set_br_pairs n bindex base root fp s = (err, fp', s')" "pairs_ok s0 fp s" "pairs_full s0 fp"
    "bindex = int (length fp)"
  shows "pairs_ok s0 fp' s' \<and> (err = 0 \<longrightarrow> pairs_full s0 fp' \<and> length fp' = length fp + n) \<and>
    (err \<noteq> 0 \<longrightarrow> (\<forall>p \<in> set (butlast fp'). snd p \<noteq> None))"
  using assms
proof (induction n arbitrary: bindex fp s)
  case 0
  then show ?case by auto
next
  case (Suc n)
  let ?b = "is_sb_shared (si_branch s) bindex (bindex - 1)"
  have br: "si_branch s = si_branch s0" using Suc.prems(2) by (simp add: pairs_ok_def)
  have sb: "br_sb (au_sbr (si_branch s) (int i)) = br_sb (si_branch s0 ! i)" for i using br by (simp add: au_sbr_def)
  have "0 \<le> bindex" using Suc.prems(4) by simp
  note sh = is_sb_shared_below[OF refl this, of "si_branch s"]
  have step: ?case
    if p: "pairs_ok s0 (fp @ [p]) s1" "snd p = Some f" "f < length (xfiles s1)"
      and full: "\<And>i. i < length fp \<Longrightarrow> br_sb (si_branch s0 ! i) = br_sb (si_branch s0 ! length fp) \<Longrightarrow> snd (fp ! i) = snd p"
      and run: "set_br_pairs (Suc n) bindex base root fp s =
        (let (err, s) = au_xino_do_write s1 f (root ! nat bindex) 2
         in if err \<noteq> 0 then (err, fp @ [p], s) else set_br_pairs n (bindex + 1) base root (fp @ [p]) s)"
    for p s1 f
  proof -
    obtain e s2 where w: "au_xino_do_write s1 f (root ! nat bindex) 2 = (e, s2)" by fastforce
    have ok2: "pairs_ok s0 (fp @ [p]) s2" by (rule pairs_write[OF p(1) w p(3)])
    have fl: "pairs_full s0 (fp @ [p])" by (rule full_snoc[OF Suc.prems(3) _ full]) (use p(2) in simp_all)
    show ?thesis
    proof (cases "e = 0")
      case True
      then have r: "set_br_pairs n (bindex + 1) base root (fp @ [p]) s2 = (err, fp', s')"
        using Suc.prems(1) run w by simp
      show ?thesis using Suc.IH[OF r ok2 fl] Suc.prems(4) by simp
    next
      case False
      then have "err = e \<and> fp' = fp @ [p] \<and> s' = s2" using Suc.prems(1) run w by simp
      then show ?thesis using ok2 False Suc.prems(3) by (auto simp: pairs_full_def)
    qed
  qed
  show ?case
  proof (cases "?b \<ge> 0")
    case True
    then have k0: "?b < bindex" "br_sb (au_sbr (si_branch s) ?b) = br_sb (au_sbr (si_branch s) bindex)" using sh by linarith+
    have k: "nat ?b < length fp" using k0(1) True Suc.prems(4) by linarith
    have k2: "br_sb (si_branch s0 ! nat ?b) = br_sb (si_branch s0 ! length fp)"
      using k0(2) unfolding br Suc.prems(4) by (simp add: au_sbr_def)
    let ?p = "fp ! nat ?b"
    have pin: "?p \<in> set fp" using k by simp
    then obtain g where g: "snd ?p = Some g" using Suc.prems(3) by (auto simp: pairs_full_def)
    have gl: "g < length (xfiles s)" using Suc.prems(2) pin g by (auto simp: pairs_ok_def)
    show ?thesis
    proof (rule step)
      show "pairs_ok s0 (fp @ [?p]) (get_file g s)" by (rule pairs_share[OF Suc.prems(2) pin g])
      show "snd ?p = Some g" by (rule g)
      show "g < length (xfiles (get_file g s))" using gl by simp
      show "i < length fp \<Longrightarrow> br_sb (si_branch s0 ! i) = br_sb (si_branch s0 ! length fp) \<Longrightarrow> snd (fp ! i) = snd ?p" for i
        using pairs_fullD[OF Suc.prems(3) _ k] k2 by metis
    qed (use True g in \<open>simp add: Let_def\<close>)
  next
    case False
    have no: "i < length fp \<Longrightarrow> br_sb (si_branch s0 ! i) \<noteq> br_sb (si_branch s0 ! length fp)" for i
    proof -
      assume i: "i < length fp"
      have "\<forall>i. 0 \<le> i \<and> i < bindex \<longrightarrow> br_sb (au_sbr (si_branch s) i) \<noteq> br_sb (au_sbr (si_branch s) bindex)"
        using sh False by blast
      from this[rule_format, of "int i"] show ?thesis using i unfolding br Suc.prems(4) by (simp add: au_sbr_def)
    qed
    let ?old = "xi_file (au_sbr (si_branch s) bindex)"
    obtain r s1 where c: "au_xino_create2 s base ?old = (r, s1)" by fastforce
    note pc = pairs_create[OF Suc.prems(2) c, of ?old]
    show ?thesis
    proof (cases r)
      case (Inl e)
      then have "err = e \<and> fp' = fp @ [(?old, None)] \<and> s' = s1" using Suc.prems(1) False c pc by simp
      then show ?thesis using pc Inl Suc.prems(3) by (auto simp: pairs_full_def)
    next
      case (Inr f)
      show ?thesis
      proof (rule step)
        show "pairs_ok s0 (fp @ [(?old, Some f)]) s1" using pc Inr by simp
        show "snd (?old, Some f) = Some f" by simp
        show "f < length (xfiles s1)" using create2_cases[OF c] Inr by simp
      qed (use no False c Inr in \<open>simp_all add: Let_def\<close>)
    qed
  qed
qed

section \<open>The second and the third loop\<close>

lemma cnt_upd_br [simp]: "cnt (upd_br b g s) f = cnt s f" "length (xfiles (upd_br b g s)) = length (xfiles s)"
  by (simp_all add: cnt_def upd_br_def)

lemma set_br_commit_cnt:
  assumes "\<forall>p \<in> set fp. \<exists>f. snd p = Some f \<and> f < length (xfiles s)" "0 \<le> b"
    "nat b + length fp \<le> length (si_branch s)"
    "\<forall>br \<in> set (si_branch s). \<forall>f. xi_file br = Some f \<longrightarrow> f < length (xfiles s)"
  shows "map xi_file (si_branch (set_br_commit fp b s)) =
      take (nat b) (map xi_file (si_branch s)) @ map snd fp @ drop (nat b + length fp) (map xi_file (si_branch s)) \<and>
    map br_sb (si_branch (set_br_commit fp b s)) = map br_sb (si_branch s) \<and>
    length (xfiles (set_br_commit fp b s)) = length (xfiles s) \<and>
    cnt (set_br_commit fp b s) f = cnt s f + refs (map snd fp) f
      - refs (take (length fp) (drop (nat b) (map xi_file (si_branch s)))) f"
  using assms
proof (induction fp arbitrary: b s)
  case Nil
  then show ?case by simp
next
  case (Cons p fp)
  obtain g where g: "snd p = Some g" "g < length (xfiles s)" using Cons.prems(1) by auto
  have nb: "nat b < length (si_branch s)" using Cons.prems(3) by simp
  let ?br = "si_branch s ! nat b"
  let ?s1 = "case xi_file ?br of Some f \<Rightarrow> fput f s | None \<Rightarrow> s"
  let ?s2 = "upd_br b (\<lambda>x. x\<lparr>xi_file := Some g\<rparr>) (get_file g ?s1)"
  have old: "xi_file ?br = Some k \<Longrightarrow> k < length (xfiles s)" for k using Cons.prems(4) nth_mem[OF nb] by blast
  have br1: "si_branch ?s1 = si_branch s" "length (xfiles ?s1) = length (xfiles s)" by (simp_all split: option.split)
  have c1: "cnt ?s1 f = cnt s f - refs [xi_file ?br] f" using old by (simp split: option.split)
  have e: "set_br_commit (p # fp) b s = set_br_commit fp (b + 1) ?s2"
    using g(1) by (simp add: Let_def au_sbr_def)
  have br2: "si_branch ?s2 = (si_branch s)[nat b := ?br\<lparr>xi_file := Some g\<rparr>]" "length (xfiles ?s2) = length (xfiles s)"
    using br1 by (simp_all add: upd_br_def au_sbr_def)
  have m2: "map xi_file (si_branch ?s2) = (map xi_file (si_branch s))[nat b := Some g]"
    "map br_sb (si_branch ?s2) = map br_sb (si_branch s)"
    unfolding br2 using nb by (simp_all add: map_update list_update_same_conv)
  have c2: "cnt ?s2 f = cnt s f + refs [Some g] f - refs [xi_file ?br] f" using c1 g(2) br1 by simp
  have nb1: "nat (b + 1) = Suc (nat b)" using Cons.prems(2) by simp
  have "\<forall>br \<in> set (si_branch ?s2). \<forall>f. xi_file br = Some f \<longrightarrow> f < length (xfiles ?s2)"
    unfolding br2 using Cons.prems(4) g(2) by (auto dest!: set_update_subset_insert[THEN subsetD])
  moreover have "\<forall>p \<in> set fp. \<exists>f. snd p = Some f \<and> f < length (xfiles ?s2)" "0 \<le> b + 1"
    "nat (b + 1) + length fp \<le> length (si_branch ?s2)"
    using Cons.prems(1,2,3) by (simp_all add: br2 br1 nb1)
  ultimately have ih: "map xi_file (si_branch (set_br_commit fp (b + 1) ?s2)) =
      take (nat (b + 1)) (map xi_file (si_branch ?s2)) @ map snd fp @ drop (nat (b + 1) + length fp) (map xi_file (si_branch ?s2)) \<and>
    map br_sb (si_branch (set_br_commit fp (b + 1) ?s2)) = map br_sb (si_branch ?s2) \<and>
    length (xfiles (set_br_commit fp (b + 1) ?s2)) = length (xfiles ?s2) \<and>
    cnt (set_br_commit fp (b + 1) ?s2) f = cnt ?s2 f + refs (map snd fp) f
      - refs (take (length fp) (drop (nat (b + 1)) (map xi_file (si_branch ?s2)))) f"
    by (intro Cons.IH)
  have d: "drop (nat b) (map xi_file (si_branch s)) = xi_file ?br # drop (Suc (nat b)) (map xi_file (si_branch s))"
    using nb by (simp add: Cons_nth_drop_Suc[symmetric])
  have tk: "take (Suc (nat b)) ((map xi_file (si_branch s))[nat b := Some g]) = take (nat b) (map xi_file (si_branch s)) @ [Some g]"
    using nb by (simp add: take_Suc_conv_app_nth)
  show ?case unfolding e using ih unfolding nb1 m2 br2(2) c2 d tk using g(1) by simp
qed

lemma set_br_out_cnt:
  assumes "\<forall>p \<in> set (butlast fp). snd p \<noteq> None" "\<forall>p \<in> set fp. \<forall>f. snd p = Some f \<longrightarrow> f < length (xfiles s)"
  shows "cnt (set_br_out fp s) f = cnt s f - refs (map snd fp) f \<and> si_branch (set_br_out fp s) = si_branch s \<and>
    length (xfiles (set_br_out fp s)) = length (xfiles s)"
  using assms
proof (induction fp arbitrary: s)
  case (Cons p fp)
  show ?case
  proof (cases "snd p")
    case None
    then have "fp = []" using Cons.prems(1) by (cases fp) auto
    with None show ?thesis by simp
  next
    case (Some g)
    then have g: "g < length (xfiles s)" using Cons.prems(2) by simp
    have "\<forall>p \<in> set (butlast fp). snd p \<noteq> None" using Cons.prems(1) by (cases fp) auto
    then show ?thesis using Cons.IH[of "fput g s"] Cons.prems(2) Some g by simp
  qed
qed simp

section \<open>The whole operation\<close>

text \<open>Each file is held once per branch that uses it, and \<open>ext f\<close> times by others.\<close>

definition balanced :: "(nat \<Rightarrow> int) \<Rightarrow> au_sbinfo \<Rightarrow> bool" where
  "balanced ext s \<longleftrightarrow> (\<forall>f < length (xfiles s). cnt s f = refs (map xi_file (si_branch s)) f + ext f) \<and>
     (\<forall>br \<in> set (si_branch s). \<forall>f. xi_file br = Some f \<longrightarrow> f < length (xfiles s))"

lemma set_br_fine_refs:
  assumes bal: "balanced ext s" and ext: "\<forall>f. length (xfiles s) \<le> f \<longrightarrow> ext f = 0"
    and r: "au_xino_set_br s base root = (err, s')"
  shows "balanced ext s' \<and> (err \<noteq> 0 \<longrightarrow> map xi_file (si_branch s') = map xi_file (si_branch s)) \<and>
    (err = 0 \<longrightarrow> (\<forall>i < length (si_branch s'). \<forall>j < length (si_branch s').
       br_sb (si_branch s' ! i) = br_sb (si_branch s' ! j) \<longrightarrow> xi_file (si_branch s' ! i) = xi_file (si_branch s' ! j)))"
proof -
  obtain e s1 where c: "call s = (e, s1)" by fastforce
  note fr = call_frame[OF c]
  have cnt1: "cnt s1 f = cnt s f" for f using fr by (simp add: cnt_def file_at_def)
  have bal1: "balanced ext s1" using bal fr cnt1 by (simp add: balanced_def)
  show ?thesis
  proof (cases "e = 0")
    case False
    then show ?thesis using r c bal1 fr by (auto simp: au_xino_set_br_def)
  next
    case True
    let ?n = "length (si_branch s1)"
    obtain e2 fp s2 where p: "set_br_pairs ?n 0 base root [] s1 = (e2, fp, s2)" by (metis prod_cases3)
    have e: "err = e2" "s' = set_br_out fp (if e2 = 0 then set_br_commit fp 0 s2 else s2)"
      using r c True p by (auto simp: au_xino_set_br_def)
    have start: "pairs_ok s1 [] s1" "pairs_full s1 []" by (simp_all add: pairs_ok_def pairs_full_def)
    have po: "pairs_ok s1 fp s2" "e2 = 0 \<longrightarrow> pairs_full s1 fp \<and> length fp = ?n"
      "e2 \<noteq> 0 \<longrightarrow> (\<forall>p \<in> set (butlast fp). snd p \<noteq> None)"
      using set_br_pairs_ok[OF p start] by simp_all
    have br2: "si_branch s2 = si_branch s1" "length (xfiles s1) \<le> length (xfiles s2)" using po(1) by (simp_all add: pairs_ok_def)
    have fl: "\<forall>p \<in> set fp. \<forall>f. snd p = Some f \<longrightarrow> length (xfiles s1) \<le> f \<and> f < length (xfiles s2)"
      using po(1) by (simp add: pairs_ok_def)
    have low: "refs (map snd fp) f = 0" if "f < length (xfiles s1)" for f
      by (rule refs_zero) (use fl that in fastforce)
    have high: "refs (map xi_file (si_branch s1)) f = 0" if "\<not> f < length (xfiles s1)" for f
      by (rule refs_zero) (use bal1 that in \<open>auto simp: balanced_def\<close>)
    have c2: "cnt s2 f = (if f < length (xfiles s1) then refs (map xi_file (si_branch s1)) f + ext f else refs (map snd fp) f)"
      if "f < length (xfiles s2)" for f
      using that po(1) bal1 by (simp add: pairs_ok_def balanced_def)
    have x0: "ext f = 0" if "\<not> f < length (xfiles s1)" for f using ext that fr by simp
    show ?thesis
    proof (cases "e2 = 0")
      case False
      have out: "cnt s' f = cnt s2 f - refs (map snd fp) f" "si_branch s' = si_branch s1" "length (xfiles s') = length (xfiles s2)" for f
        using set_br_out_cnt[of fp s2 f] po(3) fl False e(2) br2 by auto
      have "cnt s' f = refs (map xi_file (si_branch s1)) f + ext f" if "f < length (xfiles s2)" for f
        using out(1)[of f] c2[OF that] low[of f] high[of f] x0[of f] by auto
      then have "balanced ext s'" using bal1 br2 by (fastforce simp: balanced_def out)
      then show ?thesis using e False out fr by simp
    next
      case True
      let ?s3 = "set_br_commit fp 0 s2"
      have full: "pairs_full s1 fp" "length fp = ?n" using po(2) True by auto
      have some: "\<forall>p \<in> set fp. \<exists>f. snd p = Some f \<and> f < length (xfiles s2)"
        using full(1) fl by (fastforce simp: pairs_full_def)
      have bf: "\<forall>br \<in> set (si_branch s2). \<forall>f. xi_file br = Some f \<longrightarrow> f < length (xfiles s2)"
        using bal1 br2 by (fastforce simp: balanced_def)
      note cc = set_br_commit_cnt[OF some _ _ bf, of 0]
      have c3: "map xi_file (si_branch ?s3) = map snd fp" "map br_sb (si_branch ?s3) = map br_sb (si_branch s1)"
        "length (xfiles ?s3) = length (xfiles s2)"
        "cnt ?s3 f = cnt s2 f + refs (map snd fp) f - refs (map xi_file (si_branch s1)) f" for f
        using cc full(2) br2 by simp_all
      have bl: "\<forall>p \<in> set (butlast fp). snd p \<noteq> None" using some by (fastforce dest: in_set_butlastD)
      have out: "cnt s' f = cnt ?s3 f - refs (map snd fp) f" "si_branch s' = si_branch ?s3" "length (xfiles s') = length (xfiles s2)" for f
        using set_br_out_cnt[of fp ?s3 f, OF bl] c3(3) fl e(2) True by auto
      have "cnt s' f = refs (map xi_file (si_branch s')) f + ext f" if "f < length (xfiles s2)" for f
        using out(1)[of f] c3(4)[of f] c2[OF that] low[of f] high[of f] x0[of f] by (auto simp: out(2) c3(1))
      moreover have "\<forall>br \<in> set (si_branch s'). \<forall>f. xi_file br = Some f \<longrightarrow> f < length (xfiles s2)"
      proof (intro ballI allI impI)
        fix br f assume "br \<in> set (si_branch s')" "xi_file br = Some f"
        then have "Some f \<in> set (map snd fp)" unfolding c3(1)[symmetric] out(2)[symmetric] by force
        then show "f < length (xfiles s2)" using fl by auto
      qed
      ultimately have "balanced ext s'" by (simp add: balanced_def out(3))
      moreover have "xi_file (si_branch s' ! i) = xi_file (si_branch s' ! j)"
        if "i < length (si_branch s')" "j < length (si_branch s')" "br_sb (si_branch s' ! i) = br_sb (si_branch s' ! j)" for i j
      proof -
        have l: "length (si_branch s') = ?n" using map_eq_imp_length_eq[OF c3(2)] by (simp add: out(2))
        have "xi_file (si_branch s' ! k) = snd (fp ! k)" "br_sb (si_branch s' ! k) = br_sb (si_branch s1 ! k)" if "k < ?n" for k
          using arg_cong[OF c3(1), of "\<lambda>xs. xs ! k"] arg_cong[OF c3(2), of "\<lambda>xs. xs ! k"] that l full(2) out(2) by simp_all
        then show ?thesis using pairs_fullD[OF full(1), of i j] that full(2) l by metis
      qed
      ultimately show ?thesis using e(1) True by blast
    qed
  qed
qed

section \<open>Properties\<close>

text \<open>
  C22: moving the maps of all branches to new files, with any failure of the lower filesystem at any
  point, leaves every file held exactly once by each branch that uses it: on an error the branches
  keep their files and what was created is released; on success branches of one filesystem share
  their file.
\<close>

theorem set_br_references:
  assumes "balanced ext s" "\<forall>f. length (xfiles s) \<le> f \<longrightarrow> ext f = 0" "au_xino_set_br s base root = (err, s')"
  shows "balanced ext s' \<and>
    (if err \<noteq> 0 then map xi_file (si_branch s') = map xi_file (si_branch s)
     else \<forall>i < length (si_branch s'). \<forall>j < length (si_branch s').
       br_sb (si_branch s' ! i) = br_sb (si_branch s' ! j) \<longrightarrow> xi_file (si_branch s' ! i) = xi_file (si_branch s' ! j))"
  using set_br_fine_refs[OF assms] unfolding if_bool_eq_conj by blast

text \<open>Two branches; the first new file is created and opened, then cannot be unlinked.\<close>

definition demo_two :: au_sbinfo where
  "demo_two = \<lparr>si_branch =
       [\<lparr>br_id = 1, br_perm = AuBrPerm_RW, br_count = 0, br_xino_upper = 64,
         br_xino_running = 0, br_sb = 7, br_sb_rdonly = False, wbr_bytes = 0, xi_file = Some 1\<rparr>,
        \<lparr>br_id = 2, br_perm = AuBrPerm_RW, br_count = 0, br_xino_upper = 64,
         br_xino_running = 0, br_sb = 8, br_sb_rdonly = False, wbr_bytes = 0, xi_file = Some 2\<rparr>],
     opt_xino = True, opt_trunc_xino = False, si_xread = Some Fop_read, si_xwrite = Some Fop_write,
     si_xib = Some 0, si_xib_buf = None, si_xib_last_pindex = 0, si_xib_next_bit = 0, si_xino_def_br = None,
     xfiles = replicate 3 \<lparr>f_count = 1, f_data = [], f_parent = 1, f_name = ''x'', f_nolocal = False, f_op = None\<rparr>,
     io = [], ops = [0, 0, 0, 0, 28], in_wkq = True, mnt_count = 1, jobs = [], iunique = 100,
     i_blocks = (\<lambda>_. 0), sb_tmpfs = (\<lambda>_. False), sb_nolocal = (\<lambda>_. False)\<rparr>"

theorem set_br_references_witness:
  "fst (au_xino_set_br demo_two 0 [5, 6]) = 28 \<and> balanced (\<lambda>f. if f = 0 then 1 else 0) (snd (au_xino_set_br demo_two 0 [5, 6])) \<and>
   map xi_file (si_branch (snd (au_xino_set_br demo_two 0 [5, 6]))) = [Some 1, Some 2]"
proof -
  have b: "balanced (\<lambda>f. if f = 0 then 1 else 0) demo_two"
  proof -
    have l3: "length (xfiles demo_two) = 3" by (simp add: demo_two_def)
    have c: "cnt demo_two f = 1" if "f < 3" for f
    proof -
      have "f = 0 \<or> f = 1 \<or> f = 2" using that by linarith
      then show ?thesis by (auto simp: demo_two_def cnt_def file_at_def numeral_eq_Suc)
    qed
    have m: "map xi_file (si_branch demo_two) = [Some 1, Some 2]" by (simp add: demo_two_def)
    have "f < 3 \<Longrightarrow> refs [Some 1, Some 2] f + (if f = 0 then 1 else 0) = 1" for f by auto
    moreover have "f < 3" if "br \<in> set (si_branch demo_two)" "xi_file br = Some f" for br f
    proof -
      have "Some f \<in> set (map xi_file (si_branch demo_two))" using that by force
      then show ?thesis unfolding m by auto
    qed
    ultimately show ?thesis using c by (auto simp: balanced_def l3 m)
  qed
  have l: "\<forall>f. length (xfiles demo_two) \<le> f \<longrightarrow> (if f = 0 then 1 else 0) = (0 :: int)"
    by (auto simp: demo_two_def)
  have m: "map xi_file (si_branch demo_two) = [Some 1, Some 2]" by (simp add: demo_two_def)
  obtain err s' where r: "au_xino_set_br demo_two 0 [5, 6] = (err, s')" by fastforce
  have "fst (au_xino_set_br demo_two 0 [5, 6]) = 28" by code_simp
  then have e: "err = 28" using r by simp
  show ?thesis using set_br_references[OF b l r] r e m by simp
qed

end
