(* ===== verification/Aufs_Xino_Restore.thy ===== *)
theory Aufs_Xino_Restore
  imports Aufs_Xino_Refs
begin

text \<open>
  Replacing the bitmap file: by the mount option (\<open>au_xino_set_xib\<close>), where the page in memory keeps
  what it held, and by truncation (\<open>au_xib_trunc\<close>), which rebuilds the bitmap from the maps.
\<close>

section \<open>Creating a file when nothing fails\<close>

lemma create2_fine:
  assumes "fine s" "\<not> f_nolocal (file_at s base)"
  shows "\<exists>os. au_xino_create2 s base src = (Inr (length (xfiles s)),
      s\<lparr>ops := os, xfiles := xfiles s @
        [(file_at s base)\<lparr>f_data := (case src of None \<Rightarrow> [] | Some g \<Rightarrow> f_data ((xfiles s @ [(file_at s base)\<lparr>f_data := [], f_count := 1\<rparr>]) ! g)),
           f_count := 1\<rparr>]\<rparr>) \<and> fine (s\<lparr>ops := os\<rparr>)"
proof -
  define t where "t os = s\<lparr>ops := os\<rparr>" for os
  have c: "call (t os) = (0, t (tl os))" if "\<forall>e \<in> set os. e = 0" for os
    using that by (cases os) (auto simp: call_def t_def)
  have c': "call ((t os)\<lparr>xfiles := xs\<rparr>) = (0, (t (tl os))\<lparr>xfiles := xs\<rparr>)" if "\<forall>e \<in> set os. e = 0" for os xs
    using that by (cases os) (auto simp: call_def t_def)
  let ?o = "ops s"
  have z: "\<forall>e \<in> set ?o. e = 0" using assms(1) by (simp add: fine_def)
  have tz: "\<forall>e \<in> set os. e = 0 \<Longrightarrow> \<forall>e \<in> set (tl os). e = 0" for os :: "int list" by (cases os) auto
  note z1 = tz[OF z] and z2 = tz[OF tz[OF z]] and z3 = tz[OF tz[OF tz[OF z]]] and z4 = tz[OF tz[OF tz[OF tz[OF z]]]]
  have s: "s = t ?o" by (simp add: t_def)
  have fz: "fine (s\<lparr>ops := os\<rparr>)" if "\<forall>e \<in> set os. e = 0" for os using that assms(1) by (simp add: fine_def)
  have fa: "file_at (t os) g = file_at s g" for os g by (simp add: t_def)
  have tx: "xfiles (t os) = xfiles s" for os by (simp add: t_def)
  let ?x = "(file_at s base)\<lparr>f_data := [], f_count := 1\<rparr>"
  have nl: "\<not> f_nolocal (file_at (t ?o) base)" using assms(2) fa by simp
  have e: "au_xino_create2 (t ?o) base src =
      (case src of
         None \<Rightarrow> (Inr (length (xfiles s)), (t (tl (tl (tl (tl ?o)))))\<lparr>xfiles := xfiles s @ [?x]\<rparr>)
       | Some g \<Rightarrow> (Inr (length (xfiles s)),
           upd_file (length (xfiles s)) (\<lambda>y. y\<lparr>f_data := f_data (file_at ((t (tl (tl (tl (tl (tl ?o))))))\<lparr>xfiles := xfiles s @ [?x]\<rparr>) g)\<rparr>)
             ((t (tl (tl (tl (tl (tl ?o))))))\<lparr>xfiles := xfiles s @ [?x]\<rparr>)))"
    using nl by (simp add: au_xino_create2_def c c' z z1 z2 z3 z4 new_file_def fa tx split: option.split)
  show ?thesis
  proof (cases src)
    case None
    then show ?thesis using e[folded s] fz[OF z4[THEN tz, simplified]] fz[OF z4]
      by (intro exI[of _ "tl (tl (tl (tl ?o)))"]) (simp add: t_def)
  next
    case (Some g)
    then show ?thesis using e[folded s] fz[OF tz[OF z4]]
      by (intro exI[of _ "tl (tl (tl (tl (tl ?o))))"]) (simp add: t_def upd_file_def file_at_def)
  qed
qed

section \<open>The mount option\<close>

text \<open>
  Setting a new place for the bitmap while one is in use (a remount) copies the file but keeps the
  page in memory and takes it for page 0: the numbers of page 0 then count as used when those of
  the page that was in memory were.
\<close>

theorem set_xib_remount_page:
  assumes "xib_ok s" "\<not> f_nolocal (file_at s base)" "n < page_bits" "au_xino_set_xib s base = (err, s')"
  shows "err = 0 \<and> si_xib_last_pindex s' = 0 \<and> used_bit s' n = used_bit s (si_xib_last_pindex s * page_bits + n)"
proof -
  obtain f p where f: "si_xib s = Some f" "f < length (xfiles s)" "si_xib_buf s = Some p" "length p = 4096"
    "length (f_data (file_at s f)) = xib_pages s * 4096" "si_xib_last_pindex s < xib_pages s" "fine s"
    by (rule xib_ok_obtain[OF assms(1)])
  let ?L = "length (xfiles s)"
  define x where "x = (file_at s base)\<lparr>f_data := f_data (file_at s f), f_count := 1\<rparr>"
  obtain os where c: "au_xino_create2 s base (Some f) = (Inr ?L, s\<lparr>ops := os, xfiles := xfiles s @ [x]\<rparr>)"
    using create2_fine[OF f(7) assms(2), of "Some f"] f(2) by (auto simp: x_def file_at_def nth_append)
  let ?s1 = "s\<lparr>ops := os, xfiles := xfiles s @ [x]\<rparr>"
  have at: "file_at (fput f ?s1) ?L = x" using f(2) by (simp add: fput_def file_at_upd_file) (simp add: file_at_def)
  let ?s2 = "(fput f ?s1)\<lparr>si_xib := Some ?L, si_xread := Some (find_readf x), si_xwrite := Some (find_writef x),
      si_xib_last_pindex := 0, si_xib_next_bit := 0\<rparr>"
  have sz: "\<not> length (f_data x) < 4096" using f(5,6) by (simp add: x_def)
  have "au_xino_set_xib s base = (0, ?s2)"
    unfolding au_xino_set_xib_def f(1) c using f(3) at sz
    by (simp add: Let_def f(1) i_size_def fput_def)
  then have r: "err = 0" "s' = ?s2" using assms(4) by auto
  have "used_bit s' n = test_bit_at n p"
    using used_bit_page[OF assms(3), of s'] f(3) by (simp add: r fput_def)
  then show ?thesis using used_bit_page[OF assms(3), of s] f(3) r by simp
qed

text \<open>A bitmap of two pages, the first one full, the second one empty and in memory.\<close>

definition demo_pages :: au_sbinfo where
  "demo_pages = (demo_sb (replicate 4096 0) [])\<lparr>si_xib_last_pindex := 1,
     xfiles := [(xfiles (demo_sb [] []) ! 0)\<lparr>f_data := replicate 4096 (-1) @ replicate 4096 0\<rparr>, xfiles (demo_sb [] []) ! 1]\<rparr>"

theorem set_xib_remount_page_witness:
  "used_bit demo_pages 0 \<and> \<not> used_bit (snd (au_xino_set_xib demo_pages 0)) 0"
proof -
  have ok: "xib_ok demo_pages"
    by (simp add: xib_ok_def demo_pages_def demo_sb_def fine_def io_fine_def i_size_def file_at_def xib_pages_def maps_ok_def)
  have l: "\<not> f_nolocal (file_at demo_pages 0)" by (simp add: demo_pages_def demo_sb_def file_at_def)
  obtain err s' where r: "au_xino_set_xib demo_pages 0 = (err, s')" by fastforce
  have u: "used_bit demo_pages 0" by (simp add: used_bit_def xib_byte_def demo_pages_def demo_sb_def file_at_def nth_append)
  have "\<not> used_bit demo_pages 32768"
    by (simp add: used_bit_def xib_byte_def demo_pages_def demo_sb_def)
  moreover have "si_xib_last_pindex demo_pages = 1" by (simp add: demo_pages_def)
  ultimately show ?thesis using set_xib_remount_page[OF ok l _ r, of 0] u r by simp
qed

section \<open>Restoring the bitmap\<close>

lemma xib_pindex_ok0:
  assumes "xib_ok0 s"
  shows "\<exists>s'. xib_pindex s p = (0, s') \<and> xib_ok0 s' \<and> xib_frame s s' \<and> si_xib_last_pindex s' = p \<and>
    used_bit s' = used_bit s"
proof (cases "p = si_xib_last_pindex s")
  case True
  then show ?thesis using assms by (auto simp: xib_pindex_def xib_frame_refl)
next
  case False
  from xib_pindex_move[OF assms this] show ?thesis using xib_ok_ok0 used_bit_cong by blast
qed

text \<open>The number \<open>11 + n\<close> stands in a map.\<close>

definition in_use :: "u32 \<Rightarrow> nat \<Rightarrow> bool" where
  "in_use ino n \<longleftrightarrow> 11 \<le> ino \<and> unat (ino - 11) = n"

definition map_holds :: "u8 list \<Rightarrow> nat \<Rightarrow> bool" where
  "map_holds bytes n \<longleftrightarrow> (\<exists>h. 4 * h + 4 \<le> length bytes \<and> in_use (of_le32 (drop (4 * h) bytes)) n)"

lemma restore_entries_fine:
  assumes "xib_ok0 s"
  shows "\<exists>s'. restore_entries m k page s = (0, s') \<and> xib_ok0 s' \<and> xib_frame s s' \<and>
    (\<forall>n. used_bit s' n \<longleftrightarrow> used_bit s n \<or> (\<exists>j. k \<le> j \<and> j < k + m \<and> in_use (of_le32 (drop (4 * j) page)) n))"
  using assms
proof (induction m arbitrary: k s)
  case 0
  then show ?case by (auto simp: xib_frame_refl)
next
  case (Suc m)
  let ?i = "of_le32 (drop (4 * k) page)"
  have split: "(\<exists>j. k \<le> j \<and> j < k + Suc m \<and> P j) \<longleftrightarrow> P k \<or> (\<exists>j. k + 1 \<le> j \<and> j < k + 1 + m \<and> P j)" for P
    by (metis add_Suc_right add.commute less_add_Suc1 le_refl nat_less_le Suc_eq_plus1 Suc_leI less_Suc_eq_le Suc_leD add_Suc)
  show ?case
  proof (cases "?i < 11")
    case True
    then have "\<not> in_use ?i n" for n unfolding in_use_def by (meson leD)
    with True Suc.IH[OF Suc.prems, of "k + 1"] show ?thesis unfolding split by simp
  next
    case False
    let ?p = "unat (?i - 11) div 32768" and ?b = "unat (?i - 11) mod 32768"
    obtain s1 where s1: "xib_pindex s ?p = (0, s1)" "xib_ok0 s1" "xib_frame s s1" "si_xib_last_pindex s1 = ?p"
      "used_bit s1 = used_bit s" using xib_pindex_ok0[OF Suc.prems] by blast
    let ?s2 = "s1\<lparr>si_xib_buf := Some (set_bit_at ?b (xib_buf s1))\<rparr>"
    have lb: "length (xib_buf s1) = 4096" using s1(2) by (auto simp: xib_ok0_def)
    have o2: "xib_ok0 ?s2" using s1(2) by (auto simp: xib_ok0_def i_size_def xib_pages_def maps_ok_def set_bit_at_def)
    have u2: "used_bit ?s2 n \<longleftrightarrow> used_bit s n \<or> in_use ?i n" for n
      using used_bit_buf(1)[of ?b s1 n] lb s1(4,5) False by (auto simp: in_use_def)
    have fr: "xib_frame s ?s2" using s1(3) by simp
    obtain s' where s': "restore_entries m (k + 1) page ?s2 = (0, s')" "xib_ok0 s'" "xib_frame ?s2 s'"
      "\<forall>n. used_bit s' n \<longleftrightarrow> used_bit ?s2 n \<or> (\<exists>j. k + 1 \<le> j \<and> j < k + 1 + m \<and> in_use (of_le32 (drop (4 * j) page)) n)"
      using Suc.IH[OF o2] by blast
    have "restore_entries (Suc m) k page s = (0, s')"
      using False s1(1) s'(1) by (simp add: xib_calc_bit_def Let_def)
    with s' u2 xib_frame_trans[OF fr s'(3)] show ?thesis unfolding split by (intro exI[of _ s']) blast
  qed
qed

lemma fread_any:
  assumes "fine s"
  shows "\<exists>rs. xino_fread s f buf pos = (let got = take (length buf) (drop pos (f_data (file_at s f)))
      in (int (length got), got @ drop (length got) buf, s\<lparr>io := rs\<rparr>)) \<and> fine (s\<lparr>io := rs\<rparr>)"
proof -
  obtain rs where "io_call (io s) = (Io_Ok, rs)" "io_fine rs"
    using io_call_fine assms unfolding fine_def by blast
  with assms show ?thesis by (auto simp: xino_fread_def vfs_read_def fine_def Let_def)
qed

lemma io_upd_ok0:
  assumes "xib_ok0 s" "fine (s\<lparr>io := rs\<rparr>)"
  shows "xib_ok0 (s\<lparr>io := rs\<rparr>) \<and> xib_frame s (s\<lparr>io := rs\<rparr>) \<and> used_bit (s\<lparr>io := rs\<rparr>) = used_bit s"
  using assms by (auto simp: xib_ok0_def xib_frame_def used_bit_def xib_byte_def i_size_def xib_pages_def maps_ok_def fun_eq_iff)

lemma in_chunk:
  assumes "4 dvd length bytes" "pos = 4 * q" "pos < length bytes" "got = take 4096 (drop pos bytes)" "length rest = 4096 - length got"
  shows "(\<exists>j. j < (length got + 3) div 4 \<and> in_use (of_le32 (drop (4 * j) (got @ rest))) n) \<longleftrightarrow>
    (\<exists>h. pos \<le> 4 * h \<and> 4 * h + 4 \<le> pos + length got \<and> in_use (of_le32 (drop (4 * h) bytes)) n)"
proof -
  obtain w where w: "length bytes = 4 * w" using assms(1) by (auto simp: dvd_def)
  have lg: "length got = min 4096 (4 * (w - q))" using assms(2,4) w by simp
  then have "length got = 4 * min 1024 (w - q)" by (cases "w - q \<le> 1024") (simp_all add: min_def)
  then obtain g where g: "length got = 4 * g" by blast
  have e: "of_le32 (drop (4 * j) (got @ rest)) = of_le32 (drop (4 * (q + j)) bytes)" if "j < g" for j
  proof (rule of_le32_cong)
    fix k :: nat assume k: "k < 4"
    have i: "4 * j + k < length got" using that k g by linarith
    have "4 * j + k < 4 * (w - q)" using i lg by simp
    then have "pos + (4 * j + k) < length bytes" unfolding assms(2) w by arith
    moreover have "drop (4 * j) (got @ rest) ! k = got ! (4 * j + k)"
    proof -
      have "4 * j \<le> length (got @ rest)" using i by simp
      then have "drop (4 * j) (got @ rest) ! k = (got @ rest) ! (4 * j + k)" by (rule nth_drop)
      then show ?thesis using i by (simp only: nth_append if_True)
    qed
    moreover have "got ! (4 * j + k) = bytes ! (pos + (4 * j + k))" using i calculation(1) unfolding assms(4) by simp
    moreover have "drop (4 * (q + j)) bytes ! k = bytes ! (4 * (q + j) + k)"
      by (rule nth_drop) (use calculation(1) assms(2) in simp)
    moreover have "4 * (q + j) + k = pos + (4 * j + k)" using assms(2) by simp
    ultimately show "drop (4 * j) (got @ rest) ! k = drop (4 * (q + j)) bytes ! k" by (simp only:)
  qed
  have d: "(4 * g + 3) div 4 = g" by simp
  show ?thesis
  proof
    assume "\<exists>j. j < (length got + 3) div 4 \<and> in_use (of_le32 (drop (4 * j) (got @ rest))) n"
    then obtain j where "j < g" "in_use (of_le32 (drop (4 * j) (got @ rest))) n" unfolding g d by blast
    then show "\<exists>h. pos \<le> 4 * h \<and> 4 * h + 4 \<le> pos + length got \<and> in_use (of_le32 (drop (4 * h) bytes)) n"
      using e[of j] assms(2) g by (intro exI[of _ "q + j"]) simp
  next
    assume "\<exists>h. pos \<le> 4 * h \<and> 4 * h + 4 \<le> pos + length got \<and> in_use (of_le32 (drop (4 * h) bytes)) n"
    then obtain h where h: "4 * q \<le> 4 * h" "4 * h + 4 \<le> 4 * q + 4 * g" "in_use (of_le32 (drop (4 * h) bytes)) n"
      unfolding g assms(2) by blast
    then have "h - q < g" "q + (h - q) = h" by linarith+
    then show "\<exists>j. j < (length got + 3) div 4 \<and> in_use (of_le32 (drop (4 * j) (got @ rest))) n"
      using e[of "h - q"] h(3) unfolding g d by (intro exI[of _ "h - q"]) simp
  qed
qed

lemma chunk_split:
  assumes "(pos :: nat) = 4 * q" "l = 4 * g" "pos + l \<le> pend"
  shows "pos \<le> 4 * h \<and> 4 * h + 4 \<le> pend \<longleftrightarrow>
    pos \<le> 4 * h \<and> 4 * h + 4 \<le> pos + l \<or> pos + l \<le> 4 * h \<and> 4 * h + 4 \<le> pend"
  using assms by arith

lemma restore_loop_fine:
  assumes "xib_ok0 s" "si_xib s \<noteq> Some f" "f_data (file_at s f) = bytes" "4 dvd length bytes" "pend = length bytes"
    "4 dvd pos" "length page = 4096"
  shows "\<exists>page' s'. restore_loop pend pos f page s = (0, page', s') \<and> length page' = 4096 \<and> xib_ok0 s' \<and>
    xib_frame s s' \<and> (\<forall>n. used_bit s' n \<longleftrightarrow> used_bit s n \<or>
      (\<exists>h. pos \<le> 4 * h \<and> 4 * h + 4 \<le> pend \<and> in_use (of_le32 (drop (4 * h) bytes)) n))"
  using assms
proof (induction pend pos f page s rule: restore_loop.induct)
  case (1 pend pos f page s)
  show ?case
  proof (cases "pos < pend")
    case False
    then show ?thesis using "1.prems" by (intro exI[of _ page] exI[of _ s]) (auto simp: xib_frame_refl)
  next
    case True
    let ?got = "take 4096 (drop pos bytes)"
    let ?page = "?got @ drop (length ?got) page"
    obtain rs where r: "xino_fread s f page pos = (int (length ?got), ?page, s\<lparr>io := rs\<rparr>)" "fine (s\<lparr>io := rs\<rparr>)"
      using fread_any[of s f page pos] "1.prems" by (auto simp: xib_ok0_def Let_def)
    let ?s1 = "s\<lparr>io := rs\<rparr>"
    have i1: "xib_ok0 ?s1" "xib_frame s ?s1" "used_bit ?s1 = used_bit s" using io_upd_ok0[OF "1.prems"(1) r(2)] by simp_all
    obtain q where q: "pos = 4 * q" using "1.prems"(6) by (auto simp: dvd_def)
    have pl: "pos < length bytes" using True "1.prems"(5) by simp
    have lg: "0 < length ?got" "pos + length ?got \<le> pend" "4 dvd length ?got"
    proof -
      obtain w where "length bytes = 4 * w" using "1.prems"(4) by (auto simp: dvd_def)
      then have "length ?got = 4 * min 1024 (w - q)" using q by (cases "w - q \<le> 1024") (simp_all add: min_def)
      then show "4 dvd length ?got" by simp
    qed (use pl "1.prems"(5) in simp_all)
    have lp: "length ?page = 4096" using "1.prems"(7) by simp
    have ic: "(\<exists>j. j < (length ?got + 3) div 4 \<and> in_use (of_le32 (drop (4 * j) ?page)) n) \<longleftrightarrow>
        (\<exists>h. pos \<le> 4 * h \<and> 4 * h + 4 \<le> pos + length ?got \<and> in_use (of_le32 (drop (4 * h) bytes)) n)" for n
      by (rule in_chunk[OF "1.prems"(4) q pl refl]) (use "1.prems"(7) in simp)
    obtain s2 where s2: "restore_entries ((length ?got + 3) div 4) 0 ?page ?s1 = (0, s2)" "xib_ok0 s2" "xib_frame ?s1 s2"
      "\<forall>n. used_bit s2 n \<longleftrightarrow> used_bit ?s1 n \<or>
         (\<exists>j. 0 \<le> j \<and> j < 0 + (length ?got + 3) div 4 \<and> in_use (of_le32 (drop (4 * j) ?page)) n)"
      using restore_entries_fine[OF i1(1), of "(length ?got + 3) div 4" 0 ?page] by auto
    have fr2: "xib_frame s s2" by (rule xib_frame_trans[OF i1(2) s2(3)])
    have p2: "si_xib s2 \<noteq> Some f" "f_data (file_at s2 f) = bytes"
      using fr2 "1.prems"(2,3) by (auto simp: xib_frame_def)
    have u2: "used_bit s2 n \<longleftrightarrow> used_bit s n \<or>
        (\<exists>h. pos \<le> 4 * h \<and> 4 * h + 4 \<le> pos + length ?got \<and> in_use (of_le32 (drop (4 * h) bytes)) n)" for n
      using s2(4) ic[of n] i1(3) by simp
    have ne: "\<not> int (length ?got) \<le> 0" using lg(1) by simp
    have d2: "4 dvd pos + nat (int (length ?got))" using lg(3) "1.prems"(6) by simp
    have s2': "restore_entries ((nat (int (length ?got)) + 3) div 4) 0 ?page ?s1 = (0, s2)" using s2(1) by simp
    have nz: "\<not> (0 :: int) \<noteq> 0" by simp
    obtain page' s' where l: "restore_loop pend (pos + length ?got) f ?page s2 = (0, page', s')" "length page' = 4096"
      "xib_ok0 s'" "xib_frame s2 s'"
      "\<forall>n. used_bit s' n \<longleftrightarrow> used_bit s2 n \<or>
        (\<exists>h. pos + length ?got \<le> 4 * h \<and> 4 * h + 4 \<le> pend \<and> in_use (of_le32 (drop (4 * h) bytes)) n)"
      using "1.IH"[OF True refl r(1)[symmetric] refl ne refl s2'[symmetric] nz s2(2) p2 "1.prems"(4,5) d2 lp] by auto
    have "restore_loop pend pos f page s = (0, page', s')"
      unfolding restore_loop.simps[of pend pos f page s]
      by (simp only: True if_True r(1) Let_def prod.case ne if_False s2(1) nz nat_int l(1))
    moreover have "used_bit s' n \<longleftrightarrow> used_bit s n \<or>
        (\<exists>h. pos \<le> 4 * h \<and> 4 * h + 4 \<le> pend \<and> in_use (of_le32 (drop (4 * h) bytes)) n)" for n
    proof -
      obtain g where g: "length ?got = 4 * g" using lg(3) by (auto simp: dvd_def)
      have "pos \<le> 4 * h \<and> 4 * h + 4 \<le> pend \<longleftrightarrow>
          pos \<le> 4 * h \<and> 4 * h + 4 \<le> pos + length ?got \<or> pos + length ?got \<le> 4 * h \<and> 4 * h + 4 \<le> pend" for h
        by (rule chunk_split[OF q g lg(2)])
      then show ?thesis using l(5) u2[of n] by blast
    qed
    ultimately show ?thesis using l(2,3) xib_frame_trans[OF fr2 l(4)] by blast
  qed
qed

lemma do_xib_restore_fine:
  assumes "xib_ok0 s" "si_xib s \<noteq> Some f" "4 dvd i_size s f" "length page = 4096"
  shows "\<exists>page' s'. do_xib_restore s f page = (0, page', s') \<and> length page' = 4096 \<and> xib_ok0 s' \<and>
    xib_frame s s' \<and> (\<forall>n. used_bit s' n \<longleftrightarrow> used_bit s n \<or> map_holds (f_data (file_at s f)) n)"
  using restore_loop_fine[OF assms(1,2) refl _ refl, of 0 page] assms(3,4)
  by (simp add: do_xib_restore_def i_size_def map_holds_def)

lemma xib_restore_loop_fine:
  assumes "xib_ok0 s" "length page = 4096" "0 \<le> b" "b + int n = int (length (si_branch s))"
    "\<And>n. (\<exists>i. 0 \<le> i \<and> i < b \<and> map_holds (f_data (file_at s (br_file s i))) n) \<longleftrightarrow> used_bit s n"
    "\<And>i j. 0 \<le> i \<Longrightarrow> i \<le> sbend s \<Longrightarrow> 0 \<le> j \<Longrightarrow> j \<le> sbend s \<Longrightarrow> br_sb (sbr s i) = br_sb (sbr s j) \<Longrightarrow> br_file s i = br_file s j"
  shows "\<exists>s'. xib_restore_loop n b page s = (0, s') \<and> xib_ok0 s' \<and> xib_frame s s' \<and>
    (\<forall>n. used_bit s' n \<longleftrightarrow> (\<exists>i. 0 \<le> i \<and> i \<le> sbend s \<and> map_holds (f_data (file_at s (br_file s i))) n))"
  using assms
proof (induction n arbitrary: b page s)
  case 0
  then have "i < b \<longleftrightarrow> i \<le> sbend s" for i by (auto simp: au_sbend_def)
  with 0 show ?case by (auto simp: xib_frame_refl)
next
  case (Suc n)
  have be: "b \<le> sbend s" using Suc.prems(4) by (simp add: au_sbend_def)
  have nb: "nat b < length (si_branch s)" using Suc.prems(3,4) by linarith
  then have "sbr s b \<in> set (si_branch s)" by (simp add: au_sbr_def)
  then obtain g where g: "xi_file (sbr s b) = Some g" "g < length (xfiles s)" "si_xib s \<noteq> Some g" "4 dvd length (f_data (file_at s g))"
    using Suc.prems(1) unfolding xib_ok0_def maps_ok_def by blast
  have bf: "br_file s b = g" using g(1) nb by (simp add: br_file_def au_sbr_def)
  let ?M = "\<lambda>s i n. map_holds (f_data (file_at s (br_file s i))) n"
  have upto: "(\<exists>i. 0 \<le> i \<and> i < b + 1 \<and> P i) \<longleftrightarrow> (\<exists>i. 0 \<le> i \<and> i < b \<and> P i) \<or> P b" for P
    using Suc.prems(3) by (metis zle_add1_eq_le order_le_less)
  let ?skip = "\<not> (b = 0 \<or> is_sb_shared (si_branch s) b (b - 1) < 0)"
  show ?case
  proof (cases ?skip)
    case True
    let ?k = "is_sb_shared (si_branch s) b (b - 1)"
    have k: "0 \<le> ?k" "?k < b" "br_sb (sbr s ?k) = br_sb (sbr s b)"
      using is_sb_shared_below[OF refl Suc.prems(3), of "si_branch s"] True by linarith+
    have "br_file s b = br_file s ?k"
      by (rule Suc.prems(6)) (use k be Suc.prems(3) in auto)
    then have "?M s b m \<Longrightarrow> \<exists>i. 0 \<le> i \<and> i < b \<and> ?M s i m" for m using k(1,2) by metis
    then have u: "(\<exists>i. 0 \<le> i \<and> i < b + 1 \<and> ?M s i m) \<longleftrightarrow> used_bit s m" for m
      using upto[of "\<lambda>i. ?M s i m"] Suc.prems(5)[of m] by blast
    have "0 \<le> b + 1" "b + 1 + int n = int (length (si_branch s))" using Suc.prems(3,4) by simp_all
    note ih = Suc.IH[OF Suc.prems(1,2) this u Suc.prems(6)]
    have e: "xib_restore_loop (Suc n) b page s = xib_restore_loop n (b + 1) page s"
      unfolding xib_restore_loop.simps using True by argo
    show ?thesis unfolding e by (rule ih)
  next
    case False
    obtain page' s1 where s1: "do_xib_restore s g page = (0, page', s1)" "length page' = 4096" "xib_ok0 s1" "xib_frame s s1"
      "\<forall>n. used_bit s1 n \<longleftrightarrow> used_bit s n \<or> map_holds (f_data (file_at s g)) n"
      using do_xib_restore_fine[OF Suc.prems(1) g(3) _ Suc.prems(2)] g(4) by (auto simp: i_size_def)
    have e1: "si_branch s1 = si_branch s" "br_file s1 = br_file s" using s1(4) by (simp_all add: xib_frame_def br_file_def fun_eq_iff)
    have m1: "?M s1 i m = ?M s i m" if "0 \<le> i" "i \<le> sbend s" for i m
    proof -
      have ni: "nat i < length (si_branch s)" using that by (auto simp: au_sbend_def)
      then have "sbr s i \<in> set (si_branch s)" by (simp add: au_sbr_def)
      then obtain k where "xi_file (sbr s i) = Some k" "si_xib s \<noteq> Some k"
        using Suc.prems(1) unfolding xib_ok0_def maps_ok_def by blast
      moreover have "br_file s i = the (xi_file (sbr s i))" using ni by (simp add: br_file_def au_sbr_def)
      ultimately show ?thesis using s1(4) by (simp add: xib_frame_def e1)
    qed
    have u: "(\<exists>i. 0 \<le> i \<and> i < b + 1 \<and> ?M s1 i m) \<longleftrightarrow> used_bit s1 m" for m
    proof -
      have "(\<exists>i. 0 \<le> i \<and> i < b + 1 \<and> ?M s1 i m) \<longleftrightarrow> (\<exists>i. 0 \<le> i \<and> i < b + 1 \<and> ?M s i m)"
        using m1 be by (meson order_trans zless_add1_eq less_le_trans zle_add1_eq_le)
      then show ?thesis using upto[of "\<lambda>i. ?M s i m"] Suc.prems(5)[of m] s1(5) bf by simp
    qed
    have a: "0 \<le> b + 1" "b + 1 + int n = int (length (si_branch s1))" using Suc.prems(3,4) e1 by simp_all
    obtain s' where s': "xib_restore_loop n (b + 1) page' s1 = (0, s')" "xib_ok0 s'" "xib_frame s1 s'"
      "\<forall>n. used_bit s' n \<longleftrightarrow> (\<exists>i. 0 \<le> i \<and> i \<le> sbend s1 \<and> ?M s1 i n)"
      using Suc.IH[OF s1(3,2) a u] Suc.prems(6) unfolding e1 by metis
    have "xib_restore_loop (Suc n) b page s = (0, s')" using False s1(1) s'(1) g(1) by simp
    moreover have "used_bit s' m \<longleftrightarrow> (\<exists>i. 0 \<le> i \<and> i \<le> sbend s \<and> ?M s i m)" for m
      using s'(4) m1 unfolding e1 by blast
    ultimately show ?thesis using s'(2) xib_frame_trans[OF s1(4) s'(3)] by blast
  qed
qed

section \<open>Truncation\<close>

lemma xib_trunc_fine:
  assumes ok: "xib_ok s" and p: "1 < xib_pages s" and nl: "\<not> f_nolocal (file_at s (the (si_xib s)))" "length page = 4096"
    and sh: "\<And>i j. 0 \<le> i \<Longrightarrow> i \<le> sbend s \<Longrightarrow> 0 \<le> j \<Longrightarrow> j \<le> sbend s \<Longrightarrow>
      br_sb (sbr s i) = br_sb (sbr s j) \<Longrightarrow> br_file s i = br_file s j"
    and r: "au_xib_trunc s page = (err, s')"
  shows "err = 0 \<and> xib_ok0 s' \<and>
    (\<forall>n. used_bit s' n \<longleftrightarrow> (\<exists>i. 0 \<le> i \<and> i \<le> sbend s \<and> map_holds (f_data (file_at s (br_file s i))) n)) \<and>
    (\<forall>i h. 0 \<le> i \<and> i \<le> sbend s \<longrightarrow> xino_entry s' (br_file s i) h = xino_entry s (br_file s i) h)"
proof -
  obtain f b where f: "si_xib s = Some f" "f < length (xfiles s)" "si_xib_buf s = Some b" "length b = 4096"
    "length (f_data (file_at s f)) = xib_pages s * 4096" "si_xib_last_pindex s < xib_pages s" "fine s"
    by (rule xib_ok_obtain[OF ok])
  let ?L = "length (xfiles s)" and ?z = "replicate 4096 (0 :: u8)"
  define x where "x = (file_at s f)\<lparr>f_data := [], f_count := 1\<rparr>"
  obtain os where c: "au_xino_create2 s f None = (Inr ?L, s\<lparr>ops := os, xfiles := xfiles s @ [x]\<rparr>)" "fine (s\<lparr>ops := os\<rparr>)"
    using create2_fine[OF f(7), of f None] nl(1) f(1) by (auto simp: x_def)
  let ?s1 = "(fput f (s\<lparr>ops := os, xfiles := xfiles s @ [x]\<rparr>))\<lparr>si_xib := Some ?L, si_xib_buf := Some ?z\<rparr>"
  have lx: "length (xfiles ?s1) = ?L + 1" by (simp add: fput_def)
  have at1: "file_at ?s1 g = (if g = ?L then x else if g = f then (file_at s f)\<lparr>f_count := f_count (file_at s f) - 1\<rparr> else file_at s g)"
    if "g \<le> ?L" for g
    using f(2) that by (simp add: fput_def file_at_upd_file) (auto simp: file_at_def nth_append)
  have fine1: "fine ?s1" using c(2) by (simp add: fput_def fine_def)
  obtain rs os' where w: "xino_fwrite ?s1 ?L ?z 0 =
      (4096, upd_file ?L (\<lambda>y. y\<lparr>f_data := bytes_write (f_data (file_at ?s1 ?L)) 0 ?z\<rparr>) (?s1\<lparr>ops := os', io := rs\<rparr>))"
      "fine (?s1\<lparr>ops := os', io := rs\<rparr>)"
    using fwrite_fine[OF fine1, of ?L ?z 0] by auto
  have zz: "bytes_write (f_data (file_at ?s1 ?L)) 0 ?z = ?z" using at1[of ?L] by (simp add: x_def bytes_write_def)
  let ?s2 = "upd_file ?L (\<lambda>y. y\<lparr>f_data := ?z\<rparr>) (?s1\<lparr>ops := os', io := rs\<rparr>)"
  have at2: "file_at ?s2 g = (if g = ?L then x\<lparr>f_data := ?z\<rparr> else file_at ?s1 g)" if "g \<le> ?L" for g
    using lx that at1[OF that] by (cases "g = ?L") (simp_all add: file_at_upd_file)
  have keep: "f_data (file_at ?s2 g) = f_data (file_at s g)" if "g < ?L" for g
    using at2[of g] at1[of g] that by simp
  have s2: "si_branch ?s2 = si_branch s" "si_xib ?s2 = Some ?L" "si_xib_buf ?s2 = Some ?z" "opt_xino ?s2" "fine ?s2"
    "length (xfiles ?s2) = ?L + 1" "si_xib_last_pindex ?s2 = si_xib_last_pindex s"
    using ok w(2) lx by (simp_all add: xib_ok_def fput_def)
  have pg: "xib_pages ?s2 = 1" using s2(2) at2[of ?L] by (intro xib_pages_eq[of _ ?L]) simp_all
  have mo: "maps_ok ?s2"
    unfolding maps_ok_def s2
  proof
    fix br assume "br \<in> set (si_branch s)"
    then obtain k where "xi_file br = Some k" "k < ?L" "4 dvd length (f_data (file_at s k))"
      using ok unfolding xib_ok_def maps_ok_def by blast
    then show "\<exists>k. xi_file br = Some k \<and> k < ?L + 1 \<and> Some ?L \<noteq> Some k \<and> 4 dvd length (f_data (file_at ?s2 k))"
      using keep[of k] by (intro exI[of _ k]) simp
  qed
  have ok2: "xib_ok0 ?s2" using s2 pg mo at2[of ?L] by (simp add: xib_ok0_def i_size_def)
  obtain s3 where s3: "call ?s2 = (0, s3)" "s3 = ?s2\<lparr>ops := tl (ops ?s2)\<rparr>" "fine s3" using call_fine[OF s2(5)] by blast
  have ok3: "xib_ok0 s3" "xib_frame ?s2 s3"
    using ok2 s3(3) unfolding s3(2) by (auto simp: xib_ok0_def xib_frame_def i_size_def xib_pages_def maps_ok_def)
  have br3: "si_branch s3 = si_branch s" "br_file s3 = br_file s" "si_xib s3 = Some ?L"
    using s2(1,2) by (simp_all add: s3(2) br_file_def fun_eq_iff)
  have bl: "br_file s i < ?L" if "0 \<le> i" "i \<le> sbend s" for i using branch_file(2)[OF ok that] .
  have k3: "f_data (file_at s3 (br_file s i)) = f_data (file_at s (br_file s i))" if "0 \<le> i" "i \<le> sbend s" for i
    using keep[OF bl[OF that]] by (simp add: s3(2))
  have u3: "\<not> used_bit s3 n" for n
  proof -
    have "n div 8 mod 4096 < 4096" by simp
    then have "xib_byte s3 (n div 8) = 0"
      using s2(2,3) at2[of ?L] by (simp add: xib_byte_def s3(2) Let_def)
    then show ?thesis by (simp add: used_bit_def)
  qed
  have e: "au_xib_trunc s page = xib_restore_loop (length (si_branch s)) 0 page s3"
  proof -
    have sz: "\<not> i_size s f \<le> 4096" using f(5) p by (simp add: i_size_def)
    have ox: "opt_xino s" using ok by (simp add: xib_ok_def)
    have "au_xib_trunc s page = xib_restore ?s2 page"
      using sz ox c(1) w(1)[unfolded zz] f(1) by (simp add: au_xib_trunc_def)
    also have "\<dots> = xib_restore_loop (length (si_branch s)) 0 page s3"
      using s3(1) br3(1) by (simp add: xib_restore_def)
    finally show ?thesis .
  qed
  have u0: "(\<exists>i. 0 \<le> i \<and> i < 0 \<and> map_holds (f_data (file_at s3 (br_file s3 i))) n) \<longleftrightarrow> used_bit s3 n" for n
    using u3[of n] by auto
  have sh3: "br_file s3 i = br_file s3 j" if "0 \<le> i" "i \<le> sbend s3" "0 \<le> j" "j \<le> sbend s3" "br_sb (sbr s3 i) = br_sb (sbr s3 j)" for i j
    using that sh[of i j] unfolding br3 by blast
  obtain s4 where s4: "xib_restore_loop (length (si_branch s)) 0 page s3 = (0, s4)" "xib_ok0 s4" "xib_frame s3 s4"
    "\<forall>n. used_bit s4 n \<longleftrightarrow> (\<exists>i. 0 \<le> i \<and> i \<le> sbend s3 \<and> map_holds (f_data (file_at s3 (br_file s3 i))) n)"
    using xib_restore_loop_fine[OF ok3(1) nl(2) _ _ u0 sh3, of "length (si_branch s)"] br3(1) by auto
  have s': "err = 0" "s' = s4" using r e s4(1) by auto
  have "used_bit s' n \<longleftrightarrow> (\<exists>i. 0 \<le> i \<and> i \<le> sbend s \<and> map_holds (f_data (file_at s (br_file s i))) n)" for n
    using s4(4) k3 unfolding s'(2) br3 by fastforce
  moreover have "xino_entry s' (br_file s i) h = xino_entry s (br_file s i) h" if "0 \<le> i" "i \<le> sbend s" for i h
    using s4(3) k3[OF that] bl[OF that] br3(3) unfolding s'(2) by (simp add: xino_entry_def xib_frame_def)
  ultimately show ?thesis using s' s4(2) by blast
qed

text \<open>
  C23: truncating the bitmap (after a branch is removed) rebuilds it from the maps: when nothing fails,
  a number is in use afterwards exactly when the map of some branch holds it, and no map entry changes.
\<close>

theorem xib_trunc_rebuilds:
  assumes "xib_ok s" "1 < xib_pages s" "\<not> f_nolocal (file_at s (the (si_xib s)))" "length page = 4096"
    "\<And>i j. 0 \<le> i \<Longrightarrow> i \<le> sbend s \<Longrightarrow> 0 \<le> j \<Longrightarrow> j \<le> sbend s \<Longrightarrow>
      br_sb (sbr s i) = br_sb (sbr s j) \<Longrightarrow> br_file s i = br_file s j"
    "au_xib_trunc s page = (err, s')"
  shows "err = 0 \<and> xib_ok0 s' \<and>
    (\<forall>n. used_bit s' n \<longleftrightarrow> (\<exists>i. 0 \<le> i \<and> i \<le> sbend s \<and> map_holds (f_data (file_at s (br_file s i))) n)) \<and>
    (\<forall>i h. 0 \<le> i \<and> i \<le> sbend s \<longrightarrow> xino_entry s' (br_file s i) h = xino_entry s (br_file s i) h)"
  by (rule xib_trunc_fine[OF assms])

theorem xib_trunc_rebuilds_witness:
  "used_bit demo_pages 0 \<and> \<not> used_bit (snd (au_xib_trunc demo_pages (replicate 4096 0))) 0"
proof -
  have ok: "xib_ok demo_pages" "1 < xib_pages demo_pages"
    by (simp_all add: xib_ok_def demo_pages_def demo_sb_def fine_def io_fine_def i_size_def file_at_def xib_pages_def maps_ok_def)
  have l: "\<not> f_nolocal (file_at demo_pages (the (si_xib demo_pages)))" by (simp add: demo_pages_def demo_sb_def file_at_def)
  have e: "sbend demo_pages = 0" by (simp add: demo_pages_def demo_sb_def au_sbend_def)
  obtain err s' where r: "au_xib_trunc demo_pages (replicate 4096 0) = (err, s')" by fastforce
  have u: "used_bit demo_pages 0" by (simp add: used_bit_def xib_byte_def demo_pages_def demo_sb_def file_at_def nth_append)
  have d: "f_data (file_at demo_pages (br_file demo_pages 0)) = []"
    by (simp add: demo_pages_def demo_sb_def file_at_def br_file_def)
  have "\<not> used_bit s' 0"
    using xib_trunc_rebuilds[OF ok l _ _ r] d unfolding e by (auto simp: map_holds_def dest: order_antisym)
  then show ?thesis using u r by simp
qed

end
