(* ===== verification/Aufs_Dinfo.thy ===== *)
theory Aufs_Dinfo
  imports Aufs_Base "HOL-Library.Multiset"
begin

text \<open>
  The part of a dentry that aufs adds (\<^verbatim>\<open>dinfo.c\<close>, \<^verbatim>\<open>struct au_dinfo\<close>): one lower dentry per
  branch, the range of branches in use, the whiteout and the opaque directory. The locks of
  the structure are left out; each operation runs under the write lock its caller holds.
\<close>

section \<open>State\<close>

text \<open>A lower dentry, negative when \<open>d_inode\<close> is \<open>None\<close>. \<open>dputs\<close> logs the references given back.\<close>

record h_dentry =
  h_id :: nat
  d_inode :: "nat option"

record au_dinfo =
  di_generation :: u32
  di_bstart :: int
  di_bend :: int
  di_bwh :: int
  di_bdiropq :: int
  di_hdentry :: "h_dentry option list"
  dputs :: "nat list"

abbreviation (input) au_dbstart :: "au_dinfo \<Rightarrow> int" where "au_dbstart \<equiv> di_bstart"
abbreviation (input) au_dbend :: "au_dinfo \<Rightarrow> int" where "au_dbend \<equiv> di_bend"
abbreviation (input) au_dbwh :: "au_dinfo \<Rightarrow> int" where "au_dbwh \<equiv> di_bwh"
abbreviation (input) au_dbdiropq :: "au_dinfo \<Rightarrow> int" where "au_dbdiropq \<equiv> di_bdiropq"

section \<open>Operations\<close>

text \<open>\<open>di_mem\<close> and \<open>arr_mem\<close>: whether the two allocations succeed.\<close>

definition au_alloc_dinfo :: "int \<Rightarrow> u32 \<Rightarrow> bool \<Rightarrow> bool \<Rightarrow> int \<times> au_dinfo option" where
  "au_alloc_dinfo sbend sigen di_mem arr_mem =
     (if \<not> di_mem then (- ENOMEM, None)
      else
        let nbr = sbend + 1; nbr = (if nbr \<le> 0 then 1 else nbr)
        in if \<not> arr_mem then (- ENOMEM, None)
           else (0, Some \<lparr>di_generation = sigen, di_bstart = -1, di_bend = -1, di_bwh = -1,
             di_bdiropq = -1, di_hdentry = replicate (nat nbr) None, dputs = []\<rparr>))"

definition au_h_dptr :: "au_dinfo \<Rightarrow> int \<Rightarrow> h_dentry option" where
  "au_h_dptr di bindex =
     (if au_dbstart di < 0 \<or> bindex < au_dbstart di then None else di_hdentry di ! nat bindex)"

definition au_dbtail :: "au_dinfo \<Rightarrow> int" where
  "au_dbtail di =
     (let bend = au_dbend di
      in if 0 \<le> bend then
           let bwh = au_dbwh di
           in if bwh = 0 then bwh
              else if 0 < bwh \<and> bwh < bend then bwh - 1
              else bend
         else bend)"

definition au_dbtaildir :: "au_dinfo \<Rightarrow> int" where
  "au_dbtaildir di =
     (let bend = au_dbtail di
      in if 0 \<le> bend then
           let bopq = au_dbdiropq di in if 0 \<le> bopq \<and> bopq < bend then bopq else bend
         else bend)"

definition au_set_dbstart :: "int \<Rightarrow> au_dinfo \<Rightarrow> au_dinfo" where
  "au_set_dbstart bindex di = di\<lparr>di_bstart := bindex\<rparr>"

definition au_set_dbend :: "int \<Rightarrow> au_dinfo \<Rightarrow> au_dinfo" where
  "au_set_dbend bindex di = di\<lparr>di_bend := bindex\<rparr>"

definition au_set_dbwh :: "int \<Rightarrow> au_dinfo \<Rightarrow> au_dinfo" where
  "au_set_dbwh bindex di = di\<lparr>di_bwh := bindex\<rparr>"

definition au_set_dbdiropq :: "int \<Rightarrow> au_dinfo \<Rightarrow> au_dinfo" where
  "au_set_dbdiropq bindex di = di\<lparr>di_bdiropq := bindex\<rparr>"

definition au_set_h_dptr :: "int \<Rightarrow> h_dentry option \<Rightarrow> au_dinfo \<Rightarrow> au_dinfo" where
  "au_set_h_dptr bindex h di =
     (let di = (case di_hdentry di ! nat bindex of None \<Rightarrow> di | Some old \<Rightarrow> di\<lparr>dputs := h_id old # dputs di\<rparr>)
      in di\<lparr>di_hdentry := (di_hdentry di)[nat bindex := h]\<rparr>)"

text \<open>The loop of \<^verbatim>\<open>au_update_dbrange\<close> over the lower dentries that are negative.\<close>

fun put_zero_dentries :: "int \<Rightarrow> nat \<Rightarrow> au_dinfo \<Rightarrow> au_dinfo" where
  "put_zero_dentries bindex 0 di = di"
| "put_zero_dentries bindex (Suc n) di =
     (let di' = (case di_hdentry di ! nat bindex of
                   None \<Rightarrow> di
                 | Some h_d \<Rightarrow> if d_inode h_d = None then au_set_h_dptr bindex None di else di)
      in put_zero_dentries (bindex + 1) n di')"

definition au_update_dbrange :: "bool \<Rightarrow> au_dinfo \<Rightarrow> au_dinfo" where
  "au_update_dbrange do_put_zero di =
     (if di_bstart di < 0 then di
      else
        let di = (if do_put_zero
                  then put_zero_dentries (di_bstart di) (nat (di_bend di - di_bstart di + 1)) di else di);
            di = di\<lparr>di_bstart := scan_up (di_hdentry di) 0 (nat (di_bend di + 1))\<rparr>
        in if di_bstart di > di_bend di then di\<lparr>di_bstart := -1, di_bend := -1\<rparr>
           else di\<lparr>di_bend := scan_down (di_hdentry di) (di_bend di) (nat (di_bend di + 1))\<rparr>)"

fun update_dbstart_loop :: "int \<Rightarrow> nat \<Rightarrow> au_dinfo \<Rightarrow> au_dinfo" where
  "update_dbstart_loop bindex 0 di = di"
| "update_dbstart_loop bindex (Suc n) di =
     (case au_h_dptr di bindex of
        None \<Rightarrow> update_dbstart_loop (bindex + 1) n di
      | Some h \<Rightarrow> if d_inode h \<noteq> None then au_set_dbstart bindex di
                  else update_dbstart_loop (bindex + 1) n (au_set_h_dptr bindex None di))"

definition au_update_dbstart :: "au_dinfo \<Rightarrow> au_dinfo" where
  "au_update_dbstart di =
     update_dbstart_loop (au_dbstart di) (nat (au_dbend di - au_dbstart di + 1)) di"

text \<open>
  The loop of \<^verbatim>\<open>au_update_dbend\<close> as written: it counts down while \<^verbatim>\<open>bindex <= bstart\<close>, and a branch
  index is a signed char. The result is \<open>None\<close> when the fuel runs out.
\<close>

definition bindex_dec :: "int \<Rightarrow> int" where
  "bindex_dec b = (if b = -128 then 127 else b - 1)"

fun update_dbend_loop :: "nat \<Rightarrow> int \<Rightarrow> int \<Rightarrow> au_dinfo \<Rightarrow> au_dinfo option" where
  "update_dbend_loop 0 bindex bstart di = None"
| "update_dbend_loop (Suc fuel) bindex bstart di =
     (if \<not> bindex \<le> bstart then Some di
      else case au_h_dptr di bindex of
        None \<Rightarrow> update_dbend_loop fuel (bindex_dec bindex) bstart di
      | Some h \<Rightarrow> if d_inode h \<noteq> None then Some (au_set_dbend bindex di)
                  else update_dbend_loop fuel (bindex_dec bindex) bstart (au_set_h_dptr bindex None di))"

definition au_update_dbend :: "au_dinfo \<Rightarrow> au_dinfo option" where
  "au_update_dbend di = update_dbend_loop 257 (au_dbend di) (au_dbstart di) di"

fun find_dbindex_loop :: "au_dinfo \<Rightarrow> nat \<Rightarrow> int \<Rightarrow> nat \<Rightarrow> int" where
  "find_dbindex_loop di h bindex 0 = -1"
| "find_dbindex_loop di h bindex (Suc n) =
     (if map_option h_id (au_h_dptr di bindex) = Some h then bindex
      else find_dbindex_loop di h (bindex + 1) n)"

definition au_find_dbindex :: "au_dinfo \<Rightarrow> nat \<Rightarrow> int" where
  "au_find_dbindex di h = find_dbindex_loop di h (au_dbstart di) (nat (au_dbend di - au_dbstart di + 1))"

definition au_update_digen :: "u32 \<Rightarrow> au_dinfo \<Rightarrow> au_dinfo" where
  "au_update_digen sigen di = di\<lparr>di_generation := sigen\<rparr>"

section \<open>Invariant\<close>

text \<open>The range is empty or inside the array, and no lower dentry lies outside of it.\<close>

definition dinfo_ok :: "au_dinfo \<Rightarrow> bool" where
  "dinfo_ok di \<longleftrightarrow> (di_bstart di = -1 \<and> di_bend di = -1 \<or>
     0 \<le> di_bstart di \<and> di_bstart di \<le> di_bend di \<and> di_bend di < int (length (di_hdentry di))) \<and>
     (\<forall>i < length (di_hdentry di). di_hdentry di ! i \<noteq> None \<longrightarrow> di_bstart di \<le> int i \<and> int i \<le> di_bend di)"

lemma alloc_dinfo_ok: "au_alloc_dinfo sbend sigen m1 m2 = (0, Some di) \<Longrightarrow> dinfo_ok di"
  by (auto simp: au_alloc_dinfo_def dinfo_ok_def Let_def split: if_splits)

lemma set_h_dptr_fields:
  "di_bstart (au_set_h_dptr b h di) = di_bstart di" "di_bend (au_set_h_dptr b h di) = di_bend di"
  "di_hdentry (au_set_h_dptr b h di) = (di_hdentry di)[nat b := h]"
  "dputs (au_set_h_dptr b h di) =
     (case di_hdentry di ! nat b of None \<Rightarrow> dputs di | Some old \<Rightarrow> h_id old # dputs di)"
  by (simp_all add: au_set_h_dptr_def Let_def split: option.splits)

definition positive :: "h_dentry option \<Rightarrow> h_dentry option" where
  "positive h = (case h of None \<Rightarrow> None | Some d \<Rightarrow> if d_inode d = None then None else Some d)"

lemma put_zero_dentries_fields:
  assumes "0 \<le> b" "b + int n \<le> int (length (di_hdentry di))"
  shows "di_bstart (put_zero_dentries b n di) = di_bstart di \<and> di_bend (put_zero_dentries b n di) = di_bend di \<and>
    length (di_hdentry (put_zero_dentries b n di)) = length (di_hdentry di) \<and>
    (\<forall>i < length (di_hdentry di). di_hdentry (put_zero_dentries b n di) ! i =
      (if b \<le> int i \<and> int i < b + int n then positive (di_hdentry di ! i) else di_hdentry di ! i))"
  using assms
proof (induction n arbitrary: b di)
  case (Suc n)
  let ?di = "case di_hdentry di ! nat b of None \<Rightarrow> di
    | Some h_d \<Rightarrow> if d_inode h_d = None then au_set_h_dptr b None di else di"
  have f: "di_bstart ?di = di_bstart di" "di_bend ?di = di_bend di"
    "di_hdentry ?di = (di_hdentry di)[nat b := positive (di_hdentry di ! nat b)]"
    by (auto simp: set_h_dptr_fields positive_def split: option.splits) (metis list_update_id)+
  have "0 \<le> b + 1" "b + 1 + int n \<le> int (length (di_hdentry ?di))" using Suc.prems f(3) by simp_all
  note ih = Suc.IH[OF this]
  have e: "int i = b \<longleftrightarrow> i = nat b" for i using Suc.prems(1) by linarith
  have pp: "positive (positive h) = positive h" for h by (simp add: positive_def split: option.splits)
  show ?case using ih f Suc.prems by (auto simp: nth_list_update Let_def)
qed (auto simp: algebra_simps)

lemma update_dbrange_spec:
  fixes z :: bool and di :: au_dinfo
  assumes ok: "dinfo_ok di" and st: "0 \<le> di_bstart di"
  defines "hs \<equiv> (if z then map positive (di_hdentry di) else di_hdentry di)"
  defines "r \<equiv> au_update_dbrange z di"
  shows "di_hdentry r = hs \<and>
    (if \<forall>i < length hs. hs ! i = None then di_bstart r = -1 \<and> di_bend r = -1
     else 0 \<le> di_bstart r \<and> di_bstart r \<le> di_bend r \<and> di_bend r < int (length hs) \<and>
       hs ! nat (di_bstart r) \<noteq> None \<and> hs ! nat (di_bend r) \<noteq> None \<and>
       (\<forall>i < length hs. hs ! i \<noteq> None \<longrightarrow> di_bstart r \<le> int i \<and> int i \<le> di_bend r))"
proof -
  let ?n = "nat (di_bend di - di_bstart di + 1)"
  let ?d = "if z then put_zero_dentries (di_bstart di) ?n di else di"
  have rg: "di_bstart di \<le> di_bend di" "di_bend di < int (length (di_hdentry di))"
    and out: "\<And>i. i < length (di_hdentry di) \<Longrightarrow> \<not> (di_bstart di \<le> int i \<and> int i \<le> di_bend di) \<Longrightarrow> di_hdentry di ! i = None"
    using ok st by (auto simp: dinfo_ok_def)
  have pz: "0 \<le> di_bstart di" "di_bstart di + int ?n \<le> int (length (di_hdentry di))" using rg st by simp_all
  note pf = put_zero_dentries_fields[OF pz]
  have hd: "di_hdentry ?d = hs"
  proof (cases z)
    case True
    have "length (di_hdentry ?d) = length hs" using pf True by (simp add: hs_def)
    moreover have "di_hdentry ?d ! i = hs ! i" if "i < length (di_hdentry ?d)" for i
      using pf True that out[of i] rg by (auto simp: hs_def positive_def split: if_splits)
    ultimately show ?thesis by (rule nth_equalityI)
  qed (simp add: hs_def)
  have bs: "di_bstart ?d = di_bstart di" "di_bend ?d = di_bend di" using pf by auto
  have len: "length hs = length (di_hdentry di)" by (simp add: hs_def)
  have outs: "hs ! i = None" if "i < length hs" "di_bend di < int i" for i
    using out[of i] that len by (auto simp: hs_def positive_def)
  let ?s = "scan_up hs 0 (nat (di_bend di + 1))" and ?t = "scan_down hs (di_bend di) (nat (di_bend di + 1))"
  have rr: "r = (if ?s > di_bend di then ?d\<lparr>di_bstart := -1, di_bend := -1\<rparr> else ?d\<lparr>di_bstart := ?s, di_bend := ?t\<rparr>)"
    using st hd bs by (simp add: r_def au_update_dbrange_def Let_def)
  have up: "0 \<le> ?s" "?s \<le> di_bend di + 1" "?s < di_bend di + 1 \<Longrightarrow> hs ! nat ?s \<noteq> None"
    "\<And>i. 0 \<le> i \<Longrightarrow> i < ?s \<Longrightarrow> hs ! nat i = None"
    using scan_up_spec[of 0 hs "nat (di_bend di + 1)"] rg st by auto
  have dn: "?t \<le> di_bend di" "-1 \<le> ?t" "-1 < ?t \<Longrightarrow> hs ! nat ?t \<noteq> None"
    "\<And>i. ?t < i \<Longrightarrow> i \<le> di_bend di \<Longrightarrow> hs ! nat i = None"
    using scan_down_spec[of hs "di_bend di" "nat (di_bend di + 1)"] rg st by auto
  show ?thesis
  proof (cases "?s > di_bend di")
    case True
    have "hs ! i = None" if "i < length hs" for i
      using up(4)[of "int i"] outs[OF that] True by (cases "int i \<le> di_bend di") auto
    with True show ?thesis by (simp add: rr hd)
  next
    case False
    have s: "hs ! nat ?s \<noteq> None" using up(3) False by simp
    have st': "?s \<le> ?t" using dn(4)[of ?s] s False by force
    have "?s \<le> int i \<and> int i \<le> ?t" if "i < length hs" "hs ! i \<noteq> None" for i
      using up(4)[of "int i"] dn(4)[of "int i"] outs[OF that(1)] that(2) by force
    moreover have "\<not> (\<forall>i < length hs. hs ! i = None)" using s up(1) False rg(2) len by (force intro!: exI[of _ "nat ?s"])
    moreover have "hs ! nat ?t \<noteq> None" using dn(3) st' up(1) by simp
    ultimately show ?thesis using False s st' up(1) dn(1) rg(2) len by (simp add: rr hd)
  qed
qed

section \<open>References\<close>

text \<open>The references held by the array, and those held or given back.\<close>

definition held :: "h_dentry option list \<Rightarrow> nat multiset" where
  "held hs = image_mset (h_id \<circ> the) (filter_mset (\<lambda>h. h \<noteq> None) (mset hs))"

definition drefs :: "au_dinfo \<Rightarrow> nat multiset" where
  "drefs di = held (di_hdentry di) + mset (dputs di)"

lemma held_drop:
  assumes "i < length hs" "hs ! i = Some d"
  shows "held hs = add_mset (h_id d) (held (hs[i := None]))"
proof -
  have "Some d \<in># mset hs" using assms nth_mem_mset by fastforce
  then obtain M where "mset hs = add_mset (Some d) M" by (blast dest: multi_member_split)
  then show ?thesis using assms by (simp add: held_def mset_update)
qed

lemma set_h_dptr_None_refs:
  "nat b < length (di_hdentry di) \<Longrightarrow> drefs (au_set_h_dptr b None di) = drefs di"
  using list_update_id[of "di_hdentry di" "nat b"]
  by (cases "di_hdentry di ! nat b") (simp_all add: drefs_def set_h_dptr_fields held_drop)

lemma put_zero_dentries_refs:
  assumes "0 \<le> b" "b + int n \<le> int (length (di_hdentry di))"
  shows "drefs (put_zero_dentries b n di) = drefs di"
  using assms
  by (induction n arbitrary: b di) (auto simp: Let_def set_h_dptr_None_refs set_h_dptr_fields split: option.splits)

lemma update_dbrange_refs:
  assumes "dinfo_ok di"
  shows "drefs (au_update_dbrange z di) = drefs di"
proof -
  have *: "drefs (di\<lparr>di_bstart := s, di_bend := e\<rparr>) = drefs di" "drefs (di\<lparr>di_bstart := s\<rparr>) = drefs di"
    "drefs (di\<lparr>di_bend := e\<rparr>) = drefs di" for di s e by (simp_all add: drefs_def)
  show ?thesis
    using assms put_zero_dentries_refs[of "di_bstart di" "nat (di_bend di - di_bstart di + 1)" di]
    by (auto simp: au_update_dbrange_def Let_def * dinfo_ok_def)
qed

section \<open>Properties\<close>

definition demo_dinfo :: au_dinfo where
  "demo_dinfo = \<lparr>di_generation = 1, di_bstart = 0, di_bend = 3, di_bwh = -1, di_bdiropq = -1,
     di_hdentry = [Some \<lparr>h_id = 10, d_inode = None\<rparr>, None, Some \<lparr>h_id = 12, d_inode = Some 5\<rparr>,
       Some \<lparr>h_id = 13, d_inode = None\<rparr>], dputs = []\<rparr>"

lemma demo_dinfo_ok: "dinfo_ok demo_dinfo"
  by (auto simp: dinfo_ok_def demo_dinfo_def less_Suc_eq numeral_eq_Suc)

text \<open>
  C20: \<open>au_update_dbrange\<close> drops the negative lower dentries when asked to, giving each reference
  back once, and leaves the range from the first to the last lower dentry that is left, or the
  empty range when none is.
\<close>

theorem dbrange_exact:
  assumes "dinfo_ok di" "0 \<le> di_bstart di" "hs = (if z then map positive (di_hdentry di) else di_hdentry di)"
    "r = au_update_dbrange z di"
  shows "di_hdentry r = hs \<and> dinfo_ok r \<and> drefs r = drefs di \<and>
    (if \<forall>i < length hs. hs ! i = None then di_bstart r = -1 \<and> di_bend r = -1
     else hs ! nat (di_bstart r) \<noteq> None \<and> hs ! nat (di_bend r) \<noteq> None \<and> 0 \<le> di_bstart r)"
proof -
  note s = update_dbrange_spec[OF assms(1,2), of z, folded assms(3,4)]
  from s have "dinfo_ok r" by (auto simp: dinfo_ok_def split: if_splits)
  with s update_dbrange_refs[OF assms(1), of z] show ?thesis unfolding assms(4) by (auto split: if_splits)
qed

theorem dbrange_exact_witness:
  "di_hdentry (au_update_dbrange True demo_dinfo) = map positive (di_hdentry demo_dinfo) \<and>
   di_bstart (au_update_dbrange True demo_dinfo) = 2 \<and> di_bend (au_update_dbrange True demo_dinfo) = 2"
proof -
  have b: "0 \<le> di_bstart demo_dinfo" by (simp add: demo_dinfo_def)
  have "di_bstart (au_update_dbrange True demo_dinfo) = 2 \<and> di_bend (au_update_dbrange True demo_dinfo) = 2"
    by code_simp
  with dbrange_exact[OF demo_dinfo_ok b refl refl, of True] show ?thesis by simp
qed

text \<open>
  The loop of \<open>au_update_dbend\<close> tests \<open>bindex <= bstart\<close> where it means \<open>bstart <= bindex\<close>: on
  any dentry with more than one branch in its range it changes nothing, whatever its last lower
  dentry is.
\<close>

theorem update_dbend_does_nothing:
  assumes "di_bstart di < di_bend di"
  shows "au_update_dbend di = Some di"
  using assms by (simp add: au_update_dbend_def eval_nat_numeral)

theorem update_dbend_does_nothing_witness:
  "au_update_dbend demo_dinfo = Some demo_dinfo \<and>
   di_hdentry demo_dinfo ! nat (di_bend demo_dinfo) = Some \<lparr>h_id = 13, d_inode = None\<rparr>"
  using update_dbend_does_nothing[of demo_dinfo] by (simp add: demo_dinfo_def)

end
