(* ===== verification/Aufs_Iinfo.thy ===== *)
theory Aufs_Iinfo
  imports Aufs_Xino_Props
begin

text \<open>
  The part of an inode that aufs adds (\<^verbatim>\<open>iinfo.c\<close>, \<^verbatim>\<open>struct au_iinfo\<close>): the lower inodes with their
  branch ids, the range in use, the directory cache. Setting a lower inode records the number in
  the map of its branch; the end of an unlinked inode gives its number back. The references given
  back are logged; locks are left out.
\<close>

section \<open>State\<close>

record h_inode =
  hi_ino :: u32
  hi_nlink :: nat
  hi_generation :: u32
  hi_sb :: nat

record au_hinode =
  hi_inode :: "h_inode option"
  hi_id :: int
  hi_notify :: bool
  hi_whdentry :: "nat option"

text \<open>\<open>ii_hinode\<close> is \<open>None\<close> for a bad inode.\<close>

record au_inode =
  i_ino :: u32
  i_nlink :: nat
  ii_generation :: u32
  ii_hsb1 :: nat
  ii_higen :: u32
  ii_bstart :: int
  ii_bend :: int
  ii_hinode :: "au_hinode list option"
  ii_vdir :: "nat option"
  wh_puts :: "nat list"
  h_puts :: "u32 list"
  vdir_frees :: "nat list"

abbreviation (input) hinodes :: "au_inode \<Rightarrow> au_hinode list" where "hinodes i \<equiv> the (ii_hinode i)"
abbreviation (input) au_ibstart :: "au_inode \<Rightarrow> int" where "au_ibstart \<equiv> ii_bstart"
abbreviation (input) au_ibend :: "au_inode \<Rightarrow> int" where "au_ibend \<equiv> ii_bend"

definition upd_hinode :: "int \<Rightarrow> (au_hinode \<Rightarrow> au_hinode) \<Rightarrow> au_inode \<Rightarrow> au_inode" where
  "upd_hinode bindex g i = i\<lparr>ii_hinode := Some ((hinodes i)[nat bindex := g (hinodes i ! nat bindex)])\<rparr>"

section \<open>Operations\<close>

definition au_h_iptr :: "au_inode \<Rightarrow> int \<Rightarrow> h_inode option" where
  "au_h_iptr i bindex = hi_inode (hinodes i ! nat bindex)"

definition au_ii_br_id :: "au_inode \<Rightarrow> int \<Rightarrow> int" where
  "au_ii_br_id i bindex = hi_id (hinodes i ! nat bindex)"

definition au_cpup_igen :: "h_inode \<Rightarrow> au_inode \<Rightarrow> au_inode" where
  "au_cpup_igen h i = i\<lparr>ii_higen := hi_generation h, ii_hsb1 := hi_sb h\<rparr>"

definition au_set_ibstart :: "int \<Rightarrow> au_inode \<Rightarrow> au_inode" where
  "au_set_ibstart bindex i =
     (let i = i\<lparr>ii_bstart := bindex\<rparr>
      in case au_h_iptr i bindex of None \<Rightarrow> i | Some h \<Rightarrow> au_cpup_igen h i)"

record hi_flags =
  AuHi_XINO :: bool
  AuHi_NOTIFY :: bool

definition au_hi_flags :: "au_sbinfo \<Rightarrow> bool \<Rightarrow> bool \<Rightarrow> hi_flags" where
  "au_hi_flags s udba_inotify isdir = \<lparr>AuHi_XINO = opt_xino s, AuHi_NOTIFY = isdir \<and> udba_inotify\<rparr>"

text \<open>The watch is freed and forgotten, the two references are put; the pointers stay.\<close>

definition au_hiput :: "int \<Rightarrow> au_inode \<Rightarrow> au_inode" where
  "au_hiput bindex i =
     (let hi = hinodes i ! nat bindex; i = upd_hinode bindex (\<lambda>x. x\<lparr>hi_notify := False\<rparr>) i;
          i = (case hi_whdentry hi of None \<Rightarrow> i | Some d \<Rightarrow> i\<lparr>wh_puts := d # wh_puts i\<rparr>)
      in case hi_inode hi of None \<Rightarrow> i | Some h \<Rightarrow> i\<lparr>h_puts := hi_ino h # h_puts i\<rparr>)"

text \<open>The errors of \<^verbatim>\<open>au_xino_write\<close> and \<^verbatim>\<open>au_hin_alloc\<close> are only reported.\<close>

definition au_set_h_iptr :: "au_sbinfo \<Rightarrow> au_inode \<Rightarrow> int \<Rightarrow> h_inode option \<Rightarrow> hi_flags \<Rightarrow> au_inode \<times> au_sbinfo" where
  "au_set_h_iptr s i bindex h_inode flags =
     (let i = (if au_h_iptr i bindex \<noteq> None then au_hiput bindex i else i);
          i = upd_hinode bindex (\<lambda>x. x\<lparr>hi_inode := h_inode\<rparr>) i
      in case h_inode of
           None \<Rightarrow> (i, s)
         | Some h \<Rightarrow>
             let i = (if bindex = ii_bstart i then au_cpup_igen h i else i);
                 i = upd_hinode bindex (\<lambda>x. x\<lparr>hi_id := br_id (sbr s bindex)\<rparr>) i;
                 s = (if AuHi_XINO flags then snd (au_xino_write s bindex (hi_ino h) (i_ino i)) else s)
             in if AuHi_NOTIFY flags \<and> au_br_hinotifyable (br_perm (sbr s bindex))
                then let (err, s) = call s in (upd_hinode bindex (\<lambda>x. x\<lparr>hi_notify := (err = 0)\<rparr>) i, s)
                else (i, s))"

definition au_set_hi_wh :: "int \<Rightarrow> nat \<Rightarrow> au_inode \<Rightarrow> au_inode" where
  "au_set_hi_wh bindex h_wh i = upd_hinode bindex (\<lambda>x. x\<lparr>hi_whdentry := Some h_wh\<rparr>) i"

definition au_update_iigen :: "u32 \<Rightarrow> au_inode \<Rightarrow> au_inode" where
  "au_update_iigen sigen i = i\<lparr>ii_generation := sigen\<rparr>"

fun put_zero_inodes :: "au_sbinfo \<Rightarrow> int \<Rightarrow> nat \<Rightarrow> au_inode \<Rightarrow> au_inode" where
  "put_zero_inodes s bindex 0 i = i"
| "put_zero_inodes s bindex (Suc n) i =
     put_zero_inodes s (bindex + 1) n
       (case au_h_iptr i bindex of
          None \<Rightarrow> i
        | Some h \<Rightarrow> if hi_nlink h = 0
                    then fst (au_set_h_iptr s i bindex None \<lparr>AuHi_XINO = False, AuHi_NOTIFY = False\<rparr>) else i)"

definition au_update_brange :: "au_sbinfo \<Rightarrow> bool \<Rightarrow> au_inode \<Rightarrow> au_inode" where
  "au_update_brange s do_put_zero i =
     (if ii_hinode i = None \<or> ii_bstart i < 0 then i
      else
        let i = (if do_put_zero then put_zero_inodes s (ii_bstart i) (nat (ii_bend i - ii_bstart i + 1)) i else i);
            hs = map hi_inode (hinodes i);
            i = i\<lparr>ii_bstart := scan_up hs 0 (nat (ii_bend i + 1))\<rparr>
        in if ii_bstart i > ii_bend i then i\<lparr>ii_bstart := -1, ii_bend := -1\<rparr>
           else i\<lparr>ii_bend := scan_down hs (ii_bend i) (nat (ii_bend i + 1))\<rparr>)"

definition au_iinfo_init :: "au_sbinfo \<Rightarrow> u32 \<Rightarrow> au_inode \<Rightarrow> int \<times> au_inode \<times> au_sbinfo" where
  "au_iinfo_init s sigen i =
     (let nbr = sbend s + 1; nbr = (if nbr \<le> 0 then 1 else nbr); (e, s) = call s
      in if e = 0
         then (0, i\<lparr>ii_hinode := Some (replicate (nat nbr)
                      \<lparr>hi_inode = None, hi_id = -1, hi_notify = False, hi_whdentry = None\<rparr>),
                    ii_generation := sigen, ii_bstart := -1, ii_bend := -1, ii_vdir := None\<rparr>, s)
         else (- ENOMEM, i, s))"

definition au_iinfo_write0 :: "au_sbinfo \<Rightarrow> au_hinode \<Rightarrow> u32 \<Rightarrow> int \<times> au_sbinfo" where
  "au_iinfo_write0 s hinode ino =
     (let bindex = au_br_index (si_branch s) (hi_id hinode)
      in if bindex \<ge> 0 then au_xino_write0 s bindex (hi_ino (the (hi_inode hinode))) ino else (0, s))"

fun iinfo_fin_loop :: "nat \<Rightarrow> int \<Rightarrow> bool \<Rightarrow> u32 \<Rightarrow> au_inode \<Rightarrow> au_sbinfo \<Rightarrow> au_inode \<times> au_sbinfo" where
  "iinfo_fin_loop 0 b unlinked ino i s = (i, s)"
| "iinfo_fin_loop (Suc n) b unlinked ino i s =
     (let hi = hinodes i ! nat b
      in case hi_inode hi of
           None \<Rightarrow> iinfo_fin_loop n (b + 1) unlinked ino i s
         | Some h \<Rightarrow>
             let w0 = (unlinked \<or> hi_nlink h = 0);
                 s = (if w0 then snd (au_iinfo_write0 s hi ino) else s);
                 ino = (if w0 then 0 else ino)
             in iinfo_fin_loop n (b + 1) unlinked ino (au_hiput b i) s)"

definition au_iinfo_fin :: "au_sbinfo \<Rightarrow> au_inode \<Rightarrow> au_inode \<times> au_sbinfo" where
  "au_iinfo_fin s i =
     (if ii_hinode i = None then (i, s)
      else
        let i = (case ii_vdir i of None \<Rightarrow> i | Some v \<Rightarrow> i\<lparr>vdir_frees := v # vdir_frees i\<rparr>);
            (i, s) =
              (if ii_bstart i \<ge> 0 then
                 let unlinked = (i_nlink i = 0);
                     n = nat (ii_bend i - ii_bstart i + 1);
                     (i, s) = iinfo_fin_loop n (ii_bstart i) unlinked (if unlinked then i_ino i else 0) i s
                 in (i\<lparr>ii_bstart := max (ii_bstart i) (ii_bend i + 1) + 1\<rparr>, s)
               else (i, s))
        in (i\<lparr>ii_hinode := None\<rparr>, s))"

section \<open>Giving the number back\<close>

lemma br_index_cong:
  "map br_id brs = map br_id brs' \<Longrightarrow> 0 \<le> b \<Longrightarrow> nat b + n \<le> length brs \<Longrightarrow>
   br_index_loop brs k b n = br_index_loop brs' k b n"
proof (induction n arbitrary: b)
  case (Suc n)
  have "br_id (brs ! nat b) = br_id (brs' ! nat b)"
    using arg_cong[OF Suc.prems(1), of "\<lambda>xs. xs ! nat b"] Suc.prems(3) map_eq_imp_length_eq[OF Suc.prems(1)] by simp
  then show ?case using Suc by (simp add: au_sbr_def nat_add_distrib)
qed simp

lemma au_br_index_cong: "map br_id brs = map br_id brs' \<Longrightarrow> au_br_index brs = au_br_index brs'"
  using br_index_cong[of brs brs' 0 "length brs"] map_eq_imp_length_eq[of br_id brs br_id brs']
  by (auto simp: au_br_index_def fun_eq_iff)

text \<open>The map entries of the lower inodes from \<open>b\<close> on that are cleared.\<close>

fun cleared :: "nat \<Rightarrow> int \<Rightarrow> bool \<Rightarrow> au_sbinfo \<Rightarrow> au_hinode list \<Rightarrow> (nat \<Rightarrow> u32 \<Rightarrow> u32) \<Rightarrow> nat \<Rightarrow> u32 \<Rightarrow> u32" where
  "cleared 0 b unlinked s hs T = T"
| "cleared (Suc n) b unlinked s hs T =
     cleared n (b + 1) unlinked s hs
       (case hi_inode (hs ! nat b) of
          None \<Rightarrow> T
        | Some h \<Rightarrow> if unlinked \<or> hi_nlink h = 0
                    then entry_upd T (br_file s (au_br_index (si_branch s) (hi_id (hs ! nat b)))) (hi_ino h) 0 else T)"

text \<open>Every lower inode belongs to a branch that is there.\<close>

definition branches_there :: "au_sbinfo \<Rightarrow> au_hinode list \<Rightarrow> bool" where
  "branches_there s hs \<longleftrightarrow> (\<forall>hi \<in> set hs. hi_inode hi \<noteq> None \<longrightarrow> 0 \<le> au_br_index (si_branch s) (hi_id hi))"

lemma hiput_hinodes:
  "ii_hinode i = Some hs \<Longrightarrow> ii_hinode (au_hiput b i) = Some (hs[nat b := (hs ! nat b)\<lparr>hi_notify := False\<rparr>])"
  by (simp add: au_hiput_def upd_hinode_def Let_def split: option.split)

lemma cleared_cong:
  assumes "map hi_inode hs = map hi_inode hs'" "map hi_id hs = map hi_id hs'" "0 \<le> b" "nat b + n \<le> length hs"
    "map br_id (si_branch s) = map br_id (si_branch s')" "br_file s = br_file s'"
  shows "cleared n b u s hs T = cleared n b u s' hs' T"
  using assms(3,4)
proof (induction n arbitrary: b T)
  case (Suc n)
  have "nat b < length hs" "length hs' = length hs" using Suc.prems map_eq_imp_length_eq[OF assms(1)] by simp_all
  then have "hi_inode (hs ! nat b) = hi_inode (hs' ! nat b)" "hi_id (hs ! nat b) = hi_id (hs' ! nat b)"
    using arg_cong[OF assms(1), of "\<lambda>xs. xs ! nat b"] arg_cong[OF assms(2), of "\<lambda>xs. xs ! nat b"] by simp_all
  moreover have "nat (b + 1) + n \<le> length hs" "0 \<le> b + 1" using Suc.prems by simp_all
  ultimately show ?case using Suc.IH au_br_index_cong[OF assms(5)] assms(6) by (simp split: option.split)
qed simp

lemma branches_there_cong:
  assumes "map hi_inode hs = map hi_inode hs'" "map hi_id hs = map hi_id hs'"
    "map br_id (si_branch s) = map br_id (si_branch s')" "branches_there s hs"
  shows "branches_there s' hs'"
  unfolding branches_there_def
proof (intro ballI impI)
  fix hi assume hi: "hi \<in> set hs'" "hi_inode hi \<noteq> None"
  then obtain k where k: "k < length hs'" "hi = hs' ! k" by (auto simp: in_set_conv_nth)
  have l: "length hs' = length hs" using map_eq_imp_length_eq[OF assms(1)] by simp
  have "hi_inode (hs ! k) = hi_inode hi" "hi_id (hs ! k) = hi_id hi"
    using arg_cong[OF assms(1), of "\<lambda>xs. xs ! k"] arg_cong[OF assms(2), of "\<lambda>xs. xs ! k"] k l by simp_all
  moreover have "hs ! k \<in> set hs" using k l by simp
  ultimately have "0 \<le> au_br_index (si_branch s) (hi_id hi)" using assms(4) hi(2) unfolding branches_there_def by metis
  then show "0 \<le> au_br_index (si_branch s') (hi_id hi)" using au_br_index_cong[OF assms(3)] by simp
qed

definition lower_inos :: "au_hinode list \<Rightarrow> u32 list" where
  "lower_inos hs = map (hi_ino \<circ> the) (filter (\<lambda>h. h \<noteq> None) (map hi_inode hs))"

lemma hiput_puts:
  "ii_hinode i = Some hs \<Longrightarrow> hi_inode (hs ! nat b) = Some h \<Longrightarrow> h_puts (au_hiput b i) = hi_ino h # h_puts i"
  by (simp add: au_hiput_def upd_hinode_def Let_def split: option.split)

lemma iinfo_fin_loop_fine:
  assumes "xib_ok s" "ii_hinode i = Some hs" "0 \<le> b" "nat b + n \<le> length hs" "branches_there s hs"
  shows "\<exists>i' s'. iinfo_fin_loop n b u ino i s = (i', s') \<and> xib_ok s' \<and> map_tab s' = cleared n b u s hs (map_tab s) \<and>
    used_bit s' = (\<lambda>m. \<not> (ino \<noteq> 0 \<and> m = unat (ino - 11) \<and>
      (\<exists>h \<in> set (map hi_inode (take n (drop (nat b) hs))). h \<noteq> None \<and> (u \<or> hi_nlink (the h) = 0))) \<and> used_bit s m) \<and>
    h_puts i' = rev (lower_inos (take n (drop (nat b) hs))) @ h_puts i"
  using assms
proof (induction n arbitrary: b ino i s hs)
  case 0
  then show ?case by (simp add: lower_inos_def)
next
  case (Suc n)
  let ?hi = "hs ! nat b"
  have nb: "nat b < length hs" "nat (b + 1) + n \<le> length hs" "0 \<le> b + 1" "nat (b + 1) = Suc (nat b)"
    using Suc.prems(3,4) by simp_all
  have hd: "take (Suc n) (drop (nat b) hs) = ?hi # take n (drop (nat (b + 1)) hs)"
    using nb by (simp add: Cons_nth_drop_Suc[symmetric])
  show ?case
  proof (cases "hi_inode ?hi")
    case None
    then show ?thesis using Suc.IH[OF Suc.prems(1,2) nb(3,2) Suc.prems(5), of ino] Suc.prems(2)
      unfolding hd by (simp add: lower_inos_def)
  next
    case (Some h)
    let ?w = "u \<or> hi_nlink h = 0"
    let ?k = "au_br_index (si_branch s) (hi_id ?hi)"
    let ?hs = "hs[nat b := ?hi\<lparr>hi_notify := False\<rparr>]"
    have th: "?hi \<in> set hs" using nb(1) by simp
    have k: "0 \<le> ?k" using Suc.prems(5) th Some by (simp add: branches_there_def)
    have k2: "?k \<le> sbend s"
      using br_index_loop_range[of "si_branch s" "hi_id ?hi" 0 "length (si_branch s)" ?k] k
      by (simp add: au_br_index_def) (simp add: au_sbend_def)
    obtain s0 where s0: "au_xino_write0 s ?k (hi_ino h) ino = (0, s0)" "xib_ok s0"
      "map xi_file (si_branch s0) = map xi_file (si_branch s)" "map br_id (si_branch s0) = map br_id (si_branch s)"
      "map_tab s0 = entry_upd (map_tab s) (br_file s ?k) (hi_ino h) 0"
      "used_bit s0 = (\<lambda>m. (ino = 0 \<or> m \<noteq> unat (ino - 11)) \<and> used_bit s m)"
      using write0_fine[OF Suc.prems(1) k k2, of "hi_ino h" ino] by blast
    define s1 where "s1 = (if ?w then s0 else s)"
    define ino1 where "ino1 = (if ?w then 0 else ino)"
    have w0: "snd (au_iinfo_write0 s ?hi ino) = s0" using k s0(1) Some by (simp add: au_iinfo_write0_def)
    have e: "iinfo_fin_loop (Suc n) b u ino i s = iinfo_fin_loop n (b + 1) u ino1 (au_hiput b i) s1"
      using Suc.prems(2) Some w0 by (simp add: s1_def ino1_def Let_def)
    have ms: "map hi_inode ?hs = map hi_inode hs" "map hi_id ?hs = map hi_id hs"
      using nb(1) by (simp_all add: map_update list_update_same_conv)
    have same: "xib_ok s1" "map br_id (si_branch s) = map br_id (si_branch s1)" "br_file s = br_file s1"
      using s0(2,3,4) Suc.prems(1) by (simp_all add: s1_def br_file_def fun_eq_iff)
    have bt: "branches_there s1 ?hs"
      by (rule branches_there_cong[OF ms[symmetric] same(2) Suc.prems(5)])
    have len: "nat (b + 1) + n \<le> length ?hs" using nb(2) by simp
    have hp: "ii_hinode (au_hiput b i) = Some ?hs" by (rule hiput_hinodes[OF Suc.prems(2)])
    obtain i' s' where r: "iinfo_fin_loop n (b + 1) u ino1 (au_hiput b i) s1 = (i', s')" "xib_ok s'"
      "map_tab s' = cleared n (b + 1) u s1 ?hs (map_tab s1)"
      "used_bit s' = (\<lambda>m. \<not> (ino1 \<noteq> 0 \<and> m = unat (ino1 - 11) \<and>
        (\<exists>h \<in> set (map hi_inode (take n (drop (nat (b + 1)) ?hs))). h \<noteq> None \<and> (u \<or> hi_nlink (the h) = 0))) \<and> used_bit s1 m)"
      "h_puts i' = rev (lower_inos (take n (drop (nat (b + 1)) ?hs))) @ h_puts (au_hiput b i)"
      using Suc.IH[OF same(1) hp nb(3) len bt, of ino1] by blast
    have dr: "drop (nat (b + 1)) ?hs = drop (nat (b + 1)) hs" using nb(4) by simp
    have cl: "cleared n (b + 1) u s1 ?hs T = cleared n (b + 1) u s hs T" for T
      by (rule cleared_cong[OF ms nb(3) len same(2,3)[symmetric]])
    have tab: "map_tab s' = cleared (Suc n) b u s hs (map_tab s)"
      using r(3) cl s0(5) Some by (simp add: s1_def)
    have "h_puts i' = rev (lower_inos (take (Suc n) (drop (nat b) hs))) @ h_puts i"
      using r(5) hiput_puts[OF Suc.prems(2) Some] Some unfolding hd dr by (simp add: lower_inos_def)
    moreover have "used_bit s' = (\<lambda>m. \<not> (ino \<noteq> 0 \<and> m = unat (ino - 11) \<and>
        (\<exists>h \<in> set (map hi_inode (take (Suc n) (drop (nat b) hs))). h \<noteq> None \<and> (u \<or> hi_nlink (the h) = 0))) \<and> used_bit s m)"
      using r(4) s0(6) Some unfolding hd dr by (cases ?w) (auto simp: s1_def ino1_def fun_eq_iff)
    ultimately show ?thesis unfolding e using r(1,2) tab by blast
  qed
qed

section \<open>Properties\<close>

text \<open>
  C25: the end of an inode with no link left gives its number back and clears the map entries of all
  its lower inodes; the end of an inode that still has a link keeps its number in use and clears
  only the entries of the lower inodes that have none. Each lower inode is put once.
\<close>

theorem iinfo_fin_number:
  assumes "xib_ok s" "ii_hinode i = Some hs" "0 \<le> ii_bstart i" "ii_bstart i \<le> ii_bend i" "nat (ii_bend i) < length hs"
    "branches_there s hs" "11 \<le> i_ino i"
    "lower = take (nat (ii_bend i - ii_bstart i + 1)) (drop (nat (ii_bstart i)) hs)"
    "au_iinfo_fin s i = (i', s')"
  shows "xib_ok s' \<and> h_puts i' = rev (lower_inos lower) @ h_puts i \<and>
    used_bit s' = (\<lambda>m. \<not> (i_nlink i = 0 \<and> lower_inos lower \<noteq> [] \<and> m = unat (i_ino i - 11)) \<and> used_bit s m) \<and>
    map_tab s' = cleared (nat (ii_bend i - ii_bstart i + 1)) (ii_bstart i) (i_nlink i = 0) s hs (map_tab s)"
proof -
  let ?n = "nat (ii_bend i - ii_bstart i + 1)" and ?u = "i_nlink i = 0"
  let ?ino = "if ?u then i_ino i else 0"
  define i0 where "i0 = (case ii_vdir i of None \<Rightarrow> i | Some v \<Rightarrow> i\<lparr>vdir_frees := v # vdir_frees i\<rparr>)"
  have i0: "ii_hinode i0 = Some hs" "ii_bstart i0 = ii_bstart i" "ii_bend i0 = ii_bend i" "i_nlink i0 = i_nlink i"
    "i_ino i0 = i_ino i" "h_puts i0 = h_puts i"
    using assms(2) by (simp_all add: i0_def split: option.split)
  have len: "nat (ii_bstart i) + ?n \<le> length hs" using assms(3-5) by linarith
  obtain i1 s1 where r: "iinfo_fin_loop ?n (ii_bstart i) ?u ?ino i0 s = (i1, s1)" "xib_ok s1"
    "map_tab s1 = cleared ?n (ii_bstart i) ?u s hs (map_tab s)"
    "used_bit s1 = (\<lambda>m. \<not> (?ino \<noteq> 0 \<and> m = unat (?ino - 11) \<and>
      (\<exists>h \<in> set (map hi_inode lower). h \<noteq> None \<and> (?u \<or> hi_nlink (the h) = 0))) \<and> used_bit s m)"
    "h_puts i1 = rev (lower_inos lower) @ h_puts i0"
    using iinfo_fin_loop_fine[OF assms(1) i0(1) assms(3) len assms(6), of ?u ?ino] unfolding assms(8) by blast
  have e: "s' = s1" "h_puts i' = h_puts i1"
  proof -
    have "iinfo_fin_loop ?n (ii_bstart i) ?u (if ?u then i_ino i0 else 0) i0 s = (i1, s1)" unfolding i0(5) by (rule r(1))
    then show "s' = s1" "h_puts i' = h_puts i1"
      using assms(2,3,9) i0(1-4) unfolding au_iinfo_fin_def i0_def[symmetric] by (auto simp: Let_def)
  qed
  have nz: "i_ino i \<noteq> 0" using assms(7) by auto
  have ne: "lower_inos lower \<noteq> [] \<longleftrightarrow> (\<exists>h \<in> set (map hi_inode lower). h \<noteq> None)"
    by (auto simp: lower_inos_def filter_empty_conv)
  show ?thesis using r(2,3,4,5) e i0(6) nz unfolding ne by (auto simp: fun_eq_iff)
qed

definition demo_inode :: au_inode where
  "demo_inode = \<lparr>i_ino = 11, i_nlink = 0, ii_generation = 0, ii_hsb1 = 7, ii_higen = 0, ii_bstart = 0, ii_bend = 0,
     ii_hinode = Some [\<lparr>hi_inode = Some \<lparr>hi_ino = 5, hi_nlink = 0, hi_generation = 0, hi_sb = 7\<rparr>, hi_id = 1,
       hi_notify = False, hi_whdentry = None\<rparr>], ii_vdir = None, wh_puts = [], h_puts = [], vdir_frees = []\<rparr>"

theorem iinfo_fin_number_witness:
  "used_bit (demo_sb (replicate 4096 (-1)) []) 0 \<and>
   \<not> used_bit (snd (au_iinfo_fin (demo_sb (replicate 4096 (-1)) []) demo_inode)) 0 \<and>
   h_puts (fst (au_iinfo_fin (demo_sb (replicate 4096 (-1)) []) demo_inode)) = [5]"
proof -
  let ?s = "demo_sb (replicate 4096 (-1)) []"
  let ?hs = "the (ii_hinode demo_inode)"
  have ok: "xib_ok ?s" using demo_sb_ok[of "replicate 4096 (-1)" "[]"] by (simp add: io_fine_def)
  have h: "ii_hinode demo_inode = Some ?hs" "0 \<le> ii_bstart demo_inode" "ii_bstart demo_inode \<le> ii_bend demo_inode"
    "nat (ii_bend demo_inode) < length ?hs" "11 \<le> i_ino demo_inode"
    by (simp_all add: demo_inode_def)
  have bt: "branches_there ?s ?hs"
    by (simp add: branches_there_def demo_inode_def demo_sb_def au_br_index_def au_sbr_def)
  obtain i' s' where r: "au_iinfo_fin ?s demo_inode = (i', s')" by fastforce
  have "used_bit ?s 0" by (simp add: used_bit_def xib_byte_def demo_sb_def)
  then show ?thesis using iinfo_fin_number[OF ok h(1-4) bt h(5) refl r] r
    by (simp add: demo_inode_def lower_inos_def)
qed

end
