(* ===== verification/Aufs_Wbr.thy ===== *)
theory Aufs_Wbr
  imports Aufs_Dinfo Aufs_Iinfo
begin

text \<open>
  Choosing the branch a new entry is created on or copied up to (\<^verbatim>\<open>wbr_policy.c\<close>). A policy reads the
  branch table, the ranges of the dentry and of its parent and its own counters, and gives a
  branch index or a negative error. \<open>None\<close> is a fault: a branch beyond the end of the table.
\<close>

section \<open>State\<close>

record wbr_si =
  wbr_branch :: branches
  dirperm1 :: bool
  si_wbr_rr_next :: u32
  mfs_bindex :: int
  mfs_jiffy :: u32
  mfs_expire :: u32
  mfsrr_bytes :: u64
  mfsrr_watermark :: u64

datatype statfs_arg = S_Root nat | H_Dentry nat

text \<open>
  What the kernel answers: the permission function (for write and search, 0 when granted), the
  clock, and \<^verbatim>\<open>statfs\<close> with its error, free blocks and block size.
\<close>

record wbr_env =
  fsuid :: nat
  vfsub_permission :: "nat \<Rightarrow> int"
  jiffies :: u32
  sb_nfs :: "nat \<Rightarrow> bool"
  root_hdentry :: "int \<Rightarrow> nat option"
  vfsub_statfs :: "statfs_arg \<Rightarrow> int \<times> u64 \<times> u64"

abbreviation (input) wsbr :: "wbr_si \<Rightarrow> int \<Rightarrow> au_branch" where "wsbr si \<equiv> au_sbr (wbr_branch si)"
abbreviation (input) wsbend :: "wbr_si \<Rightarrow> int" where "wsbend si \<equiv> au_sbend (wbr_branch si)"

definition au_test_h_perm :: "wbr_env \<Rightarrow> nat \<Rightarrow> int" where
  "au_test_h_perm env h_inode = (if fsuid env = 0 then 0 else vfsub_permission env h_inode)"

section \<open>Top down and bottom up\<close>

text \<open>The branches \<open>n - 1\<close> down to 0.\<close>

fun wbr_bu_loop :: "branches \<Rightarrow> nat \<Rightarrow> int" where
  "wbr_bu_loop brs 0 = - EROFS"
| "wbr_bu_loop brs (Suc n) = (if au_br_rdonly (au_sbr brs (int n)) = 0 then int n else wbr_bu_loop brs n)"

definition au_wbr_bu :: "branches \<Rightarrow> int \<Rightarrow> int" where
  "au_wbr_bu brs bindex = wbr_bu_loop brs (nat (bindex + 1))"

text \<open>The test of one branch that \<open>tdp\<close>, \<open>bup\<close> and \<open>pmfs\<close> share.\<close>

definition parent_ok :: "wbr_si \<Rightarrow> wbr_env \<Rightarrow> au_dinfo \<Rightarrow> int \<Rightarrow> bool" where
  "parent_ok si env parent bindex =
     (case au_h_dptr parent bindex of
        None \<Rightarrow> False
      | Some h_parent \<Rightarrow>
          (case d_inode h_parent of
             None \<Rightarrow> False
           | Some h_dir \<Rightarrow> au_br_rdonly (wsbr si bindex) = 0 \<and> (\<not> dirperm1 si \<or> au_test_h_perm env h_dir \<noteq> 0)))"

fun tdp_loop :: "wbr_si \<Rightarrow> wbr_env \<Rightarrow> au_dinfo \<Rightarrow> int \<Rightarrow> nat \<Rightarrow> int" where
  "tdp_loop si env parent bindex 0 = - EROFS"
| "tdp_loop si env parent bindex (Suc n) =
     (if parent_ok si env parent bindex then bindex else tdp_loop si env parent (bindex + 1) n)"

definition au_wbr_create_tdp :: "wbr_si \<Rightarrow> wbr_env \<Rightarrow> au_dinfo \<Rightarrow> au_dinfo \<Rightarrow> bool \<Rightarrow> int" where
  "au_wbr_create_tdp si env dentry parent isdir =
     (let bstart = au_dbstart dentry
      in if au_br_rdonly (wsbr si bstart) = 0 then bstart
         else
           let err = tdp_loop si env parent (au_dbstart parent) (nat (bstart - au_dbstart parent))
           in if err < 0 then au_wbr_bu (wbr_branch si) (bstart - 1) else err)"

section \<open>Round robin\<close>

definition au_wbr_create_exp :: "wbr_si \<Rightarrow> au_dinfo \<Rightarrow> au_dinfo \<Rightarrow> int" where
  "au_wbr_create_exp si dentry parent =
     (let bwh = au_dbwh dentry; bdiropq = au_dbdiropq parent;
          err = (if bwh \<ge> 0 then (if bdiropq \<ge> 0 then min bdiropq bwh else bwh)
                 else if bdiropq \<ge> 0 then bdiropq else -1)
      in if err \<ge> 0 \<and> au_br_rdonly (wsbr si err) \<noteq> 0 then -1 else err)"

definition au_wbr_create_init_rr :: "wbr_si \<Rightarrow> int \<times> wbr_si" where
  "au_wbr_create_init_rr si =
     (let err = au_wbr_bu (wbr_branch si) (wsbend si) in (err, si\<lparr>si_wbr_rr_next := word_of_int (- err)\<rparr>))"

text \<open>At most \<open>n\<close> tries; \<open>next\<close> is the counter.\<close>

fun rr_loop :: "branches \<Rightarrow> bool \<Rightarrow> nat \<Rightarrow> int \<Rightarrow> u32 \<Rightarrow> int \<times> u32" where
  "rr_loop brs isdir 0 err next = (err, next)"
| "rr_loop brs isdir (Suc n) err next =
     (let (u, next) = (if \<not> isdir then (if next = 0 then (next - 1, next - 2) else (next, next - 1)) else (next, next));
          err = int (unat u mod length brs)
      in if au_br_rdonly (au_sbr brs err) = 0 then (err, next) else rr_loop brs isdir n (- EROFS) next)"

definition au_wbr_create_rr :: "wbr_si \<Rightarrow> au_dinfo \<Rightarrow> au_dinfo \<Rightarrow> bool \<Rightarrow> int \<times> wbr_si" where
  "au_wbr_create_rr si dentry parent isdir =
     (let err = au_wbr_create_exp si dentry parent
      in if err \<ge> 0 then (err, si)
         else
           let (err, next) = rr_loop (wbr_branch si) isdir (nat (wsbend si + 1)) err (si_wbr_rr_next si)
           in (err, si\<lparr>si_wbr_rr_next := next\<rparr>))"

section \<open>Most free space\<close>

definition au_wbr_statfs_arg :: "wbr_env \<Rightarrow> au_branch \<Rightarrow> int \<Rightarrow> statfs_arg option" where
  "au_wbr_statfs_arg env br bindex =
     (if \<not> sb_nfs env (br_sb br) then Some (S_Root (br_sb br)) else map_option H_Dentry (root_hdentry env bindex))"

fun mfs_loop :: "wbr_env \<Rightarrow> nat \<Rightarrow> int \<Rightarrow> u64 \<Rightarrow> wbr_si \<Rightarrow> u64 \<times> wbr_si" where
  "mfs_loop env 0 bindex bavail si = (bavail, si)"
| "mfs_loop env (Suc n) bindex bavail si =
     (let br = wsbr si bindex
      in if au_br_rdonly br \<noteq> 0 then mfs_loop env n (bindex + 1) bavail si
         else (case au_wbr_statfs_arg env br bindex of
                 None \<Rightarrow> mfs_loop env n (bindex + 1) bavail si
               | Some arg \<Rightarrow>
                   let (err, f_bavail, f_bsize) = vfsub_statfs env arg
                   in if err \<noteq> 0 then mfs_loop env n (bindex + 1) bavail si
                      else
                        let b = f_bavail * f_bsize;
                            si = si\<lparr>wbr_branch := (wbr_branch si)[nat bindex := br\<lparr>wbr_bytes := b\<rparr>]\<rparr>
                        in if b \<ge> bavail
                           then mfs_loop env n (bindex + 1) b (si\<lparr>mfs_bindex := bindex, mfs_jiffy := jiffies env\<rparr>)
                           else mfs_loop env n (bindex + 1) bavail si))"

definition au_mfs :: "wbr_env \<Rightarrow> wbr_si \<Rightarrow> wbr_si" where
  "au_mfs env si =
     (let (bavail, si) = mfs_loop env (nat (wsbend si + 1)) 0 0 (si\<lparr>mfs_bindex := - EROFS, mfsrr_bytes := 0\<rparr>)
      in si\<lparr>mfsrr_bytes := bavail\<rparr>)"

definition time_after :: "u32 \<Rightarrow> u32 \<Rightarrow> bool" where
  "time_after a b \<longleftrightarrow> sint (b - a) < 0"

definition au_wbr_create_mfs :: "wbr_si \<Rightarrow> wbr_env \<Rightarrow> au_dinfo \<Rightarrow> au_dinfo \<Rightarrow> bool \<Rightarrow> (int \<times> wbr_si) option" where
  "au_wbr_create_mfs si env dentry parent isdir =
     (let err = au_wbr_create_exp si dentry parent
      in if err \<ge> 0 then Some (err, si)
         else if time_after (jiffies env) (mfs_jiffy si + mfs_expire si) \<or> mfs_bindex si < 0
         then let si = au_mfs env si in Some (mfs_bindex si, si)
         else if wsbend si < mfs_bindex si then None
         else if au_br_rdonly (wsbr si (mfs_bindex si)) \<noteq> 0
         then let si = au_mfs env si in Some (mfs_bindex si, si)
         else Some (mfs_bindex si, si))"

definition au_wbr_create_init_mfs :: "wbr_si \<Rightarrow> int \<times> wbr_si" where
  "au_wbr_create_init_mfs si = (0, si\<lparr>mfs_jiffy := 0, mfs_bindex := - EROFS\<rparr>)"

definition au_wbr_create_fin_mfs :: "wbr_si \<Rightarrow> int \<times> wbr_si" where
  "au_wbr_create_fin_mfs si = (0, si)"

definition au_wbr_create_mfsrr :: "wbr_si \<Rightarrow> wbr_env \<Rightarrow> au_dinfo \<Rightarrow> au_dinfo \<Rightarrow> bool \<Rightarrow> (int \<times> wbr_si) option" where
  "au_wbr_create_mfsrr si env dentry parent isdir =
     (case au_wbr_create_mfs si env dentry parent isdir of
        None \<Rightarrow> None
      | Some (err, si) \<Rightarrow>
          if err \<ge> 0 \<and> mfsrr_bytes si < mfsrr_watermark si then Some (au_wbr_create_rr si dentry parent isdir)
          else Some (err, si))"

definition au_wbr_create_init_mfsrr :: "wbr_si \<Rightarrow> int \<times> wbr_si" where
  "au_wbr_create_init_mfsrr si = au_wbr_create_init_rr (snd (au_wbr_create_init_mfs si))"

text \<open>The two loops of \<^verbatim>\<open>pmfs\<close>: the first one also asks for the permission.\<close>

fun pmfs_loop :: "bool \<Rightarrow> wbr_si \<Rightarrow> wbr_env \<Rightarrow> au_dinfo \<Rightarrow> nat \<Rightarrow> int \<Rightarrow> u64 \<Rightarrow> int \<Rightarrow> int \<times> u64" where
  "pmfs_loop perm si env parent 0 bindex b err = (err, b)"
| "pmfs_loop perm si env parent (Suc n) bindex b err =
     (let br = wsbr si bindex;
          ok = (case au_h_dptr parent bindex of
                  None \<Rightarrow> False
                | Some h_parent \<Rightarrow>
                    (case d_inode h_parent of
                       None \<Rightarrow> False
                     | Some h_dir \<Rightarrow> au_br_rdonly br = 0 \<and> (\<not> perm \<or> au_test_h_perm env h_dir \<noteq> 0) \<and> wbr_bytes br > b))
      in if ok then pmfs_loop perm si env parent n (bindex + 1) (wbr_bytes br) bindex
         else pmfs_loop perm si env parent n (bindex + 1) b err)"

definition au_wbr_create_pmfs :: "wbr_si \<Rightarrow> wbr_env \<Rightarrow> au_dinfo \<Rightarrow> au_dinfo \<Rightarrow> bool \<Rightarrow> (int \<times> wbr_si) option" where
  "au_wbr_create_pmfs si env dentry parent isdir =
     (let err = au_wbr_create_tdp si env dentry parent isdir
      in if err < 0 then Some (err, si)
         else
           let bstart = au_dbstart parent; bend = au_dbtaildir parent
           in if bstart = bend then Some (err, si)
              else (case au_wbr_create_mfs si env dentry parent isdir of
                      None \<Rightarrow> None
                    | Some (e2, si) \<Rightarrow>
                        if e2 < 0 then Some (err, si)
                        else
                          let b = wbr_bytes (wsbr si err); n = nat (bend - bstart + 1);
                              (err, b) = (if dirperm1 si then pmfs_loop True si env parent n bstart b err else (err, b))
                          in if dirperm1 si \<and> err \<ge> 0 then Some (err, si)
                             else Some (fst (pmfs_loop False si env parent n bstart b err), si)))"

section \<open>Copy up\<close>

definition au_wbr_copyup_tdp :: "wbr_si \<Rightarrow> wbr_env \<Rightarrow> au_dinfo \<Rightarrow> au_dinfo \<Rightarrow> int" where
  "au_wbr_copyup_tdp si env dentry parent = au_wbr_create_tdp si env dentry parent False"

fun bup_loop :: "wbr_si \<Rightarrow> wbr_env \<Rightarrow> au_dinfo \<Rightarrow> int \<Rightarrow> nat \<Rightarrow> int" where
  "bup_loop si env parent bindex 0 = - EROFS"
| "bup_loop si env parent bindex (Suc n) =
     (if parent_ok si env parent bindex then bindex else bup_loop si env parent (bindex - 1) n)"

definition au_wbr_copyup_bup :: "wbr_si \<Rightarrow> wbr_env \<Rightarrow> au_dinfo \<Rightarrow> au_dinfo \<Rightarrow> int" where
  "au_wbr_copyup_bup si env dentry parent =
     (let bstart = au_dbstart parent;
          err = bup_loop si env parent (au_dbstart dentry) (nat (au_dbstart dentry - bstart + 1))
      in if err < 0 then au_wbr_bu (wbr_branch si) (bstart - 1) else err)"

definition au_wbr_copyup_bu :: "wbr_si \<Rightarrow> au_dinfo \<Rightarrow> int" where
  "au_wbr_copyup_bu si dentry = au_wbr_bu (wbr_branch si) (au_dbstart dentry)"

section \<open>The tables\<close>

datatype au_wbr_create = AuWbrCreate_TDP | AuWbrCreate_RR | AuWbrCreate_MFS | AuWbrCreate_MFSV
  | AuWbrCreate_MFSRR | AuWbrCreate_MFSRRV | AuWbrCreate_PMFS | AuWbrCreate_PMFSV
datatype au_wbr_copyup = AuWbrCopyup_TDP | AuWbrCopyup_BUP | AuWbrCopyup_BU

fun au_wbr_create_ops :: "au_wbr_create \<Rightarrow> wbr_si \<Rightarrow> wbr_env \<Rightarrow> au_dinfo \<Rightarrow> au_dinfo \<Rightarrow> bool \<Rightarrow> (int \<times> wbr_si) option" where
  "au_wbr_create_ops AuWbrCreate_TDP si env d p isdir = Some (au_wbr_create_tdp si env d p isdir, si)"
| "au_wbr_create_ops AuWbrCreate_RR si env d p isdir = Some (au_wbr_create_rr si d p isdir)"
| "au_wbr_create_ops AuWbrCreate_MFS si env d p isdir = au_wbr_create_mfs si env d p isdir"
| "au_wbr_create_ops AuWbrCreate_MFSV si env d p isdir = au_wbr_create_mfs si env d p isdir"
| "au_wbr_create_ops AuWbrCreate_MFSRR si env d p isdir = au_wbr_create_mfsrr si env d p isdir"
| "au_wbr_create_ops AuWbrCreate_MFSRRV si env d p isdir = au_wbr_create_mfsrr si env d p isdir"
| "au_wbr_create_ops AuWbrCreate_PMFS si env d p isdir = au_wbr_create_pmfs si env d p isdir"
| "au_wbr_create_ops AuWbrCreate_PMFSV si env d p isdir = au_wbr_create_pmfs si env d p isdir"

fun au_wbr_init_ops :: "au_wbr_create \<Rightarrow> wbr_si \<Rightarrow> int \<times> wbr_si" where
  "au_wbr_init_ops AuWbrCreate_TDP si = (0, si)"
| "au_wbr_init_ops AuWbrCreate_RR si = au_wbr_create_init_rr si"
| "au_wbr_init_ops AuWbrCreate_MFSRR si = au_wbr_create_init_mfsrr si"
| "au_wbr_init_ops AuWbrCreate_MFSRRV si = au_wbr_create_init_mfsrr si"
| "au_wbr_init_ops p si = au_wbr_create_init_mfs si"

fun au_wbr_copyup_ops :: "au_wbr_copyup \<Rightarrow> wbr_si \<Rightarrow> wbr_env \<Rightarrow> au_dinfo \<Rightarrow> au_dinfo \<Rightarrow> int" where
  "au_wbr_copyup_ops AuWbrCopyup_TDP si env d p = au_wbr_copyup_tdp si env d p"
| "au_wbr_copyup_ops AuWbrCopyup_BUP si env d p = au_wbr_copyup_bup si env d p"
| "au_wbr_copyup_ops AuWbrCopyup_BU si env d p = au_wbr_copyup_bu si d"

end
