(* ===== verification/Aufs_Wbr_Props.thy ===== *)
theory Aufs_Wbr_Props
  imports Aufs_Wbr
begin

text \<open>
  What the policies of \<open>Aufs_Wbr\<close> choose: each loop against the branch it is meant to find, the
  safety of every policy in the table, and what the code does differently from its intent.
\<close>

section \<open>The loops\<close>

definition writable :: "branches \<Rightarrow> int \<Rightarrow> bool" where
  "writable brs b \<longleftrightarrow> 0 \<le> b \<and> b \<le> au_sbend brs \<and> au_br_rdonly (au_sbr brs b) = 0"

lemma rdonly_bytes [simp]: "au_br_rdonly (br\<lparr>wbr_bytes := x\<rparr>) = au_br_rdonly br"
  by (simp add: au_br_rdonly_def)

lemma wbr_bu_loop_spec:
  "(wbr_bu_loop brs n = - EROFS \<and> (\<forall>i < n. au_br_rdonly (au_sbr brs (int i)) \<noteq> 0)) \<or>
   (\<exists>k < n. wbr_bu_loop brs n = int k \<and> au_br_rdonly (au_sbr brs (int k)) = 0 \<and>
      (\<forall>i. k < i \<and> i < n \<longrightarrow> au_br_rdonly (au_sbr brs (int i)) \<noteq> 0))"
proof (induction n)
  case (Suc n)
  show ?case
  proof (cases "au_br_rdonly (au_sbr brs (int n)) = 0")
    case True
    then show ?thesis by auto
  next
    case False
    then have "wbr_bu_loop brs (Suc n) = wbr_bu_loop brs n" by simp
    then show ?thesis using Suc.IH False by (metis less_Suc_eq)
  qed
qed simp

lemma au_wbr_bu_cases:
  assumes "bindex \<le> au_sbend brs"
  obtains (none) "au_wbr_bu brs bindex = - EROFS" "\<And>i. 0 \<le> i \<Longrightarrow> i \<le> bindex \<Longrightarrow> \<not> writable brs i"
  | (some) k where "au_wbr_bu brs bindex = k" "k \<le> bindex" "writable brs k"
      "\<And>i. k < i \<Longrightarrow> i \<le> bindex \<Longrightarrow> \<not> writable brs i"
proof -
  have nat: "nat i < nat (bindex + 1)" "int (nat i) = i" if "0 \<le> i" "i \<le> bindex" for i using that by simp_all
  from wbr_bu_loop_spec[of brs "nat (bindex + 1)"] show thesis
  proof (elim disjE exE conjE)
    assume a: "wbr_bu_loop brs (nat (bindex + 1)) = - EROFS"
      "\<forall>i < nat (bindex + 1). au_br_rdonly (au_sbr brs (int i)) \<noteq> 0"
    have "\<not> writable brs i" if "0 \<le> i" "i \<le> bindex" for i
      using a(2) nat[OF that] by (metis writable_def)
    with a(1) none show thesis by (simp add: au_wbr_bu_def)
  next
    fix k assume a: "k < nat (bindex + 1)" "wbr_bu_loop brs (nat (bindex + 1)) = int k"
      "au_br_rdonly (au_sbr brs (int k)) = 0"
      "\<forall>i. k < i \<and> i < nat (bindex + 1) \<longrightarrow> au_br_rdonly (au_sbr brs (int i)) \<noteq> 0"
    have "\<not> writable brs i" if "int k < i" "i \<le> bindex" for i
    proof -
      have "0 \<le> i" "k < nat i" using that(1) by linarith+
      then show ?thesis using a(4) nat[of i] that(2) by (metis writable_def)
    qed
    moreover have "int k \<le> bindex" using a(1) by linarith
    ultimately show thesis using a(2,3) assms some[of "int k"] by (simp add: au_wbr_bu_def writable_def)
  qed
qed

lemma tdp_loop_spec:
  "(tdp_loop si env p b n = - EROFS \<and> (\<forall>i. b \<le> i \<and> i < b + int n \<longrightarrow> \<not> parent_ok si env p i)) \<or>
   (\<exists>k. b \<le> k \<and> k < b + int n \<and> tdp_loop si env p b n = k \<and> parent_ok si env p k \<and>
      (\<forall>i. b \<le> i \<and> i < k \<longrightarrow> \<not> parent_ok si env p i))"
proof (induction n arbitrary: b)
  case (Suc n)
  have s: "b \<le> i \<Longrightarrow> i = b \<or> b + 1 \<le> i" for i by linarith
  show ?case
  proof (cases "parent_ok si env p b")
    case False
    then have e: "tdp_loop si env p b (Suc n) = tdp_loop si env p (b + 1) n" by simp
    have n: "b + 1 + int n = b + int (Suc n)" by simp
    have l: "\<forall>i. b \<le> i \<and> i < k \<longrightarrow> \<not> parent_ok si env p i"
      if "\<forall>i. b + 1 \<le> i \<and> i < k \<longrightarrow> \<not> parent_ok si env p i" for k
      using that s False by blast
    have d: "b + 1 \<le> k \<Longrightarrow> b \<le> k" for k by simp
    show ?thesis using Suc.IH[of "b + 1"] l d unfolding e n by blast
  qed auto
next
  case 0
  have "\<forall>i. b \<le> i \<and> i < b + int 0 \<longrightarrow> \<not> parent_ok si env p i" by auto
  then show ?case by simp
qed

lemma parent_ok_rdonly: "parent_ok si env p b \<Longrightarrow> 0 \<le> b \<and> au_br_rdonly (wsbr si b) = 0"
  by (auto simp: parent_ok_def au_h_dptr_def split: if_splits option.splits)

lemma bup_loop_spec:
  "(bup_loop si env p b n = - EROFS) \<or>
   (\<exists>k. k \<le> b \<and> b < k + int n \<and> bup_loop si env p b n = k \<and> parent_ok si env p k \<and>
      (\<forall>i. k < i \<and> i \<le> b \<longrightarrow> \<not> parent_ok si env p i))"
proof (induction n arbitrary: b)
  case (Suc n)
  show ?case
  proof (cases "parent_ok si env p b")
    case False
    then have e: "bup_loop si env p b (Suc n) = bup_loop si env p (b - 1) n" by simp
    have s: "i \<le> b \<Longrightarrow> i = b \<or> i \<le> b - 1" for i by linarith
    have l: "\<forall>i. k < i \<and> i \<le> b \<longrightarrow> \<not> parent_ok si env p i"
      if "\<forall>i. k < i \<and> i \<le> b - 1 \<longrightarrow> \<not> parent_ok si env p i" for k
      using that s False by blast
    have d: "k \<le> b - 1 \<Longrightarrow> k \<le> b" "b - 1 < k + int n \<Longrightarrow> b < k + int (Suc n)" for k by simp_all
    show ?thesis using Suc.IH[of "b - 1"] l d unfolding e by blast
  qed auto
qed simp

section \<open>Each policy finds a writable branch or none\<close>

text \<open>A dentry, its parent and the remembered branch lie inside the table.\<close>

definition wbr_ok :: "wbr_si \<Rightarrow> au_dinfo \<Rightarrow> au_dinfo \<Rightarrow> bool" where
  "wbr_ok si d p \<longleftrightarrow> wbr_branch si \<noteq> [] \<and> mfs_bindex si \<le> wsbend si \<and> 0 \<le> au_dbstart d \<and> au_dbstart d \<le> wsbend si \<and>
     au_dbwh d \<le> wsbend si \<and> au_dbdiropq p \<le> wsbend si \<and> au_dbend p \<le> wsbend si"

text \<open>The answer of a policy.\<close>

definition chosen :: "wbr_si \<Rightarrow> int \<Rightarrow> bool" where
  "chosen si err \<longleftrightarrow> err = - EROFS \<or> writable (wbr_branch si) err"

text \<open>What a policy leaves alone: all of a branch but its free space.\<close>

definition same_table :: "wbr_si \<Rightarrow> wbr_si \<Rightarrow> bool" where
  "same_table si si' \<longleftrightarrow> length (wbr_branch si') = length (wbr_branch si) \<and>
     (\<forall>i < length (wbr_branch si). \<exists>x. wbr_branch si' ! i = (wbr_branch si ! i)\<lparr>wbr_bytes := x\<rparr>) \<and>
     dirperm1 si' = dirperm1 si \<and> mfsrr_watermark si' = mfsrr_watermark si \<and> mfs_expire si' = mfs_expire si"

lemma same_table_refl [simp]: "same_table si si"
proof -
  have "\<exists>x. br = br\<lparr>wbr_bytes := x\<rparr>" for br :: au_branch by (rule exI[of _ "wbr_bytes br"]) simp
  then show ?thesis by (simp add: same_table_def)
qed

lemma same_table_trans:
  assumes "same_table a b" "same_table b c"
  shows "same_table a c"
proof -
  have "\<exists>x. wbr_branch c ! i = (wbr_branch a ! i)\<lparr>wbr_bytes := x\<rparr>" if i: "i < length (wbr_branch a)" for i
  proof -
    obtain x where x: "wbr_branch b ! i = (wbr_branch a ! i)\<lparr>wbr_bytes := x\<rparr>" using assms(1) i unfolding same_table_def by blast
    obtain y where "wbr_branch c ! i = (wbr_branch b ! i)\<lparr>wbr_bytes := y\<rparr>" using assms i unfolding same_table_def by metis
    then show ?thesis unfolding x by auto
  qed
  then show ?thesis using assms unfolding same_table_def by simp
qed

lemma same_table_writable:
  assumes "same_table si si'"
  shows "writable (wbr_branch si') b \<longleftrightarrow> writable (wbr_branch si) b"
proof (cases "0 \<le> b \<and> b \<le> wsbend si")
  case True
  then have "nat b < length (wbr_branch si)" by (auto simp: au_sbend_def)
  then obtain x where "wbr_branch si' ! nat b = (wbr_branch si ! nat b)\<lparr>wbr_bytes := x\<rparr>" using assms by (auto simp: same_table_def)
  then show ?thesis using assms by (simp add: writable_def au_sbr_def au_sbend_def same_table_def)
qed (use assms in \<open>auto simp: writable_def au_sbend_def same_table_def\<close>)

lemma same_table_chosen: "same_table si si' \<Longrightarrow> chosen si' e \<longleftrightarrow> chosen si e"
  by (simp add: chosen_def same_table_writable)

lemma tdp_chosen:
  assumes "wbr_ok si d p"
  shows "chosen si (au_wbr_create_tdp si env d p isdir)"
proof -
  have b: "0 \<le> au_dbstart d" "au_dbstart d \<le> wsbend si" using assms by (simp_all add: wbr_ok_def)
  let ?e = "tdp_loop si env p (au_dbstart p) (nat (au_dbstart d - au_dbstart p))"
  have bu: "chosen si (au_wbr_bu (wbr_branch si) (au_dbstart d - 1))"
  proof -
    have "au_dbstart d - 1 \<le> wsbend si" using b by simp
    then show ?thesis by (cases rule: au_wbr_bu_cases) (auto simp: chosen_def)
  qed
  have lp: "?e = - EROFS \<or> writable (wbr_branch si) ?e"
  proof -
    have "?e = - EROFS \<or> (au_dbstart p \<le> ?e \<and> ?e < au_dbstart p + int (nat (au_dbstart d - au_dbstart p)) \<and> parent_ok si env p ?e)"
      using tdp_loop_spec[of si env p "au_dbstart p" "nat (au_dbstart d - au_dbstart p)"] by blast
    then show ?thesis
    proof
      assume a: "au_dbstart p \<le> ?e \<and> ?e < au_dbstart p + int (nat (au_dbstart d - au_dbstart p)) \<and> parent_ok si env p ?e"
      then have "?e \<le> wsbend si" using b(2) by linarith
      then show ?thesis using a parent_ok_rdonly[of si env p ?e] by (simp add: writable_def)
    qed simp
  qed
  show ?thesis using bu lp b unfolding au_wbr_create_tdp_def Let_def by (auto simp: chosen_def writable_def)
qed

lemma exp_chosen:
  assumes "wbr_ok si d p"
  shows "au_wbr_create_exp si d p = -1 \<or> writable (wbr_branch si) (au_wbr_create_exp si d p)"
  using assms unfolding au_wbr_create_exp_def Let_def wbr_ok_def writable_def
  by (auto simp: min_def not_le)

definition rr_take :: "bool \<Rightarrow> u32 \<Rightarrow> u32 \<times> u32" where
  "rr_take isdir next = (if isdir then (next, next) else if next = 0 then (next - 1, next - 2) else (next, next - 1))"

lemma rr_loop_Suc:
  "rr_loop brs isdir (Suc n) err next =
     (let (u, next) = rr_take isdir next; e = int (unat u mod length brs)
      in if au_br_rdonly (au_sbr brs e) = 0 then (e, next) else rr_loop brs isdir n (- EROFS) next)"
  by (simp add: rr_take_def)

declare rr_loop.simps(2) [simp del]

lemma mod_in_table: "brs \<noteq> [] \<Longrightarrow> int (unat u mod length brs) \<le> au_sbend brs"
  using mod_less_divisor[of "length brs" "unat u"] unfolding au_sbend_def length_greater_0_conv by linarith

lemma rr_loop_chosen:
  assumes "brs \<noteq> []" "err = - EROFS \<or> 0 < n"
  shows "fst (rr_loop brs isdir n err next) = - EROFS \<or> writable brs (fst (rr_loop brs isdir n err next))"
  using assms(2)
proof (induction n arbitrary: err "next")
  case (Suc n)
  obtain u nx where e: "rr_take isdir next = (u, nx)" by fastforce
  show ?case using Suc.IH[of "- EROFS" nx] mod_in_table[OF assms(1), of u]
    unfolding rr_loop_Suc e by (simp add: writable_def Let_def)
qed simp

lemma rr_chosen:
  assumes "wbr_ok si d p" "au_wbr_create_rr si d p isdir = (e, si')"
  shows "chosen si e \<and> same_table si si' \<and> mfs_bindex si' = mfs_bindex si"
proof -
  have n: "0 < nat (wsbend si + 1)" using assms(1) by (simp add: wbr_ok_def)
  let ?r = "rr_loop (wbr_branch si) isdir (nat (wsbend si + 1)) (au_wbr_create_exp si d p) (si_wbr_rr_next si)"
  have "fst ?r = - EROFS \<or> writable (wbr_branch si) (fst ?r)"
    by (rule rr_loop_chosen) (use assms(1) n in \<open>simp_all add: wbr_ok_def\<close>)
  moreover have "same_table si (si\<lparr>si_wbr_rr_next := x\<rparr>)" for x using same_table_refl[of si] unfolding same_table_def by simp
  ultimately show ?thesis using exp_chosen[OF assms(1)] assms(2)
    by (auto simp: au_wbr_create_rr_def chosen_def Let_def split: if_splits prod.splits)
qed

section \<open>Most free space\<close>

text \<open>The free space a branch has, when it is writable and \<^verbatim>\<open>statfs\<close> answers.\<close>

definition free_space :: "wbr_env \<Rightarrow> wbr_si \<Rightarrow> int \<Rightarrow> u64 option" where
  "free_space env si b =
     (if au_br_rdonly (wsbr si b) \<noteq> 0 then None
      else case au_wbr_statfs_arg env (wsbr si b) b of
             None \<Rightarrow> None
           | Some arg \<Rightarrow> (case vfsub_statfs env arg of (err, a, s) \<Rightarrow> if err \<noteq> 0 then None else Some (a * s)))"

text \<open>The bytes of the branch are noted, and its index when it has at least \<open>bavail\<close>.\<close>

definition note_bytes :: "int \<Rightarrow> u64 \<Rightarrow> wbr_si \<Rightarrow> wbr_si" where
  "note_bytes b x si = si\<lparr>wbr_branch := (wbr_branch si)[nat b := (wsbr si b)\<lparr>wbr_bytes := x\<rparr>]\<rparr>"

lemma mfs_loop_Suc:
  "mfs_loop env (Suc n) b bavail si =
     (case free_space env si b of
        None \<Rightarrow> mfs_loop env n (b + 1) bavail si
      | Some x \<Rightarrow>
          if x \<ge> bavail then mfs_loop env n (b + 1) x ((note_bytes b x si)\<lparr>mfs_bindex := b, mfs_jiffy := jiffies env\<rparr>)
          else mfs_loop env n (b + 1) bavail (note_bytes b x si))"
  by (simp add: free_space_def note_bytes_def Let_def split: option.split prod.split)

declare mfs_loop.simps(2) [simp del]

lemma note_bytes_same: "same_table si (note_bytes b x si)"
proof -
  have y: "\<exists>y. br = br\<lparr>wbr_bytes := y\<rparr>" for br :: au_branch by (rule exI[of _ "wbr_bytes br"]) simp
  have "\<exists>y. (wbr_branch si)[nat b := (wbr_branch si ! nat b)\<lparr>wbr_bytes := x\<rparr>] ! i = (wbr_branch si ! i)\<lparr>wbr_bytes := y\<rparr>"
    if "i < length (wbr_branch si)" for i
    using that y[of "wbr_branch si ! i"] by (cases "i = nat b") auto
  then show ?thesis unfolding same_table_def note_bytes_def by (simp add: au_sbr_def)
qed

lemma same_table_upd [simp]:
  "same_table si (si'\<lparr>mfs_bindex := b, mfs_jiffy := j\<rparr>) = same_table si si'"
  "same_table si (si'\<lparr>mfsrr_bytes := w\<rparr>) = same_table si si'"
  "same_table (si\<lparr>mfs_bindex := b, mfsrr_bytes := w\<rparr>) si' = same_table si si'"
  by (simp_all add: same_table_def)

lemma free_space_same:
  assumes "same_table si si'" "0 \<le> i" "i \<le> wsbend si"
  shows "free_space env si' i = free_space env si i"
proof -
  have "nat i < length (wbr_branch si)" using assms(2,3) by (auto simp: au_sbend_def)
  then obtain x where "wsbr si' i = (wsbr si i)\<lparr>wbr_bytes := x\<rparr>" using assms(1) unfolding same_table_def au_sbr_def by blast
  then show ?thesis by (simp add: free_space_def au_wbr_statfs_arg_def)
qed

lemma mfs_loop_spec:
  assumes "mfs_loop env n b bavail si = (bv, si')" "0 \<le> b" "b + int n = wsbend si + 1"
  shows "same_table si si' \<and>
    ((bv = bavail \<and> mfs_bindex si' = mfs_bindex si \<and>
       (\<forall>i x. b \<le> i \<and> i \<le> wsbend si \<and> free_space env si i = Some x \<longrightarrow> x < bavail)) \<or>
     (b \<le> mfs_bindex si' \<and> mfs_bindex si' \<le> wsbend si \<and> free_space env si (mfs_bindex si') = Some bv \<and> bavail \<le> bv \<and>
       (\<forall>i x. b \<le> i \<and> i \<le> wsbend si \<and> free_space env si i = Some x \<longrightarrow> x \<le> bv \<and> (mfs_bindex si' < i \<longrightarrow> x < bv))))"
  using assms
proof (induction n arbitrary: b bavail si)
  case 0
  then show ?case by (auto simp: mfs_loop.simps)
next
  case (Suc n)
  have s: "b \<le> i \<Longrightarrow> i = b \<or> b + 1 \<le> i" for i by linarith
  have bb: "b \<le> wsbend si" "0 \<le> b + 1" using Suc.prems(2,3) by simp_all
  show ?case
  proof (cases "free_space env si b")
    case None
    then have e: "mfs_loop env n (b + 1) bavail si = (bv, si')" using Suc.prems(1) by (simp add: mfs_loop_Suc)
    have "b + 1 + int n = wsbend si + 1" using Suc.prems(3) by simp
    note IH = Suc.IH[OF e bb(2) this]
    have r1: "\<forall>i x. b \<le> i \<and> i \<le> wsbend si \<and> free_space env si i = Some x \<longrightarrow> x < bavail"
      if "\<forall>i x. b + 1 \<le> i \<and> i \<le> wsbend si \<and> free_space env si i = Some x \<longrightarrow> x < bavail"
      using that s None by (metis option.distinct(1))
    have r2: "\<forall>i x. b \<le> i \<and> i \<le> wsbend si \<and> free_space env si i = Some x \<longrightarrow> x \<le> bv \<and> (mfs_bindex si' < i \<longrightarrow> x < bv)"
      if "\<forall>i x. b + 1 \<le> i \<and> i \<le> wsbend si \<and> free_space env si i = Some x \<longrightarrow> x \<le> bv \<and> (mfs_bindex si' < i \<longrightarrow> x < bv)"
      using that s None by (metis option.distinct(1))
    have d: "b + 1 \<le> mfs_bindex si' \<Longrightarrow> b \<le> mfs_bindex si'" by simp
    show ?thesis using IH r1 r2 d by argo
  next
    case (Some x)
    let ?s1 = "(note_bytes b x si)\<lparr>mfs_bindex := b, mfs_jiffy := jiffies env\<rparr>"
    have t: "same_table si ?s1" "same_table si (note_bytes b x si)" using note_bytes_same by simp_all
    have w: "wsbend ?s1 = wsbend si" "wsbend (note_bytes b x si) = wsbend si" by (simp_all add: note_bytes_def au_sbend_def)
    show ?thesis
    proof (cases "x \<ge> bavail")
      case True
      then have e: "mfs_loop env n (b + 1) x ?s1 = (bv, si')" using Suc.prems(1) Some by (simp add: mfs_loop_Suc)
      have "b + 1 + int n = wsbend ?s1 + 1" using Suc.prems(3) unfolding w by simp
      note IH = Suc.IH[OF e bb(2) this, unfolded w]
      have fs: "free_space env ?s1 i = free_space env si i" if "b + 1 \<le> i" "i \<le> wsbend si" for i
        by (rule free_space_same[OF t(1)]) (use that bb in simp_all)
      have tt: "same_table si si'" using IH same_table_trans[OF t(1)] by blast
      have m1: "mfs_bindex ?s1 = b" by simp
      from IH consider
        (old) "bv = x" "mfs_bindex si' = b" "\<forall>i y. b + 1 \<le> i \<and> i \<le> wsbend si \<and> free_space env ?s1 i = Some y \<longrightarrow> y < x"
        | (new) "b + 1 \<le> mfs_bindex si'" "mfs_bindex si' \<le> wsbend si" "free_space env ?s1 (mfs_bindex si') = Some bv" "x \<le> bv"
          "\<forall>i y. b + 1 \<le> i \<and> i \<le> wsbend si \<and> free_space env ?s1 i = Some y \<longrightarrow> y \<le> bv \<and> (mfs_bindex si' < i \<longrightarrow> y < bv)"
        unfolding m1 by blast
      then show ?thesis
      proof cases
        case old
        have "y \<le> bv \<and> (b < i \<longrightarrow> y < bv)" if h: "b \<le> i" "i \<le> wsbend si" "free_space env si i = Some y" for i y
        proof (cases "i = b")
          case True with h(3) Some old(1) show ?thesis by simp
        next
          case False then have "y < x" using old(3) fs[of i] h s by metis
          then show ?thesis using old(1) by simp
        qed
        then have "\<forall>i y. b \<le> i \<and> i \<le> wsbend si \<and> free_space env si i = Some y \<longrightarrow> y \<le> bv \<and> (mfs_bindex si' < i \<longrightarrow> y < bv)"
          unfolding old(2) by blast
        moreover have "b \<le> mfs_bindex si'" "mfs_bindex si' \<le> wsbend si" "free_space env si (mfs_bindex si') = Some bv" "bavail \<le> bv"
          using old(1,2) bb Some True by simp_all
        ultimately show ?thesis using tt by blast
      next
        case new
        have "y \<le> bv \<and> (mfs_bindex si' < i \<longrightarrow> y < bv)" if h: "b \<le> i" "i \<le> wsbend si" "free_space env si i = Some y" for i y
        proof (cases "i = b")
          case True with h(3) Some new(1,4) show ?thesis by simp
        next
          case False then show ?thesis using new(5) fs[of i] h s by metis
        qed
        moreover have "free_space env si (mfs_bindex si') = Some bv" using new(1-3) fs by simp
        moreover have "b \<le> mfs_bindex si'" "bavail \<le> bv" using new(1,4) True by simp_all
        ultimately show ?thesis using tt new(2) by blast
      qed
    next
      case False
      let ?s2 = "note_bytes b x si"
      have e: "mfs_loop env n (b + 1) bavail ?s2 = (bv, si')" using Suc.prems(1) Some False by (simp add: mfs_loop_Suc)
      have "b + 1 + int n = wsbend ?s2 + 1" using Suc.prems(3) unfolding w by simp
      note IH = Suc.IH[OF e bb(2) this, unfolded w]
      have fs: "free_space env ?s2 i = free_space env si i" if "b + 1 \<le> i" "i \<le> wsbend si" for i
        by (rule free_space_same[OF t(2)]) (use that bb in simp_all)
      have tt: "same_table si si'" using IH same_table_trans[OF t(2)] by blast
      have nb: "mfs_bindex ?s2 = mfs_bindex si" by (simp add: note_bytes_def)
      from IH consider
        (old) "bv = bavail" "mfs_bindex si' = mfs_bindex si"
          "\<forall>i y. b + 1 \<le> i \<and> i \<le> wsbend si \<and> free_space env ?s2 i = Some y \<longrightarrow> y < bavail"
        | (new) "b + 1 \<le> mfs_bindex si'" "mfs_bindex si' \<le> wsbend si" "free_space env ?s2 (mfs_bindex si') = Some bv" "bavail \<le> bv"
          "\<forall>i y. b + 1 \<le> i \<and> i \<le> wsbend si \<and> free_space env ?s2 i = Some y \<longrightarrow> y \<le> bv \<and> (mfs_bindex si' < i \<longrightarrow> y < bv)"
        unfolding nb by blast
      then show ?thesis
      proof cases
        case old
        have "y < bavail" if h: "b \<le> i" "i \<le> wsbend si" "free_space env si i = Some y" for i y
        proof (cases "i = b")
          case True with h(3) Some False show ?thesis by simp
        next
          case False then show ?thesis using old(3) fs[of i] h s by metis
        qed
        then show ?thesis using tt old(1,2) by blast
      next
        case new
        have "y \<le> bv \<and> (mfs_bindex si' < i \<longrightarrow> y < bv)" if h: "b \<le> i" "i \<le> wsbend si" "free_space env si i = Some y" for i y
        proof (cases "i = b")
          case True
          then have "y = x" using h(3) Some by simp
          then show ?thesis using False new(1,4) True by simp
        next
          case False then show ?thesis using new(5) fs[of i] h s by metis
        qed
        moreover have "free_space env si (mfs_bindex si') = Some bv" using new(1-3) fs by simp
        moreover have "b \<le> mfs_bindex si'" using new(1) by simp
        ultimately show ?thesis using tt new(2,4) by blast
      qed
    qed
  qed
qed

lemma au_mfs_spec:
  assumes "au_mfs env si = si'"
  shows "same_table si si' \<and>
    ((mfs_bindex si' = - EROFS \<and> mfsrr_bytes si' = 0 \<and> (\<forall>i. 0 \<le> i \<and> i \<le> wsbend si \<longrightarrow> free_space env si i = None)) \<or>
     (0 \<le> mfs_bindex si' \<and> mfs_bindex si' \<le> wsbend si \<and> free_space env si (mfs_bindex si') = Some (mfsrr_bytes si') \<and>
       (\<forall>i x. 0 \<le> i \<and> i \<le> wsbend si \<and> free_space env si i = Some x \<longrightarrow>
          x \<le> mfsrr_bytes si' \<and> (mfs_bindex si' < i \<longrightarrow> x < mfsrr_bytes si'))))"
proof -
  let ?s0 = "si\<lparr>mfs_bindex := - EROFS, mfsrr_bytes := 0\<rparr>"
  obtain bv s1 where r: "mfs_loop env (nat (wsbend si + 1)) 0 0 ?s0 = (bv, s1)" by fastforce
  have w: "wsbend ?s0 = wsbend si" by simp
  have n: "0 + int (nat (wsbend si + 1)) = wsbend ?s0 + 1" by (simp add: au_sbend_def)
  have fs: "free_space env ?s0 i = free_space env si i" for i by (simp add: free_space_def)
  have e: "si' = s1\<lparr>mfsrr_bytes := bv\<rparr>" using assms r by (simp add: au_mfs_def)
  have m0: "mfs_bindex ?s0 = - EROFS" by simp
  have z: "\<not> x < 0" for x :: u64 by simp
  have "same_table si s1 \<and>
    ((bv = 0 \<and> mfs_bindex s1 = - EROFS \<and> (\<forall>i x. 0 \<le> i \<and> i \<le> wsbend si \<and> free_space env si i = Some x \<longrightarrow> x < 0)) \<or>
     (0 \<le> mfs_bindex s1 \<and> mfs_bindex s1 \<le> wsbend si \<and> free_space env si (mfs_bindex s1) = Some bv \<and> 0 \<le> bv \<and>
       (\<forall>i x. 0 \<le> i \<and> i \<le> wsbend si \<and> free_space env si i = Some x \<longrightarrow> x \<le> bv \<and> (mfs_bindex s1 < i \<longrightarrow> x < bv))))"
    using mfs_loop_spec[OF r order_refl n] unfolding w fs m0 same_table_upd by blast
  moreover have "(\<forall>i. 0 \<le> i \<and> i \<le> wsbend si \<longrightarrow> free_space env si i = None)"
    if "\<forall>i x. 0 \<le> i \<and> i \<le> wsbend si \<and> free_space env si i = Some x \<longrightarrow> x < 0"
    using that z by (metis not_None_eq)
  moreover have q: "same_table si si' = same_table si s1" "mfs_bindex si' = mfs_bindex s1" "mfsrr_bytes si' = bv"
    by (simp_all add: e)
  ultimately show ?thesis unfolding q by blast
qed

lemma au_mfs_chosen:
  assumes "si' = au_mfs env si"
  shows "chosen si (mfs_bindex si') \<and> same_table si si' \<and> (wbr_branch si \<noteq> [] \<longrightarrow> mfs_bindex si' \<le> wsbend si)"
proof -
  have "free_space env si b = Some x \<Longrightarrow> au_br_rdonly (wsbr si b) = 0" for b x
    by (auto simp: free_space_def split: if_splits)
  moreover have "wbr_branch si \<noteq> [] \<Longrightarrow> - EROFS \<le> wsbend si" by (simp add: au_sbend_def)
  ultimately show ?thesis using au_mfs_spec[OF assms[symmetric]] unfolding chosen_def writable_def by metis
qed

lemma mfs_chosen:
  assumes "wbr_ok si d p"
  obtains e si' where "au_wbr_create_mfs si env d p isdir = Some (e, si')" "chosen si e" "same_table si si'"
    "mfs_bindex si' \<le> wsbend si"
proof -
  have ne: "wbr_branch si \<noteq> []" "mfs_bindex si \<le> wsbend si" using assms by (simp_all add: wbr_ok_def)
  note m = au_mfs_chosen[OF refl, of si env]
  let ?x = "au_wbr_create_exp si d p"
  consider (exp) "?x \<ge> 0" | (mfs) "?x < 0" "time_after (jiffies env) (mfs_jiffy si + mfs_expire si) \<or> mfs_bindex si < 0 \<or>
      au_br_rdonly (wsbr si (mfs_bindex si)) \<noteq> 0"
    | (keep) "?x < 0" "\<not> time_after (jiffies env) (mfs_jiffy si + mfs_expire si)" "0 \<le> mfs_bindex si"
      "au_br_rdonly (wsbr si (mfs_bindex si)) = 0" by linarith
  then show thesis
  proof cases
    case exp
    then have "writable (wbr_branch si) ?x" using exp_chosen[OF assms] by auto
    then show thesis using that[of ?x si] exp ne(2) by (simp add: au_wbr_create_mfs_def chosen_def)
  next
    case mfs
    then have "au_wbr_create_mfs si env d p isdir = Some (mfs_bindex (au_mfs env si), au_mfs env si)"
      using ne(2) by (auto simp: au_wbr_create_mfs_def Let_def)
    then show thesis using that m ne(1) by blast
  next
    case keep
    then have "au_wbr_create_mfs si env d p isdir = Some (mfs_bindex si, si)"
      using ne(2) by (simp add: au_wbr_create_mfs_def)
    then show thesis using that[of "mfs_bindex si" si] keep ne(2) by (simp add: chosen_def writable_def)
  qed
qed

lemma pmfs_loop_chosen:
  assumes "writable (wbr_branch si) err" "0 \<le> b" "b + int n \<le> wsbend si + 1"
  shows "writable (wbr_branch si) (fst (pmfs_loop perm si env p n b x err))"
  using assms
proof (induction n arbitrary: b x err)
  case (Suc n)
  have b: "0 \<le> b + 1" "b + 1 + int n \<le> wsbend si + 1" using Suc.prems(2,3) by simp_all
  have w: "au_br_rdonly (wsbr si b) = 0 \<Longrightarrow> writable (wbr_branch si) b" using Suc.prems(2,3) by (simp add: writable_def)
  have i: "writable (wbr_branch si) (fst (pmfs_loop perm si env p n (b + 1) y e))" if "writable (wbr_branch si) e" for y e
    by (rule Suc.IH[OF that b])
  show ?case using i w Suc.prems(1) by (simp add: Let_def split: option.split)
qed simp

section \<open>Properties\<close>


definition demo_branch :: "int \<Rightarrow> au_brperm \<Rightarrow> au_branch" where
  "demo_branch k perm = \<lparr>br_id = k, br_perm = perm, br_count = 0, br_xino_upper = -1, br_xino_running = 0, br_sb = nat k,
     br_sb_rdonly = False, wbr_bytes = 0, xi_file = None\<rparr>"

definition demo_wbr :: "au_brperm list \<Rightarrow> bool \<Rightarrow> u32 \<Rightarrow> wbr_si" where
  "demo_wbr ps dp n = \<lparr>wbr_branch = map2 (\<lambda>k p. demo_branch (int k) p) [0..<length ps] ps, dirperm1 = dp, si_wbr_rr_next = n,
     mfs_bindex = - EROFS, mfs_jiffy = 0, mfs_expire = 30, mfsrr_bytes = 0, mfsrr_watermark = 0\<rparr>"

text \<open>Every branch \<open>k\<close> has \<open>k * k\<close> blocks of 4096 bytes; only the lower directory 7 may be written.\<close>

definition demo_env :: wbr_env where
  "demo_env = \<lparr>fsuid = 1000, vfsub_permission = (\<lambda>i. if i = 7 then 0 else -13), jiffies = 100, sb_nfs = (\<lambda>_. False), root_hdentry = (\<lambda>_. None),
     vfsub_statfs = (\<lambda>a. case a of S_Root k \<Rightarrow> (0, of_nat (k * k), 4096) | H_Dentry k \<Rightarrow> (-5, 0, 0))\<rparr>"

definition demo_di :: "int \<Rightarrow> int \<Rightarrow> h_dentry option list \<Rightarrow> au_dinfo" where
  "demo_di s e hs = \<lparr>di_generation = 0, di_bstart = s, di_bend = e, di_bwh = -1, di_bdiropq = -1, di_hdentry = hs, dputs = []\<rparr>"

definition demo_dir :: "nat \<Rightarrow> h_dentry option" where
  "demo_dir k = Some \<lparr>h_id = k, d_inode = Some k\<rparr>"


text \<open>
  C28: the branch with the most free space is found: the one remembered is writable, answers \<^verbatim>\<open>statfs\<close>,
  no other such branch has more, and one after it has less (of equal ones the last is taken); when
  no branch qualifies \<open>-EROFS\<close> is remembered.
\<close>

theorem mfs_most_space:
  "(mfs_bindex (au_mfs env si) = - EROFS \<and> mfsrr_bytes (au_mfs env si) = 0 \<and>
     (\<forall>i \<in> {0..wsbend si}. free_space env si i = None)) \<or>
   (mfs_bindex (au_mfs env si) \<in> {0..wsbend si} \<and>
     free_space env si (mfs_bindex (au_mfs env si)) = Some (mfsrr_bytes (au_mfs env si)) \<and>
     (\<forall>i \<in> {0..wsbend si}. \<forall>x. free_space env si i = Some x \<longrightarrow>
        x \<le> mfsrr_bytes (au_mfs env si) \<and> (mfs_bindex (au_mfs env si) < i \<longrightarrow> x < mfsrr_bytes (au_mfs env si))))"
  unfolding Ball_def atLeastAtMost_iff using au_mfs_spec[OF refl, where env = env and si = si] by blast

theorem mfs_most_space_witness:
  "mfs_bindex (au_mfs demo_env (demo_wbr [AuBrPerm_RW, AuBrPerm_RO, AuBrPerm_RW] False 0)) = 2 \<and>
   free_space demo_env (demo_wbr [AuBrPerm_RW, AuBrPerm_RO, AuBrPerm_RW] False 0) 2 = Some 16384"
proof -
  let ?si = "demo_wbr [AuBrPerm_RW, AuBrPerm_RO, AuBrPerm_RW] False 0"
  have f: "free_space demo_env ?si 2 = Some 16384" "free_space demo_env ?si 1 = None" "free_space demo_env ?si 0 = Some 0"
    by code_simp+
  have w: "wsbend ?si = 2" by code_simp
  let ?k = "mfs_bindex (au_mfs demo_env ?si)" and ?m = "mfsrr_bytes (au_mfs demo_env ?si)"
  have "?k \<in> {0..2} \<and> free_space demo_env ?si ?k = Some ?m \<and> 16384 \<le> ?m"
    using mfs_most_space[of demo_env ?si] f(1) unfolding w by force
  moreover have "k \<in> {0..2} \<Longrightarrow> k = 0 \<or> k = 1 \<or> k = 2" for k :: int by auto
  ultimately consider "?k = 2" | "?k = 1" "free_space demo_env ?si 1 = Some ?m" | "?k = 0" "free_space demo_env ?si 0 = Some ?m" "16384 \<le> ?m"
    by metis
  then have "?k = 2" by cases (use f(2,3) in simp_all)
  then show ?thesis using f(1) by simp
qed

text \<open>The first candidate of a list, or \<open>-EROFS\<close>.\<close>

fun first_of :: "int list \<Rightarrow> int" where
  "first_of [] = - EROFS"
| "first_of (b # _) = b"

lemma first_of_append: "first_of (xs @ ys) = (if xs = [] then first_of ys else first_of xs)"
  by (cases xs) simp_all

lemma wbr_bu_first: "wbr_bu_loop brs n = first_of (filter (\<lambda>b. au_br_rdonly (au_sbr brs b) = 0) (rev [0..int n - 1]))"
proof (induction n)
  case (Suc n)
  have "rev [0..int (Suc n) - 1] = int n # rev [0..int n - 1]" using upto_rec2[of 0 "int n"] by simp
  then show ?case using Suc by simp
qed simp

lemma tdp_first: "tdp_loop si env p b n = first_of (filter (parent_ok si env p) [b..b + int n - 1])"
proof (induction n arbitrary: b)
  case (Suc n)
  have "[b..b + int (Suc n) - 1] = b # [b + 1..b + 1 + int n - 1]" using upto_rec1[of b "b + int n"] by (simp add: algebra_simps)
  then show ?case using Suc[of "b + 1"] by simp
qed simp

lemma bup_first: "bup_loop si env p b n = first_of (filter (parent_ok si env p) (rev [b - int n + 1..b]))"
proof (induction n arbitrary: b)
  case (Suc n)
  have "rev [b - int (Suc n) + 1..b] = b # rev [b - 1 - int n + 1..b - 1]"
    using upto_rec2[of "b - int n" b] by (simp add: algebra_simps)
  then show ?case using Suc[of "b - 1"] by simp
qed simp

lemma first_or:
  assumes "\<forall>b \<in> set xs. 0 \<le> b"
  shows "(if first_of xs < 0 then first_of ys else first_of xs) = first_of (xs @ ys)"
  using assms by (cases xs) auto

abbreviation (input) rw :: "wbr_si \<Rightarrow> int \<Rightarrow> bool" where "rw si b \<equiv> au_br_rdonly (wsbr si b) = 0"

text \<open>
  C27: the parent policies against a search of lists. \<open>tdp\<close> takes the branch of the dentry when it is
  writable, else the first suitable parent from above, else the nearest writable branch above the
  dentry; \<open>bup\<close> takes the first suitable parent from below, else the nearest writable branch above
  the parents; \<open>bu\<close> takes the nearest writable branch from the dentry upwards.
\<close>

theorem copyup_policies_search:
  "au_wbr_copyup_ops AuWbrCopyup_TDP si env d p =
      (if rw si (au_dbstart d) then au_dbstart d
       else first_of (filter (parent_ok si env p) [au_dbstart p..au_dbstart d - 1] @ filter (rw si) (rev [0..au_dbstart d - 1]))) \<and>
    au_wbr_copyup_ops AuWbrCopyup_BUP si env d p =
      first_of (filter (parent_ok si env p) (rev [au_dbstart p..au_dbstart d]) @ filter (rw si) (rev [0..au_dbstart p - 1])) \<and>
    au_wbr_copyup_ops AuWbrCopyup_BU si env d p = first_of (filter (rw si) (rev [0..au_dbstart d]))"
proof (intro conjI)
  have bu: "au_wbr_bu (wbr_branch si) b = first_of (filter (rw si) (rev [0..b]))" for b
    unfolding au_wbr_bu_def wbr_bu_first by (cases "0 \<le> b + 1") simp_all
  have nn: "\<forall>b \<in> set (filter (parent_ok si env p) xs). 0 \<le> b" for xs using parent_ok_rdonly by auto
  let ?s = "au_dbstart d" and ?q = "au_dbstart p"
  have t: "tdp_loop si env p ?q (nat (?s - ?q)) = first_of (filter (parent_ok si env p) [?q..?s - 1])"
    unfolding tdp_first by (cases "?q \<le> ?s") simp_all
  have u: "bup_loop si env p ?s (nat (?s - ?q + 1)) = first_of (filter (parent_ok si env p) (rev [?q..?s]))"
    unfolding bup_first by (cases "?q \<le> ?s + 1") simp_all
  show "au_wbr_copyup_ops AuWbrCopyup_TDP si env d p = (if rw si ?s then ?s
      else first_of (filter (parent_ok si env p) [?q..?s - 1] @ filter (rw si) (rev [0..?s - 1])))"
    unfolding first_or[OF nn, symmetric]
    by (simp only: au_wbr_copyup_ops.simps au_wbr_copyup_tdp_def au_wbr_create_tdp_def Let_def t bu)
  show "au_wbr_copyup_ops AuWbrCopyup_BUP si env d p = first_of (filter (parent_ok si env p) (rev [?q..?s]) @ filter (rw si) (rev [0..?q - 1]))"
    unfolding first_or[OF nn, symmetric]
    by (simp only: au_wbr_copyup_ops.simps au_wbr_copyup_bup_def Let_def u bu)
  show "au_wbr_copyup_ops AuWbrCopyup_BU si env d p = first_of (filter (rw si) (rev [0..?s]))"
    by (simp add: au_wbr_copyup_bu_def bu)
qed



text \<open>
  Round robin for a directory reads the counter without moving it, so all tries look at the same
  branch: when that one is read-only the policy answers \<open>-EROFS\<close>, whatever the others are.
\<close>

theorem rr_dir_one_branch:
  assumes "wbr_branch si \<noteq> []" "au_wbr_create_exp si d p = -1"
    "k = int (unat (si_wbr_rr_next si) mod length (wbr_branch si))"
  shows "au_wbr_create_rr si d p True = (if au_br_rdonly (wsbr si k) = 0 then k else - EROFS, si)"
proof -
  have l: "rr_loop brs True n e m = (if au_br_rdonly (au_sbr brs (int (unat m mod length brs))) = 0
      then int (unat m mod length brs) else - EROFS, m)" if "0 < n \<or> e = - EROFS \<and> au_br_rdonly (au_sbr brs (int (unat m mod length brs))) \<noteq> 0" for brs n e m
    using that
  proof (induction n arbitrary: e)
    case (Suc n)
    show ?case using Suc.IH[of "- EROFS"] unfolding rr_loop_Suc by (simp add: rr_take_def)
  qed simp
  have "0 < nat (wsbend si + 1)" using assms(1) by simp
  then show ?thesis using assms(2) l[of "nat (wsbend si + 1)" "-1" "wbr_branch si" "si_wbr_rr_next si"]
    unfolding assms(3) by (simp add: au_wbr_create_rr_def)
qed

theorem rr_dir_one_branch_witness:
  "fst (au_wbr_create_rr (demo_wbr [AuBrPerm_RW, AuBrPerm_RO] False 1) (demo_di 0 0 []) (demo_di 0 0 []) True) = - EROFS"
  using rr_dir_one_branch[of "demo_wbr [AuBrPerm_RW, AuBrPerm_RO] False 1" "demo_di 0 0 []" "demo_di 0 0 []" 1]
  by (simp add: demo_wbr_def demo_di_def demo_branch_def au_wbr_create_exp_def au_sbr_def au_br_rdonly_def au_br_writable_def)

lemma rr_loop_finds:
  assumes "brs \<noteq> []" "n \<le> unat m" "t < n" "au_br_rdonly (au_sbr brs (int ((unat m - t) mod length brs))) = 0"
  shows "\<exists>j \<le> t. rr_loop brs False n e m = (int ((unat m - j) mod length brs), m - of_nat (Suc j)) \<and>
    au_br_rdonly (au_sbr brs (int ((unat m - j) mod length brs))) = 0 \<and>
    (\<forall>i < j. au_br_rdonly (au_sbr brs (int ((unat m - i) mod length brs))) \<noteq> 0)"
  using assms(2-4)
proof (induction n arbitrary: m t e)
  case (Suc n)
  have mz: "m \<noteq> 0" using Suc.prems(1) by auto
  then have tk: "rr_take False m = (m, m - 1)" by (simp add: rr_take_def)
  have um: "unat (m - 1) = unat m - 1" using mz unat_minus_one by blast
  show ?case
  proof (cases "au_br_rdonly (au_sbr brs (int (unat m mod length brs))) = 0")
    case True
    then show ?thesis unfolding rr_loop_Suc tk by (intro exI[of _ 0]) simp
  next
    case False
    then obtain t' where t: "t = Suc t'" using Suc.prems(3) by (cases t) auto
    have "n \<le> unat (m - 1)" "t' < n" using Suc.prems(1,2) t um by simp_all
    moreover have "au_br_rdonly (au_sbr brs (int ((unat (m - 1) - t') mod length brs))) = 0"
      using Suc.prems(3) unfolding t um by simp
    ultimately obtain j where j: "j \<le> t'"
      "rr_loop brs False n (- EROFS) (m - 1) = (int ((unat (m - 1) - j) mod length brs), m - 1 - of_nat (Suc j))"
      "au_br_rdonly (au_sbr brs (int ((unat (m - 1) - j) mod length brs))) = 0"
      "\<forall>i < j. au_br_rdonly (au_sbr brs (int ((unat (m - 1) - i) mod length brs))) \<noteq> 0"
      using Suc.IH by blast
    have d: "unat (m - 1) - i = unat m - Suc i" for i using um by simp
    have "\<forall>i < Suc j. au_br_rdonly (au_sbr brs (int ((unat m - i) mod length brs))) \<noteq> 0"
      using j(4) False unfolding d by (metis less_Suc_eq_0_disj diff_zero)
    moreover have "rr_loop brs False (Suc n) e m = (int ((unat m - Suc j) mod length brs), m - of_nat (Suc (Suc j)))"
      using False j(2) unfolding rr_loop_Suc tk d by (simp add: algebra_simps)
    ultimately show ?thesis using j(1,3) t unfolding d by (intro exI[of _ "Suc j"]) simp
  qed
qed simp

lemma residue_below:
  assumes "(k::nat) < n" "n \<le> m"
  shows "(m - (m - k) mod n) mod n = k"
proof -
  let ?t = "(m - k) mod n"
  have "m - k = (m - k) div n * n + ?t" by simp
  moreover have "?t \<le> m - k" by simp
  ultimately have "m - ?t = k + (m - k) div n * n" using assms by linarith
  then show ?thesis using assms(1) by simp
qed

text \<open>
  C29: round robin for a file that is not a directory finds a writable branch when there is one and
  the counter does not reach 0 on the way, and moves the counter past the branch it took; the
  branches it skipped are read-only.
\<close>

theorem rr_file_finds:
  assumes "writable (wbr_branch si) b" "au_wbr_create_exp si d p = -1" "length (wbr_branch si) \<le> unat (si_wbr_rr_next si)"
  shows "\<exists>j < length (wbr_branch si).
    au_wbr_create_rr si d p False = (int ((unat (si_wbr_rr_next si) - j) mod length (wbr_branch si)),
      si\<lparr>si_wbr_rr_next := si_wbr_rr_next si - of_nat (Suc j)\<rparr>) \<and>
    writable (wbr_branch si) (fst (au_wbr_create_rr si d p False)) \<and>
    (\<forall>i < j. \<not> writable (wbr_branch si) (int ((unat (si_wbr_rr_next si) - i) mod length (wbr_branch si))))"
proof -
  let ?brs = "wbr_branch si" and ?m = "si_wbr_rr_next si"
  let ?n = "length ?brs" and ?t = "(unat ?m - nat b) mod length ?brs"
  have b: "nat b < ?n" "int (nat b) = b" using assms(1) by (auto simp: writable_def au_sbend_def)
  then have ne: "?brs \<noteq> []" by auto
  have t: "?t < ?n" using ne by simp
  have "au_br_rdonly (au_sbr ?brs (int ((unat ?m - ?t) mod ?n))) = 0"
    unfolding residue_below[OF b(1) assms(3)] b(2) using assms(1) by (simp add: writable_def)
  then obtain j where j: "j \<le> ?t" "rr_loop ?brs False ?n (-1) ?m = (int ((unat ?m - j) mod ?n), ?m - of_nat (Suc j))"
    "au_br_rdonly (au_sbr ?brs (int ((unat ?m - j) mod ?n))) = 0"
    "\<forall>i < j. au_br_rdonly (au_sbr ?brs (int ((unat ?m - i) mod ?n))) \<noteq> 0"
    using rr_loop_finds[OF ne assms(3) t, of "-1"] by blast
  have w: "writable ?brs (int (x mod ?n)) \<longleftrightarrow> au_br_rdonly (au_sbr ?brs (int (x mod ?n))) = 0" for x
    using mod_less_divisor[of ?n x] ne by (auto simp: writable_def au_sbend_def)
  have r: "au_wbr_create_rr si d p False = (int ((unat ?m - j) mod ?n), si\<lparr>si_wbr_rr_next := ?m - of_nat (Suc j)\<rparr>)"
    using assms(2) j(2) by (simp add: au_wbr_create_rr_def)
  have "j < ?n" using j(1) t by simp
  then show ?thesis using r j(3,4) unfolding r w fst_conv by blast
qed

theorem rr_file_finds_witness:
  "\<exists>j < 2. fst (au_wbr_create_rr (demo_wbr [AuBrPerm_RW, AuBrPerm_RO] False 5) (demo_di 0 0 []) (demo_di 0 0 []) False) =
     int ((5 - j) mod 2)"
proof -
  let ?si = "demo_wbr [AuBrPerm_RW, AuBrPerm_RO] False 5"
  have "writable (wbr_branch ?si) 0" "au_wbr_create_exp ?si (demo_di 0 0 []) (demo_di 0 0 []) = -1" by code_simp+
  moreover have "length (wbr_branch ?si) = 2" "unat (si_wbr_rr_next ?si) = 5" by (simp_all add: demo_wbr_def)
  ultimately show ?thesis using rr_file_finds[of ?si 0 "demo_di 0 0 []" "demo_di 0 0 []"] by auto
qed

lemma mfs_loop_jiffy:
  "mfs_loop env n b bavail si = (bv, si') \<Longrightarrow>
   (mfs_bindex si' = mfs_bindex si \<or> mfs_jiffy si' = jiffies env) \<and> mfs_expire si' = mfs_expire si"
proof (induction n arbitrary: b bavail si)
  case (Suc n)
  have n: "mfs_bindex (note_bytes b x si) = mfs_bindex si" "mfs_expire (note_bytes b x si) = mfs_expire si" for x
    by (simp_all add: note_bytes_def)
  have k: "mfs_loop env m c w s = (bv, si') \<Longrightarrow> mfs_jiffy s = jiffies env \<Longrightarrow> mfs_jiffy si' = jiffies env" for m c w s
    by (induction m arbitrary: c w s) (auto simp: mfs_loop_Suc note_bytes_def split: option.splits if_splits)
  show ?case using Suc.prems Suc.IH n k by (force simp: mfs_loop_Suc split: option.splits if_splits)
qed (simp add: mfs_loop.simps)

text \<open>
  C31: the branch remembered by \<^verbatim>\<open>au_mfs\<close> is used, until its time expires, even when the table has
  become shorter: every \<^verbatim>\<open>mfs\<close> policy then reads beyond the table.
\<close>

theorem mfs_stale_branch:
  assumes "si' = (au_mfs env si)\<lparr>wbr_branch := brs\<rparr>" "int (length brs) \<le> mfs_bindex si'"
    "au_wbr_create_exp si' d p = -1" "\<not> time_after (jiffies env') (jiffies env + mfs_expire si)"
    "pol \<in> {AuWbrCreate_MFS, AuWbrCreate_MFSV, AuWbrCreate_MFSRR, AuWbrCreate_MFSRRV}"
  shows "au_wbr_create_ops pol si' env' d p isdir = None"
proof -
  obtain bv s1 where l: "mfs_loop env (nat (wsbend si + 1)) 0 0 (si\<lparr>mfs_bindex := - EROFS, mfsrr_bytes := 0\<rparr>) = (bv, s1)"
    by fastforce
  then have e: "si' = s1\<lparr>mfsrr_bytes := bv, wbr_branch := brs\<rparr>" using assms(1) by (simp add: au_mfs_def)
  have k: "0 \<le> mfs_bindex si'" "wsbend si' < mfs_bindex si'" using assms(2) by (simp_all add: e au_sbend_def)
  have "mfs_bindex s1 \<noteq> - EROFS" using k(1) by (simp add: e)
  then have "mfs_jiffy si' = jiffies env" "mfs_expire si' = mfs_expire si" using mfs_loop_jiffy[OF l] by (simp_all add: e)
  then have "au_wbr_create_mfs si' env' d p isdir = None" using assms(3,4) k by (simp add: au_wbr_create_mfs_def)
  then show ?thesis using assms(5) by (auto simp: au_wbr_create_mfsrr_def)
qed

theorem mfs_stale_branch_witness:
  "au_wbr_create_ops AuWbrCreate_MFS ((au_mfs demo_env (demo_wbr [AuBrPerm_RW, AuBrPerm_RO, AuBrPerm_RW] False 0))
      \<lparr>wbr_branch := wbr_branch (demo_wbr [AuBrPerm_RW, AuBrPerm_RO] False 0)\<rparr>) demo_env (demo_di 0 0 []) (demo_di 0 0 []) False = None"
proof -
  let ?s = "demo_wbr [AuBrPerm_RW, AuBrPerm_RO, AuBrPerm_RW] False 0"
  let ?brs = "wbr_branch (demo_wbr [AuBrPerm_RW, AuBrPerm_RO] False 0)"
  let ?si = "(au_mfs demo_env ?s)\<lparr>wbr_branch := ?brs\<rparr>"
  have "au_wbr_create_exp ?si (demo_di 0 0 []) (demo_di 0 0 []) = -1"
    "\<not> time_after (jiffies demo_env) (jiffies demo_env + mfs_expire ?s)"
    "int (length ?brs) \<le> mfs_bindex ?si" by code_simp+
  then show ?thesis using mfs_stale_branch[OF refl, where d = "demo_di 0 0 []" and p = "demo_di 0 0 []" and env' = demo_env
      and env = demo_env and si = ?s and brs = ?brs and pol = AuWbrCreate_MFS and isdir = False] by simp
qed

end
