(* ===== verification/Aufs_Lookup.thy ===== *)
theory Aufs_Lookup
  imports Aufs_Dinfo
begin

text \<open>
  Looking a name up in the union (\<^verbatim>\<open>dentry.c\<close>, and the tests for whiteouts of \<^verbatim>\<open>whout.c\<close>): from the top
  branch down, a whiteout ends the search, the first entry fixes the type, directories are
  collected from all branches; and what is done with the lower dentries when the branches have
  moved. The lookup in a lower directory is the kernel's: a function of the directory and the
  name. NFS branches and delegation are configured out.
\<close>

section \<open>State\<close>

abbreviation (input) ENAMETOOLONG :: int where "ENAMETOOLONG \<equiv> 36"
abbreviation (input) EPERM :: int where "EPERM \<equiv> 1"
abbreviation (input) PATH_MAX :: nat where "PATH_MAX \<equiv> 4096"

datatype s_ifmt = S_IFREG | S_IFDIR | S_IFLNK | S_IFCHR | S_IFBLK | S_IFIFO | S_IFSOCK

text \<open>
  \<open>lkup_one\<close> looks a name up in the directory of a lower dentry, \<open>i_fmt\<close> is the type of a lower
  inode, \<open>d_parent\<close> the parent of a lower dentry; then the options.
\<close>

record lk_env =
  lkup_one :: "nat \<Rightarrow> string \<Rightarrow> int + h_dentry"
  i_fmt :: "nat \<Rightarrow> s_ifmt"
  d_parent :: "nat \<Rightarrow> nat"
  config_robr :: bool
  opt_shwh :: bool
  opt_udba_none :: bool
  kmalloc_name :: bool

definition dput :: "h_dentry \<Rightarrow> au_dinfo \<Rightarrow> au_dinfo" where
  "dput h di = di\<lparr>dputs := h_id h # dputs di\<rparr>"

section \<open>Whiteouts\<close>

definition AUFS_WH_PFX :: string where "AUFS_WH_PFX = ''.wh.''"
definition AUFS_WH_DIROPQ :: string where "AUFS_WH_DIROPQ = ''.wh..wh..opq''"

definition has_wh_pfx :: "string \<Rightarrow> bool" where
  "has_wh_pfx name \<longleftrightarrow> take (length AUFS_WH_PFX) name = AUFS_WH_PFX"

definition au_wh_name_alloc :: "lk_env \<Rightarrow> string \<Rightarrow> int + string" where
  "au_wh_name_alloc env name =
     (if length name > PATH_MAX - length AUFS_WH_PFX then Inl (- ENAMETOOLONG)
      else if kmalloc_name env then Inr (AUFS_WH_PFX @ name) else Inl (- ENOMEM))"

definition au_wh_test :: "lk_env \<Rightarrow> nat \<Rightarrow> string \<Rightarrow> au_dinfo \<Rightarrow> int \<times> au_dinfo" where
  "au_wh_test env h_parent wh_name di =
     (case lkup_one env h_parent wh_name of
        Inl e \<Rightarrow> (e, di)
      | Inr wh \<Rightarrow>
          (case d_inode wh of
             None \<Rightarrow> (0, dput wh di)
           | Some i \<Rightarrow> if i_fmt env i = S_IFREG then (1, dput wh di) else (- EIO, dput wh di)))"

definition au_diropq_test :: "lk_env \<Rightarrow> h_dentry \<Rightarrow> au_dinfo \<Rightarrow> int \<times> au_dinfo" where
  "au_diropq_test env h_dentry di = au_wh_test env (h_id h_dentry) AUFS_WH_DIROPQ di"

definition au_test_robr_wh :: "lk_env \<Rightarrow> string \<Rightarrow> nat \<Rightarrow> string \<Rightarrow> au_dinfo \<Rightarrow> int \<times> au_dinfo" where
  "au_test_robr_wh env name h_parent wh_name di =
     (if config_robr env \<and> has_wh_pfx name then (- EPERM, di) else au_wh_test env h_parent wh_name di)"

definition au_test_robr_shwh :: "lk_env \<Rightarrow> string \<Rightarrow> int" where
  "au_test_robr_shwh env name = (if \<not> config_robr env \<and> \<not> opt_shwh env \<and> has_wh_pfx name then - EPERM else 0)"

section \<open>One branch\<close>

text \<open>
  The entry found is stored, its range widened, and a directory tested for being opaque. \<open>ifmt\<close> is
  the type of the inode of the dentry, \<open>None\<close> without one.
\<close>

definition found_entry :: "lk_env \<Rightarrow> bool \<Rightarrow> s_ifmt option \<Rightarrow> int \<Rightarrow> h_dentry \<Rightarrow> au_dinfo \<Rightarrow>
    (int + h_dentry option) \<times> au_dinfo" where
  "found_entry env wh_able ifmt bindex h di =
     (let di = (if au_dbend di \<le> bindex then au_set_dbend bindex di else di);
          di = (if au_dbstart di < 0 \<or> bindex < au_dbstart di then au_set_dbstart bindex di else di);
          di = au_set_h_dptr bindex (Some h) di
      in if d_inode h = None \<or> i_fmt env (the (d_inode h)) \<noteq> S_IFDIR \<or> \<not> wh_able \<or>
            (ifmt \<noteq> None \<and> ifmt \<noteq> Some S_IFDIR)
         then (Inr (Some h), di)
         else
           let (opq, di) = au_diropq_test env h di
           in if opq > 0 then (Inr (Some h), au_set_dbdiropq bindex di)
              else if opq < 0 then (Inl opq, au_set_h_dptr bindex None di)
              else (Inr (Some h), di))"

text \<open>The result: an error, or the entry found; \<open>Inr None\<close> when there is none or it is whited out.\<close>

definition au_do_lookup :: "lk_env \<Rightarrow> branches \<Rightarrow> string \<Rightarrow> string \<Rightarrow> s_ifmt option \<Rightarrow> nat \<Rightarrow> int \<Rightarrow> bool \<Rightarrow>
    s_ifmt option \<Rightarrow> au_dinfo \<Rightarrow> (int + h_dentry option) \<times> au_dinfo" where
  "au_do_lookup env brs name wh_name ifmt h_parent bindex allow_neg type di =
     (let wh_able = au_br_whable (br_perm (au_sbr brs bindex));
          (wh_found, di) = (if wh_able then au_test_robr_wh env name h_parent wh_name di else (0, di))
      in if wh_found < 0 then (Inl wh_found, di)
         else
           let di = (if wh_found \<noteq> 0 then au_set_dbwh bindex di else di)
           in if wh_found \<noteq> 0 \<and> \<not> allow_neg then (Inr None, di)
              else
                case lkup_one env h_parent name of
                  Inl e \<Rightarrow> (Inl e, di)
                | Inr h \<Rightarrow>
                    let neg = (case d_inode h of
                                 None \<Rightarrow> \<not> allow_neg
                               | Some i \<Rightarrow> wh_found \<noteq> 0 \<or> (type \<noteq> None \<and> type \<noteq> Some (i_fmt env i)))
                    in if neg then (Inr None, dput h di) else found_entry env wh_able ifmt bindex h di)"

section \<open>All branches\<close>

text \<open>
  The loop of \<^verbatim>\<open>au_lkup_dentry\<close> with \<open>n\<close> branches to go; \<open>type0\<close> is the type asked for, \<open>type\<close> the one
  that counts now. It gives an error or the number of positive entries.
\<close>

fun lkup_loop :: "nat \<Rightarrow> lk_env \<Rightarrow> branches \<Rightarrow> string \<Rightarrow> string \<Rightarrow> s_ifmt option \<Rightarrow> s_ifmt option \<Rightarrow> au_dinfo \<Rightarrow>
    int \<Rightarrow> bool \<Rightarrow> s_ifmt option \<Rightarrow> int \<Rightarrow> au_dinfo \<Rightarrow> (int + int) \<times> au_dinfo" where
  "lkup_loop 0 env brs name wh_name ifmt type0 parent bindex allow_neg type npositive di = (Inr npositive, di)"
| "lkup_loop (Suc n) env brs name wh_name ifmt type0 parent bindex allow_neg type npositive di =
     (case au_h_dptr di bindex of
        Some h \<Rightarrow>
          let npositive = (if d_inode h \<noteq> None then npositive + 1 else npositive)
          in if type0 \<noteq> Some S_IFDIR then (Inr npositive, di)
             else lkup_loop n env brs name wh_name ifmt type0 parent (bindex + 1) allow_neg type npositive di
      | None \<Rightarrow>
          (case au_h_dptr parent bindex of
             None \<Rightarrow> lkup_loop n env brs name wh_name ifmt type0 parent (bindex + 1) allow_neg type npositive di
           | Some h_parent \<Rightarrow>
               if d_inode h_parent = None \<or> i_fmt env (the (d_inode h_parent)) \<noteq> S_IFDIR
               then lkup_loop n env brs name wh_name ifmt type0 parent (bindex + 1) allow_neg type npositive di
               else
                 (case au_do_lookup env brs name wh_name ifmt (h_id h_parent) bindex allow_neg type di of
                    (Inl e, di) \<Rightarrow> (Inl e, di)
                  | (Inr h_dentry, di) \<Rightarrow>
                      if au_dbwh di \<ge> 0 then (Inr npositive, di)
                      else
                        (case h_dentry of
                           None \<Rightarrow> lkup_loop n env brs name wh_name ifmt type0 parent (bindex + 1) False type npositive di
                         | Some h \<Rightarrow>
                             (case d_inode h of
                                None \<Rightarrow> lkup_loop n env brs name wh_name ifmt type0 parent (bindex + 1) False type npositive di
                              | Some i \<Rightarrow>
                                  let npositive = npositive + 1;
                                      type = (if type = None then Some (i_fmt env i) else type)
                                  in if type \<noteq> Some S_IFDIR then (Inr npositive, di)
                                     else if ifmt = Some S_IFDIR \<and> au_dbdiropq di \<ge> 0 \<and> au_dbdiropq di \<le> bindex
                                     then (Inr npositive, di)
                                     else lkup_loop n env brs name wh_name ifmt type0 parent (bindex + 1) False type npositive di)))))"

definition au_lkup_dentry :: "lk_env \<Rightarrow> branches \<Rightarrow> string \<Rightarrow> s_ifmt option \<Rightarrow> au_dinfo \<Rightarrow> int \<Rightarrow> s_ifmt option \<Rightarrow>
    au_dinfo \<Rightarrow> int \<times> au_dinfo" where
  "au_lkup_dentry env brs name ifmt parent bstart type di =
     (if au_test_robr_shwh env name \<noteq> 0 then (au_test_robr_shwh env name, di)
      else
        case au_wh_name_alloc env name of
          Inl e \<Rightarrow> (e, di)
        | Inr wh_name \<Rightarrow>
            let (r, di) = lkup_loop (nat (au_dbtaildir parent - bstart + 1)) env brs name wh_name ifmt type parent
                            bstart (type = None) type 0 di
            in case r of
                 Inl e \<Rightarrow> (e, di)
               | Inr npositive \<Rightarrow>
                   let di = (if npositive \<noteq> 0 then au_update_dbstart di else di)
                   in (if \<not> opt_udba_none env \<and> au_dbstart di < 0 then - EIO else npositive, di))"

definition au_lkup_neg :: "lk_env \<Rightarrow> string \<Rightarrow> au_dinfo \<Rightarrow> int \<Rightarrow> au_dinfo \<Rightarrow> int \<times> au_dinfo" where
  "au_lkup_neg env name parent bindex di =
     (case lkup_one env (h_id (the (au_h_dptr parent bindex))) name of
        Inl e \<Rightarrow> (e, di)
      | Inr h \<Rightarrow>
          if d_inode h \<noteq> None then (- EIO, dput h di)
          else
            let di = (if bindex < au_dbstart di then au_set_dbstart bindex di else di);
                di = (if au_dbend di < bindex then au_set_dbend bindex di else di)
            in (0, au_set_h_dptr bindex (Some h) di))"

section \<open>After the branches have moved\<close>

text \<open>
  \<^verbatim>\<open>au_kzrealloc\<close> of the array: the first \<open>nused\<close> entries are kept; an array that is long enough stays.
\<close>

definition au_kzrealloc :: "'a option list \<Rightarrow> nat \<Rightarrow> nat \<Rightarrow> 'a option list" where
  "au_kzrealloc hs nused new_n = (if new_n \<le> nused then hs else take nused hs @ replicate (new_n - nused) None)"

text \<open>
  The loop that brings every lower dentry to the branch its parent has now; a swap looks at the
  same index again. \<open>bwh0\<close> and \<open>bopq0\<close> are the old indices; fuel bounds the number of turns.
\<close>

fun refresh_loop :: "nat \<Rightarrow> lk_env \<Rightarrow> au_dinfo \<Rightarrow> int \<Rightarrow> int \<Rightarrow> int \<Rightarrow> int \<Rightarrow> int \<Rightarrow> int \<Rightarrow> au_dinfo \<Rightarrow>
    (int \<times> int \<times> au_dinfo) option" where
  "refresh_loop 0 env parent bend bwh0 bopq0 bindex bwh bopq di = None"
| "refresh_loop (Suc fuel) env parent bend bwh0 bopq0 bindex bwh bopq di =
     (if \<not> bindex \<le> bend then Some (bwh, bopq, di)
      else case di_hdentry di ! nat bindex of
        None \<Rightarrow> refresh_loop fuel env parent bend bwh0 bopq0 (bindex + 1) bwh bopq di
      | Some hden \<Rightarrow>
          let hdp = d_parent env (h_id hden)
          in if map_option h_id (au_h_dptr parent bindex) = Some hdp
             then refresh_loop fuel env parent bend bwh0 bopq0 (bindex + 1) bwh bopq di
             else
               let new_bindex = au_find_dbindex parent hdp;
                   bwh = (if bwh0 = bindex then new_bindex else bwh);
                   bopq = (if bopq0 = bindex then new_bindex else bopq)
               in if new_bindex < 0
                  then refresh_loop fuel env parent bend bwh0 bopq0 (bindex + 1) bwh bopq
                         (di\<lparr>di_hdentry := (di_hdentry di)[nat bindex := None], dputs := h_id hden # dputs di\<rparr>)
                  else
                    let tmp = di_hdentry di ! nat new_bindex;
                        di = di\<lparr>di_hdentry := (di_hdentry di)[nat new_bindex := Some hden, nat bindex := tmp]\<rparr>
                    in refresh_loop fuel env parent bend bwh0 bopq0 (if tmp \<noteq> None then bindex else bindex + 1) bwh bopq di)"

text \<open>The indices of whiteout and opaque directory are kept when their branch can hold whiteouts.\<close>

definition whable_or_none :: "branches \<Rightarrow> int \<Rightarrow> int" where
  "whable_or_none brs b = (if b \<ge> 0 \<and> b \<le> au_sbend brs \<and> au_br_whable (br_perm (au_sbr brs b)) then b else -1)"

fun first_entry :: "'a option list \<Rightarrow> int \<Rightarrow> nat \<Rightarrow> int \<Rightarrow> int" where
  "first_entry hs b 0 old = old"
| "first_entry hs b (Suc n) old = (if hs ! nat b \<noteq> None then b else first_entry hs (b + 1) n old)"

fun last_entry :: "'a option list \<Rightarrow> int \<Rightarrow> nat \<Rightarrow> int \<Rightarrow> int" where
  "last_entry hs b 0 old = old"
| "last_entry hs b (Suc n) old = (if hs ! nat b \<noteq> None then b else last_entry hs (b - 1) n old)"

text \<open>
  The result \<open>None\<close> is a loop that does not end within \<open>fuel\<close> turns. The last component: whether the
  dentry is dropped from the cache.
\<close>

definition au_refresh_hdentry :: "nat \<Rightarrow> lk_env \<Rightarrow> branches \<Rightarrow> u32 \<Rightarrow> bool \<Rightarrow> string \<Rightarrow> s_ifmt option \<Rightarrow> au_dinfo \<Rightarrow>
    s_ifmt option \<Rightarrow> au_dinfo \<Rightarrow> (int \<times> au_dinfo \<times> bool) option" where
  "au_refresh_hdentry fuel env brs sigen mem_ok name ifmt parent type di =
     (if \<not> mem_ok then Some (- ENOMEM, di, False)
      else
        let di = di\<lparr>di_hdentry := au_kzrealloc (di_hdentry di) (nat (di_bend di + 1)) (length brs)\<rparr>
        in case refresh_loop fuel env parent (di_bend di) (di_bwh di) (di_bdiropq di) (di_bstart di)
                  (di_bwh di) (di_bdiropq di) di of
             None \<Rightarrow> None
           | Some (bwh, bopq, di) \<Rightarrow>
               let di = di\<lparr>di_bwh := whable_or_none brs bwh, di_bdiropq := whable_or_none brs bopq\<rparr>;
                   n = nat (au_dbend parent + 1);
                   di = di\<lparr>di_bstart := first_entry (di_hdentry di) 0 n (di_bstart di)\<rparr>;
                   di = di\<lparr>di_bend := last_entry (di_hdentry di) (au_dbend parent) n (di_bend di)\<rparr>
               in if type \<noteq> Some S_IFDIR \<and> di_bstart di = au_dbstart parent
                  then Some (0, au_update_digen sigen di, False)
                  else
                    let (npositive, di) = au_lkup_dentry env brs name ifmt parent (au_dbstart parent) type di
                    in if npositive < 0 then Some (npositive, di, False)
                       else Some (npositive, au_update_digen sigen di, di_bwh di \<ge> 0 \<and> di_bwh di \<le> di_bstart di))"

section \<open>Revalidating and releasing\<close>

text \<open>
  What the user may have done to the lower filesystem behind the union: \<open>lk_name\<close> and \<open>lk_unhashed\<close>
  are what a lower dentry has now, \<open>lk_nlink\<close> the links of a lower inode, \<open>d_reval\<close> what the lower
  filesystem says of the dentry.
\<close>

record reval_env = lk_env +
  lk_name :: "nat \<Rightarrow> string"
  lk_unhashed :: "nat \<Rightarrow> bool"
  lk_nlink :: "nat \<Rightarrow> nat"
  d_reval :: "nat \<Rightarrow> int option"

text \<open>The tri-state answer of the lower filesystem: an error, 0 for not valid, or valid.\<close>

definition au_do_h_d_reval :: "reval_env \<Rightarrow> h_dentry \<Rightarrow> int" where
  "au_do_h_d_reval env h =
     (case d_reval env (h_id h) of
        None \<Rightarrow> 0
      | Some valid \<Rightarrow> if valid < 0 then valid else if valid = 0 then - EINVAL else 0)"

text \<open>What the dentry of the union knows of its inode: type, links, lower inodes from \<open>ibs\<close> to \<open>ibe\<close>.\<close>

record d_view =
  v_name :: string
  v_unhashed :: bool
  v_root :: bool
  v_fmt :: "s_ifmt option"
  v_nlink :: nat
  v_ibs :: int
  v_ibe :: int
  v_h_iptr :: "int \<Rightarrow> nat option"

definition udba_differs :: "reval_env \<Rightarrow> d_view \<Rightarrow> int \<Rightarrow> h_dentry \<Rightarrow> bool" where
  "udba_differs env v bindex h \<longleftrightarrow>
     (v_fmt v \<noteq> None) \<noteq> (d_inode h \<noteq> None) \<or>
     (let plus = (v_fmt v \<noteq> None \<and> v_nlink v > 0);
          (h_mode, h_plus) = (case d_inode h of None \<Rightarrow> (v_fmt v, plus) | Some i \<Rightarrow> (Some (i_fmt env i), lk_nlink env i > 0));
          cached = (if v_fmt v \<noteq> None \<and> v_ibs v \<le> bindex \<and> bindex \<le> v_ibe v then v_h_iptr v bindex else d_inode h)
      in plus \<noteq> h_plus \<or> v_fmt v \<noteq> h_mode \<or> cached \<noteq> d_inode h)"

fun h_reval_loop :: "nat \<Rightarrow> reval_env \<Rightarrow> d_view \<Rightarrow> bool \<Rightarrow> int \<Rightarrow> au_dinfo \<Rightarrow> int" where
  "h_reval_loop 0 env v do_udba bindex di = 0"
| "h_reval_loop (Suc n) env v do_udba bindex di =
     (case au_h_dptr di bindex of
        None \<Rightarrow> h_reval_loop n env v do_udba (bindex + 1) di
      | Some h \<Rightarrow>
          if do_udba \<and> \<not> v_root v \<and> (v_unhashed v \<noteq> lk_unhashed env (h_id h) \<or> v_name v \<noteq> lk_name env (h_id h))
          then - EINVAL
          else
            let err = au_do_h_d_reval env h
            in if err \<noteq> 0 then err
               else if \<not> do_udba then h_reval_loop n env v do_udba (bindex + 1) di
               else if udba_differs env v bindex h then - EINVAL
               else h_reval_loop n env v do_udba (bindex + 1) di)"

definition h_d_revalidate :: "reval_env \<Rightarrow> d_view \<Rightarrow> bool \<Rightarrow> au_dinfo \<Rightarrow> int" where
  "h_d_revalidate env v do_udba di =
     (let bstart = au_dbstart di; btail = (if v_fmt v = Some S_IFDIR then au_dbtaildir di else bstart)
      in h_reval_loop (nat (btail - bstart + 1)) env v do_udba bstart di)"

fun d_release_loop :: "nat \<Rightarrow> int \<Rightarrow> au_dinfo \<Rightarrow> au_dinfo" where
  "d_release_loop 0 bindex di = di"
| "d_release_loop (Suc n) bindex di =
     d_release_loop n (bindex + 1) (case di_hdentry di ! nat bindex of None \<Rightarrow> di | Some h \<Rightarrow> dput h di)"

text \<open>The references that releasing the dentry gives back.\<close>

definition aufs_d_release :: "au_dinfo \<Rightarrow> nat list" where
  "aufs_d_release di =
     dputs (if di_bstart di \<ge> 0 then d_release_loop (nat (di_bend di - di_bstart di + 1)) (di_bstart di) di else di)"

end
