(* ===== verification/Aufs_Lookup_Props.thy ===== *)
theory Aufs_Lookup_Props
  imports Aufs_Lookup
begin

text \<open>
  A fresh lookup against the definition of the union: the branches are searched from the top, the
  first entry decides, directories are collected until a whiteout.
\<close>

section \<open>The union\<close>

definition parent_dir :: "lk_env \<Rightarrow> au_dinfo \<Rightarrow> int \<Rightarrow> nat option" where
  "parent_dir env parent b =
     (case au_h_dptr parent b of
        None \<Rightarrow> None
      | Some hp \<Rightarrow> if d_inode hp = None \<or> i_fmt env (the (d_inode hp)) \<noteq> S_IFDIR then None else Some (h_id hp))"

definition wh_able :: "branches \<Rightarrow> int \<Rightarrow> bool" where
  "wh_able brs b = au_br_whable (br_perm (au_sbr brs b))"

definition exists_in :: "lk_env \<Rightarrow> nat \<Rightarrow> string \<Rightarrow> bool" where
  "exists_in env hp name = (case lkup_one env hp name of Inl e \<Rightarrow> False | Inr h \<Rightarrow> d_inode h \<noteq> None)"

definition whited :: "lk_env \<Rightarrow> branches \<Rightarrow> string \<Rightarrow> int \<Rightarrow> nat \<Rightarrow> bool" where
  "whited env brs name b hp = (wh_able brs b \<and> exists_in env hp (AUFS_WH_PFX @ name))"

definition entry :: "lk_env \<Rightarrow> string \<Rightarrow> nat \<Rightarrow> h_dentry" where
  "entry env name hp = (case lkup_one env hp name of Inl e \<Rightarrow> \<lparr>h_id = 0, d_inode = None\<rparr> | Inr h \<Rightarrow> h)"

definition opaque :: "lk_env \<Rightarrow> branches \<Rightarrow> int \<Rightarrow> h_dentry \<Rightarrow> bool" where
  "opaque env brs b h = (wh_able brs b \<and> exists_in env (h_id h) AUFS_WH_DIROPQ)"

text \<open>One layer: the branch, whether the name is whited out there, and the type of its entry.\<close>

type_synonym layer = "int \<times> bool \<times> s_ifmt option"

definition layer_at :: "lk_env \<Rightarrow> branches \<Rightarrow> string \<Rightarrow> au_dinfo \<Rightarrow> int \<Rightarrow> layer list" where
  "layer_at env brs name parent b =
     (case parent_dir env parent b of
        None \<Rightarrow> []
      | Some hp \<Rightarrow> [(b, whited env brs name b hp, map_option (i_fmt env) (d_inode (entry env name hp)))])"

definition layers :: "lk_env \<Rightarrow> branches \<Rightarrow> string \<Rightarrow> au_dinfo \<Rightarrow> int \<Rightarrow> int \<Rightarrow> layer list" where
  "layers env brs name parent b e = concat (map (layer_at env brs name parent) [b..e])"

text \<open>The branches that make up the entry, and the branch of the whiteout that ended the search, or -1.\<close>

fun search :: "bool \<Rightarrow> layer list \<Rightarrow> int list \<times> int" where
  "search d [] = ([], -1)"
| "search d ((b, wh, e) # ls) =
     (if wh then ([], b)
      else case e of
             None \<Rightarrow> search d ls
           | Some t \<Rightarrow> if t = S_IFDIR then (b # fst (search True ls), snd (search True ls))
                       else if d then search d ls else ([b], -1))"

text \<open>The lower filesystem answers, and whiteouts and opaque marks are regular files.\<close>

definition answers :: "lk_env \<Rightarrow> nat \<Rightarrow> string \<Rightarrow> bool" where
  "answers env hp name =
     (case lkup_one env hp name of Inl e \<Rightarrow> False
      | Inr w \<Rightarrow> (case d_inode w of None \<Rightarrow> True | Some i \<Rightarrow> i_fmt env i = S_IFREG))"

definition layer_fine :: "lk_env \<Rightarrow> branches \<Rightarrow> string \<Rightarrow> int \<Rightarrow> nat \<Rightarrow> bool" where
  "layer_fine env brs name b hp \<longleftrightarrow>
     (wh_able brs b \<longrightarrow> answers env hp (AUFS_WH_PFX @ name)) \<and> (\<exists>h. lkup_one env hp name = Inr h) \<and>
     (wh_able brs b \<and> (\<exists>i. d_inode (entry env name hp) = Some i \<and> i_fmt env i = S_IFDIR) \<longrightarrow>
        answers env (h_id (entry env name hp)) AUFS_WH_DIROPQ)"

definition lower_fine :: "lk_env \<Rightarrow> branches \<Rightarrow> string \<Rightarrow> au_dinfo \<Rightarrow> int \<Rightarrow> int \<Rightarrow> bool" where
  "lower_fine env brs name parent b e \<longleftrightarrow>
     \<not> (config_robr env \<and> has_wh_pfx name) \<and>
     (\<forall>k \<in> {b..e}. \<forall>hp. parent_dir env parent k = Some hp \<longrightarrow> layer_fine env brs name k hp)"

section \<open>One branch\<close>

text \<open>All of a dentry but the log of the references given back.\<close>

definition core :: "au_dinfo \<Rightarrow> au_dinfo" where
  "core di = di\<lparr>dputs := []\<rparr>"

lemma core_fields:
  assumes "core di' = core di"
  shows "di_bstart di' = di_bstart di" "di_bend di' = di_bend di" "di_bwh di' = di_bwh di"
    "di_bdiropq di' = di_bdiropq di" "di_hdentry di' = di_hdentry di"
  using arg_cong[OF assms, of di_bstart] arg_cong[OF assms, of di_bend] arg_cong[OF assms, of di_bwh]
    arg_cong[OF assms, of di_bdiropq] arg_cong[OF assms, of di_hdentry] by (simp_all add: core_def)

definition store :: "int \<Rightarrow> h_dentry \<Rightarrow> au_dinfo \<Rightarrow> au_dinfo" where
  "store b h di = di\<lparr>di_bend := (if di_bend di \<le> b then b else di_bend di),
     di_bstart := (if di_bstart di < 0 \<or> b < di_bstart di then b else di_bstart di),
     di_hdentry := (di_hdentry di)[nat b := Some h]\<rparr>"

lemma wh_test_answers:
  assumes "answers env hp w"
  obtains di' where "au_wh_test env hp w di = (of_bool (exists_in env hp w), di')" "core di' = core di"
proof -
  obtain x where x: "lkup_one env hp w = Inr x" "\<And>i. d_inode x = Some i \<Longrightarrow> i_fmt env i = S_IFREG"
    using assms unfolding answers_def by (auto split: sum.splits option.splits)
  have "au_wh_test env hp w di = (of_bool (exists_in env hp w), dput x di)"
    using x by (cases "d_inode x") (simp_all add: au_wh_test_def exists_in_def)
  moreover have "core (dput x di) = core di" by (simp add: core_def dput_def)
  ultimately show thesis by (rule that)
qed

lemma found_entry_fine:
  assumes "wh_able brs b \<and> (\<exists>i. d_inode h = Some i \<and> i_fmt env i = S_IFDIR) \<longrightarrow> answers env (h_id h) AUFS_WH_DIROPQ"
  obtains di' where "found_entry env (wh_able brs b) None b h di = (Inr (Some h), di')"
    "core di' = core ((store b h di)\<lparr>di_bdiropq :=
       (if (\<exists>i. d_inode h = Some i \<and> i_fmt env i = S_IFDIR) \<and> opaque env brs b h then b else di_bdiropq di)\<rparr>)"
proof -
  let ?d0 = "if au_dbend di \<le> b then au_set_dbend b di else di"
  let ?d1 = "if au_dbstart ?d0 < 0 \<or> b < au_dbstart ?d0 then au_set_dbstart b ?d0 else ?d0"
  let ?d = "au_set_h_dptr b (Some h) ?d1"
  have c: "core ?d = core (store b h di)"
    by (simp add: core_def store_def au_set_h_dptr_def au_set_dbend_def au_set_dbstart_def split: option.split)
  have e: "found_entry env (wh_able brs b) None b h di =
      (if d_inode h = None \<or> i_fmt env (the (d_inode h)) \<noteq> S_IFDIR \<or> \<not> wh_able brs b then (Inr (Some h), ?d)
       else let (opq, di) = au_diropq_test env h ?d
            in if opq > 0 then (Inr (Some h), au_set_dbdiropq b di)
               else if opq < 0 then (Inl opq, au_set_h_dptr b None di) else (Inr (Some h), di))"
    by (simp add: found_entry_def Let_def)
  show thesis
  proof (cases "wh_able brs b \<and> (\<exists>i. d_inode h = Some i \<and> i_fmt env i = S_IFDIR)")
    case True
    obtain di' where t: "au_wh_test env (h_id h) AUFS_WH_DIROPQ ?d = (of_bool (exists_in env (h_id h) AUFS_WH_DIROPQ), di')"
      "core di' = core ?d" using wh_test_answers assms True by blast
    let ?o = "exists_in env (h_id h) AUFS_WH_DIROPQ"
    have "found_entry env (wh_able brs b) None b h di = (Inr (Some h), if ?o then au_set_dbdiropq b di' else di')"
      unfolding e au_diropq_test_def t(1) using True by auto
    moreover have "core (if ?o then au_set_dbdiropq b di' else di') = (core di')\<lparr>di_bdiropq := (if ?o then b else di_bdiropq di')\<rparr>"
      by (simp add: core_def au_set_dbdiropq_def)
    moreover have "di_bdiropq di' = di_bdiropq di" using core_fields(4)[OF t(2)] core_fields(4)[OF c] by (simp add: store_def)
    moreover have "opaque env brs b h = ?o" using True by (simp add: opaque_def)
    ultimately show thesis using that True unfolding t(2) c by (simp add: core_def)
  next
    case False
    then have "found_entry env (wh_able brs b) None b h di = (Inr (Some h), ?d)" unfolding e by auto
    moreover have n: "\<not> ((\<exists>i. d_inode h = Some i \<and> i_fmt env i = S_IFDIR) \<and> opaque env brs b h)" using False by (auto simp: opaque_def)
    have "(store b h di)\<lparr>di_bdiropq := (if (\<exists>i. d_inode h = Some i \<and> i_fmt env i = S_IFDIR) \<and> opaque env brs b h
        then b else di_bdiropq di)\<rparr> = store b h di" unfolding if_not_P[OF n] by (simp add: store_def)
    ultimately show thesis using that c by metis
  qed
qed

lemma do_lookup_fine:
  assumes "layer_fine env brs name b hp" "\<not> (config_robr env \<and> has_wh_pfx name)"
  defines "h \<equiv> entry env name hp"
  obtains (hidden) di' where "whited env brs name b hp" "\<not> allow \<or> d_inode h \<noteq> None"
      "au_do_lookup env brs name (AUFS_WH_PFX @ name) None hp b allow type di = (Inr None, di')"
      "core di' = core (di\<lparr>di_bwh := b\<rparr>)"
  | (hidden_neg) di' where "whited env brs name b hp" "allow" "d_inode h = None"
      "au_do_lookup env brs name (AUFS_WH_PFX @ name) None hp b allow type di = (Inr (Some h), di')"
      "core di' = core ((store b h di)\<lparr>di_bwh := b\<rparr>)"
  | (neg) di' where "\<not> whited env brs name b hp" "d_inode h = None" "allow"
      "au_do_lookup env brs name (AUFS_WH_PFX @ name) None hp b allow type di = (Inr (Some h), di')"
      "core di' = core (store b h di)"
  | (skip) di' where "\<not> whited env brs name b hp"
      "(d_inode h = None \<and> \<not> allow) \<or> (\<exists>i. d_inode h = Some i \<and> type \<noteq> None \<and> type \<noteq> Some (i_fmt env i))"
      "au_do_lookup env brs name (AUFS_WH_PFX @ name) None hp b allow type di = (Inr None, di')" "core di' = core di"
  | (pos) di' i where "\<not> whited env brs name b hp" "d_inode h = Some i" "type = None \<or> type = Some (i_fmt env i)"
      "au_do_lookup env brs name (AUFS_WH_PFX @ name) None hp b allow type di = (Inr (Some h), di')"
      "core di' = core ((store b h di)\<lparr>di_bdiropq :=
         (if i_fmt env i = S_IFDIR \<and> opaque env brs b h then b else di_bdiropq di)\<rparr>)"
proof -
  let ?w = "AUFS_WH_PFX @ name"
  have sc: "core (store b h x) = store b h (core x)" "core (x\<lparr>di_bdiropq := q\<rparr>) = (core x)\<lparr>di_bdiropq := q\<rparr>"
    "core (x\<lparr>di_bwh := q\<rparr>) = (core x)\<lparr>di_bwh := q\<rparr>" for x q by (simp_all add: core_def store_def)
  have lk: "lkup_one env hp name = Inr h" using assms(1) by (auto simp: layer_fine_def entry_def h_def)
  obtain d1 where d1: "(if wh_able brs b then au_test_robr_wh env name hp ?w di else (0, di)) =
      (of_bool (whited env brs name b hp), d1)" "core d1 = core di"
  proof (cases "wh_able brs b")
    case True
    then have "answers env hp ?w" using assms(1) by (simp add: layer_fine_def)
    then obtain di' where "au_wh_test env hp ?w di = (of_bool (exists_in env hp ?w), di')" "core di' = core di"
      by (rule wh_test_answers)
    then show thesis using that[of di'] True assms(2) by (simp add: au_test_robr_wh_def whited_def)
  qed (simp add: whited_def that)
  let ?d2 = "if whited env brs name b hp then au_set_dbwh b d1 else d1"
  have c2: "core ?d2 = core (if whited env brs name b hp then di\<lparr>di_bwh := b\<rparr> else di)"
    using d1(2) by (simp add: sc au_set_dbwh_def)
  have ap: "wh_able brs b \<and> (\<exists>i. d_inode h = Some i \<and> i_fmt env i = S_IFDIR) \<longrightarrow> answers env (h_id h) AUFS_WH_DIROPQ"
    using assms(1) by (simp add: layer_fine_def h_def)
  obtain d3 where d3: "found_entry env (wh_able brs b) None b h ?d2 = (Inr (Some h), d3)"
    "core d3 = core ((store b h ?d2)\<lparr>di_bdiropq :=
       (if (\<exists>i. d_inode h = Some i \<and> i_fmt env i = S_IFDIR) \<and> opaque env brs b h then b else di_bdiropq ?d2)\<rparr>)"
    using found_entry_fine[OF ap] by blast
  have q2: "di_bdiropq ?d2 = di_bdiropq di" using core_fields(4)[OF d1(2)] by (simp add: au_set_dbwh_def)
  let ?dw = "if whited env brs name b hp then di\<lparr>di_bwh := b\<rparr> else di"
  have d3c: "core d3 = (store b h (core ?dw))\<lparr>di_bdiropq :=
      (if (\<exists>i. d_inode h = Some i \<and> i_fmt env i = S_IFDIR) \<and> opaque env brs b h then b else di_bdiropq di)\<rparr>"
    using d3(2) unfolding q2 unfolding sc(1,2) c2 .
  have idq: "(store b h (core x))\<lparr>di_bdiropq := q\<rparr> = store b h (core x)" if "di_bdiropq x = q" for x q
    using that by (auto simp: store_def core_def)
  have wq: "di_bdiropq (di\<lparr>di_bwh := b\<rparr>) = di_bdiropq di" by simp
  have sw: "store b h (core (di\<lparr>di_bwh := b\<rparr>)) = core ((store b h di)\<lparr>di_bwh := b\<rparr>)" by (simp add: store_def core_def)
  have dp: "core (dput x y) = core y" for x y by (simp add: core_def dput_def)
  have e: "au_do_lookup env brs name ?w None hp b allow type di =
      (if whited env brs name b hp \<and> \<not> allow then (Inr None, ?d2)
       else if (case d_inode h of None \<Rightarrow> \<not> allow
                | Some i \<Rightarrow> whited env brs name b hp \<or> (type \<noteq> None \<and> type \<noteq> Some (i_fmt env i)))
            then (Inr None, dput h ?d2) else (Inr (Some h), d3))"
    unfolding au_do_lookup_def Let_def wh_able_def[symmetric] d1(1) using lk d3(1)
    by (cases "d_inode h"; cases "whited env brs name b hp") simp_all
  show thesis
  proof (cases "whited env brs name b hp")
    case True
    show thesis
    proof (cases "allow \<and> d_inode h = None")
      case t: True
      have "core d3 = core ((store b h di)\<lparr>di_bwh := b\<rparr>)"
      proof -
        have "core d3 = (store b h (core (di\<lparr>di_bwh := b\<rparr>)))\<lparr>di_bdiropq := di_bdiropq di\<rparr>" using d3c t True by simp
        from this[unfolded idq[OF wq]] show ?thesis by (simp only: sw)
      qed
      then show thesis using hidden_neg[of d3] True t e by simp
    next
      case False
      then obtain di' where "au_do_lookup env brs name ?w None hp b allow type di = (Inr None, di')" "core di' = core ?d2"
        using e True dp by (cases allow) (auto split: option.splits)
      then show thesis using hidden[of di'] True False c2 by auto
    qed
  next
    case False
    note nw = False
    show thesis
    proof (cases "d_inode h")
      case None
      show thesis
      proof (cases allow)
        case True
        have "core d3 = (store b h (core di))\<lparr>di_bdiropq := di_bdiropq di\<rparr>" using d3c None nw by simp
        from this[unfolded idq[OF refl]] have "core d3 = core (store b h di)" by (simp only: sc(1))
        then show thesis using neg[of d3] None True nw e by simp
      next
        case False
        then show thesis using skip[of "dput h ?d2"] None nw e c2 dp by simp
      qed
    next
      case (Some i)
      show thesis
      proof (cases "type = None \<or> type = Some (i_fmt env i)")
        case True
        have "core d3 = core ((store b h di)\<lparr>di_bdiropq := (if i_fmt env i = S_IFDIR \<and> opaque env brs b h then b else di_bdiropq di)\<rparr>)"
          using d3c Some nw unfolding sc(1,2) by simp
        then show thesis using pos[of i d3] Some True nw e by auto
      next
        case False
        then show thesis using skip[of "dput h ?d2"] Some nw e c2 dp by auto
      qed
    qed
  qed
qed

section \<open>All branches\<close>

lemma layers_rec: "b \<le> e \<Longrightarrow> layers env brs name parent b e = layer_at env brs name parent b @ layers env brs name parent (b + 1) e"
  by (simp add: layers_def upto_rec1)

lemma layers_empty: "e < b \<Longrightarrow> layers env brs name parent b e = []"
  by (simp add: layers_def)

lemma search_range: "set (fst (search d ls)) \<subseteq> fst ` set ls"
  by (induction d ls rule: search.induct) (auto split: option.splits)

lemma layers_range: "fst ` set (layers env brs name parent b e) \<subseteq> {b..e}"
  by (auto simp: layers_def layer_at_def split: option.splits)

text \<open>
  What the loop leaves, with \<open>ds\<close> the branches found from \<open>b\<close> on; \<open>ng\<close>: a negative entry may be
  stored before them.
\<close>

definition lower_at :: "lk_env \<Rightarrow> string \<Rightarrow> au_dinfo \<Rightarrow> int \<Rightarrow> h_dentry" where
  "lower_at env name parent b = entry env name (the (parent_dir env parent b))"

definition opaques :: "lk_env \<Rightarrow> branches \<Rightarrow> string \<Rightarrow> au_dinfo \<Rightarrow> int list \<Rightarrow> int list" where
  "opaques env brs name parent ds =
     filter (\<lambda>b. map_option (i_fmt env) (d_inode (lower_at env name parent b)) = Some S_IFDIR \<and>
       opaque env brs b (lower_at env name parent b)) ds"

definition last_or :: "int \<Rightarrow> int list \<Rightarrow> int" where
  "last_or k xs = (if xs = [] then k else last xs)"

definition entry_ok :: "bool \<Rightarrow> lk_env \<Rightarrow> string \<Rightarrow> au_dinfo \<Rightarrow> int \<Rightarrow> int list \<Rightarrow> h_dentry option list \<Rightarrow>
    h_dentry option list \<Rightarrow> nat \<Rightarrow> bool" where
  "entry_ok ng env name parent b ds hs hs' i \<longleftrightarrow>
     (if int i \<in> set ds then hs' ! i = Some (lower_at env name parent (int i))
      else hs' ! i = hs ! i \<or> (ng \<and> b \<le> int i \<and> positive (hs' ! i) = None \<and> (\<forall>d \<in> set ds. int i < d)))"

definition looked_up :: "bool \<Rightarrow> lk_env \<Rightarrow> branches \<Rightarrow> string \<Rightarrow> au_dinfo \<Rightarrow> int \<Rightarrow> int list \<Rightarrow> int \<Rightarrow> au_dinfo \<Rightarrow> au_dinfo \<Rightarrow> bool" where
  "looked_up ng env brs name parent b ds w di di' \<longleftrightarrow>
     length (di_hdentry di') = length (di_hdentry di) \<and>
     (\<forall>i < length (di_hdentry di). entry_ok ng env name parent b ds (di_hdentry di) (di_hdentry di') i) \<and>
     (\<forall>i < length (di_hdentry di). di_hdentry di' ! i \<noteq> di_hdentry di ! i \<longrightarrow> di_bstart di' \<le> int i) \<and>
     (di_bstart di < 0 \<longrightarrow> ds \<noteq> [] \<longrightarrow> b \<le> di_bstart di' \<and> di_bstart di' \<le> hd ds) \<and>
     (0 \<le> di_bstart di \<longrightarrow> di_bstart di' = di_bstart di) \<and>
     (if ds \<noteq> [] then di_bend di' = last ds else ng \<or> di_bend di' = di_bend di) \<and>
     di_bwh di' = w \<and>
     di_bdiropq di' = last_or (di_bdiropq di) (opaques env brs name parent ds)"

text \<open>The dentry has nothing from branch \<open>b\<close> on, and no whiteout.\<close>

definition untouched :: "int \<Rightarrow> int \<Rightarrow> au_dinfo \<Rightarrow> bool" where
  "untouched b e di \<longleftrightarrow> 0 \<le> b \<and> e < int (length (di_hdentry di)) \<and> di_bstart di < b \<and> di_bend di < b \<and> di_bwh di = -1 \<and>
     (\<forall>i < length (di_hdentry di). b \<le> int i \<longrightarrow> di_hdentry di ! i = None)"

lemma untouched_dptr: "untouched b e di \<Longrightarrow> b \<le> e \<Longrightarrow> au_h_dptr di b = None"
proof -
  assume u: "untouched b e di" "b \<le> e"
  then have "nat b < length (di_hdentry di)" "int (nat b) = b" by (auto simp: untouched_def)
  then show ?thesis using u by (auto simp: untouched_def au_h_dptr_def)
qed

lemma untouched_next: "untouched b e di \<Longrightarrow> untouched (b + 1) e di"
  by (auto simp: untouched_def)

lemma untouched_core: "core di' = core di \<Longrightarrow> untouched b e di' = untouched b e di"
  using core_fields[of di' di] by (simp add: untouched_def)

lemma untouched_store:
  assumes "untouched b e di" "core di' = core ((store b h di)\<lparr>di_bdiropq := q\<rparr>)" "b \<le> e"
  shows "untouched (b + 1) e di'"
proof -
  have n: "i < length (di_hdentry di) \<Longrightarrow> b + 1 \<le> int i \<Longrightarrow> nat b \<noteq> i" for i using assms(1) by (auto simp: untouched_def)
  show ?thesis using assms(1,3) n unfolding untouched_core[OF assms(2)] by (auto simp: untouched_def store_def)
qed

lemma looked_up_refl:
  assumes "core di' = core (di\<lparr>di_bwh := w\<rparr>)"
  shows "looked_up ng env brs name parent b [] w di di'"
  using core_fields[OF assms] by (simp add: looked_up_def entry_ok_def last_or_def opaques_def)

lemma looked_up_core:
  assumes "core d1 = core di" "looked_up ng0 env brs name parent (b + 1) ds w d1 di'" "ng0 \<longrightarrow> ng"
  shows "looked_up ng env brs name parent b ds w di di'"
proof -
  have "entry_ok ng env name parent b ds hs hs' i" if "entry_ok ng0 env name parent (b + 1) ds hs hs' i" for hs hs' i
    using that assms(3) by (auto simp: entry_ok_def split: if_splits)
  then show ?thesis using assms(2,3) core_fields[OF assms(1)] unfolding looked_up_def by (auto split: if_splits)
qed

lemma stored_fields:
  assumes "untouched b e di" "core d1 = core ((store b h di)\<lparr>di_bdiropq := q\<rparr>)"
  shows "di_bstart d1 = (if di_bstart di < 0 then b else di_bstart di)" "di_bend d1 = b" "di_bwh d1 = -1" "di_bdiropq d1 = q"
    "di_hdentry d1 = (di_hdentry di)[nat b := Some h]" "0 \<le> b"
  using core_fields[OF assms(2)] assms(1) by (auto simp: store_def untouched_def)

lemma looked_up_neg:
  assumes "untouched b e di" "b \<le> e" "core d1 = core ((store b h di)\<lparr>di_bdiropq := di_bdiropq di\<rparr>)" "d_inode h = None"
    "looked_up False env brs name parent (b + 1) ds w d1 di'" "\<forall>d \<in> set ds. b < d"
  shows "looked_up True env brs name parent b ds w di di'"
proof -
  note f = stored_fields[OF assms(1,3)]
  have len: "length (di_hdentry d1) = length (di_hdentry di)" using f(5) by simp
  have at: "entry_ok True env name parent b ds (di_hdentry di) (di_hdentry di') i"
    if i: "i < length (di_hdentry di)" for i
  proof (cases "i = nat b")
    case True
    then have e: "int i = b" "int i \<notin> set ds" using f(6) assms(6) by auto
    then have "di_hdentry di' ! i = di_hdentry d1 ! i" using assms(5) i len unfolding looked_up_def entry_ok_def by metis
    then have "positive (di_hdentry di' ! i) = None" using i True f(5) assms(4) by (simp add: positive_def)
    then show ?thesis using e assms(6) by (simp add: entry_ok_def)
  next
    case False
    then have "di_hdentry d1 ! i = di_hdentry di ! i" using f(5) by simp
    then show ?thesis using assms(5) i len unfolding looked_up_def entry_ok_def by metis
  qed
  have sf: "di_bstart di' \<le> int i" if i: "i < length (di_hdentry di)" "di_hdentry di' ! i \<noteq> di_hdentry di ! i" for i
  proof (cases "i = nat b")
    case True
    have "0 \<le> di_bstart d1" using f(1,6) by (simp split: if_splits)
    then have "di_bstart di' = di_bstart d1" using assms(5) by (simp add: looked_up_def)
    then show ?thesis using True f(1,6) assms(1) by (simp add: untouched_def split: if_splits)
  next
    case False
    then have "di_hdentry d1 ! i = di_hdentry di ! i" using f(5) by simp
    then show ?thesis using assms(5) i len unfolding looked_up_def by metis
  qed
  have hd: "ds \<noteq> [] \<Longrightarrow> b \<le> hd ds" using assms(6) by (cases ds) auto
  show ?thesis using assms(5) at f(1-4,6) len hd sf unfolding looked_up_def by (simp split: if_splits)
qed

lemma looked_up_pos:
  assumes "untouched b e di" "h = lower_at env name parent b"
    "core d1 = core ((store b h di)\<lparr>di_bdiropq :=
       (if map_option (i_fmt env) (d_inode h) = Some S_IFDIR \<and> opaque env brs b h then b else di_bdiropq di)\<rparr>)"
    "looked_up False env brs name parent (b + 1) ds w d1 di'" "\<forall>d \<in> set ds. b < d"
  shows "looked_up ng env brs name parent b (b # ds) w di di'"
proof -
  note f = stored_fields[OF assms(1,3)]
  have len: "length (di_hdentry d1) = length (di_hdentry di)" using f(5) by simp
  have at: "entry_ok ng env name parent b (b # ds) (di_hdentry di) (di_hdentry di') i" if i: "i < length (di_hdentry di)" for i
  proof (cases "i = nat b")
    case True
    then have e: "int i = b" "int i \<notin> set ds" using f(6) assms(5) by auto
    then have "di_hdentry di' ! i = di_hdentry d1 ! i" using assms(4) i len unfolding looked_up_def entry_ok_def by metis
    then show ?thesis using e i True f(5) assms(2) by (auto simp: entry_ok_def)
  next
    case False
    then have d: "di_hdentry d1 ! i = di_hdentry di ! i" "int i \<noteq> b" using f(5,6) by auto
    then have s: "int i \<in> set (b # ds) \<longleftrightarrow> int i \<in> set ds" by simp
    show ?thesis using assms(4) i len d(1) unfolding entry_ok_def s looked_up_def by metis
  qed
  have sf: "di_bstart di' \<le> int i" if i: "i < length (di_hdentry di)" "di_hdentry di' ! i \<noteq> di_hdentry di ! i" for i
  proof (cases "i = nat b")
    case True
    have "0 \<le> di_bstart d1" using f(1,6) by (simp split: if_splits)
    then have "di_bstart di' = di_bstart d1" using assms(4) by (simp add: looked_up_def)
    then show ?thesis using True f(1,6) assms(1) by (simp add: untouched_def split: if_splits)
  next
    case False
    then have "di_hdentry d1 ! i = di_hdentry di ! i" using f(5) by simp
    then show ?thesis using assms(4) i len unfolding looked_up_def by metis
  qed
  have op: "opaques env brs name parent (b # ds) =
      (if map_option (i_fmt env) (d_inode h) = Some S_IFDIR \<and> opaque env brs b h then b # opaques env brs name parent ds
       else opaques env brs name parent ds)" unfolding opaques_def assms(2) by simp
  have q: "di_bdiropq di' = last_or (di_bdiropq di) (opaques env brs name parent (b # ds))"
  proof -
    have "last_or k (if P then b # xs else xs) = last_or (if P then b else k) xs" for k P xs by (simp add: last_or_def)
    then show ?thesis using assms(4) f(4) unfolding op by (simp only: looked_up_def)
  qed
  have bs: "di_bstart di' = (if di_bstart di < 0 then b else di_bstart di)" using assms(4) f(1,6) by (auto simp: looked_up_def)
  have be: "di_bend di' = last (b # ds)"
  proof (cases "ds = []")
    case True
    then show ?thesis using assms(4) f(2) by (simp add: looked_up_def)
  qed (use assms(4) in \<open>simp add: looked_up_def\<close>)
  show ?thesis using assms(4) at q bs be len sf unfolding looked_up_def by (simp split: if_splits)
qed

lemma lkup_loop_spec:
  assumes "lower_fine env brs name parent b e" "untouched b e di" "n = nat (e - b + 1)" "b \<le> e + 1"
    "type = None \<or> type = Some S_IFDIR \<and> \<not> allow"
  defines "r \<equiv> search (type \<noteq> None) (layers env brs name parent b e)"
  shows "\<exists>di'. lkup_loop n env brs name (AUFS_WH_PFX @ name) None None parent b allow type np di =
      (Inr (np + int (length (fst r))), di') \<and> looked_up allow env brs name parent b (fst r) (snd r) di di'"
  using assms(1-5) unfolding r_def
proof (induction n arbitrary: b di allow type np)
  case 0
  have "di_bwh di = -1" using 0(2) by (simp add: untouched_def)
  then have "core di = core (di\<lparr>di_bwh := -1\<rparr>)" by (simp add: core_def)
  then show ?case using 0(3) looked_up_refl by (simp add: layers_empty)
next
  case (Suc n)
  have be: "b \<le> e" "b + 1 \<le> e + 1" "n = nat (e - (b + 1) + 1)" using Suc.prems(3) by simp_all
  have lf: "lower_fine env brs name parent (b + 1) e" using Suc.prems(1) by (auto simp: lower_fine_def)
  have d0: "au_h_dptr di b = None" by (rule untouched_dptr[OF Suc.prems(2) be(1)])
  have bwh: "di_bwh di = -1" using Suc.prems(2) by (simp add: untouched_def)
  note rec = layers_rec[OF be(1), of env brs name parent]
  let ?rest = "layers env brs name parent (b + 1) e"
  have gt: "\<forall>x \<in> set (fst (search d ?rest)). b < x" for d
    using search_range[of d ?rest] layers_range[of env brs name parent "b + 1" e] by fastforce
  show ?case
  proof (cases "parent_dir env parent b")
    case None
    have l: "lkup_loop (Suc n) env brs name (AUFS_WH_PFX @ name) None None parent b allow type np di =
        lkup_loop n env brs name (AUFS_WH_PFX @ name) None None parent (b + 1) allow type np di"
      using d0 None by (auto simp: parent_dir_def split: option.splits if_splits)
    have s: "layers env brs name parent b e = ?rest" unfolding rec using None by (simp add: layer_at_def)
    show ?thesis unfolding l s
      using Suc.IH[OF lf untouched_next[OF Suc.prems(2)] be(3,2) Suc.prems(5), of np] looked_up_core[OF refl] by blast
  next
    case (Some hp)
    let ?w = "AUFS_WH_PFX @ name" and ?h = "entry env name hp"
    let ?r = "au_do_lookup env brs name ?w None hp b allow type di"
    obtain q where pd: "au_h_dptr parent b = Some q" "d_inode q \<noteq> None" "i_fmt env (the (d_inode q)) = S_IFDIR" "h_id q = hp"
      using Some by (auto simp: parent_dir_def split: option.splits if_splits)
    have fine: "layer_fine env brs name b hp" "\<not> (config_robr env \<and> has_wh_pfx name)"
      using Suc.prems(1) Some be(1) by (auto simp: lower_fine_def)
    have la: "lower_at env name parent b = ?h" using Some by (simp add: lower_at_def)
    have s: "layers env brs name parent b e = (b, whited env brs name b hp, map_option (i_fmt env) (d_inode ?h)) # ?rest"
      unfolding rec using Some by (simp add: layer_at_def)
    have l: "lkup_loop (Suc n) env brs name ?w None None parent b allow type np di =
       (case ?r of
          (Inl e, di) \<Rightarrow> (Inl e, di)
        | (Inr h_dentry, di) \<Rightarrow>
            if au_dbwh di \<ge> 0 then (Inr np, di)
            else (case h_dentry of
                 None \<Rightarrow> lkup_loop n env brs name ?w None None parent (b + 1) False type np di
               | Some h \<Rightarrow>
                   (case d_inode h of
                      None \<Rightarrow> lkup_loop n env brs name ?w None None parent (b + 1) False type np di
                    | Some i \<Rightarrow>
                        if (if type = None then Some (i_fmt env i) else type) \<noteq> Some S_IFDIR then (Inr (np + 1), di)
                        else lkup_loop n env brs name ?w None None parent (b + 1) False
                               (if type = None then Some (i_fmt env i) else type) (np + 1) di)))"
      using d0 pd unfolding lkup_loop.simps(2) Let_def
      by (auto cong: option.case_cong sum.case_cong prod.case_cong if_cong)
    have b0: "0 \<le> b" using Suc.prems(2) by (simp add: untouched_def)
    show ?thesis
    proof (cases rule: do_lookup_fine[OF fine, where allow = allow and type = type and di = di,
        case_names hidden hidden_neg neg skip pos])
      case (hidden di')
      have "di_bwh di' = b" using core_fields(3)[OF hidden(4)] by simp
      then show ?thesis unfolding l s hidden(3) using hidden(1) b0 looked_up_refl[OF hidden(4)] by simp
    next
      case (hidden_neg di')
      have c: "core di' = core ((store b ?h di)\<lparr>di_bwh := b\<rparr>)" by (rule hidden_neg(5))
      have w: "di_bwh di' = b" using core_fields(3)[OF c] by simp
      have "looked_up True env brs name parent b [] b di di'"
      proof -
        have h: "di_hdentry di' = (di_hdentry di)[nat b := Some ?h]" using core_fields(5)[OF c] by (simp add: store_def)
        have "entry_ok True env name parent b [] (di_hdentry di) (di_hdentry di') i" if "i < length (di_hdentry di)" for i
          using hidden_neg(3) that b0 unfolding h by (cases "i = nat b") (auto simp: entry_ok_def positive_def)
        moreover have "di_bstart di' \<le> int i" if "i < length (di_hdentry di)" "di_hdentry di' ! i \<noteq> di_hdentry di ! i" for i
          using that core_fields(1)[OF c] Suc.prems(2) unfolding h untouched_def by (cases "i = nat b") (auto simp: store_def)
        ultimately show ?thesis using core_fields(1-4)[OF c] Suc.prems(2) h unfolding looked_up_def untouched_def
          by (auto simp: store_def last_or_def opaques_def)
      qed
      then show ?thesis unfolding l s hidden_neg(4) using hidden_neg(1,2) b0 w by simp
    next
      case (neg di')
      have c: "core di' = core ((store b ?h di)\<lparr>di_bdiropq := di_bdiropq di\<rparr>)" using neg(5) by (simp add: store_def)
      have w: "di_bwh di' = -1" by (rule stored_fields(3)[OF Suc.prems(2) c])
      have "type = None" using neg(3) Suc.prems(5) by blast
      note IH = Suc.IH[OF lf untouched_store[OF Suc.prems(2) c be(1)] be(3,2), where type = type and allow = False and np = np]
      have e: "search (type \<noteq> None) (layers env brs name parent b e) = search (type \<noteq> None) ?rest" unfolding s using neg(1,2) by simp
      obtain d2 where "lkup_loop n env brs name ?w None None parent (b + 1) False type np di' =
          (Inr (np + int (length (fst (search (type \<noteq> None) ?rest)))), d2)"
        "looked_up False env brs name parent (b + 1) (fst (search (type \<noteq> None) ?rest)) (snd (search (type \<noteq> None) ?rest)) di' d2"
        using IH \<open>type = None\<close> by blast
      then show ?thesis unfolding e unfolding l neg(4) using w neg(2,3) looked_up_neg[OF Suc.prems(2) be(1) c neg(2) _ gt] by simp
    next
      case (skip di')
      have w: "di_bwh di' = -1" using core_fields(3)[OF skip(4)] bwh by simp
      have e: "search (type \<noteq> None) (layers env brs name parent b e) = search (type \<noteq> None) ?rest"
        unfolding s using skip(1,2) Suc.prems(5) by auto
      have u: "untouched (b + 1) e di'" using untouched_next[OF Suc.prems(2)] untouched_core[OF skip(4)] by blast
      have t: "type = None \<or> type = Some S_IFDIR \<and> \<not> False" using Suc.prems(5) by blast
      obtain d2 where "lkup_loop n env brs name ?w None None parent (b + 1) False type np di' =
          (Inr (np + int (length (fst (search (type \<noteq> None) ?rest)))), d2)"
        "looked_up False env brs name parent (b + 1) (fst (search (type \<noteq> None) ?rest)) (snd (search (type \<noteq> None) ?rest)) di' d2"
        using Suc.IH[OF lf u be(3,2) t, of np] by blast
      then show ?thesis unfolding e unfolding l skip(3) using w looked_up_core[OF skip(4)] by simp
    next
      case (pos di' i)
      let ?P = "map_option (i_fmt env) (d_inode ?h) = Some S_IFDIR \<and> opaque env brs b ?h"
      have c: "core di' = core ((store b ?h di)\<lparr>di_bdiropq := (if ?P then b else di_bdiropq di)\<rparr>)" using pos(2,5) by simp
      have w: "di_bwh di' = -1" by (rule stored_fields(3)[OF Suc.prems(2) c])
      show ?thesis
      proof (cases "i_fmt env i = S_IFDIR")
        case False
        then have t: "type = None" using pos(3) Suc.prems(5) by auto
        have "core di' = core (di'\<lparr>di_bwh := -1\<rparr>)" using w by (simp add: core_def)
        then have "looked_up False env brs name parent (b + 1) [] (-1) di' di'" by (rule looked_up_refl)
        then have "looked_up allow env brs name parent b [b] (-1) di di'"
          using looked_up_pos[OF Suc.prems(2) la[symmetric] c] by simp
        then show ?thesis unfolding l s pos(4) using w t False pos(1,2) by simp
      next
        case True
        have t: "(if type = None then Some (i_fmt env i) else type) = Some S_IFDIR" using pos(3) True by auto
        have e: "search (type \<noteq> None) (layers env brs name parent b e) = (b # fst (search True ?rest), snd (search True ?rest))"
          unfolding s using pos(1,2) True by simp
        obtain d2 where d2: "lkup_loop n env brs name ?w None None parent (b + 1) False (Some S_IFDIR) (np + 1) di' =
            (Inr (np + 1 + int (length (fst (search True ?rest)))), d2)"
          "looked_up False env brs name parent (b + 1) (fst (search True ?rest)) (snd (search True ?rest)) di' d2"
          using Suc.IH[OF lf untouched_store[OF Suc.prems(2) c be(1)] be(3,2), where type = "Some S_IFDIR" and allow = False and np = "np + 1"]
          by auto
        have "lkup_loop (Suc n) env brs name ?w None None parent b allow type np di =
            (Inr (np + 1 + int (length (fst (search True ?rest)))), d2)"
          unfolding l pos(4) using w pos(2) t d2(1) by simp
        then show ?thesis unfolding e using looked_up_pos[OF Suc.prems(2) la[symmetric] c d2(2) gt] by simp
      qed
    qed
  qed
qed

section \<open>Dropping the negative entry\<close>

lemma update_dbstart_loop_spec:
  assumes "0 \<le> di_bstart di" "di_bstart di \<le> b" "b \<le> p" "p < b + int n" "b + int n \<le> int (length (di_hdentry di))"
    "\<And>i. b \<le> int i \<Longrightarrow> int i < p \<Longrightarrow> positive (di_hdentry di ! i) = None" "positive (di_hdentry di ! nat p) \<noteq> None"
  shows "\<exists>di'. update_dbstart_loop b n di = di' \<and> di_bstart di' = p \<and> di_bend di' = di_bend di \<and> di_bwh di' = di_bwh di \<and>
    di_bdiropq di' = di_bdiropq di \<and> length (di_hdentry di') = length (di_hdentry di) \<and>
    (\<forall>i < length (di_hdentry di). di_hdentry di' ! i = (if b \<le> int i \<and> int i < p then None else di_hdentry di ! i))"
  using assms
proof (induction n arbitrary: b di)
  case (Suc n)
  have d: "au_h_dptr di b = di_hdentry di ! nat b" using Suc.prems(1,2) by (simp add: au_h_dptr_def)
  show ?case
  proof (cases "b = p")
    case True
    then obtain h where "di_hdentry di ! nat b = Some h" "d_inode h \<noteq> None"
      using Suc.prems(7) by (auto simp: positive_def split: option.splits if_splits)
    then have "update_dbstart_loop b (Suc n) di = au_set_dbstart p di" using d True by simp
    then show ?thesis using True by (auto simp: au_set_dbstart_def)
  next
    case False
    let ?di = "case di_hdentry di ! nat b of None \<Rightarrow> di | Some h \<Rightarrow> au_set_h_dptr b None di"
    have nb: "b < p" "positive (di_hdentry di ! nat b) = None" using False Suc.prems(1-3) Suc.prems(6)[of "nat b"] by simp_all
    then have e: "update_dbstart_loop b (Suc n) di = update_dbstart_loop (b + 1) n ?di"
      using d by (auto simp: positive_def split: option.splits if_splits)
    have f: "di_bstart ?di = di_bstart di" "di_bend ?di = di_bend di" "di_bwh ?di = di_bwh di" "di_bdiropq ?di = di_bdiropq di"
      "di_hdentry ?di = (di_hdentry di)[nat b := None]"
      using list_update_id[of "di_hdentry di" "nat b"]
      by (cases "di_hdentry di ! nat b"; simp add: set_h_dptr_fields au_set_h_dptr_def)+
    have nn: "b + 1 \<le> int i \<Longrightarrow> nat b \<noteq> i" for i using Suc.prems(1,2) by auto
    have np: "nat b \<noteq> nat p" using nb(1) Suc.prems(1,2) by simp
    have "\<exists>di'. update_dbstart_loop (b + 1) n ?di = di' \<and> di_bstart di' = p \<and> di_bend di' = di_bend ?di \<and> di_bwh di' = di_bwh ?di \<and>
      di_bdiropq di' = di_bdiropq ?di \<and> length (di_hdentry di') = length (di_hdentry ?di) \<and>
      (\<forall>i < length (di_hdentry ?di). di_hdentry di' ! i = (if b + 1 \<le> int i \<and> int i < p then None else di_hdentry ?di ! i))"
    proof (rule Suc.IH)
      show "positive (di_hdentry ?di ! i) = None" if "b + 1 \<le> int i" "int i < p" for i
        using Suc.prems(6)[of i] that nn[of i] unfolding f(5) by simp
      show "positive (di_hdentry ?di ! nat p) \<noteq> None" using Suc.prems(7) np unfolding f(5) by simp
    qed (use Suc.prems(1-5) nb f in simp_all)
    then obtain di' where r: "update_dbstart_loop (b + 1) n ?di = di'" "di_bstart di' = p" "di_bend di' = di_bend di" "di_bwh di' = di_bwh di"
      "di_bdiropq di' = di_bdiropq di" "length (di_hdentry di') = length (di_hdentry di)"
      "\<And>i. i < length (di_hdentry di) \<Longrightarrow> di_hdentry di' ! i = (if b + 1 \<le> int i \<and> int i < p then None else (di_hdentry di)[nat b := None] ! i)"
      unfolding f length_list_update by blast
    have "di_hdentry di' ! i = (if b \<le> int i \<and> int i < p then None else di_hdentry di ! i)" if i: "i < length (di_hdentry di)" for i
    proof (cases "i = nat b")
      case True
      then show ?thesis using r(7)[OF i] i Suc.prems(1,2) nb(1) by simp
    next
      case False
      then have "b + 1 \<le> int i \<longleftrightarrow> b \<le> int i" using Suc.prems(1,2) by auto
      then show ?thesis using r(7)[OF i] False by simp
    qed
    then show ?thesis unfolding e using r(1-6) by blast
  qed
qed simp

lemma layers_sorted: "sorted_wrt (<) (map fst (layers env brs name parent b e))"
proof (induction "nat (e - b + 1)" arbitrary: b)
  case (Suc n)
  have be: "b \<le> e" "n = nat (e - (b + 1) + 1)" using Suc.hyps(2) by simp_all
  have "\<forall>x \<in> set (layers env brs name parent (b + 1) e). b < fst x"
    using layers_range[of env brs name parent "b + 1" e] by fastforce
  then show ?case using Suc.hyps(1)[OF be(2)] unfolding layers_rec[OF be(1)]
    by (auto simp: layer_at_def split: option.split)
qed (simp add: layers_empty)

lemma search_sorted: "sorted_wrt (<) (map fst ls) \<Longrightarrow> sorted_wrt (<) (fst (search d ls))"
proof (induction d ls rule: search.induct)
  case (2 d b wh e ls)
  then show ?case using search_range[of True ls] by (fastforce split: option.split)
qed simp

lemma search_positive: "x \<in> set (fst (search d ls)) \<Longrightarrow> \<exists>t. (x, False, Some t) \<in> set ls"
  by (induction d ls rule: search.induct) (auto split: if_splits option.splits)

lemma layers_positive: "(b, w, Some t) \<in> set (layers env brs name parent s e) \<Longrightarrow> d_inode (lower_at env name parent b) \<noteq> None"
  by (auto simp: layers_def layer_at_def lower_at_def split: option.splits) (metis option.sel option.map_disc_iff option.distinct(1) option.exhaust_sel)+

section \<open>Properties\<close>

text \<open>A dentry as \<open>au_alloc_dinfo\<close> makes it.\<close>

definition fresh :: "branches \<Rightarrow> au_dinfo \<Rightarrow> bool" where
  "fresh brs di \<longleftrightarrow> di_bstart di = -1 \<and> di_bend di = -1 \<and> di_bwh di = -1 \<and> di_bdiropq di = -1 \<and>
     di_hdentry di = replicate (length brs) None"

text \<open>The name can be looked up, and so can its whiteout.\<close>

definition name_fine :: "lk_env \<Rightarrow> string \<Rightarrow> bool" where
  "name_fine env name \<longleftrightarrow> au_test_robr_shwh env name = 0 \<and> length name \<le> 4092 \<and> kmalloc_name env"

lemma lkup_dentry_spec:
  assumes "fresh brs di" "0 \<le> bstart" "bstart \<le> au_dbtaildir parent" "au_dbtaildir parent < int (length brs)"
    "lower_fine env brs name parent bstart (au_dbtaildir parent)" "name_fine env name"
    "(ds, w) = search False (layers env brs name parent bstart (au_dbtaildir parent))"
    "(n, di') = au_lkup_dentry env brs name None parent bstart None di"
  shows "di_bwh di' = w \<and> di_bdiropq di' = last_or (-1) (opaques env brs name parent ds) \<and>
    length (di_hdentry di') = length brs \<and>
    (\<forall>i < length brs. positive (di_hdentry di' ! i) = (if int i \<in> set ds then Some (lower_at env name parent (int i)) else None)) \<and>
    (if ds = [] then n = 0 \<or> n = - EIO
     else n = int (length ds) \<and> di_bstart di' = hd ds \<and> di_bend di' = last ds \<and>
       (\<forall>i < length brs. int i \<notin> set ds \<longrightarrow> di_hdentry di' ! i = None))"
proof -
  let ?e = "au_dbtaildir parent" and ?w = "AUFS_WH_PFX @ name"
  let ?ls = "layers env brs name parent bstart ?e"
  have un: "untouched bstart ?e di" using assms(1,2,4) by (simp add: fresh_def untouched_def)
  have r: "fst (search False ?ls) = ds" "snd (search False ?ls) = w" using assms(7) by (metis fst_conv, metis snd_conv)
  obtain d1 where d1: "lkup_loop (nat (?e - bstart + 1)) env brs name ?w None None parent bstart True None 0 di = (Inr (int (length ds)), d1)"
    "looked_up True env brs name parent bstart ds w di d1"
    using lkup_loop_spec[OF assms(5) un refl, of None True 0] assms(3) r by auto
  have e: "au_lkup_dentry env brs name None parent bstart None di =
      (let d2 = if ds \<noteq> [] then au_update_dbstart d1 else d1
       in (if \<not> opt_udba_none env \<and> au_dbstart d2 < 0 then - EIO else int (length ds), d2))"
    using assms(6) d1(1) by (simp add: au_lkup_dentry_def name_fine_def au_wh_name_alloc_def AUFS_WH_PFX_def Let_def)
  have hs: "length (di_hdentry di) = length brs" "\<And>i. i < length brs \<Longrightarrow> di_hdentry di ! i = None"
    "di_bstart di < 0" "di_bdiropq di = -1" using assms(1) by (simp_all add: fresh_def)
  have lp: "d_inode (lower_at env name parent x) \<noteq> None" if "x \<in> set ds" for x
    using search_positive[of x False ?ls] layers_positive that unfolding r(1) by blast
  have ent: "entry_ok True env name parent bstart ds (di_hdentry di) (di_hdentry d1) i" if "i < length brs" for i
    using d1(2) that hs(1) by (simp add: looked_up_def)
  have pe: "positive (di_hdentry d1 ! i) = (if int i \<in> set ds then Some (lower_at env name parent (int i)) else None)"
    if i: "i < length brs" for i
    using ent[OF i] hs(2)[OF i] lp[of "int i"] by (auto simp: entry_ok_def positive_def split: if_splits)
  have l1: "length (di_hdentry d1) = length brs" "di_bwh d1 = w" "di_bdiropq d1 = last_or (-1) (opaques env brs name parent ds)"
    using d1(2) hs(1,4) by (simp_all add: looked_up_def)
  show ?thesis
  proof (cases "ds = []")
    case True
    then show ?thesis using assms(8) e l1 pe by (auto simp: Let_def split: if_splits)
  next
    case False
    have srt: "sorted_wrt (<) ds" using search_sorted[OF layers_sorted, of False env brs name parent bstart ?e] unfolding r(1) .
    have hd: "\<forall>x \<in> set ds. hd ds \<le> x" using srt False by (cases ds) auto
    have rng: "x \<in> set ds \<Longrightarrow> bstart \<le> x \<and> x \<le> ?e" for x
      using search_range[of False ?ls] layers_range[of env brs name parent bstart ?e] unfolding r(1) by fastforce
    have hi: "hd ds \<in> set ds" "last ds \<in> set ds" using False by simp_all
    have b1: "bstart \<le> di_bstart d1" "di_bstart d1 \<le> hd ds" "di_bend d1 = last ds" using d1(2) False hs(3) by (simp_all add: looked_up_def)
    have hp: "0 \<le> hd ds" "hd ds < int (length brs)" "last ds < int (length brs)" "hd ds \<le> last ds"
      using rng[OF hi(1)] rng[OF hi(2)] hd hi(2) assms(2,4) by auto
    let ?n = "nat (au_dbend d1 - au_dbstart d1 + 1)"
    have nn: "hd ds < di_bstart d1 + int ?n" "di_bstart d1 + int ?n \<le> int (length (di_hdentry d1))"
      using b1 hp l1(1) by simp_all
    have below: "positive (di_hdentry d1 ! i) = None" if "di_bstart d1 \<le> int i" "int i < hd ds" for i
    proof -
      have "int i \<notin> set ds" using hd that(2) by force
      moreover have "i < length brs" using that(2) hp(2) by simp
      ultimately show ?thesis using pe by simp
    qed
    have at: "positive (di_hdentry d1 ! nat (hd ds)) \<noteq> None" using pe[of "nat (hd ds)"] hp hi(1) by simp
    have b0: "0 \<le> di_bstart d1" using b1(1) assms(2) by simp
    obtain d2 where d2: "au_update_dbstart d1 = d2" "di_bstart d2 = hd ds" "di_bend d2 = last ds" "di_bwh d2 = w"
      "di_bdiropq d2 = last_or (-1) (opaques env brs name parent ds)" "length (di_hdentry d2) = length brs"
      "\<And>i. i < length brs \<Longrightarrow> di_hdentry d2 ! i = (if di_bstart d1 \<le> int i \<and> int i < hd ds then None else di_hdentry d1 ! i)"
      using update_dbstart_loop_spec[OF b0 order_refl b1(2) nn below at] l1 b1(3) unfolding au_update_dbstart_def by auto
    have nd: "n = int (length ds)" "di' = d2" using assms(8) e d2(1,2) False hp(1) by (simp_all add: Let_def)
    have p2: "positive (di_hdentry d2 ! i) = (if int i \<in> set ds then Some (lower_at env name parent (int i)) else None)"
      if i: "i < length brs" for i using d2(7)[OF i] pe[OF i] below[of i] by (auto simp: positive_def)
    have no: "di_hdentry d2 ! i = None" if i: "i < length brs" "int i \<notin> set ds" for i
    proof (cases "di_hdentry d1 ! i = None")
      case False
      then have "int i < hd ds" using ent[OF i(1)] hs(2)[OF i(1)] i(2) hi(1) by (auto simp: entry_ok_def)
      moreover have "di_bstart d1 \<le> int i" using d1(2) hs(1) hs(2)[OF i(1)] False i(1) by (simp add: looked_up_def)
      ultimately show ?thesis using d2(7)[OF i(1)] by simp
    qed (use d2(7)[OF i(1)] in simp)
    show ?thesis using False nd d2 p2 no by simp
  qed
qed

text \<open>
  C32: a fresh lookup finds the union of the branches: from the top down to the first whiteout, the
  first entry alone when it is not a directory, otherwise every directory of that name; entries of
  another type in between are skipped. The lower entries stored, the range, the whiteout and the
  number returned are those of that search, and a name found nowhere gives 0 or \<open>-EIO\<close>.
\<close>

theorem lookup_is_union:
  assumes "fresh brs di" "0 \<le> bstart" "bstart \<le> au_dbtaildir parent" "au_dbtaildir parent < int (length brs)"
    "lower_fine env brs name parent bstart (au_dbtaildir parent)" "name_fine env name"
    "(ds, w) = search False (layers env brs name parent bstart (au_dbtaildir parent))"
    "(n, di') = au_lkup_dentry env brs name None parent bstart None di"
  shows "di_bwh di' = w \<and>
    (\<forall>i < length brs. positive (di_hdentry di' ! i) = (if int i \<in> set ds then Some (lower_at env name parent (int i)) else None)) \<and>
    (if ds = [] then n = 0 \<or> n = - EIO
     else n = int (length ds) \<and> di_bstart di' = hd ds \<and> di_bend di' = last ds \<and>
       (\<forall>i < length brs. int i \<notin> set ds \<longrightarrow> di_hdentry di' ! i = None))"
  using lkup_dentry_spec[OF assms] by blast

text \<open>
  C34: a fresh lookup goes on through the branches below an opaque directory and records the last
  opaque one: when a directory is opaque in two branches, the lower of them is taken for the end of
  the directory, so that what the upper one hides is shown.
\<close>

theorem lookup_two_opaque:
  assumes "fresh brs di" "0 \<le> bstart" "bstart \<le> au_dbtaildir parent" "au_dbtaildir parent < int (length brs)"
    "lower_fine env brs name parent bstart (au_dbtaildir parent)" "name_fine env name"
    "(ds, w) = search False (layers env brs name parent bstart (au_dbtaildir parent))"
    "(n, di') = au_lkup_dentry env brs name None parent bstart None di"
    "b1 \<in> set (opaques env brs name parent ds)" "b2 \<in> set (opaques env brs name parent ds)" "b1 < b2"
  shows "b2 \<le> di_bdiropq di' \<and> di_bdiropq di' \<in> set ds"
proof -
  let ?o = "opaques env brs name parent ds"
  have "fst (search False (layers env brs name parent bstart (au_dbtaildir parent))) = ds" using assms(7) by (metis fst_conv)
  then have "sorted_wrt (<) ds" using search_sorted[OF layers_sorted] by metis
  then have s: "sorted_wrt (<) ?o" unfolding opaques_def by (rule sorted_wrt_filter)
  have ne: "?o \<noteq> []" using assms(9) by auto
  have "x \<in> set xs \<Longrightarrow> sorted_wrt (<) xs \<Longrightarrow> x \<le> last xs" for x and xs :: "int list"
  proof (induction xs)
    case (Cons a xs)
    then show ?case using last_in_set[of xs] by fastforce
  qed simp
  then have "b2 \<le> last ?o" using s assms(10) by blast
  moreover have "last ?o \<in> set ds" using last_in_set[OF ne] unfolding opaques_def by auto
  moreover have "di_bdiropq di' = last ?o" using lkup_dentry_spec[OF assms(1-8)] ne by (simp add: last_or_def)
  ultimately show ?thesis by simp
qed

text \<open>Two branches, both with an opaque directory \<open>d\<close> (inodes 11 and 12) and a file \<open>f\<close> in the lower one.\<close>

definition demo_lk :: lk_env where
  "demo_lk = \<lparr>lkup_one = (\<lambda>p n. Inr (if n = ''d'' \<and> p = 1 then \<lparr>h_id = 11, d_inode = Some 11\<rparr>
       else if n = ''d'' \<and> p = 2 then \<lparr>h_id = 12, d_inode = Some 12\<rparr>
       else if n = ''f'' \<and> p = 2 then \<lparr>h_id = 13, d_inode = Some 20\<rparr>
       else if n = AUFS_WH_DIROPQ \<and> (p = 11 \<or> p = 12) then \<lparr>h_id = 14, d_inode = Some 20\<rparr>
       else \<lparr>h_id = 15, d_inode = None\<rparr>)),
     i_fmt = (\<lambda>i. if i = 20 then S_IFREG else S_IFDIR), d_parent = (\<lambda>d. if d = 11 then 1 else 2), config_robr = False,
     opt_shwh = False, opt_udba_none = False, kmalloc_name = True\<rparr>"

definition demo_brs :: branches where
  "demo_brs = map2 (\<lambda>k p. \<lparr>br_id = int k, br_perm = p, br_count = 0, br_xino_upper = -1, br_xino_running = 0, br_sb = k,
     br_sb_rdonly = False, wbr_bytes = 0, xi_file = None\<rparr>) [0..<2] [AuBrPerm_RW, AuBrPerm_ROWH]"

definition demo_parent :: au_dinfo where
  "demo_parent = \<lparr>di_generation = 0, di_bstart = 0, di_bend = 1, di_bwh = -1, di_bdiropq = -1,
     di_hdentry = [Some \<lparr>h_id = 1, d_inode = Some 1\<rparr>, Some \<lparr>h_id = 2, d_inode = Some 2\<rparr>], dputs = []\<rparr>"

definition demo_new :: au_dinfo where
  "demo_new = \<lparr>di_generation = 0, di_bstart = -1, di_bend = -1, di_bwh = -1, di_bdiropq = -1, di_hdentry = [None, None], dputs = []\<rparr>"

lemma demo_lookup:
  "fresh demo_brs demo_new" "au_dbtaildir demo_parent = 1" "length demo_brs = 2"
  "lower_fine demo_lk demo_brs ''f'' demo_parent 0 1" "lower_fine demo_lk demo_brs ''d'' demo_parent 0 1"
  "name_fine demo_lk ''f''" "name_fine demo_lk ''d''"
proof -
  show "fresh demo_brs demo_new" "au_dbtaildir demo_parent = 1" "length demo_brs = 2" "name_fine demo_lk ''f''" "name_fine demo_lk ''d''"
    by code_simp+
  have "layer_fine demo_lk demo_brs ''f'' k hp" "layer_fine demo_lk demo_brs ''d'' k hp" for k hp
    by (auto simp: layer_fine_def answers_def demo_lk_def entry_def AUFS_WH_PFX_def AUFS_WH_DIROPQ_def)
  then show "lower_fine demo_lk demo_brs ''f'' demo_parent 0 1" "lower_fine demo_lk demo_brs ''d'' demo_parent 0 1"
    by (simp_all add: lower_fine_def demo_lk_def)
qed

theorem lookup_is_union_witness:
  "fst (au_lkup_dentry demo_lk demo_brs ''f'' None demo_parent 0 None demo_new) = 1 \<and>
   di_bstart (snd (au_lkup_dentry demo_lk demo_brs ''f'' None demo_parent 0 None demo_new)) = 1"
proof -
  have s: "([1], -1) = search False (layers demo_lk demo_brs ''f'' demo_parent 0 (au_dbtaildir demo_parent))" by code_simp
  have "fst (au_lkup_dentry demo_lk demo_brs ''f'' None demo_parent 0 None demo_new) = int (length [1 :: int]) \<and>
    di_bstart (snd (au_lkup_dentry demo_lk demo_brs ''f'' None demo_parent 0 None demo_new)) = hd [1]"
    using lookup_is_union[OF demo_lookup(1) order_refl _ _ _ demo_lookup(6) s prod.collapse] demo_lookup(2-5) by simp
  then show ?thesis by simp
qed

theorem lookup_two_opaque_witness:
  "1 \<le> di_bdiropq (snd (au_lkup_dentry demo_lk demo_brs ''d'' None demo_parent 0 None demo_new)) \<and>
   0 \<in> set (opaques demo_lk demo_brs ''d'' demo_parent [0, 1])"
proof -
  have s: "([0, 1], -1) = search False (layers demo_lk demo_brs ''d'' demo_parent 0 (au_dbtaildir demo_parent))" by code_simp
  have o: "0 \<in> set (opaques demo_lk demo_brs ''d'' demo_parent [0, 1])" "1 \<in> set (opaques demo_lk demo_brs ''d'' demo_parent [0, 1])"
    by code_simp+
  show ?thesis
    using lookup_two_opaque[OF demo_lookup(1) order_refl _ _ _ demo_lookup(7) s prod.collapse o] demo_lookup(2-5) o(1) by simp
qed

end
