(* ===== verification/Aufs_Refresh.thy ===== *)
theory Aufs_Refresh
  imports Aufs_Lookup_Props
begin

text \<open>
  The lower dentries after the branches have moved (\<^verbatim>\<open>au_refresh_hdentry\<close>): the loop of swaps ends and
  brings each lower dentry to the branch of its parent; the index of the opaque directory is not
  always the right one afterwards.
\<close>

section \<open>Finding the parent\<close>

lemma find_dbindex_loop_spec:
  "(find_dbindex_loop di h b n = -1 \<and> (\<forall>i. b \<le> i \<and> i < b + int n \<longrightarrow> map_option h_id (au_h_dptr di i) \<noteq> Some h)) \<or>
   (b \<le> find_dbindex_loop di h b n \<and> find_dbindex_loop di h b n < b + int n \<and>
    map_option h_id (au_h_dptr di (find_dbindex_loop di h b n)) = Some h)"
proof (induction n arbitrary: b)
  case (Suc n)
  have s: "b \<le> i \<Longrightarrow> i = b \<or> b + 1 \<le> i" for i by linarith
  show ?case
  proof (cases "map_option h_id (au_h_dptr di b) = Some h")
    case False
    then have e: "find_dbindex_loop di h b (Suc n) = find_dbindex_loop di h (b + 1) n"
      by (simp only: find_dbindex_loop.simps if_False)
    have l: "b + 1 + int n = b + int (Suc n)" by simp
    have "b + 1 \<le> k \<Longrightarrow> b \<le> k" for k by simp
    moreover have "(\<forall>i. b + 1 \<le> i \<and> i < b + int (Suc n) \<longrightarrow> map_option h_id (au_h_dptr di i) \<noteq> Some h) \<Longrightarrow>
        (\<forall>i. b \<le> i \<and> i < b + int (Suc n) \<longrightarrow> map_option h_id (au_h_dptr di i) \<noteq> Some h)"
      using s False by blast
    ultimately show ?thesis using Suc[of "b + 1"] unfolding e l by blast
  qed auto
qed auto

text \<open>The lower dentries of the parent are distinct.\<close>

definition distinct_dptrs :: "au_dinfo \<Rightarrow> bool" where
  "distinct_dptrs di \<longleftrightarrow> (\<forall>i < length (di_hdentry di). \<forall>j < length (di_hdentry di).
     di_hdentry di ! i \<noteq> None \<longrightarrow> map_option h_id (di_hdentry di ! i) = map_option h_id (di_hdentry di ! j) \<longrightarrow> i = j)"

definition at_parent :: "lk_env \<Rightarrow> au_dinfo \<Rightarrow> int \<Rightarrow> h_dentry \<Rightarrow> bool" where
  "at_parent env parent b h \<longleftrightarrow> map_option h_id (au_h_dptr parent b) = Some (d_parent env (h_id h))"

definition home :: "lk_env \<Rightarrow> au_dinfo \<Rightarrow> h_dentry \<Rightarrow> int" where
  "home env parent h = au_find_dbindex parent (d_parent env (h_id h))"

lemma home_spec:
  assumes "dinfo_ok parent" "distinct_dptrs parent"
  shows "home env parent h < int (length (di_hdentry parent))"
    "0 \<le> home env parent h \<Longrightarrow> at_parent env parent (home env parent h) h"
    "0 \<le> b \<Longrightarrow> b < int (length (di_hdentry parent)) \<Longrightarrow> at_parent env parent b h \<Longrightarrow> home env parent h = b"
proof -
  let ?p = "d_parent env (h_id h)" and ?n = "nat (au_dbend parent - au_dbstart parent + 1)"
  let ?k = "home env parent h"
  have spec: "(?k = -1 \<and> (\<forall>i. au_dbstart parent \<le> i \<and> i < au_dbstart parent + int ?n \<longrightarrow> map_option h_id (au_h_dptr parent i) \<noteq> Some ?p)) \<or>
    (au_dbstart parent \<le> ?k \<and> ?k < au_dbstart parent + int ?n \<and> map_option h_id (au_h_dptr parent ?k) = Some ?p)"
    unfolding home_def au_find_dbindex_def by (rule find_dbindex_loop_spec)
  have rg: "di_bstart parent = -1 \<and> di_bend parent = -1 \<or>
     0 \<le> di_bstart parent \<and> di_bstart parent \<le> di_bend parent \<and> di_bend parent < int (length (di_hdentry parent))"
    "\<And>i. i < length (di_hdentry parent) \<Longrightarrow> di_hdentry parent ! i \<noteq> None \<Longrightarrow> di_bstart parent \<le> int i \<and> int i \<le> di_bend parent"
    using assms(1) unfolding dinfo_ok_def by blast+
  show lt: "?k < int (length (di_hdentry parent))" using spec rg(1) by auto
  show at: "at_parent env parent ?k h" if "0 \<le> ?k" using spec that unfolding at_parent_def by auto
  show "?k = b" if b: "0 \<le> b" "b < int (length (di_hdentry parent))" "at_parent env parent b h"
  proof -
    obtain q where q: "au_h_dptr parent b = Some q" "h_id q = ?p" using b(3) unfolding at_parent_def by auto
    have hb: "di_hdentry parent ! nat b = Some q" "0 \<le> di_bstart parent" "di_bstart parent \<le> b"
      using q(1) by (auto simp: au_h_dptr_def split: if_splits)
    have nb: "nat b < length (di_hdentry parent)" "int (nat b) = b" using b(1,2) by simp_all
    have "b \<le> di_bend parent" using rg(2)[OF nb(1)] hb(1) nb(2) by simp
    then have "b < au_dbstart parent + int ?n" using hb(3) by simp
    then have k: "au_dbstart parent \<le> ?k" "map_option h_id (au_h_dptr parent ?k) = Some ?p"
      using spec hb(3) b(3) unfolding at_parent_def by blast+
    obtain q' where q': "di_hdentry parent ! nat ?k = Some q'" "h_id q' = ?p"
      using k(2) by (auto simp: au_h_dptr_def split: if_splits)
    have k0: "0 \<le> ?k" using k(1) hb(2) by simp
    have "nat ?k = nat b" using assms(2) nb(1) lt k0 q'(1,2) hb(1) q(2) unfolding distinct_dptrs_def
      by (metis nat_less_iff option.distinct(1) option.map(2))
    then show ?thesis using k0 b(1) by simp
  qed
qed

section \<open>The loop ends\<close>

text \<open>No two lower dentries have the same parent.\<close>

definition apart :: "lk_env \<Rightarrow> h_dentry option list \<Rightarrow> bool" where
  "apart env hs \<longleftrightarrow> (\<forall>i < length hs. \<forall>j < length hs. \<forall>h k. hs ! i = Some h \<longrightarrow> hs ! j = Some k \<longrightarrow>
     d_parent env (h_id h) = d_parent env (h_id k) \<longrightarrow> i = j)"

definition misplaced :: "lk_env \<Rightarrow> au_dinfo \<Rightarrow> h_dentry option list \<Rightarrow> nat set" where
  "misplaced env parent hs = {i. i < length hs \<and> (\<exists>h. hs ! i = Some h \<and> home env parent h \<noteq> int i)}"

lemma finite_misplaced [simp]: "finite (misplaced env parent hs)"
  by (rule finite_subset[of _ "{..<length hs}"]) (auto simp: misplaced_def)

lemma apart_swap:
  assumes "apart env hs" "i < length hs" "j < length hs"
  shows "apart env (hs[j := hs ! i, i := hs ! j])"
proof -
  have "\<exists>f. (\<forall>k < length hs. f k < length hs \<and> hs[j := hs ! i, i := hs ! j] ! k = hs ! f k) \<and> inj_on f {..<length hs}"
    using assms(2,3) by (intro exI[of _ "\<lambda>k. if k = i then j else if k = j then i else k"]) (auto simp: inj_on_def nth_list_update)
  then obtain f where f: "\<And>k. k < length hs \<Longrightarrow> f k < length hs \<and> hs[j := hs ! i, i := hs ! j] ! k = hs ! f k" "inj_on f {..<length hs}" by blast
  show ?thesis unfolding apart_def length_list_update
  proof (intro allI impI)
    fix k l h g assume k: "k < length hs" "l < length hs" "hs[j := hs ! i, i := hs ! j] ! k = Some h"
      "hs[j := hs ! i, i := hs ! j] ! l = Some g" "d_parent env (h_id h) = d_parent env (h_id g)"
    then have "f k = f l" using f(1) assms(1) unfolding apart_def by metis
    then show "k = l" using f(2) k(1,2) by (auto dest: inj_onD)
  qed
qed

lemma apart_drop:
  assumes "apart env hs"
  shows "apart env (hs[i := None])"
proof -
  have "hs[i := None] ! k = Some h \<Longrightarrow> k < length hs \<Longrightarrow> hs ! k = Some h" for k h by (cases "k = i") auto
  then show ?thesis using assms unfolding apart_def length_list_update by blast
qed

text \<open>What the loop does to the array; the entries of \<open>hs'\<close> are those of \<open>hs\<close> that have a home.\<close>

definition moved_home :: "lk_env \<Rightarrow> au_dinfo \<Rightarrow> au_dinfo \<Rightarrow> au_dinfo \<Rightarrow> bool" where
  "moved_home env parent di di' \<longleftrightarrow> length (di_hdentry di') = length (di_hdentry di) \<and>
     (\<forall>h. Some h \<in> set (di_hdentry di') \<longleftrightarrow> Some h \<in> set (di_hdentry di) \<and> 0 \<le> home env parent h) \<and>
     drefs di' = drefs di \<and> di_bstart di' = di_bstart di \<and> di_bend di' = di_bend di"

lemma moved_home_trans:
  assumes "length (di_hdentry d1) = length (di_hdentry di)"
    "\<And>h. Some h \<in> set (di_hdentry d1) \<or> (Some h \<in> set (di_hdentry di) \<and> home env parent h < 0) \<longleftrightarrow> Some h \<in> set (di_hdentry di)"
    "drefs d1 = drefs di" "di_bstart d1 = di_bstart di" "di_bend d1 = di_bend di" "moved_home env parent d1 di'"
  shows "moved_home env parent di di'"
  using assms unfolding moved_home_def by (metis not_less)

lemma swap_set: "i < length hs \<Longrightarrow> j < length hs \<Longrightarrow> set (hs[j := hs ! i, i := hs ! j]) = set hs"
  by (metis mset_eq_setD mset_swap)

lemma held_mset: "mset hs = mset hs' \<Longrightarrow> held hs = held hs'"
  by (simp add: held_def)

lemma refresh_loop_spec:
  assumes "dinfo_ok parent" "distinct_dptrs parent" "length (di_hdentry parent) \<le> length (di_hdentry di)"
    "bend < int (length (di_hdentry parent))" "apart env (di_hdentry di)" "0 \<le> bindex"
    "\<And>i h. i < length (di_hdentry di) \<Longrightarrow> int i < bindex \<or> bend < int i \<Longrightarrow> di_hdentry di ! i = Some h \<Longrightarrow> home env parent h = int i"
    "nat (bend + 1 - bindex) + card (misplaced env parent (di_hdentry di)) < fuel"
  shows "\<exists>bw bo di'. refresh_loop fuel env parent bend bwh0 bopq0 bindex bwh bopq di = Some (bw, bo, di') \<and>
    moved_home env parent di di' \<and>
    (\<forall>i < length (di_hdentry di'). \<forall>h. di_hdentry di' ! i = Some h \<longrightarrow> home env parent h = int i)"
  using assms(3-)
proof (induction fuel arbitrary: bindex bwh bopq di)
  case (Suc fuel)
  let ?hs = "di_hdentry di" and ?b = "nat bindex"
  note hm = home_spec[OF assms(1,2), where env = env]
  note pre = Suc.prems
  show ?case
  proof (cases "bindex \<le> bend")
    case False
    have hh: "home env parent h = int i" if "i < length ?hs" "?hs ! i = Some h" for i h
      using pre(5)[OF that(1) _ that(2)] False by linarith
    have "Some h \<in> set ?hs \<Longrightarrow> 0 \<le> home env parent h" for h using hh by (fastforce simp: in_set_conv_nth)
    then show ?thesis using False hh by (auto simp: moved_home_def)
  next
    case True
    have b: "?b < length ?hs" "int ?b = bindex" "bindex < int (length (di_hdentry parent))" using True pre(1,2,4) by simp_all
    have ib: "int i < bindex + 1 \<Longrightarrow> i \<noteq> ?b \<Longrightarrow> int i < bindex" for i using b(2) by linarith
    have nx: "nat (bend + 1 - (bindex + 1)) < nat (bend + 1 - bindex)" "0 \<le> bindex + 1" using True pre(4) by simp_all
    show ?thesis
    proof (cases "?hs ! ?b")
      case None
      have "refresh_loop (Suc fuel) env parent bend bwh0 bopq0 bindex bwh bopq di =
          refresh_loop fuel env parent bend bwh0 bopq0 (bindex + 1) bwh bopq di" using True None by simp
      moreover have "home env parent h = int i" if "i < length ?hs" "int i < bindex + 1 \<or> bend < int i" "?hs ! i = Some h" for i h
        using pre(5)[OF that(1) _ that(3)] that None ib[of i] by (cases "i = ?b") auto
      ultimately show ?thesis using Suc.IH[OF pre(1-3) nx(2)] nx(1) pre(6) by auto
    next
      case (Some hden)
      note sm = Some
      show ?thesis
      proof (cases "at_parent env parent bindex hden")
        case True
        have r: "refresh_loop (Suc fuel) env parent bend bwh0 bopq0 bindex bwh bopq di =
            refresh_loop fuel env parent bend bwh0 bopq0 (bindex + 1) bwh bopq di"
          using \<open>bindex \<le> bend\<close> sm True unfolding at_parent_def by (simp del: map_option_eq_Some)
        have "home env parent hden = bindex" by (rule hm(3)[OF pre(4) b(3) True])
        then have "home env parent h = int i" if "i < length ?hs" "int i < bindex + 1 \<or> bend < int i" "?hs ! i = Some h" for i h
          using pre(5)[OF that(1) _ that(3)] that sm b(2) ib[of i] by (cases "i = ?b") auto
        then show ?thesis unfolding r using Suc.IH[OF pre(1-3) nx(2)] nx(1) pre(6) by auto
      next
        case False
        let ?k = "home env parent hden"
        have nk: "?k \<noteq> bindex" using hm(2)[of hden] False pre(4) by auto
        have bm: "?b \<in> misplaced env parent ?hs" using b sm nk by (simp add: misplaced_def)
        define bw bo where "bw = (if bwh0 = bindex then ?k else bwh)" and "bo = (if bopq0 = bindex then ?k else bopq)"
        show ?thesis
        proof (cases "?k < 0")
          case True
          let ?d1 = "di\<lparr>di_hdentry := ?hs[?b := None], dputs := h_id hden # dputs di\<rparr>"
          have r: "refresh_loop (Suc fuel) env parent bend bwh0 bopq0 bindex bwh bopq di =
              refresh_loop fuel env parent bend bwh0 bopq0 (bindex + 1) bw bo ?d1"
            using \<open>bindex \<le> bend\<close> sm False True unfolding at_parent_def home_def bw_def bo_def by (simp add: Let_def del: map_option_eq_Some)
          have nt: "?hs[?b := None] ! i = Some h \<Longrightarrow> i < length ?hs \<Longrightarrow> i \<noteq> ?b \<and> ?hs ! i = Some h" for i h
            by (cases "i = ?b") auto
          have ps: "home env parent h = int i" if "i < length (di_hdentry ?d1)" "int i < bindex + 1 \<or> bend < int i" "di_hdentry ?d1 ! i = Some h" for i h
            using pre(5)[of i h] nt[of i h] that ib[of i] by auto
          have "misplaced env parent (di_hdentry ?d1) \<subseteq> misplaced env parent ?hs - {?b}" using nt by (auto simp: misplaced_def)
          then have "card (misplaced env parent (di_hdentry ?d1)) < card (misplaced env parent ?hs)"
            using bm by (metis card_Diff1_less card_mono finite_Diff finite_misplaced le_less_trans)
          then have fl: "nat (bend + 1 - (bindex + 1)) + card (misplaced env parent (di_hdentry ?d1)) < fuel" using nx(1) pre(6) by linarith
          have ap: "apart env (di_hdentry ?d1)" using apart_drop[OF pre(3)] by simp
          have l1: "length (di_hdentry parent) \<le> length (di_hdentry ?d1)" using pre(1) by simp
          have st: "Some h \<in> set (di_hdentry ?d1) \<or> (Some h \<in> set ?hs \<and> home env parent h < 0) \<longleftrightarrow> Some h \<in> set ?hs" for h
          proof -
            have "Some h \<in> set (?hs[?b := None]) \<Longrightarrow> Some h \<in> set ?hs" by (auto dest!: set_update_subset_insert[THEN subsetD])
            moreover have "Some h \<in> set ?hs \<Longrightarrow> \<not> home env parent h < 0 \<Longrightarrow> Some h \<in> set (?hs[?b := None])"
              using True sm by (metis in_set_conv_nth length_list_update nth_list_update_neq option.inject)
            ultimately show ?thesis by auto
          qed
          have dr: "drefs ?d1 = drefs di" using held_drop[OF b(1) sm] by (simp add: drefs_def)
          have l2: "length (di_hdentry ?d1) = length ?hs" by simp
          obtain x y di' where x: "refresh_loop fuel env parent bend bwh0 bopq0 (bindex + 1) bw bo ?d1 = Some (x, y, di')"
            "moved_home env parent ?d1 di'" "\<forall>i < length (di_hdentry di'). \<forall>h. di_hdentry di' ! i = Some h \<longrightarrow> home env parent h = int i"
            using Suc.IH[OF l1 pre(2) ap nx(2) ps fl] by blast
          have "moved_home env parent di di'" by (rule moved_home_trans[OF l2 st dr _ _ x(2)]) simp_all
          then show ?thesis unfolding r using x(1,3) by blast
        next
          case kp: False
          let ?n = "nat ?k" and ?tmp = "?hs ! nat ?k"
          have n: "?n < length ?hs" "int ?n = ?k" "?n \<noteq> ?b" using hm(1)[of hden] kp pre(1) nk pre(4) by linarith+
          let ?d1 = "di\<lparr>di_hdentry := ?hs[?n := ?hs ! ?b, ?b := ?hs ! ?n]\<rparr>"
          let ?hs1 = "di_hdentry ?d1"
          let ?bi = "if ?tmp \<noteq> None then bindex else bindex + 1"
          have r: "refresh_loop (Suc fuel) env parent bend bwh0 bopq0 bindex bwh bopq di =
              refresh_loop fuel env parent bend bwh0 bopq0 ?bi bw bo ?d1"
            using \<open>bindex \<le> bend\<close> sm False kp unfolding at_parent_def home_def bw_def bo_def by (simp add: Let_def del: map_option_eq_Some)
          have h1: "?hs1 ! ?n = Some hden" "?hs1 ! ?b = ?tmp" "\<And>i. i \<noteq> ?n \<Longrightarrow> i \<noteq> ?b \<Longrightarrow> ?hs1 ! i = ?hs ! i" "length ?hs1 = length ?hs"
            using n b(1) sm by simp_all
          have tm: "home env parent t \<noteq> ?k" if "?tmp = Some t" for t
          proof
            assume "home env parent t = ?k"
            then have "at_parent env parent ?k t" "at_parent env parent ?k hden" using hm(2) kp by (metis not_less)+
            then have "d_parent env (h_id t) = d_parent env (h_id hden)" by (auto simp: at_parent_def)
            then have "?n = ?b" using pre(3) n(1) b(1) that sm unfolding apart_def by metis
            then show False using n(3) by simp
          qed
          have sub: "misplaced env parent ?hs1 \<subseteq> misplaced env parent ?hs - (if ?tmp = None then {?b} else {?n})"
          proof
            fix i assume i: "i \<in> misplaced env parent ?hs1"
            then obtain h where h: "i < length ?hs" "?hs1 ! i = Some h" "home env parent h \<noteq> int i" unfolding misplaced_def h1(4) by blast
            have "i \<noteq> ?n" using h h1(1) n(2) by auto
            moreover have "?tmp = None \<Longrightarrow> i \<noteq> ?b" using h(2) h1(2) by auto
            moreover have "i \<in> misplaced env parent ?hs"
              using bm h h1(3)[of i] \<open>i \<noteq> ?n\<close> by (cases "i = ?b") (auto simp: misplaced_def)
            ultimately show "i \<in> misplaced env parent ?hs - (if ?tmp = None then {?b} else {?n})" by auto
          qed
          have el: "(if ?tmp = None then ?b else ?n) \<in> misplaced env parent ?hs"
            using bm tm n(1,2) by (auto simp: misplaced_def)
          have "card (misplaced env parent ?hs1) < card (misplaced env parent ?hs)"
          proof -
            have "misplaced env parent ?hs1 \<subset> misplaced env parent ?hs" using sub el by (auto split: if_splits)
            then show ?thesis by (simp add: psubset_card_mono)
          qed
          then have fl: "nat (bend + 1 - ?bi) + card (misplaced env parent ?hs1) < fuel" using nx(1) pre(6) by (auto split: if_splits)
          have ap: "apart env ?hs1" using apart_swap[OF pre(3) b(1) n(1)] by simp
          have ps: "home env parent h = int i" if "i < length ?hs1" "int i < ?bi \<or> bend < int i" "?hs1 ! i = Some h" for i h
          proof (cases "i = ?n")
            case True then show ?thesis using that(3) h1(1) n(2) by auto
          next
            case ni: False
            show ?thesis
            proof (cases "i = ?b")
              case True then show ?thesis using that(2,3) h1(2) b(2) \<open>bindex \<le> bend\<close> by (auto split: if_splits)
            next
              case False
              then have "?hs ! i = Some h" "int i < bindex \<or> bend < int i" using that h1(3)[OF ni False] ib[OF _ False] by (auto split: if_splits)
              then show ?thesis using pre(5)[of i h] that(1) h1(4) by simp
            qed
          qed
          have ms: "mset ?hs1 = mset ?hs" using mset_swap[OF b(1) n(1)] n(3) by (simp add: list_update_swap)
          have dr: "drefs ?d1 = drefs di" using held_mset[OF ms] by (simp add: drefs_def)
          have se: "set ?hs1 = set ?hs" by (rule mset_eq_setD[OF ms])
          have st: "Some h \<in> set ?hs1 \<or> (Some h \<in> set ?hs \<and> home env parent h < 0) \<longleftrightarrow> Some h \<in> set ?hs" for h unfolding se by blast
          have l1: "length (di_hdentry parent) \<le> length ?hs1" "0 \<le> ?bi" using pre(1,4) by simp_all
          obtain x y di' where x: "refresh_loop fuel env parent bend bwh0 bopq0 ?bi bw bo ?d1 = Some (x, y, di')"
            "moved_home env parent ?d1 di'" "\<forall>i < length (di_hdentry di'). \<forall>h. di_hdentry di' ! i = Some h \<longrightarrow> home env parent h = int i"
            using Suc.IH[OF l1(1) pre(2) ap l1(2) ps fl] by blast
          have "moved_home env parent di di'" by (rule moved_home_trans[OF h1(4) st dr _ _ x(2)]) simp_all
          then show ?thesis unfolding r using x(1,3) by blast
        qed
      qed
    qed
  qed
qed simp

section \<open>Properties\<close>

lemma kzrealloc_entries:
  fixes n :: nat
  assumes "dinfo_ok di"
  defines "hs \<equiv> au_kzrealloc (di_hdentry di) (nat (di_bend di + 1)) n"
  shows "i < length hs \<Longrightarrow> hs ! i = Some h \<Longrightarrow> i < length (di_hdentry di) \<and> di_hdentry di ! i = Some h"
proof -
  assume i: "i < length hs" "hs ! i = Some h"
  have len: "nat (di_bend di + 1) \<le> length (di_hdentry di)" using assms(1) by (auto simp: dinfo_ok_def)
  show ?thesis
  proof (cases "n \<le> nat (di_bend di + 1)")
    case True
    then show ?thesis using i by (simp add: hs_def au_kzrealloc_def)
  next
    case False
    then have "hs ! i = (if i < nat (di_bend di + 1) then di_hdentry di ! i else None)" using i(1) len
      by (auto simp: hs_def au_kzrealloc_def nth_append)
    then show ?thesis using i(2) len by (auto split: if_splits)
  qed
qed


text \<open>
  A directory that is in the old branches 0 and 1 and opaque in 0, after a branch has been put on
  top: the lower directories of the parent are now in the branches 1 and 2.
\<close>

definition moved_parent :: au_dinfo where
  "moved_parent = \<lparr>di_generation = 1, di_bstart = 0, di_bend = 2, di_bwh = -1, di_bdiropq = -1,
     di_hdentry = [Some \<lparr>h_id = 3, d_inode = Some 3\<rparr>, Some \<lparr>h_id = 1, d_inode = Some 1\<rparr>, Some \<lparr>h_id = 2, d_inode = Some 2\<rparr>], dputs = []\<rparr>"

definition moved_dir :: au_dinfo where
  "moved_dir = \<lparr>di_generation = 0, di_bstart = 0, di_bend = 1, di_bwh = -1, di_bdiropq = 0,
     di_hdentry = [Some \<lparr>h_id = 11, d_inode = Some 11\<rparr>, Some \<lparr>h_id = 12, d_inode = Some 12\<rparr>], dputs = []\<rparr>"

lemma moved_ok: "dinfo_ok moved_parent" "distinct_dptrs moved_parent" "dinfo_ok moved_dir" "apart demo_lk (di_hdentry moved_dir)"
  by (auto simp: dinfo_ok_def distinct_dptrs_def apart_def moved_parent_def moved_dir_def demo_lk_def less_Suc_eq numeral_eq_Suc)


text \<open>
  C35: after a swap the loop looks at the same branch again, and takes the new branch of the entry
  swapped in for the new branch of the opaque directory: of two directories that move down
  together the lower one ends up as the opaque one.
\<close>

theorem refresh_opaque_index:
  assumes "di_hdentry parent = [Some px, Some pa, Some pb]" "di_bstart parent = 0" "di_bend parent = 2"
    "distinct_dptrs parent"
    "di_hdentry di = [Some ha, Some hb, None]" "di_bstart di = 0" "di_bend di = 1" "di_bdiropq di = 0"
    "d_parent env (h_id ha) = h_id pa" "d_parent env (h_id hb) = h_id pb" "6 \<le> fuel"
  shows "\<exists>di'. refresh_loop fuel env parent (di_bend di) (di_bwh di) (di_bdiropq di) (di_bstart di) (di_bwh di) (di_bdiropq di) di =
      Some (if di_bwh di = 0 then 2 else di_bwh di, 2, di') \<and> di_hdentry di' = [None, Some ha, Some hb]"
proof -
  have dd: "map_option h_id ([Some px, Some pa, Some pb] ! i) = map_option h_id ([Some px, Some pa, Some pb] ! j) \<Longrightarrow>
      [Some px, Some pa, Some pb] ! i \<noteq> None \<Longrightarrow> i < 3 \<Longrightarrow> j < 3 \<Longrightarrow> i = j" for i j
    using assms(4) unfolding distinct_dptrs_def assms(1) by (simp add: eval_nat_numeral)
  have ne: "h_id px \<noteq> h_id pa" "h_id px \<noteq> h_id pb" "h_id pa \<noteq> h_id pb"
    using dd[of 0 1] dd[of 0 2] dd[of 1 2] by auto
  have at: "au_h_dptr parent 0 = Some px" "au_h_dptr parent 1 = Some pa" "au_h_dptr parent 2 = Some pb"
    using assms(1,2) by (simp_all add: au_h_dptr_def)
  have fd: "au_find_dbindex parent (h_id pa) = 1" "au_find_dbindex parent (h_id pb) = 2"
    using ne at assms(2,3) by (simp_all add: au_find_dbindex_def eval_nat_numeral)
  let ?w = "di_bwh di"
  have s1: "refresh_loop (Suc n) env parent 1 w 0 0 bw bo d =
      refresh_loop n env parent 1 w 0 0 (if w = 0 then 1 else bw) 1 (d\<lparr>di_hdentry := [Some hb, Some ha, None]\<rparr>)"
    if "di_hdentry d = [Some ha, Some hb, None]" for n w bw bo d
    using that ne at(1) fd(1) assms(9) by (simp add: Let_def)
  have s2: "refresh_loop (Suc n) env parent 1 w 0 0 bw bo d =
      refresh_loop n env parent 1 w 0 1 (if w = 0 then 2 else bw) 2 (d\<lparr>di_hdentry := [None, Some ha, Some hb]\<rparr>)"
    if "di_hdentry d = [Some hb, Some ha, None]" for n w bw bo d
    using that ne at(1) fd(2) assms(10) by (simp add: Let_def)
  have s3: "refresh_loop (Suc (Suc n)) env parent 1 w 0 1 bw bo d = Some (bw, bo, d)"
    if "di_hdentry d = [None, Some ha, Some hb]" for n w bw bo d
    using that at(2) assms(9) by (simp add: Let_def)
  obtain f where f: "fuel = Suc (Suc (Suc (Suc f)))" using that[of "fuel - 4"] assms(11) by simp
  show ?thesis unfolding assms(6-8) f s1[OF assms(5)] by (subst s2, simp, subst s3, simp) auto
qed

theorem refresh_opaque_index_witness:
  "(\<exists>di'. refresh_loop 6 demo_lk moved_parent 1 (-1) 0 0 (-1) 0 (moved_dir\<lparr>di_hdentry := di_hdentry moved_dir @ [None]\<rparr>) = Some (-1, 2, di')) \<and>
   map_option (\<lambda>(n, di, d). (n, di_bdiropq di))
     (au_refresh_hdentry 7 demo_lk (demo_brs @ [hd demo_brs]) 1 True ''d'' (Some S_IFDIR) moved_parent (Some S_IFDIR) moved_dir) = Some (2, 2)"
proof
  let ?di = "moved_dir\<lparr>di_hdentry := di_hdentry moved_dir @ [None]\<rparr>"
  show "\<exists>di'. refresh_loop 6 demo_lk moved_parent 1 (-1) 0 0 (-1) 0 ?di = Some (-1, 2, di')"
    using refresh_opaque_index[where di = ?di and env = demo_lk and fuel = 6 and pa = "\<lparr>h_id = 1, d_inode = Some 1\<rparr>"
        and pb = "\<lparr>h_id = 2, d_inode = Some 2\<rparr>" and px = "\<lparr>h_id = 3, d_inode = Some 3\<rparr>"
        and ha = "\<lparr>h_id = 11, d_inode = Some 11\<rparr>", OF _ _ _ moved_ok(2)]
    by (simp add: moved_parent_def moved_dir_def demo_lk_def) blast
  show "map_option (\<lambda>(n, di, d). (n, di_bdiropq di))
     (au_refresh_hdentry 7 demo_lk (demo_brs @ [hd demo_brs]) 1 True ''d'' (Some S_IFDIR) moved_parent (Some S_IFDIR) moved_dir) = Some (2, 2)"
    by code_simp
qed

end
