(* ===== verification/Aufs_Vdir.thy ===== *)
theory Aufs_Vdir
  imports Page_Mem Aufs_Xino Aufs_Lookup Aufs_Wbr
begin

text \<open>
  Reading a directory of the union (\<^verbatim>\<open>vdir.c\<close>): the entries of all branches are merged into blocks
  of 512 bytes, kept for the inode and copied for the open file, and handed out from there. Blocks
  are byte memory, entries are found through pointers into it; \<^verbatim>\<open>ino_t\<close> has four bytes, so an entry
  is its number, its type, the length of its name and the name, filled up to a multiple of four.

  What is given to the definitions: the memory allocator, the hash of a name, the clock, and what
  each lower directory answers.
\<close>

section \<open>State\<close>

abbreviation (input) AuSize_DEBLK :: nat where "AuSize_DEBLK \<equiv> 512"
abbreviation (input) AuSize_NHASH :: nat where "AuSize_NHASH \<equiv> 32"

type_synonym name = "u8 list"

text \<open>A pointer into a block (\<^verbatim>\<open>union au_vdir_deblk_p\<close>); \<^verbatim>\<open>struct au_vdir\<close>, \<^verbatim>\<open>vd_last\<close> in two fields.\<close>

type_synonym deblk_p = "u32 \<times> nat"

record au_vdir =
  vd_deblk :: "u32 option list"
  vd_nblk :: nat
  vd_last_i :: nat
  vd_last_p :: deblk_p
  vd_version :: u32
  vd_jiffy :: u32

text \<open>
  The bytes of the blocks, the blocks in use, how often memory was asked for, and the inode numbers.
\<close>

record vd_state =
  vmem :: pmem
  live :: "u32 list"
  tick :: nat
  xsb :: au_sbinfo

text \<open>
  \<open>alloc_blk\<close> answers the request for a block, given the blocks in use; \<open>alloc_ok\<close> any other request.
\<close>

record vd_env =
  alloc_blk :: "nat \<Rightarrow> u32 list \<Rightarrow> u32 option"
  alloc_ok :: "nat \<Rightarrow> bool"
  full_name_hash :: "name \<Rightarrow> nat"
  jiffies :: u32
  si_rdcache :: u32
  vd_shwh :: bool

definition kmalloc_deblk :: "vd_env \<Rightarrow> vd_state \<Rightarrow> u32 option \<times> vd_state" where
  "kmalloc_deblk env st =
     (case alloc_blk env (tick st) (live st) of
        None \<Rightarrow> (None, st\<lparr>tick := tick st + 1\<rparr>)
      | Some a \<Rightarrow> (Some a, st\<lparr>tick := tick st + 1, live := a # live st\<rparr>))"

definition kmalloc_other :: "vd_env \<Rightarrow> vd_state \<Rightarrow> bool \<times> vd_state" where
  "kmalloc_other env st = (alloc_ok env (tick st), st\<lparr>tick := tick st + 1\<rparr>)"

definition kfree_deblk :: "u32 option \<Rightarrow> vd_state \<Rightarrow> vd_state" where
  "kfree_deblk p st = (case p of None \<Rightarrow> st | Some a \<Rightarrow> st\<lparr>live := remove1 a (live st)\<rparr>)"

section \<open>Entries in a block\<close>

definition calc_size :: "nat \<Rightarrow> nat" where
  "calc_size namelen = (let sz = 6 + namelen in if sz mod 4 \<noteq> 0 then (sz + 4) div 4 * 4 else sz)"

text \<open>A pointer to \<^verbatim>\<open>struct au_vdir_destr\<close>, and the fields of an entry.\<close>

definition str_len :: "pmem \<Rightarrow> deblk_p \<Rightarrow> nat" where
  "str_len m p = unat (m (fst p) (snd p))"

definition str_name :: "pmem \<Rightarrow> deblk_p \<Rightarrow> name" where
  "str_name m p = ld_bytes m (fst p) (snd p + 1) (str_len m p)"

definition de_str :: "deblk_p \<Rightarrow> deblk_p" where
  "de_str p = (fst p, snd p + 5)"

definition de_ino :: "pmem \<Rightarrow> deblk_p \<Rightarrow> u32" where
  "de_ino m p = ld32 m (fst p) (snd p)"

definition de_type :: "pmem \<Rightarrow> deblk_p \<Rightarrow> u8" where
  "de_type m p = m (fst p) (snd p + 4)"

definition set_deblk_end :: "deblk_p \<Rightarrow> pmem \<Rightarrow> int \<times> pmem" where
  "set_deblk_end p m =
     (if snd p + calc_size 0 \<le> AuSize_DEBLK then (0, m(fst p := (m (fst p))(snd p + 5 := 0))) else (-1, m))"

definition is_deblk_end :: "pmem \<Rightarrow> deblk_p \<Rightarrow> bool" where
  "is_deblk_end m p = (if snd p + calc_size 0 \<le> AuSize_DEBLK then str_len m (de_str p) = 0 else True)"

section \<open>Hash lists of names\<close>

type_synonym 'a nhash = "'a list list"

text \<open>A whiteout (\<^verbatim>\<open>struct au_vdir_wh\<close>); an entry found is known by the pointer to its name.\<close>

record au_vdir_wh =
  wh_bindex :: int
  wh_ino :: u32
  wh_type :: u8
  wh_str :: name

definition au_nhash_init :: "'a nhash" where
  "au_nhash_init = replicate AuSize_NHASH []"

definition au_nhash_new :: "vd_env \<Rightarrow> vd_state \<Rightarrow> (int + 'a nhash) \<times> vd_state" where
  "au_nhash_new env st = (let (ok, st) = kmalloc_other env st in (if ok then Inr au_nhash_init else Inl (- ENOMEM), st))"

definition au_nhash_move :: "'a nhash \<Rightarrow> 'a nhash \<times> 'a nhash" where
  "au_nhash_move src = (src, map (\<lambda>_. []) src)"

definition au_name_hash :: "vd_env \<Rightarrow> name \<Rightarrow> nat" where
  "au_name_hash env name = full_name_hash env name mod AuSize_NHASH"

definition hlist_add_head :: "'a \<Rightarrow> nat \<Rightarrow> 'a nhash \<Rightarrow> 'a nhash" where
  "hlist_add_head x i heads = heads[i := x # heads ! i]"

fun longer_wh :: "au_vdir_wh list \<Rightarrow> int \<Rightarrow> nat \<Rightarrow> nat \<Rightarrow> nat \<times> bool" where
  "longer_wh [] btgt limit n = (n, False)"
| "longer_wh (w # ws) btgt limit n =
     (if wh_bindex w = btgt then if n + 1 > limit then (n + 1, True) else longer_wh ws btgt limit (n + 1)
      else longer_wh ws btgt limit n)"

fun longer_heads :: "au_vdir_wh nhash \<Rightarrow> int \<Rightarrow> nat \<Rightarrow> nat \<Rightarrow> bool" where
  "longer_heads [] btgt limit n = False"
| "longer_heads (h # hs) btgt limit n =
     (let (n, longer) = longer_wh h btgt limit n in if longer then True else longer_heads hs btgt limit n)"

definition au_nhash_test_longer_wh :: "au_vdir_wh nhash \<Rightarrow> int \<Rightarrow> nat \<Rightarrow> bool" where
  "au_nhash_test_longer_wh whlist btgt limit = longer_heads whlist btgt limit 0"

definition au_nhash_test_known_wh :: "vd_env \<Rightarrow> au_vdir_wh nhash \<Rightarrow> name \<Rightarrow> bool" where
  "au_nhash_test_known_wh env whlist name = list_ex (\<lambda>w. wh_str w = name) (whlist ! au_name_hash env name)"

definition au_nhash_append_wh :: "vd_env \<Rightarrow> au_vdir_wh nhash \<Rightarrow> name \<Rightarrow> u32 \<Rightarrow> u8 \<Rightarrow> int \<Rightarrow> vd_state \<Rightarrow>
    int \<times> au_vdir_wh nhash \<times> vd_state" where
  "au_nhash_append_wh env whlist name ino d_type bindex st =
     (let (ok, st) = kmalloc_other env st
      in if \<not> ok then (- ENOMEM, whlist, st)
         else (0, hlist_add_head \<lparr>wh_bindex = bindex, wh_ino = ino, wh_type = d_type, wh_str = name\<rparr>
                    (au_name_hash env name) whlist, st))"

definition test_known :: "vd_env \<Rightarrow> pmem \<Rightarrow> deblk_p nhash \<Rightarrow> name \<Rightarrow> bool" where
  "test_known env m delist name =
     list_ex (\<lambda>p. str_len m p = length name \<and> str_name m p = name) (delist ! au_name_hash env name)"

section \<open>Blocks of a directory\<close>

definition last_deblk :: "au_vdir \<Rightarrow> u32" where
  "last_deblk v = the (vd_deblk v ! (vd_nblk v - 1))"

fun free_deblks :: "nat \<Rightarrow> u32 option list \<Rightarrow> vd_state \<Rightarrow> vd_state" where
  "free_deblks 0 ps st = st"
| "free_deblks (Suc n) ps st = free_deblks n (tl ps) (kfree_deblk (hd ps) st)"

definition au_vdir_free :: "au_vdir \<Rightarrow> vd_state \<Rightarrow> vd_state" where
  "au_vdir_free v st = free_deblks (vd_nblk v) (vd_deblk v) st"

definition append_deblk :: "vd_env \<Rightarrow> au_vdir \<Rightarrow> vd_state \<Rightarrow> int \<times> au_vdir \<times> vd_state" where
  "append_deblk env v st =
     (let (ok, st) = kmalloc_other env st
      in if \<not> ok then (- ENOMEM, v, st)
         else
           let v = v\<lparr>vd_deblk := au_kzrealloc (vd_deblk v) (vd_nblk v) (vd_nblk v + 1)\<rparr>;
               (p, st) = kmalloc_deblk env st
           in case p of
                None \<Rightarrow> (- ENOMEM, v, st)
              | Some a \<Rightarrow>
                  let i = vd_nblk v;
                      v = v\<lparr>vd_nblk := i + 1, vd_deblk := (vd_deblk v)[i := Some a], vd_last_i := i, vd_last_p := (a, 0)\<rparr>;
                      (err, m) = set_deblk_end (a, 0) (vmem st)
                  in (err, v, st\<lparr>vmem := m\<rparr>))"

definition alloc_vdir :: "vd_env \<Rightarrow> vd_state \<Rightarrow> (int + au_vdir) \<times> vd_state" where
  "alloc_vdir env st =
     (let (ok, st) = kmalloc_other env st
      in if \<not> ok then (Inl (- ENOMEM), st)
         else
           let (ok, st) = kmalloc_other env st
           in if \<not> ok then (Inl (- ENOMEM), st)
              else
                let v = \<lparr>vd_deblk = [None], vd_nblk = 0, vd_last_i = 0, vd_last_p = (0, 0), vd_version = 0, vd_jiffy = 0\<rparr>;
                    (err, v, st) = append_deblk env v st
                in (if err = 0 then Inr v else Inl err, st))"

fun reinit_loop :: "nat \<Rightarrow> au_vdir \<Rightarrow> vd_state \<Rightarrow> au_vdir \<times> vd_state" where
  "reinit_loop 0 v st = (v, st)"
| "reinit_loop (Suc n) v st =
     (if vd_nblk v > 1
      then reinit_loop n (v\<lparr>vd_deblk := (vd_deblk v)[vd_nblk v - 1 := None], vd_nblk := vd_nblk v - 1\<rparr>)
             (kfree_deblk (vd_deblk v ! (vd_nblk v - 1)) st)
      else (v, st))"

definition reinit_vdir :: "au_vdir \<Rightarrow> vd_state \<Rightarrow> int \<times> au_vdir \<times> vd_state" where
  "reinit_vdir v st =
     (let (v, st) = reinit_loop (vd_nblk v) v st;
          b = the (vd_deblk v ! 0);
          (err, m) = set_deblk_end (b, 0) (vmem st)
      in (err, v\<lparr>vd_version := 0, vd_jiffy := 0, vd_last_i := 0, vd_last_p := (b, 0)\<rparr>, st\<lparr>vmem := m\<rparr>))"

text \<open>The bytes of an entry; the padding keeps what was there.\<close>

definition st_de :: "deblk_p \<Rightarrow> u32 \<Rightarrow> u8 \<Rightarrow> name \<Rightarrow> pmem \<Rightarrow> pmem" where
  "st_de p ino d_type name m =
     (let b = fst p; x = snd p;
          m = st32 m b x ino;
          m = m(b := (m b)(x + 4 := d_type, x + 5 := of_nat (length name)))
      in st_bytes m b (x + 6) name)"

definition append_de :: "vd_env \<Rightarrow> au_vdir \<Rightarrow> name \<Rightarrow> u32 \<Rightarrow> u8 \<Rightarrow> deblk_p nhash \<Rightarrow> vd_state \<Rightarrow>
    int \<times> au_vdir \<times> deblk_p nhash \<times> vd_state" where
  "append_de env v name ino d_type delist st =
     (let sz = calc_size (length name);
          (err, v, st) = (if sz > AuSize_DEBLK - snd (vd_last_p v) then append_deblk env v st else (0, v, st))
      in if err \<noteq> 0 then (err, v, delist, st)
         else
           let (ok, st) = kmalloc_other env st
           in if \<not> ok then (- ENOMEM, v, delist, st)
              else
                let room = vd_last_p v;
                    delist = hlist_add_head (de_str room) (au_name_hash env name) delist;
                    m = st_de room ino d_type name (vmem st);
                    room = (fst room, snd room + sz);
                    v = v\<lparr>vd_last_p := room\<rparr>;
                    (e, m) = set_deblk_end room m;
                    st = st\<lparr>vmem := m\<rparr>;
                    (err, v, st) = (if e \<noteq> 0 then append_deblk env v st else (0, v, st))
                in (err, v, delist, st))"

section \<open>Merging the branches\<close>

text \<open>An entry as the lower directory gives it.\<close>

record lde =
  l_name :: name
  l_ino :: u64
  l_type :: u8

definition WH_PFX :: name where
  "WH_PFX = map of_char AUFS_WH_PFX"

definition is_wh_name :: "name \<Rightarrow> bool" where
  "is_wh_name name \<longleftrightarrow> \<not> (length name \<le> length WH_PFX \<or> take (length WH_PFX) name \<noteq> WH_PFX)"

text \<open>\<open>None\<close> is the fault of \<^verbatim>\<open>au_xino_new_ino\<close>.\<close>

definition au_ino :: "int \<Rightarrow> u32 \<Rightarrow> au_sbinfo \<Rightarrow> (int \<times> u32 \<times> au_sbinfo) option" where
  "au_ino bindex h_ino s =
     (let (err, ino, s) = au_xino_read s bindex h_ino
      in if err \<noteq> 0 then Some (err, ino, s)
         else if ino \<noteq> 0 then Some (0, ino, s)
         else
           case au_xino_new_ino s of
             None \<Rightarrow> None
           | Some (ino, s) \<Rightarrow>
               if ino = 0 then Some (- EIO, 0, s)
               else let (err, s) = au_xino_write s bindex h_ino ino in Some (err, ino, s))"

record fillvdir_arg =
  a_vdir :: au_vdir
  a_delist :: "deblk_p nhash list"
  a_whlist :: "au_vdir_wh nhash list"
  a_err :: int

definition fillvdir :: "vd_env \<Rightarrow> lde \<Rightarrow> nat \<Rightarrow> fillvdir_arg \<Rightarrow> vd_state \<Rightarrow> (fillvdir_arg \<times> vd_state) option" where
  "fillvdir env d bend arg st =
     (let arg = arg\<lparr>a_err := 0\<rparr>;
          name = l_name d;
          out = (\<lambda>(arg, st). if a_err arg = 0 then (arg\<lparr>a_vdir := (a_vdir arg)\<lparr>vd_jiffy := jiffies env\<rparr>\<rparr>, st) else (arg, st))
      in if \<not> is_wh_name name then
           if list_ex (\<lambda>b. test_known env (vmem st) (a_delist arg ! b) name \<or>
                           au_nhash_test_known_wh env (a_whlist arg ! b) name) [0..<bend]
           then Some (out (arg, st))
           else
             (case au_ino (int bend) (ucast (l_ino d)) (xsb st) of
                None \<Rightarrow> None
              | Some (err, ino, s) \<Rightarrow>
                  let st = st\<lparr>xsb := s\<rparr>
                  in if err \<noteq> 0 then Some (out (arg\<lparr>a_err := err\<rparr>, st))
                     else
                       let (err, v, dl, st) = append_de env (a_vdir arg) name ino (l_type d) (a_delist arg ! bend) st
                       in Some (out (arg\<lparr>a_err := err, a_vdir := v, a_delist := (a_delist arg)[bend := dl]\<rparr>, st)))
         else
           let name = drop (length WH_PFX) name
           in if list_ex (\<lambda>b. au_nhash_test_known_wh env (a_whlist arg ! bend) name) [0..<bend] then Some (out (arg, st))
              else
                case (if vd_shwh env then au_ino (int bend) (ucast (l_ino d)) (xsb st) else Some (0, 1, xsb st)) of
                  None \<Rightarrow> None
                | Some (err, ino, s) \<Rightarrow>
                    let st = st\<lparr>xsb := s\<rparr>
                    in if err \<noteq> 0 then Some (out (arg\<lparr>a_err := err\<rparr>, st))
                       else
                         let (err, wl, st) = au_nhash_append_wh env (a_whlist arg ! bend) name ino (l_type d) (int bend) st
                         in Some (out (arg\<lparr>a_err := err, a_whlist := (a_whlist arg)[bend := wl]\<rparr>, st)))"

text \<open>One call of the lower \<^verbatim>\<open>readdir\<close>: it stops when \<^verbatim>\<open>fillvdir\<close> gives an error.\<close>

fun fill_batch :: "vd_env \<Rightarrow> lde list \<Rightarrow> nat \<Rightarrow> fillvdir_arg \<Rightarrow> vd_state \<Rightarrow> (fillvdir_arg \<times> vd_state) option" where
  "fill_batch env [] bindex arg st = Some (arg, st)"
| "fill_batch env (d # ds) bindex arg st =
     (case fillvdir env d bindex arg st of
        None \<Rightarrow> None
      | Some (arg, st) \<Rightarrow> if a_err arg \<noteq> 0 then Some (arg, st) else fill_batch env ds bindex arg st)"

text \<open>
  A lower directory: what seeking to its start gives, and for every call of its \<^verbatim>\<open>readdir\<close> the entries
  and the result; after the last it has no more. The loop ends with the first call that brings none.
\<close>

record h_dir =
  h_seek :: int
  h_calls :: "(lde list \<times> int) list"

fun read_calls :: "vd_env \<Rightarrow> (lde list \<times> int) list \<Rightarrow> nat \<Rightarrow> fillvdir_arg \<Rightarrow> vd_state \<Rightarrow>
    (int \<times> fillvdir_arg \<times> vd_state) option" where
  "read_calls env [] bindex arg st = Some (0, arg\<lparr>a_err := 0\<rparr>, st)"
| "read_calls env ((ds, err) # cs) bindex arg st =
     (case fill_batch env ds bindex (arg\<lparr>a_err := 0\<rparr>) st of
        None \<Rightarrow> None
      | Some (arg, st) \<Rightarrow>
          let err = (if err \<ge> 0 then a_err arg else err)
          in if err = 0 \<and> ds \<noteq> [] then read_calls env cs bindex arg st else Some (err, arg, st))"

record au_file =
  f_pos :: nat
  f_version :: u32
  fbstart :: nat
  fbend :: nat
  h_fptr :: "nat \<Rightarrow> h_dir option"
  fvdir_cache :: "au_vdir option"

fun read_branches :: "nat \<Rightarrow> vd_env \<Rightarrow> (nat \<Rightarrow> h_dir option) \<Rightarrow> nat \<Rightarrow> fillvdir_arg \<Rightarrow> vd_state \<Rightarrow>
    (int \<times> fillvdir_arg \<times> vd_state) option" where
  "read_branches 0 env hf bindex arg st = Some (0, arg, st)"
| "read_branches (Suc n) env hf bindex arg st =
     (case hf bindex of
        None \<Rightarrow> read_branches n env hf (bindex + 1) arg st
      | Some h \<Rightarrow>
          if h_seek h \<noteq> 0 then Some (h_seek h, arg, st)
          else
            case read_calls env (h_calls h) bindex arg st of
              None \<Rightarrow> None
            | Some (err, arg, st) \<Rightarrow>
                if err \<noteq> 0 then Some (err, arg, st) else read_branches n env hf (bindex + 1) arg st)"

text \<open>
  Showing whiteouts. An error leaves the loop over one hash list, not the one over all lists, and
  the next entry overwrites it.
\<close>

fun shwh_list :: "vd_env \<Rightarrow> au_vdir_wh list \<Rightarrow> int \<Rightarrow> au_vdir \<Rightarrow> deblk_p nhash \<Rightarrow> vd_state \<Rightarrow>
    int \<times> au_vdir \<times> deblk_p nhash \<times> vd_state" where
  "shwh_list env [] err v delist st = (err, v, delist, st)"
| "shwh_list env (w # ws) err v delist st =
     (let (err, v, delist, st) = append_de env v (WH_PFX @ wh_str w) (wh_ino w) (wh_type w) delist st
      in if err \<noteq> 0 then (err, v, delist, st) else shwh_list env ws err v delist st)"

fun shwh_heads :: "vd_env \<Rightarrow> au_vdir_wh nhash \<Rightarrow> int \<Rightarrow> au_vdir \<Rightarrow> deblk_p nhash \<Rightarrow> vd_state \<Rightarrow>
    int \<times> au_vdir \<times> deblk_p nhash \<times> vd_state" where
  "shwh_heads env [] err v delist st = (err, v, delist, st)"
| "shwh_heads env (h # hs) err v delist st =
     (let (err, v, delist, st) = shwh_list env h err v delist st in shwh_heads env hs err v delist st)"

fun shwh_branches :: "nat \<Rightarrow> vd_env \<Rightarrow> nat \<Rightarrow> fillvdir_arg \<Rightarrow> vd_state \<Rightarrow> int \<times> fillvdir_arg \<times> vd_state" where
  "shwh_branches 0 env bindex arg st = (0, arg, st)"
| "shwh_branches (Suc n) env bindex arg st =
     (let (err, v, dl, st) = shwh_heads env (a_whlist arg ! bindex) 0 (a_vdir arg) (a_delist arg ! bindex) st;
          arg = arg\<lparr>a_vdir := v, a_delist := (a_delist arg)[bindex := dl]\<rparr>
      in if err \<noteq> 0 then (err, arg, st) else shwh_branches n env (bindex + 1) arg st)"

definition au_handle_shwh :: "vd_env \<Rightarrow> nat \<Rightarrow> nat \<Rightarrow> fillvdir_arg \<Rightarrow> vd_state \<Rightarrow> int \<times> fillvdir_arg \<times> vd_state" where
  "au_handle_shwh env bstart bend arg st =
     (let (ok, st) = kmalloc_other env st
      in if \<not> ok then (- ENOMEM, arg, st) else shwh_branches (bend + 1 - bstart) env bstart arg st)"

definition au_do_read_vdir :: "vd_env \<Rightarrow> au_file \<Rightarrow> au_vdir \<Rightarrow> vd_state \<Rightarrow> (int \<times> au_vdir \<times> vd_state) option" where
  "au_do_read_vdir env file v st =
     (let (ok, st) = kmalloc_other env st
      in if \<not> ok then Some (- ENOMEM, v, st)
         else
           let (ok, st) = kmalloc_other env st
           in if \<not> ok then Some (- ENOMEM, v, st)
              else
                let arg = \<lparr>a_vdir = v, a_delist = replicate (fbend file + 1) au_nhash_init,
                           a_whlist = replicate (fbend file + 1) au_nhash_init, a_err = 0\<rparr>
                in case read_branches (fbend file + 1 - fbstart file) env (h_fptr file) (fbstart file) arg st of
                     None \<Rightarrow> None
                   | Some (err, arg, st) \<Rightarrow>
                       let (err, arg, st) = (if err = 0 \<and> vd_shwh env then au_handle_shwh env (fbstart file) (fbend file) arg st
                                             else (err, arg, st))
                       in Some (err, a_vdir arg, st))"

section \<open>The directory kept for the inode and for the file\<close>

record dir_inode =
  i_version :: u32
  ivdir :: "au_vdir option"

definition vd_rewind :: "au_vdir \<Rightarrow> au_vdir" where
  "vd_rewind v = v\<lparr>vd_last_i := 0, vd_last_p := (the (vd_deblk v ! 0), 0)\<rparr>"

definition read_vdir :: "vd_env \<Rightarrow> au_file \<Rightarrow> dir_inode \<Rightarrow> bool \<Rightarrow> vd_state \<Rightarrow> (int \<times> dir_inode \<times> vd_state) option" where
  "read_vdir env file inode may_read st =
     (case ivdir inode of
        None \<Rightarrow>
          (case alloc_vdir env st of
             (Inl err, st) \<Rightarrow> Some (err, inode, st)
           | (Inr v, st) \<Rightarrow>
               (case au_do_read_vdir env file v st of
                  None \<Rightarrow> None
                | Some (err, v, st) \<Rightarrow>
                    if err = 0 then Some (0, inode\<lparr>ivdir := Some (vd_rewind (v\<lparr>vd_version := i_version inode\<rparr>))\<rparr>, st)
                    else Some (err, inode, au_vdir_free v st)))
      | Some v \<Rightarrow>
          if may_read \<and> (i_version inode \<noteq> vd_version v \<or> time_after (jiffies env) (vd_jiffy v + si_rdcache env))
          then
            let (err, v, st) = reinit_vdir v st
            in if err \<noteq> 0 then Some (err, inode\<lparr>ivdir := Some v\<rparr>, st)
               else
                 case au_do_read_vdir env file v st of
                   None \<Rightarrow> None
                 | Some (err, v, st) \<Rightarrow>
                     Some (err, inode\<lparr>ivdir := Some (if err = 0 then vd_rewind (v\<lparr>vd_version := i_version inode\<rparr>) else v)\<rparr>, st)
          else Some (0, inode, st))"

fun copy_deblks :: "nat \<Rightarrow> vd_env \<Rightarrow> nat \<Rightarrow> au_vdir \<Rightarrow> au_vdir \<Rightarrow> vd_state \<Rightarrow> bool \<times> au_vdir \<times> vd_state" where
  "copy_deblks 0 env i tgt src st = (True, tgt, st)"
| "copy_deblks (Suc n) env i tgt src st =
     (let (p, st) = kmalloc_deblk env st; tgt = tgt\<lparr>vd_deblk := (vd_deblk tgt)[i := p]\<rparr>
      in case p of
           None \<Rightarrow> (False, tgt, st)
         | Some a \<Rightarrow> copy_deblks n env (i + 1) tgt src (st\<lparr>vmem := (vmem st)(a := vmem st (the (vd_deblk src ! i)))\<rparr>))"

text \<open>\<open>None\<close>: \<^verbatim>\<open>BUG_ON(rerr)\<close>.\<close>

definition copy_vdir :: "vd_env \<Rightarrow> au_vdir \<Rightarrow> au_vdir \<Rightarrow> vd_state \<Rightarrow> (int \<times> au_vdir \<times> vd_state) option" where
  "copy_vdir env tgt src st =
     (let out = (\<lambda>(tgt, st). let (rerr, tgt, st) = reinit_vdir tgt st
                             in if rerr \<noteq> 0 then None else Some (- ENOMEM, tgt, st));
          (ok, st) = (if vd_nblk tgt < vd_nblk src then kmalloc_other env st else (True, st))
      in if \<not> ok then out (tgt, st)
         else
           let tgt = (if vd_nblk tgt < vd_nblk src
                      then tgt\<lparr>vd_deblk := au_kzrealloc (vd_deblk tgt) (vd_nblk tgt) (vd_nblk src)\<rparr> else tgt);
               tgt = tgt\<lparr>vd_nblk := vd_nblk src\<rparr>;
               st = st\<lparr>vmem := (vmem st)(the (vd_deblk tgt ! 0) := vmem st (the (vd_deblk src ! 0)))\<rparr>;
               tgt = tgt\<lparr>vd_version := vd_version src, vd_jiffy := vd_jiffy src\<rparr>;
               (ok, tgt, st) = copy_deblks (vd_nblk src - 1) env 1 tgt src st
           in if ok then Some (0, tgt, st) else out (tgt, st))"

definition au_vdir_init :: "vd_env \<Rightarrow> au_file \<Rightarrow> dir_inode \<Rightarrow> vd_state \<Rightarrow>
    (int \<times> au_file \<times> dir_inode \<times> vd_state) option" where
  "au_vdir_init env file inode st =
     (case read_vdir env file inode (f_pos file = 0) st of
        None \<Rightarrow> None
      | Some (err, inode, st) \<Rightarrow>
          if err \<noteq> 0 then Some (err, file, inode, st)
          else
            let copy = (\<lambda>v st. copy_vdir env v (the (ivdir inode)) st);
                ok = (\<lambda>v. file\<lparr>f_version := i_version inode, fvdir_cache := Some v\<rparr>)
            in case fvdir_cache file of
                 None \<Rightarrow>
                   (case alloc_vdir env st of
                      (Inl err, st) \<Rightarrow> Some (err, file, inode, st)
                    | (Inr v, st) \<Rightarrow>
                        (case copy v st of
                           None \<Rightarrow> None
                         | Some (err, v, st) \<Rightarrow>
                             if err = 0 then Some (0, ok v, inode, st) else Some (err, file, inode, au_vdir_free v st)))
               | Some v \<Rightarrow>
                   if f_pos file = 0 \<and> vd_version v \<noteq> f_version file
                   then
                     let (err, v, st) = reinit_vdir v st
                     in if err \<noteq> 0 then Some (err, file\<lparr>fvdir_cache := Some v\<rparr>, inode, st)
                        else
                          case copy v st of
                            None \<Rightarrow> None
                          | Some (err, v, st) \<Rightarrow>
                              if err = 0 then Some (0, ok v, inode, st) else Some (err, file\<lparr>fvdir_cache := Some v\<rparr>, inode, st)
                   else Some (0, file, inode, st))"

section \<open>Handing out the entries\<close>

definition calc_offset :: "au_vdir \<Rightarrow> nat" where
  "calc_offset v = snd (vd_last_p v) + AuSize_DEBLK * vd_last_i v"

text \<open>The conversion of a \<^verbatim>\<open>loff_t\<close> to \<^verbatim>\<open>int\<close>.\<close>

definition to_int :: "nat \<Rightarrow> int" where
  "to_int n = sint (of_nat n :: u32)"

text \<open>The entries of a block that begin before the position looked for; \<open>offset\<close> and the place in the block.\<close>

function seek_block :: "pmem \<Rightarrow> u32 \<Rightarrow> nat \<Rightarrow> nat \<Rightarrow> nat \<Rightarrow> nat \<times> nat" where
  "seek_block m b x offset pos =
     (if \<not> is_deblk_end m (b, x) \<and> offset < pos
      then let l = calc_size (str_len m (de_str (b, x))) in seek_block m b (x + l) (offset + l) pos
      else (x, offset))"
  by pat_completeness auto

lemma calc_size_ge: "6 + n \<le> calc_size n"
proof -
  have "(6 + n + 4) div 4 * 4 + (6 + n + 4) mod 4 = 6 + n + 4" by (rule div_mult_mod_eq)
  moreover have "(6 + n + 4) mod 4 < 4" by simp
  ultimately have "6 + n \<le> (6 + n + 4) div 4 * 4" by linarith
  then show ?thesis by (simp only: calc_size_def Let_def split: if_split) simp
qed

lemma calc_size_pos: "0 < calc_size n"
  using calc_size_ge[of n] by simp

lemma not_end_in_block: "\<not> is_deblk_end m (b, x) \<Longrightarrow> x < AuSize_DEBLK"
  by (simp add: is_deblk_end_def calc_size_def split: if_splits)

termination seek_block
  by (relation "measure (\<lambda>(m, b, x, offset, pos). AuSize_DEBLK - x)")
    (auto dest!: not_end_in_block simp: calc_size_pos diff_less_mono2)

declare seek_block.simps [simp del]

fun seek_blocks :: "nat \<Rightarrow> pmem \<Rightarrow> au_vdir \<Rightarrow> nat \<Rightarrow> nat \<Rightarrow> (nat \<times> deblk_p) option" where
  "seek_blocks 0 m v i pos = None"
| "seek_blocks (Suc n) m v i pos =
     (let b = the (vd_deblk v ! i); (x, offset) = seek_block m b 0 (i * AuSize_DEBLK) pos
      in if \<not> is_deblk_end m (b, x) then Some (i, b, x) else seek_blocks n m v (i + 1) pos)"

text \<open>\<open>None\<close> is an access before the start of the table of blocks.\<close>

definition seek_vdir :: "pmem \<Rightarrow> nat \<Rightarrow> au_vdir \<Rightarrow> (bool \<times> au_vdir) option" where
  "seek_vdir m pos v =
     (if pos = calc_offset v then Some (True, v)
      else
        let v = vd_rewind v
        in if pos = 0 then Some (True, v)
           else
             let i = to_int (pos div AuSize_DEBLK)
             in if i \<ge> int (vd_nblk v) then Some (False, v)
                else if i < 0 then None
                else case seek_blocks (vd_nblk v - nat i) m v (nat i) pos of
                       None \<Rightarrow> Some (False, v)
                     | Some (i, p) \<Rightarrow> Some (True, v\<lparr>vd_last_i := i, vd_last_p := p\<rparr>))"

text \<open>What \<^verbatim>\<open>filldir\<close> is called with; its answer may depend on what it has taken so far.\<close>

record dent =
  d_name :: name
  d_pos :: nat
  d_ino :: u32
  d_type :: u8

definition dent_at :: "pmem \<Rightarrow> deblk_p \<Rightarrow> nat \<Rightarrow> dent" where
  "dent_at m p pos = \<lparr>d_name = str_name m (de_str p), d_pos = pos, d_ino = de_ino m p, d_type = de_type m p\<rparr>"

function fill_loop :: "pmem \<Rightarrow> (dent list \<Rightarrow> dent \<Rightarrow> int) \<Rightarrow> u32 option list \<Rightarrow> nat \<Rightarrow> nat \<Rightarrow> nat \<Rightarrow> nat \<Rightarrow> dent list \<Rightarrow>
    (nat \<times> nat) \<times> nat \<times> dent list" where
  "fill_loop m filldir bs n i x pos taken =
     (let p = (the (bs ! i), x)
      in if \<not> is_deblk_end m p then
           let d = dent_at m p pos; l = calc_size (str_len m (de_str p))
           in if filldir taken d \<noteq> 0 then ((i, x), pos, taken)
              else fill_loop m filldir bs n i (x + l) (pos + l) (taken @ [d])
         else if i + 1 < n then fill_loop m filldir bs n (i + 1) 0 (AuSize_DEBLK * (i + 1)) taken
         else ((i, x), pos, taken))"
  by pat_completeness auto

termination fill_loop
  by (relation "measures [\<lambda>(m, f, bs, n, i, x, pos, t). n - i, \<lambda>(m, f, bs, n, i, x, pos, t). AuSize_DEBLK - x]")
    (auto dest!: not_end_in_block simp: calc_size_pos diff_less_mono2)

declare fill_loop.simps [simp del]

definition au_vdir_fill_de :: "pmem \<Rightarrow> (dent list \<Rightarrow> dent \<Rightarrow> int) \<Rightarrow> au_file \<Rightarrow> (dent list \<times> au_file) option" where
  "au_vdir_fill_de m filldir file =
     (case seek_vdir m (f_pos file) (the (fvdir_cache file)) of
        None \<Rightarrow> None
      | Some (valid, v) \<Rightarrow>
          if \<not> valid then Some ([], file\<lparr>fvdir_cache := Some v\<rparr>)
          else
            let ((i, x), pos, taken) = fill_loop m filldir (vd_deblk v) (vd_nblk v) (vd_last_i v) (snd (vd_last_p v)) (f_pos file) []
            in Some (taken, file\<lparr>f_pos := pos,
                 fvdir_cache := Some (v\<lparr>vd_last_i := i, vd_last_p := (the (vd_deblk v ! i), x)\<rparr>)\<rparr>))"

text \<open>
  \<^verbatim>\<open>aufs_readdir\<close> once the file and its dentry are locked and up to date: the result, what \<^verbatim>\<open>filldir\<close>
  has taken, and the state.
\<close>

definition aufs_readdir :: "vd_env \<Rightarrow> (dent list \<Rightarrow> dent \<Rightarrow> int) \<Rightarrow> au_file \<Rightarrow> dir_inode \<Rightarrow> vd_state \<Rightarrow>
    (int \<times> dent list \<times> au_file \<times> dir_inode \<times> vd_state) option" where
  "aufs_readdir env filldir file inode st =
     (case au_vdir_init env file inode st of
        None \<Rightarrow> None
      | Some (err, file, inode, st) \<Rightarrow>
          if err \<noteq> 0 then Some (err, [], file, inode, st)
          else
            case au_vdir_fill_de (vmem st) filldir file of
              None \<Rightarrow> None
            | Some (taken, file) \<Rightarrow> Some (0, taken, file, inode, st))"

end
