(* ===== verification/Aufs_Vdir_Blocks.thy ===== *)
theory Aufs_Vdir_Blocks
  imports Aufs_Vdir "HOL-Library.Multiset"
begin

text \<open>
  The blocks of a directory as a list of entries: what walking a block finds, and that appending an
  entry appends it to that list, leaves every entry and every other block as it was, and keeps the
  blocks in use exactly those of the directory.
\<close>

section \<open>Walking a block\<close>

definition de_size :: "pmem \<Rightarrow> deblk_p \<Rightarrow> nat" where
  "de_size m p = calc_size (str_len m (de_str p))"

text \<open>The entries \<open>ps\<close> lie one after the other from \<open>x\<close> to \<open>e\<close> in block \<open>b\<close>.\<close>

fun path :: "pmem \<Rightarrow> u32 \<Rightarrow> nat \<Rightarrow> deblk_p list \<Rightarrow> nat \<Rightarrow> bool" where
  "path m b x [] e \<longleftrightarrow> x = e"
| "path m b x (p # ps) e \<longleftrightarrow> p = (b, x) \<and> \<not> is_deblk_end m p \<and> x + de_size m p \<le> AuSize_DEBLK \<and>
     path m b (x + de_size m p) ps e"

definition de_at :: "pmem \<Rightarrow> deblk_p \<Rightarrow> name \<times> u32 \<times> u8" where
  "de_at m p = (str_name m (de_str p), de_ino m p, de_type m p)"

lemma de_size_ge: "str_len m (de_str p) + 6 \<le> de_size m p"
  using calc_size_ge[of "str_len m (de_str p)"] by (simp add: de_size_def)

lemma calc_size_0 [simp]: "calc_size 0 = 8"
  by (simp add: calc_size_def)

lemma path_le: "path m b x ps e \<Longrightarrow> x \<le> e \<and> (ps \<noteq> [] \<longrightarrow> e \<le> AuSize_DEBLK)"
proof (induction ps arbitrary: x)
  case (Cons p ps)
  then have "path m b (x + de_size m p) ps e" "x + de_size m p \<le> 512" by auto
  with Cons.IH[of "x + de_size m p"] show ?case by (cases ps) auto
qed simp

lemma path_append: "path m b x (ps @ qs) e \<longleftrightarrow> (\<exists>y. path m b x ps y \<and> path m b y qs e)"
  by (induction ps arbitrary: x) auto

lemma path_in: "path m b x ps e \<Longrightarrow> p \<in> set ps \<Longrightarrow> fst p = b \<and> x \<le> snd p \<and> snd p + de_size m p \<le> e"
proof (induction ps arbitrary: x)
  case (Cons q ps)
  show ?case
  proof (cases "p = q")
    case True
    then show ?thesis using Cons.prems path_le[of m b "x + de_size m q" ps e] by auto
  next
    case False
    then have "p \<in> set ps" using Cons.prems(2) by simp
    then show ?thesis using Cons.IH[of "x + de_size m q"] Cons.prems(1) by auto
  qed
qed simp

text \<open>An entry is read from its own bytes only.\<close>

lemma de_cong:
  assumes "\<And>i. snd p \<le> i \<Longrightarrow> i < snd p + de_size m p \<Longrightarrow> m' (fst p) i = m (fst p) i"
  shows "str_len m' (de_str p) = str_len m (de_str p)" "de_size m' p = de_size m p" "de_at m' p = de_at m p"
    "is_deblk_end m' p = is_deblk_end m p"
proof -
  note g = de_size_ge[of m p]
  show l: "str_len m' (de_str p) = str_len m (de_str p)" using assms[of "snd p + 5"] g by (simp add: str_len_def de_str_def)
  show "de_size m' p = de_size m p" by (simp add: de_size_def l)
  have "ld_bytes m' (fst p) (snd p + 6) (str_len m (de_str p)) = ld_bytes m (fst p) (snd p + 6) (str_len m (de_str p))"
    by (rule ld_bytes_cong) (use assms g in auto)
  moreover have "ld32 m' (fst p) (snd p) = ld32 m (fst p) (snd p)" by (rule ld32_cong) (use assms g in auto)
  moreover have "m' (fst p) (snd p + 4) = m (fst p) (snd p + 4)" using assms[of "snd p + 4"] g by simp
  moreover have "snd p + 5 + 1 = snd p + 6" by simp
  ultimately show "de_at m' p = de_at m p"
    using l unfolding de_at_def str_name_def de_ino_def de_type_def by (simp only: de_str_def fst_conv snd_conv)
  show "is_deblk_end m' p = is_deblk_end m p" using l by (simp add: is_deblk_end_def)
qed

lemma path_cong:
  assumes "path m b x ps e" "\<And>i. x \<le> i \<Longrightarrow> i < e \<Longrightarrow> m' b i = m b i"
  shows "path m' b x ps e" "p \<in> set ps \<Longrightarrow> de_at m' p = de_at m p"
proof -
  have c: "de_size m' q = de_size m q \<and> de_at m' q = de_at m q \<and> is_deblk_end m' q = is_deblk_end m q" if "q \<in> set ps" for q
  proof -
    have "m' (fst q) i = m (fst q) i" if i: "snd q \<le> i" "i < snd q + de_size m q" for i
      using path_in[OF assms(1) \<open>q \<in> set ps\<close>] assms(2)[of i] i by auto
    then show ?thesis using de_cong[of q m m'] by blast
  qed
  show "p \<in> set ps \<Longrightarrow> de_at m' p = de_at m p" using c by simp
  show "path m' b x ps e" using assms(1) c by (induction ps arbitrary: x) auto
qed

text \<open>The whole block.\<close>

function block_des :: "pmem \<Rightarrow> u32 \<Rightarrow> nat \<Rightarrow> deblk_p list" where
  "block_des m b x = (if is_deblk_end m (b, x) then [] else (b, x) # block_des m b (x + de_size m (b, x)))"
  by pat_completeness auto

termination block_des
  by (relation "measure (\<lambda>(m, b, x). AuSize_DEBLK - x)")
    (auto dest!: not_end_in_block simp: calc_size_pos de_size_def diff_less_mono2)

declare block_des.simps [simp del]

definition block_at :: "pmem \<Rightarrow> u32 \<Rightarrow> deblk_p list \<Rightarrow> nat \<Rightarrow> bool" where
  "block_at m b ps e \<longleftrightarrow> path m b 0 ps e \<and> is_deblk_end m (b, e) \<and> e \<le> AuSize_DEBLK"

definition block_wf :: "pmem \<Rightarrow> u32 \<Rightarrow> bool" where
  "block_wf m b \<longleftrightarrow> (\<exists>ps e. block_at m b ps e)"

lemma path_des: "path m b x ps e \<Longrightarrow> block_des m b x = ps @ block_des m b e"
proof (induction ps arbitrary: x)
  case (Cons p ps)
  then have "\<not> is_deblk_end m (b, x)" "p = (b, x)" by auto
  then have "block_des m b x = p # block_des m b (x + de_size m (b, x))" by (subst block_des.simps) simp
  then show ?case using Cons by auto
qed simp

lemma block_at_des: "block_at m b ps e \<Longrightarrow> block_des m b 0 = ps"
  using path_des[of m b 0 ps e] by (simp add: block_at_def) (simp add: block_des.simps[of m b e])

lemma block_at_cong:
  assumes "block_at m b ps e" "m' b = m b"
  shows "block_at m' b ps e" "p \<in> set ps \<Longrightarrow> de_at m' p = de_at m p"
proof -
  have p: "path m b 0 ps e" using assms(1) by (simp add: block_at_def)
  show "p \<in> set ps \<Longrightarrow> de_at m' p = de_at m p" by (rule path_cong(2)[OF p]) (simp_all add: assms(2))
  have "path m' b 0 ps e" by (rule path_cong(1)[OF p]) (simp add: assms(2))
  moreover have "is_deblk_end m' (b, e) = is_deblk_end m (b, e)" using assms(2) by (simp add: is_deblk_end_def str_len_def de_str_def)
  ultimately show "block_at m' b ps e" using assms(1) by (simp add: block_at_def)
qed

section \<open>The table of blocks\<close>

definition tbl_ok :: "au_vdir \<Rightarrow> bool" where
  "tbl_ok v \<longleftrightarrow> vd_nblk v \<le> length (vd_deblk v) \<and> (\<forall>i < vd_nblk v. vd_deblk v ! i \<noteq> None)"

definition blks :: "au_vdir \<Rightarrow> u32 list" where
  "blks v = map the (take (vd_nblk v) (vd_deblk v))"

definition vdir_des :: "pmem \<Rightarrow> au_vdir \<Rightarrow> deblk_p list" where
  "vdir_des m v = concat (map (\<lambda>b. block_des m b 0) (blks v))"

definition vdir_list :: "pmem \<Rightarrow> au_vdir \<Rightarrow> (name \<times> u32 \<times> u8) list" where
  "vdir_list m v = map (de_at m) (vdir_des m v)"

lemma blks_nth: "tbl_ok v \<Longrightarrow> i < vd_nblk v \<Longrightarrow> blks v ! i = the (vd_deblk v ! i)"
  by (simp add: blks_def tbl_ok_def)

lemma length_blks: "tbl_ok v \<Longrightarrow> length (blks v) = vd_nblk v"
  by (simp add: blks_def tbl_ok_def)

lemma blks_last: "tbl_ok v \<Longrightarrow> 0 < vd_nblk v \<Longrightarrow> last (blks v) = last_deblk v"
  using length_blks[of v] blks_nth[of v "vd_nblk v - 1"] by (subst last_conv_nth) (auto simp: last_deblk_def)

definition alloc_fresh :: "vd_env \<Rightarrow> bool" where
  "alloc_fresh env \<longleftrightarrow> (\<forall>t L a. alloc_blk env t L = Some a \<longrightarrow> a \<notin> set L)"

lemma append_deblk_spec:
  assumes "tbl_ok v" "alloc_fresh env" "append_deblk env v st = (err, v', st')"
  shows "tbl_ok v' \<and> xsb st' = xsb st \<and> vd_version v' = vd_version v \<and> vd_jiffy v' = vd_jiffy v \<and>
    (err = - ENOMEM \<and> blks v' = blks v \<and> vd_nblk v' = vd_nblk v \<and> vd_last_i v' = vd_last_i v \<and>
       vd_last_p v' = vd_last_p v \<and> vmem st' = vmem st \<and> live st' = live st \<or>
     err = 0 \<and> (\<exists>a. a \<notin> set (live st) \<and> blks v' = blks v @ [a] \<and> vd_nblk v' = Suc (vd_nblk v) \<and> vd_last_i v' = vd_nblk v \<and>
       vd_last_p v' = (a, 0) \<and> live st' = a # live st \<and> vmem st' = (vmem st)(a := (vmem st a)(5 := 0))))"
proof -
  have t: "vd_nblk v \<le> length (vd_deblk v)" "\<And>i. i < vd_nblk v \<Longrightarrow> vd_deblk v ! i \<noteq> None" using assms(1) by (auto simp: tbl_ok_def)
  have k: "au_kzrealloc (vd_deblk v) (vd_nblk v) (vd_nblk v + 1) = take (vd_nblk v) (vd_deblk v) @ [None]"
    by (simp add: au_kzrealloc_def)
  show ?thesis
  proof (cases "alloc_ok env (tick st)")
    case False
    then show ?thesis using assms(1,3) by (auto simp: append_deblk_def kmalloc_other_def)
  next
    case ok: True
    show ?thesis
    proof (cases "alloc_blk env (tick st + 1) (live st)")
      case None
      then show ?thesis using assms(1,3) ok t k
        by (auto simp: append_deblk_def kmalloc_other_def kmalloc_deblk_def tbl_ok_def blks_def nth_append)
    next
      case (Some a)
      then have a: "a \<notin> set (live st)" using assms(2) unfolding alloc_fresh_def by blast
      show ?thesis using assms(3) ok t k Some a
        by (auto simp: append_deblk_def kmalloc_other_def kmalloc_deblk_def tbl_ok_def blks_def nth_append set_deblk_end_def
            nth_list_update list_update_append less_Suc_eq Let_def)
    qed
  qed
qed

section \<open>Appending an entry\<close>

text \<open>The directory is being filled: every block is complete and the place to write to is the end of the last.\<close>

definition vdir_wf :: "vd_state \<Rightarrow> au_vdir \<Rightarrow> bool" where
  "vdir_wf st v \<longleftrightarrow> tbl_ok v \<and> 0 < vd_nblk v \<and> distinct (live st) \<and> distinct (blks v) \<and>
     set (blks v) \<subseteq> set (live st) \<and> (\<forall>b \<in> set (blks v). block_wf (vmem st) b)"

definition filling :: "vd_state \<Rightarrow> au_vdir \<Rightarrow> bool" where
  "filling st v \<longleftrightarrow> vdir_wf st v \<and> fst (vd_last_p v) = last (blks v) \<and>
     (\<exists>ps. block_at (vmem st) (last (blks v)) ps (snd (vd_last_p v)))"

text \<open>The entries \<open>qs\<close> are new; nothing else has changed.\<close>

definition extends :: "deblk_p list \<Rightarrow> vd_state \<Rightarrow> au_vdir \<Rightarrow> vd_state \<Rightarrow> au_vdir \<Rightarrow> bool" where
  "extends qs st v st' v' \<longleftrightarrow>
     (\<exists>new. blks v' = blks v @ new \<and> mset (live st') = mset (live st) + mset new) \<and>
     vdir_des (vmem st') v' = vdir_des (vmem st) v @ qs \<and>
     (\<forall>q \<in> set (vdir_des (vmem st) v). de_at (vmem st') q = de_at (vmem st) q) \<and>
     (\<forall>b. b \<notin> set (blks v') \<longrightarrow> vmem st' b = vmem st b)"

lemma extends_refl: "extends [] st v st v"
  by (simp add: extends_def)

lemma extends_trans:
  assumes "extends qs st v st1 v1" "extends rs st1 v1 st2 v2"
  shows "extends (qs @ rs) st v st2 v2"
proof -
  obtain n1 n2 where n: "blks v1 = blks v @ n1" "mset (live st1) = mset (live st) + mset n1"
    "blks v2 = blks v1 @ n2" "mset (live st2) = mset (live st1) + mset n2"
    using assms unfolding extends_def by blast
  have "\<exists>new. blks v2 = blks v @ new \<and> mset (live st2) = mset (live st) + mset new"
    by (rule exI[of _ "n1 @ n2"]) (simp add: n)
  moreover have "b \<notin> set (blks v2) \<Longrightarrow> vmem st2 b = vmem st b" for b
    using assms n(3) unfolding extends_def by auto
  ultimately show ?thesis using assms unfolding extends_def by auto
qed

lemma block_at_new: "block_at (m(a := (m a)(5 := 0))) a [] 0"
  by (simp add: block_at_def is_deblk_end_def str_len_def de_str_def)

lemma des_cong:
  assumes "\<And>b. b \<in> set bs \<Longrightarrow> block_wf m b" "\<And>b. b \<in> set bs \<Longrightarrow> m' b = m b"
  shows "concat (map (\<lambda>b. block_des m' b 0) bs) = concat (map (\<lambda>b. block_des m b 0) bs)"
    "q \<in> set (concat (map (\<lambda>b. block_des m b 0) bs)) \<Longrightarrow> de_at m' q = de_at m q"
    "b \<in> set bs \<Longrightarrow> block_wf m' b"
proof -
  have c: "block_des m' b 0 = block_des m b 0 \<and> (\<forall>q \<in> set (block_des m b 0). de_at m' q = de_at m q) \<and> block_wf m' b"
    if b: "b \<in> set bs" for b
  proof -
    obtain ps e where p: "block_at m b ps e" using assms(1)[OF b] by (auto simp: block_wf_def)
    note p' = block_at_cong[where m' = m', OF p assms(2)[OF b]]
    show ?thesis using block_at_des[OF p] block_at_des[OF p'(1)] p' by (auto simp: block_wf_def)
  qed
  show "concat (map (\<lambda>b. block_des m' b 0) bs) = concat (map (\<lambda>b. block_des m b 0) bs)" using c by (auto intro: arg_cong[of _ _ concat])
  show "q \<in> set (concat (map (\<lambda>b. block_des m b 0) bs)) \<Longrightarrow> de_at m' q = de_at m q" using c by auto
  show "b \<in> set bs \<Longrightarrow> block_wf m' b" using c by blast
qed

lemma append_deblk_filling:
  assumes "filling st v" "alloc_fresh env" "append_deblk env v st = (err, v', st')"
  shows "filling st' v' \<and> extends [] st v st' v' \<and> xsb st' = xsb st \<and> vd_version v' = vd_version v \<and>
    (err = - ENOMEM \<and> vd_last_p v' = vd_last_p v \<or> err = 0 \<and> snd (vd_last_p v') = 0)"
proof -
  have w: "tbl_ok v" "0 < vd_nblk v" "distinct (live st)" "distinct (blks v)" "set (blks v) \<subseteq> set (live st)"
    "\<And>b. b \<in> set (blks v) \<Longrightarrow> block_wf (vmem st) b" "fst (vd_last_p v) = last (blks v)"
    "\<exists>ps. block_at (vmem st) (last (blks v)) ps (snd (vd_last_p v))"
    using assms(1) by (auto simp: filling_def vdir_wf_def)
  note sp = append_deblk_spec[OF w(1) assms(2,3)]
  show ?thesis
  proof (cases "err = 0")
    case False
    then show ?thesis using sp w by (auto simp: filling_def vdir_wf_def extends_def vdir_des_def)
  next
    case True
    then obtain a where a: "a \<notin> set (live st)" "blks v' = blks v @ [a]" "vd_nblk v' = Suc (vd_nblk v)"
      "vd_last_p v' = (a, 0)" "live st' = a # live st" "vmem st' = (vmem st)(a := (vmem st a)(5 := 0))"
      using sp by auto
    have na: "a \<notin> set (blks v)" using a(1) w(5) by auto
    have fr: "b \<in> set (blks v) \<Longrightarrow> vmem st' b = vmem st b" for b using na a(6) by auto
    have b0: "block_at (vmem st') a [] 0" unfolding a(6) by (rule block_at_new)
    note dc = des_cong[of "blks v" "vmem st" "vmem st'", OF w(6) fr]
    have "filling st' v'" using sp w a na b0 dc(3) by (auto simp: filling_def vdir_wf_def block_wf_def)
    moreover have "extends [] st v st' v'" unfolding extends_def vdir_des_def
      using a dc(1,2) block_at_des[OF b0] by (auto intro!: exI[of _ "[a]"])
    ultimately show ?thesis using True a sp by auto
  qed
qed

lemma st_de_reads:
  assumes "0 < length name" "length name \<le> 255"
  shows "de_at (st_de p ino ty name m) p = (name, ino, ty)" "str_len (st_de p ino ty name m) (de_str p) = length name"
    "b \<noteq> fst p \<or> i < snd p \<or> snd p + 6 + length name \<le> i \<Longrightarrow> st_de p ino ty name m b i = m b i"
proof -
  obtain b x where p: "p = (b, x)" by (cases p)
  let ?m1 = "st32 m b x ino"
  let ?m2 = "?m1(b := (?m1 b)(x + 4 := ty, x + 5 := of_nat (length name)))"
  define M where "M = st_bytes ?m2 b (x + 6) name"
  have m: "st_de p ino ty name m = M" by (simp add: st_de_def p Let_def M_def)
  have lo: "M b i = ?m2 b i" if "i < x + 6" for i using that by (simp add: st_bytes_byte M_def)
  have "unat (of_nat (length name) :: u8) = length name" using assms(2) by (simp add: unat_of_nat take_bit_nat_eq_self)
  then show l: "str_len (st_de p ino ty name m) (de_str p) = length name" unfolding m using lo[of "x + 5"]
    by (simp add: str_len_def de_str_def p)
  have "ld32 M b x = ld32 ?m1 b x" by (rule ld32_cong) (use lo in auto)
  then have i: "de_ino M p = ino" by (simp add: de_ino_def p)
  have "x + 5 + 1 = x + 6" by simp
  then have "ld_bytes M b (x + 5 + 1) (length name) = name" unfolding M_def by (simp only: ld_bytes_st_bytes_same)
  then have "str_name M (de_str p) = name" using l unfolding m str_name_def by (simp only: p de_str_def fst_conv snd_conv)
  then show "de_at (st_de p ino ty name m) p = (name, ino, ty)"
    using i lo[of "x + 4"] unfolding m by (simp add: de_at_def de_type_def p)
  show "st_de p ino ty name m b' i = m b' i" if "b' \<noteq> fst p \<or> i < snd p \<or> snd p + 6 + length name \<le> i" for b' i
    unfolding m M_def using that by (auto simp: p st_bytes_byte st32_byte)
qed

lemma calc_size_ge_8: "0 < n \<Longrightarrow> 8 \<le> calc_size n"
  using calc_size_ge[of n] by (cases "n = 1") (simp_all add: calc_size_def)

lemma calc_size_le: "calc_size n \<le> n + 10"
proof -
  have "(6 + n + 4) div 4 * 4 \<le> 6 + n + 4" by (rule div_times_less_eq_dividend)
  then show ?thesis unfolding calc_size_def Let_def by (cases "(6 + n) mod 4 \<noteq> 0") simp_all
qed

text \<open>The entry goes to the end of a block that has room for it.\<close>

lemma write_entry_block:
  assumes "block_at m b ps x" "0 < length name" "length name \<le> 255" "x + calc_size (length name) \<le> AuSize_DEBLK"
    "set_deblk_end (b, x + calc_size (length name)) (st_de (b, x) ino ty name m) = (e, m')"
  shows "block_at m' b (ps @ [(b, x)]) (x + calc_size (length name))" "de_at m' (b, x) = (name, ino, ty)"
    "q \<in> set ps \<Longrightarrow> de_at m' q = de_at m q" "b' \<noteq> b \<Longrightarrow> m' b' = m b'" "e = 0 \<or> e = -1"
proof -
  let ?sz = "calc_size (length name)" and ?m1 = "st_de (b, x) ino ty name m"
  note rd = st_de_reads[OF assms(2,3), where p = "(b, x)" and ino = ino and ty = ty and m = m]
  note sz = calc_size_ge[of "length name"] calc_size_ge_8[OF assms(2)]
  have m': "m' = (if x + ?sz + 8 \<le> 512 then ?m1(b := (?m1 b)(x + ?sz + 5 := 0)) else ?m1)" and e: "e = 0 \<or> e = -1"
    using assms(5) by (auto simp: set_deblk_end_def split: if_splits)
  show "e = 0 \<or> e = -1" by (rule e)
  show "b' \<noteq> b \<Longrightarrow> m' b' = m b'" by (rule ext) (simp add: m' rd(3))
  have lo: "m' b i = ?m1 b i" if "i < x + ?sz" for i using that by (simp add: m')
  have lo0: "m' b i = m b i" if "i < x" for i using that lo[of i] by (simp add: rd(3))
  have p: "path m b 0 ps x" using assms(1) by (simp add: block_at_def)
  show "q \<in> set ps \<Longrightarrow> de_at m' q = de_at m q" by (rule path_cong(2)[OF p]) (simp_all add: lo0)
  have s1: "de_size ?m1 (b, x) = ?sz" by (simp add: de_size_def rd(2))
  have c: "de_at m' (b, x) = de_at ?m1 (b, x)" "de_size m' (b, x) = ?sz" "str_len m' (de_str (b, x)) = length name"
    using de_cong[of "(b, x)" ?m1 m'] lo s1 rd(2) by auto
  show "de_at m' (b, x) = (name, ino, ty)" using c(1) rd(1) by simp
  have "path m' b 0 ps x" by (rule path_cong(1)[OF p]) (simp add: lo0)
  moreover have "\<not> is_deblk_end m' (b, x)" using c(3) assms(2,4) sz by (simp add: is_deblk_end_def)
  moreover have "is_deblk_end m' (b, x + ?sz)" by (simp add: is_deblk_end_def m' str_len_def de_str_def)
  ultimately show "block_at m' b (ps @ [(b, x)]) (x + ?sz)"
    using assms(4) c(2) by (auto simp: block_at_def path_append)
qed

lemma write_last:
  assumes "filling st v" "vd_last_p v = (b, x)" "block_at (vmem st) b ps x" "block_at (vmem st') b (ps @ [p]) x'"
    "\<And>q. q \<in> set ps \<Longrightarrow> de_at (vmem st') q = de_at (vmem st) q" "\<And>b'. b' \<noteq> b \<Longrightarrow> vmem st' b' = vmem st b'"
    "live st' = live st"
  shows "filling st' (v\<lparr>vd_last_p := (b, x')\<rparr>)" "extends [p] st v st' (v\<lparr>vd_last_p := (b, x')\<rparr>)"
proof -
  let ?v = "v\<lparr>vd_last_p := (b, x')\<rparr>"
  have w: "tbl_ok v" "0 < vd_nblk v" "distinct (live st)" "distinct (blks v)" "set (blks v) \<subseteq> set (live st)"
    "\<And>b. b \<in> set (blks v) \<Longrightarrow> block_wf (vmem st) b" "b = last (blks v)"
    using assms(1,2) by (auto simp: filling_def vdir_wf_def)
  have v: "blks ?v = blks v" "tbl_ok ?v" "vd_nblk ?v = vd_nblk v" using w(1) by (simp_all add: blks_def tbl_ok_def)
  have ne: "blks v \<noteq> []" using length_blks[OF w(1)] w(2) by auto
  define bs where "bs = butlast (blks v)"
  have s: "blks v = bs @ [b]" using ne w(7) by (simp add: bs_def)
  have nb: "b \<notin> set bs" using w(4) s by simp
  have fr: "b' \<in> set bs \<Longrightarrow> vmem st' b' = vmem st b'" for b' using nb assms(6) by metis
  have wfs: "b' \<in> set bs \<Longrightarrow> block_wf (vmem st) b'" for b' using w(6) s by simp
  note dc = des_cong[of bs "vmem st" "vmem st'", OF wfs fr]
  have "block_wf (vmem st') b" using assms(4) by (auto simp: block_wf_def)
  then have "b' \<in> set (blks v) \<Longrightarrow> block_wf (vmem st') b'" for b' using s dc(3) by auto
  then show "filling st' ?v" unfolding filling_def vdir_wf_def v(1,3) assms(7) using w assms(4) v(2) by auto
  have "extends [p] st v st' ?v \<longleftrightarrow> vdir_des (vmem st') v = vdir_des (vmem st) v @ [p] \<and>
     (\<forall>q \<in> set (vdir_des (vmem st) v). de_at (vmem st') q = de_at (vmem st) q) \<and>
     (\<forall>b'. b' \<notin> set (blks v) \<longrightarrow> vmem st' b' = vmem st b')"
    unfolding extends_def vdir_des_def v by (simp add: assms(7))
  moreover have "vdir_des (vmem st') v = vdir_des (vmem st) v @ [p]"
    unfolding vdir_des_def s using dc(1) block_at_des[OF assms(3)] block_at_des[OF assms(4)] by simp
  moreover have "\<forall>q \<in> set (vdir_des (vmem st) v). de_at (vmem st') q = de_at (vmem st) q"
    unfolding vdir_des_def s using dc(2) block_at_des[OF assms(3)] assms(5) by auto
  moreover have "\<forall>b'. b' \<notin> set (blks v) \<longrightarrow> vmem st' b' = vmem st b'" using assms(6) s by auto
  ultimately show "extends [p] st v st' ?v" by simp
qed

lemma filling_tick: "filling (st\<lparr>tick := t\<rparr>) v = filling st v" "extends qs st v (st'\<lparr>tick := t\<rparr>) v' = extends qs st v st' v'"
  "extends qs (st\<lparr>tick := t\<rparr>) v st' v' = extends qs st v st' v'"
  by (simp_all add: filling_def vdir_wf_def extends_def)

text \<open>What appending an entry does, whatever the answers of the memory allocator.\<close>

lemma append_de_filling:
  assumes "filling st v" "alloc_fresh env" "0 < length name" "length name \<le> 255"
    "append_de env v name ino ty dl st = (err, v', dl', st')"
  shows "filling st' v' \<and> xsb st' = xsb st \<and> vd_version v' = vd_version v \<and> (err = 0 \<or> err = - ENOMEM) \<and>
    (err \<noteq> 0 \<and> dl' = dl \<and> extends [] st v st' v' \<or>
     (\<exists>p. extends [p] st v st' v' \<and> de_at (vmem st') p = (name, ino, ty) \<and>
        dl' = hlist_add_head (de_str p) (au_name_hash env name) dl))"
proof -
  let ?sz = "calc_size (length name)"
  have szle: "?sz \<le> 512" using calc_size_le[of "length name"] assms(4) by linarith
  obtain e1 v1 st1 where a1: "(if ?sz > 512 - snd (vd_last_p v) then append_deblk env v st else (0, v, st)) = (e1, v1, st1)"
    by (metis prod_cases3)
  have f1: "filling st1 v1 \<and> extends [] st v st1 v1 \<and> xsb st1 = xsb st \<and> vd_version v1 = vd_version v \<and>
      (e1 = 0 \<and> snd (vd_last_p v1) + ?sz \<le> 512 \<or> e1 = - ENOMEM)"
  proof (cases "?sz > 512 - snd (vd_last_p v)")
    case True
    then show ?thesis using append_deblk_filling[OF assms(1,2), of e1 v1 st1] a1 szle by auto
  next
    case False
    have "snd (vd_last_p v) \<le> 512" using assms(1) by (auto simp: filling_def block_at_def)
    with False show ?thesis using a1 assms(1) extends_refl[of st v] by auto
  qed
  show ?thesis
  proof (cases "e1 = 0 \<and> alloc_ok env (tick st1)")
    case False
    then have "err \<noteq> 0 \<and> err = - ENOMEM \<and> dl' = dl \<and> v' = v1 \<and> (st' = st1 \<or> st' = st1\<lparr>tick := tick st1 + 1\<rparr>)"
      using assms(5) a1 f1 by (auto simp: append_de_def kmalloc_other_def Let_def split: if_splits)
    then show ?thesis using f1 by (auto simp: filling_tick)
  next
    case True
    obtain b x where bx: "vd_last_p v1 = (b, x)" by (cases "vd_last_p v1")
    have b: "b = last (blks v1)" using f1 bx by (simp add: filling_def)
    obtain ps where ps: "block_at (vmem st1) b ps x" using f1 bx by (auto simp: filling_def)
    obtain e2 m where m: "set_deblk_end (b, x + ?sz) (st_de (b, x) ino ty name (vmem st1)) = (e2, m)" by fastforce
    have fit: "x + ?sz \<le> 512" using f1 True bx by auto
    note we = write_entry_block[OF ps assms(3,4) fit m]
    let ?st2 = "st1\<lparr>tick := tick st1 + 1, vmem := m\<rparr>" and ?v2 = "v1\<lparr>vd_last_p := (b, x + ?sz)\<rparr>"
    have wl: "filling ?st2 ?v2" "extends [(b, x)] st1 v1 ?st2 ?v2"
      using write_last[where st' = ?st2, OF _ bx ps] f1 we by auto
    have ex2: "extends [(b, x)] st v ?st2 ?v2" using extends_trans[OF _ wl(2)] f1 by fastforce
    have dl: "dl' = hlist_add_head (de_str (b, x)) (au_name_hash env name) dl"
      and r: "(if e2 \<noteq> 0 then append_deblk env ?v2 ?st2 else (0, ?v2, ?st2)) = (err, v', st')"
      using assms(5) a1 True m bx by (auto simp: append_de_def kmalloc_other_def Let_def split: prod.splits)
    show ?thesis
    proof (cases "e2 = 0")
      case True
      then have "err = 0" "v' = ?v2" "st' = ?st2" using r by auto
      then show ?thesis using wl(1) ex2 we(2) dl f1 by auto
    next
      case False
      then have r: "append_deblk env ?v2 ?st2 = (err, v', st')" using r by simp
      note ad = append_deblk_filling[OF wl(1) assms(2) r]
      then have ex3: "extends ([(b, x)] @ []) st v st' v'" by (intro extends_trans[OF ex2]) simp
      have "(b, x) \<in> set (vdir_des (vmem ?st2) ?v2)" using ex2 by (simp add: extends_def)
      then have "de_at (vmem st') (b, x) = de_at (vmem ?st2) (b, x)" using ad unfolding extends_def by blast
      then have "de_at (vmem st') (b, x) = (name, ino, ty)" using we(2) by simp
      then show ?thesis using ad ex3 dl f1 by auto
    qed
  qed
qed

end
