(* ===== verification/Aufs_Vdir_Read.thy ===== *)
theory Aufs_Vdir_Read
  imports Aufs_Vdir_Blocks Aufs_Xino_Run
begin

text \<open>
  Merging the branches: the lists of names known so far decide what an entry does, so that the
  entries collected are those of the union. First the hash lists, then one entry, one call of a
  lower \<^verbatim>\<open>readdir\<close>, one branch and all branches.
\<close>

section \<open>The union\<close>

definition visible :: "name set \<Rightarrow> lde list \<Rightarrow> lde list" where
  "visible K ds = filter (\<lambda>d. \<not> is_wh_name (l_name d) \<and> l_name d \<notin> K) ds"

definition whiteouts :: "lde list \<Rightarrow> name set" where
  "whiteouts ds = (\<lambda>d. drop (length WH_PFX) (l_name d)) ` {d \<in> set ds. is_wh_name (l_name d)}"

text \<open>
  From branch \<open>b\<close> down, every entry with its branch; \<open>K\<close> are the names that a branch above shows or
  has whited out.
\<close>

fun union_list :: "name set \<Rightarrow> nat \<Rightarrow> lde list list \<Rightarrow> (nat \<times> lde) list" where
  "union_list K b [] = []"
| "union_list K b (ds # dss) =
     map (Pair b) (visible K ds) @ union_list (K \<union> l_name ` set (visible K ds) \<union> whiteouts ds) (b + 1) dss"

text \<open>The numbers that entries get one after the other, and an entry with its number.\<close>

fun assign_inos :: "(nat \<times> lde) list \<Rightarrow> au_sbinfo \<Rightarrow> (u32 list \<times> au_sbinfo) option" where
  "assign_inos [] s = Some ([], s)"
| "assign_inos ((b, d) # ds) s =
     (case au_ino (int b) (ucast (l_ino d)) s of
        None \<Rightarrow> None
      | Some (err, ino, s) \<Rightarrow>
          if err \<noteq> 0 then None
          else (case assign_inos ds s of None \<Rightarrow> None | Some (inos, s) \<Rightarrow> Some (ino # inos, s)))"

definition de_of :: "nat \<times> lde \<Rightarrow> u32 \<Rightarrow> name \<times> u32 \<times> u8" where
  "de_of d ino = (l_name (snd d), ino, l_type (snd d))"

lemma assign_append: "assign_inos (ds @ es) s =
    (case assign_inos ds s of None \<Rightarrow> None
     | Some (is, s) \<Rightarrow> (case assign_inos es s of None \<Rightarrow> None | Some (js, s) \<Rightarrow> Some (is @ js, s)))"
  by (induction ds s rule: assign_inos.induct) (auto split: option.splits)

lemma assign_length: "assign_inos ds s = Some (inos, s') \<Longrightarrow> length inos = length ds"
  by (induction ds s arbitrary: inos rule: assign_inos.induct) (auto split: option.splits if_splits)

text \<open>What the lower directory of a branch holds: the calls up to the first that brings no entry.\<close>

definition dir_entries :: "(lde list \<times> int) list \<Rightarrow> lde list" where
  "dir_entries cs = concat (map fst (takeWhile (\<lambda>c. fst c \<noteq> []) cs))"

definition branch_entries :: "(nat \<Rightarrow> h_dir option) \<Rightarrow> nat \<Rightarrow> lde list" where
  "branch_entries hf b = (case hf b of None \<Rightarrow> [] | Some h \<Rightarrow> dir_entries (h_calls h))"

definition name_ok :: "name \<Rightarrow> bool" where
  "name_ok n \<longleftrightarrow> 0 < length n \<and> length n \<le> 255"

definition dir_ok :: "(nat \<Rightarrow> h_dir option) \<Rightarrow> bool" where
  "dir_ok hf \<longleftrightarrow> (\<forall>b h. hf b = Some h \<longrightarrow> (\<forall>(ds, e) \<in> set (h_calls h). \<forall>d \<in> set ds. name_ok (l_name d)))"

lemma length_WH_PFX [simp]: "length WH_PFX = 4"
  by (simp add: WH_PFX_def AUFS_WH_PFX_def)

section \<open>Hash lists\<close>

lemma name_hash_lt: "au_name_hash env name < 32"
  by (simp add: au_name_hash_def)

lemma test_known_iff: "test_known env m dl name \<longleftrightarrow> (\<exists>p \<in> set (dl ! au_name_hash env name). str_name m p = name)"
  unfolding test_known_def list_ex_iff by (metis length_ld_bytes str_name_def)

lemma add_head_nth: "length hs = 32 \<Longrightarrow> i < 32 \<Longrightarrow> hlist_add_head x i hs ! j = (if j = i then x # hs ! i else hs ! j)"
  by (auto simp: hlist_add_head_def nth_list_update)

lemma length_add_head [simp]: "length (hlist_add_head x i hs) = length hs"
  by (simp add: hlist_add_head_def)

lemma length_nhash_init [simp]: "length au_nhash_init = 32"
  by (simp add: au_nhash_init_def)

lemma nhash_init_nth [simp]: "i < 32 \<Longrightarrow> au_nhash_init ! i = []"
  by (simp add: au_nhash_init_def)

text \<open>The pointers of a hash list lead to entries of the directory.\<close>

definition refs_ok :: "pmem \<Rightarrow> au_vdir \<Rightarrow> deblk_p nhash \<Rightarrow> bool" where
  "refs_ok m v dl \<longleftrightarrow> length dl = 32 \<and> (\<forall>b \<in> set dl. \<forall>p \<in> set b. p \<in> de_str ` set (vdir_des m v))"

lemma str_name_de_at: "str_name m (de_str p) = fst (de_at m p)"
  by (simp add: de_at_def)

lemma refs_ok_extends:
  assumes "refs_ok (vmem st) v dl" "extends qs st v st' v'"
  shows "refs_ok (vmem st') v' dl" "test_known env (vmem st') dl name = test_known env (vmem st) dl name"
proof -
  have e: "set (vdir_des (vmem st) v) \<subseteq> set (vdir_des (vmem st') v')"
    "\<And>q. q \<in> set (vdir_des (vmem st) v) \<Longrightarrow> de_at (vmem st') q = de_at (vmem st) q" using assms(2) by (auto simp: extends_def)
  show "refs_ok (vmem st') v' dl" using assms(1) e(1) unfolding refs_ok_def by blast
  have "dl ! au_name_hash env name \<in> set dl" using assms(1) name_hash_lt by (simp add: refs_ok_def)
  then have r: "p \<in> set (dl ! au_name_hash env name) \<Longrightarrow> p \<in> de_str ` set (vdir_des (vmem st) v)" for p
    using assms(1) unfolding refs_ok_def by blast
  have "str_name (vmem st') p = str_name (vmem st) p" if p: "p \<in> set (dl ! au_name_hash env name)" for p
  proof -
    obtain q where "p = de_str q" "q \<in> set (vdir_des (vmem st) v)" using r[OF p] by blast
    then show ?thesis using e(2)[of q] by (simp add: str_name_de_at)
  qed
  then show "test_known env (vmem st') dl name = test_known env (vmem st) dl name" unfolding test_known_iff by auto
qed

lemma refs_ok_add:
  assumes "refs_ok m v dl" "p \<in> set (vdir_des m v)" "fst (de_at m p) = nm"
  shows "refs_ok m v (hlist_add_head (de_str p) (au_name_hash env nm) dl)"
    "test_known env m (hlist_add_head (de_str p) (au_name_hash env nm) dl) name \<longleftrightarrow> name = nm \<or> test_known env m dl name"
proof -
  have l: "length dl = 32" using assms(1) by (simp add: refs_ok_def)
  have "dl ! au_name_hash env nm \<in> set dl" using l name_hash_lt by simp
  then have "\<forall>q \<in> set (de_str p # dl ! au_name_hash env nm). q \<in> de_str ` set (vdir_des m v)"
    using assms(1,2) unfolding refs_ok_def by auto
  then show "refs_ok m v (hlist_add_head (de_str p) (au_name_hash env nm) dl)"
    using assms(1) unfolding refs_ok_def hlist_add_head_def by (auto dest!: set_update_subset_insert[THEN subsetD])
  have s: "str_name m (de_str p) = nm" using assms(3) by (simp add: str_name_de_at)
  show "test_known env m (hlist_add_head (de_str p) (au_name_hash env nm) dl) name \<longleftrightarrow> name = nm \<or> test_known env m dl name"
    using add_head_nth[OF l name_hash_lt] s unfolding test_known_iff by (auto split: if_splits)
qed

lemma refs_ok_init: "refs_ok m v au_nhash_init" "\<not> test_known env m au_nhash_init name"
  using name_hash_lt[of env name] by (auto simp: refs_ok_def test_known_iff au_nhash_init_def)

lemma known_wh_add:
  assumes "length wl = 32" "wh_str w = nm"
  shows "au_nhash_test_known_wh env (hlist_add_head w (au_name_hash env nm) wl) name \<longleftrightarrow>
    name = nm \<or> au_nhash_test_known_wh env wl name"
  using add_head_nth[OF assms(1) name_hash_lt] assms(2) by (auto simp: au_nhash_test_known_wh_def list_ex_iff)

lemma known_wh_init: "\<not> au_nhash_test_known_wh env au_nhash_init name"
  using name_hash_lt[of env name] by (simp add: au_nhash_test_known_wh_def au_nhash_init_def)

definition whs_ok :: "au_vdir_wh nhash \<Rightarrow> bool" where
  "whs_ok wl \<longleftrightarrow> length wl = 32 \<and> (\<forall>b \<in> set wl. \<forall>w \<in> set b. length (wh_str w) \<le> 251)"

lemma whs_ok_add: "whs_ok wl \<Longrightarrow> length (wh_str w) \<le> 251 \<Longrightarrow> i < 32 \<Longrightarrow> whs_ok (hlist_add_head w i wl)"
  unfolding whs_ok_def hlist_add_head_def by (auto dest!: set_update_subset_insert[THEN subsetD]) (metis nth_mem)

lemma whs_ok_init: "whs_ok au_nhash_init"
  by (simp add: whs_ok_def au_nhash_init_def)

section \<open>One entry\<close>

text \<open>The clock of the directory and the inode numbers are of no account to the blocks.\<close>

lemma vd_frame [simp]:
  "blks (v\<lparr>vd_jiffy := j\<rparr>) = blks v" "tbl_ok (v\<lparr>vd_jiffy := j\<rparr>) = tbl_ok v"
  "vdir_des m (v\<lparr>vd_jiffy := j\<rparr>) = vdir_des m v" "vdir_list m (v\<lparr>vd_jiffy := j\<rparr>) = vdir_list m v"
  "filling st (v\<lparr>vd_jiffy := j\<rparr>) = filling st v" "refs_ok m (v\<lparr>vd_jiffy := j\<rparr>) dl = refs_ok m v dl"
  "extends qs st v st' (v'\<lparr>vd_jiffy := j\<rparr>) = extends qs st v st' v'" "filling (st\<lparr>xsb := s\<rparr>) v = filling st v"
  "extends qs st v (st'\<lparr>xsb := s\<rparr>) v' = extends qs st v st' v'" "extends qs (st\<lparr>xsb := s\<rparr>) v st' v' = extends qs st v st' v'"
  "filling (st\<lparr>tick := k\<rparr>) v = filling st v" "extends qs st v (st'\<lparr>tick := k\<rparr>) v' = extends qs st v st' v'"
  by (simp_all add: blks_def tbl_ok_def vdir_des_def vdir_list_def filling_def vdir_wf_def refs_ok_def extends_def)

definition arg_ok :: "nat \<Rightarrow> vd_state \<Rightarrow> fillvdir_arg \<Rightarrow> bool" where
  "arg_ok len st arg \<longleftrightarrow> filling st (a_vdir arg) \<and> length (a_delist arg) = len \<and> length (a_whlist arg) = len \<and>
     (\<forall>dl \<in> set (a_delist arg). refs_ok (vmem st) (a_vdir arg) dl) \<and> (\<forall>wl \<in> set (a_whlist arg). whs_ok wl)"

definition hides :: "vd_env \<Rightarrow> vd_state \<Rightarrow> fillvdir_arg \<Rightarrow> nat \<Rightarrow> name \<Rightarrow> bool" where
  "hides env st arg b name \<longleftrightarrow> test_known env (vmem st) (a_delist arg ! b) name \<or>
     au_nhash_test_known_wh env (a_whlist arg ! b) name"

text \<open>While branch \<open>b\<close> is read: \<open>K\<close> is hidden by the branches above, \<open>N\<close> shown and \<open>W\<close> whited out by this one.\<close>

definition reading :: "vd_env \<Rightarrow> nat \<Rightarrow> nat \<Rightarrow> name set \<Rightarrow> name set \<Rightarrow> name set \<Rightarrow> vd_state \<Rightarrow> fillvdir_arg \<Rightarrow> bool" where
  "reading env len b K N W st arg \<longleftrightarrow> arg_ok len st arg \<and> b < len \<and>
     (\<forall>name. (\<exists>c < b. hides env st arg c name) \<longleftrightarrow> name \<in> K) \<and>
     (\<forall>name. test_known env (vmem st) (a_delist arg ! b) name \<longleftrightarrow> name \<in> N) \<and>
     (\<forall>name. au_nhash_test_known_wh env (a_whlist arg ! b) name \<longleftrightarrow> name \<in> W) \<and>
     (\<forall>c. b < c \<and> c < len \<longrightarrow> a_delist arg ! c = au_nhash_init \<and> a_whlist arg ! c = au_nhash_init)"

lemma reading_jiffy [simp]:
  "reading env len b K N W st (arg\<lparr>a_vdir := (a_vdir arg)\<lparr>vd_jiffy := j\<rparr>\<rparr>) = reading env len b K N W st arg"
  "arg_ok len st (arg\<lparr>a_vdir := (a_vdir arg)\<lparr>vd_jiffy := j\<rparr>\<rparr>) = arg_ok len st arg"
  "reading env len b K N W st (arg\<lparr>a_err := e\<rparr>) = reading env len b K N W st arg" "arg_ok len st (arg\<lparr>a_err := e\<rparr>) = arg_ok len st arg"
  "arg_ok len (st\<lparr>xsb := s\<rparr>) arg = arg_ok len st arg" "arg_ok len (st\<lparr>tick := k\<rparr>) arg = arg_ok len st arg"
  "reading env len b K N W (st\<lparr>xsb := s\<rparr>) arg = reading env len b K N W st arg"
  "reading env len b K N W (st\<lparr>tick := k\<rparr>) arg = reading env len b K N W st arg"
  by (simp_all add: reading_def arg_ok_def hides_def)

text \<open>The directory grows, one list of names with it.\<close>

lemma arg_ok_extends:
  assumes "arg_ok len st arg" "extends qs st (a_vdir arg) st' v" "filling st' v" "refs_ok (vmem st') v dl"
  shows "arg_ok len st' (arg\<lparr>a_err := e, a_vdir := v, a_delist := (a_delist arg)[b := dl]\<rparr>)"
proof -
  have "x \<in> set ((a_delist arg)[b := dl]) \<Longrightarrow> refs_ok (vmem st') v x" for x
    using assms(1,4) refs_ok_extends(1)[OF _ assms(2)] unfolding arg_ok_def by (auto dest!: set_update_subset_insert[THEN subsetD])
  then show ?thesis using assms(1,3) by (simp add: arg_ok_def)
qed

lemma hides_extends:
  assumes "arg_ok len st arg" "extends qs st (a_vdir arg) st' v" "c < len" "c \<noteq> b"
  shows "hides env st' (arg\<lparr>a_err := e, a_vdir := v, a_delist := (a_delist arg)[b := dl]\<rparr>) c name = hides env st arg c name"
  using assms refs_ok_extends(2)[OF _ assms(2), of "a_delist arg ! c" env name] unfolding arg_ok_def hides_def by simp

text \<open>What is left to do when an entry has been dealt with: the clock.\<close>

definition fill_out :: "vd_env \<Rightarrow> fillvdir_arg \<Rightarrow> fillvdir_arg" where
  "fill_out env arg = (if a_err arg = 0 then arg\<lparr>a_vdir := (a_vdir arg)\<lparr>vd_jiffy := jiffies env\<rparr>\<rparr> else arg)"

lemma fill_out_simps [simp]:
  "reading env len b K N W st (fill_out env' arg) = reading env len b K N W st arg"
  "arg_ok len st (fill_out env' arg) = arg_ok len st arg" "a_err (fill_out env' arg) = a_err arg"
  "extends qs st v st' (a_vdir (fill_out env' arg)) = extends qs st v st' (a_vdir arg)"
  "vd_version (a_vdir (fill_out env' arg)) = vd_version (a_vdir arg)"
  by (simp_all add: fill_out_def)

lemma known_above: "reading env len b K N W st arg \<Longrightarrow>
    list_ex (\<lambda>c. test_known env (vmem st) (a_delist arg ! c) name \<or> au_nhash_test_known_wh env (a_whlist arg ! c) name) [0..<b]
    \<longleftrightarrow> name \<in> K"
  by (simp add: reading_def list_ex_iff hides_def) (metis atLeast0LessThan lessThan_iff)

lemma known_wh_here: "reading env len b K N W st arg \<Longrightarrow>
    list_ex (\<lambda>c. au_nhash_test_known_wh env (a_whlist arg ! b) name) [0..<b] \<longleftrightarrow> 0 < b \<and> name \<in> W"
  by (auto simp: reading_def list_ex_iff)

lemma reading_shown:
  assumes r: "reading env len b K N W st arg" and "alloc_fresh env" "name_ok nm"
    and a: "append_de env (a_vdir arg) nm ino ty (a_delist arg ! b) st = (err, v, dl, st')"
  defines "arg' \<equiv> arg\<lparr>a_err := err, a_vdir := v, a_delist := (a_delist arg)[b := dl]\<rparr>"
  shows "arg_ok len st' arg' \<and> vd_version v = vd_version (a_vdir arg) \<and> xsb st' = xsb st \<and>
    (err \<noteq> 0 \<and> (\<exists>qs. extends qs st (a_vdir arg) st' v) \<or>
     err = 0 \<and> (\<exists>p. extends [p] st (a_vdir arg) st' v \<and> de_at (vmem st') p = (nm, ino, ty) \<and> reading env len b K (insert nm N) W st' arg'))"
proof -
  have ao: "arg_ok len st arg" and b: "b < len" using r by (simp_all add: reading_def)
  have f: "filling st (a_vdir arg)" and dlok: "refs_ok (vmem st) (a_vdir arg) (a_delist arg ! b)"
    and ln: "length (a_delist arg) = len" using ao b by (auto simp: arg_ok_def)
  have nm: "0 < length nm" "length nm \<le> 255" using assms(3) by (simp_all add: name_ok_def)
  from append_de_filling[OF f assms(2) nm a]
  have ad: "filling st' v" "xsb st' = xsb st" "vd_version v = vd_version (a_vdir arg)" and
    dj: "err \<noteq> 0 \<and> dl = a_delist arg ! b \<and> extends [] st (a_vdir arg) st' v \<or>
     (\<exists>p. extends [p] st (a_vdir arg) st' v \<and> de_at (vmem st') p = (nm, ino, ty) \<and>
        dl = hlist_add_head (de_str p) (au_name_hash env nm) (a_delist arg ! b))" by auto
  from dj consider (bad) "err \<noteq> 0" "dl = a_delist arg ! b" "extends [] st (a_vdir arg) st' v"
    | (good) p where "extends [p] st (a_vdir arg) st' v" "de_at (vmem st') p = (nm, ino, ty)"
        "dl = hlist_add_head (de_str p) (au_name_hash env nm) (a_delist arg ! b)" by blast
  then show ?thesis
  proof cases
    case bad
    have "refs_ok (vmem st') v dl" using refs_ok_extends(1)[OF dlok bad(3)] bad(2) by simp
    then have "arg_ok len st' arg'" unfolding arg'_def by (rule arg_ok_extends[OF ao bad(3) ad(1)])
    then show ?thesis using bad ad by auto
  next
    case good
    have p: "p \<in> set (vdir_des (vmem st') v)" using good(1) by (simp add: extends_def)
    have n: "fst (de_at (vmem st') p) = nm" using good(2) by simp
    note ra = refs_ok_add[where env = env, OF refs_ok_extends(1)[OF dlok good(1)] p n]
    have ok: "arg_ok len st' arg'" unfolding arg'_def using ra(1) good(3) by (intro arg_ok_extends[OF ao good(1) ad(1)]) simp
    have h: "c < len \<Longrightarrow> c \<noteq> b \<Longrightarrow> hides env st' arg' c name = hides env st arg c name" for c name
      unfolding arg'_def by (rule hides_extends[OF ao good(1)])
    have t: "test_known env (vmem st') (a_delist arg' ! b) name \<longleftrightarrow> name \<in> insert nm N" for name
      using ra(2)[of name] refs_ok_extends(2)[OF dlok good(1), of env name] r b ln good(3) by (simp add: arg'_def reading_def)
    have "(\<exists>c < b. hides env st' arg' c name) \<longleftrightarrow> (\<exists>c < b. hides env st arg c name)" for name
      using h b by (metis less_trans nat_neq_iff)
    then have "reading env len b K (insert nm N) W st' arg'" using r ok t by (simp add: reading_def arg'_def)
    then show ?thesis using good(1,2) ad(2,3) ok by (cases "err = 0") blast+
  qed
qed

lemma reading_whiteout:
  assumes r: "reading env len b K N W st arg" and "length nm \<le> 251"
    and a: "au_nhash_append_wh env (a_whlist arg ! b) nm ino ty bi st = (err, wl, st')"
  defines "arg' \<equiv> arg\<lparr>a_err := err, a_whlist := (a_whlist arg)[b := wl]\<rparr>"
  shows "arg_ok len st' arg' \<and> extends [] st (a_vdir arg) st' (a_vdir arg) \<and> xsb st' = xsb st \<and>
    (err \<noteq> 0 \<or> reading env len b K N (insert nm W) st' arg')"
proof -
  have st': "st' = st\<lparr>tick := tick st + 1\<rparr>" using a by (auto simp: au_nhash_append_wh_def kmalloc_other_def split: if_splits)
  have e: "extends [] st (a_vdir arg) st' (a_vdir arg)" unfolding st' by (simp add: extends_refl)
  have ao: "arg_ok len st arg" and b: "b < len" using r by (simp_all add: reading_def)
  have w: "whs_ok (a_whlist arg ! b)" "length (a_whlist arg) = len" using ao b by (auto simp: arg_ok_def)
  have l: "length (a_whlist arg ! b) = 32" using w(1) by (simp add: whs_ok_def)
  show ?thesis
  proof (cases "alloc_ok env (tick st)")
    case False
    then have "err = - ENOMEM" "wl = a_whlist arg ! b" using a by (auto simp: au_nhash_append_wh_def kmalloc_other_def)
    then show ?thesis using ao e by (simp add: arg'_def st' list_update_id)
  next
    case True
    then have wl: "err = 0" "wl = hlist_add_head \<lparr>wh_bindex = bi, wh_ino = ino, wh_type = ty, wh_str = nm\<rparr> (au_name_hash env nm) (a_whlist arg ! b)"
      using a by (auto simp: au_nhash_append_wh_def kmalloc_other_def)
    have wok: "whs_ok wl" unfolding wl(2) by (rule whs_ok_add[OF w(1)]) (use assms(2) name_hash_lt in auto)
    have ok: "arg_ok len st' arg'" using ao wok unfolding arg'_def st'
      by (auto simp: arg_ok_def dest!: set_update_subset_insert[THEN subsetD])
    have k: "au_nhash_test_known_wh env wl name \<longleftrightarrow> name = nm \<or> au_nhash_test_known_wh env (a_whlist arg ! b) name" for name
      unfolding wl(2) by (rule known_wh_add[OF l]) simp
    have h: "c \<noteq> b \<Longrightarrow> hides env st' arg' c name = hides env st arg c name" for c name
      by (simp add: arg'_def st' hides_def)
    have "(\<exists>c < b. hides env st' arg' c name) \<longleftrightarrow> (\<exists>c < b. hides env st arg c name)" for name using h by (metis less_irrefl)
    then have "reading env len b K N (insert nm W) st' arg'" using r ok k b w(2) by (auto simp: reading_def arg'_def st')
    then show ?thesis using e ok st' by simp
  qed
qed

text \<open>The new entries \<open>qs\<close> are those of the list, with the numbers they get (unless whiteouts get numbers, too).\<close>

definition gives :: "vd_env \<Rightarrow> (nat \<times> lde) list \<Rightarrow> vd_state \<Rightarrow> deblk_p list \<Rightarrow> vd_state \<Rightarrow> bool" where
  "gives env ds st qs st' \<longleftrightarrow> \<not> vd_shwh env \<longrightarrow>
     (\<exists>inos. assign_inos ds (xsb st) = Some (inos, xsb st') \<and> map (de_at (vmem st')) qs = map2 de_of ds inos)"

lemma gives_nil [simp]: "xsb st' = xsb st \<Longrightarrow> gives env [] st [] st'"
  by (simp add: gives_def)

lemma gives_tick [simp]: "gives env ds (st\<lparr>tick := k\<rparr>) qs st' = gives env ds st qs st'"
  by (simp add: gives_def)

lemma gives_trans:
  assumes "extends qs st v st1 v1" "extends rs st1 v1 st2 v2" "gives env ds st qs st1" "gives env es st1 rs st2"
  shows "gives env (ds @ es) st (qs @ rs) st2"
proof -
  have "q \<in> set qs \<Longrightarrow> de_at (vmem st2) q = de_at (vmem st1) q" for q using assms(1,2) by (auto simp: extends_def)
  then have m: "map (de_at (vmem st2)) qs = map (de_at (vmem st1)) qs" by simp
  show ?thesis unfolding gives_def
  proof (intro impI)
    assume s: "\<not> vd_shwh env"
    obtain a1 a2 where a: "assign_inos ds (xsb st) = Some (a1, xsb st1)" "map (de_at (vmem st1)) qs = map2 de_of ds a1"
      "assign_inos es (xsb st1) = Some (a2, xsb st2)" "map (de_at (vmem st2)) rs = map2 de_of es a2"
      using assms(3,4) s unfolding gives_def by blast
    then show "\<exists>inos. assign_inos (ds @ es) (xsb st) = Some (inos, xsb st2) \<and> map (de_at (vmem st2)) (qs @ rs) = map2 de_of (ds @ es) inos"
      using m assign_length[OF a(1)] by (intro exI[of _ "a1 @ a2"]) (simp add: assign_append)
  qed
qed

text \<open>What \<^verbatim>\<open>fillvdir\<close> does with an entry, whatever fails.\<close>

lemma fillvdir_one:
  assumes r: "reading env len b K N W st arg" and "alloc_fresh env" "name_ok (l_name d)"
    and f: "fillvdir env d b arg st = Some (arg', st')"
  shows "arg_ok len st' arg' \<and> vd_version (a_vdir arg') = vd_version (a_vdir arg) \<and>
    (\<exists>qs. extends qs st (a_vdir arg) st' (a_vdir arg') \<and>
      (a_err arg' = 0 \<longrightarrow> gives env (map (Pair b) (visible K [d])) st qs st' \<and>
        reading env len b K (N \<union> l_name ` set (visible K [d])) (W \<union> whiteouts [d]) st' arg'))"
proof -
  let ?n = "l_name d" and ?arg = "arg\<lparr>a_err := 0\<rparr>"
  have r0: "reading env len b K N W st ?arg" using r by simp
  then have ao: "arg_ok len st ?arg" unfolding reading_def by blast
  have same: ?thesis
    if "arg' = fill_out env (?arg\<lparr>a_err := e\<rparr>)" "st' = st\<lparr>xsb := s\<rparr>"
      "e \<noteq> 0 \<or> s = xsb st \<and> visible K [d] = [] \<and> whiteouts [d] \<subseteq> W" for e s
  proof -
    have w: "e = 0 \<Longrightarrow> W \<union> whiteouts [d] = W" using that(3) by auto
    have "extends [] st (a_vdir arg) st' (a_vdir arg')" unfolding that by (simp add: extends_refl)
    then show ?thesis using ao r0 w that by (cases "e = 0") (auto intro!: exI[of _ "[]"])
  qed
  show ?thesis
  proof (cases "is_wh_name ?n")
    case False
    then have w: "whiteouts [d] = {}" by (auto simp: whiteouts_def)
    show ?thesis
    proof (cases "?n \<in> K")
      case True
      then have "arg' = fill_out env ?arg \<and> st' = st"
        using f False known_above[OF r0, of ?n] by (simp add: fillvdir_def fill_out_def Let_def)
      then show ?thesis using same[of 0 "xsb st"] w True by (simp add: visible_def)
    next
      case nk: False
      then have vis: "visible K [d] = [d]" using False by (simp add: visible_def)
      obtain e ino s where ai: "au_ino (int b) (ucast (l_ino d)) (xsb st) = Some (e, ino, s)"
        using f False known_above[OF r0, of ?n] nk by (auto simp: fillvdir_def Let_def split: option.splits)
      show ?thesis
      proof (cases "e = 0")
        case False
        then have "arg' = fill_out env (?arg\<lparr>a_err := e\<rparr>) \<and> st' = st\<lparr>xsb := s\<rparr>"
          using f \<open>\<not> is_wh_name ?n\<close> known_above[OF r0, of ?n] nk ai by (auto simp: fillvdir_def fill_out_def Let_def)
        then show ?thesis using same[of e s] False by simp
      next
        case e0: True
        obtain e2 v dl st2 where a: "append_de env (a_vdir ?arg) ?n ino (l_type d) (a_delist ?arg ! b) (st\<lparr>xsb := s\<rparr>) = (e2, v, dl, st2)"
          by (metis prod_cases4)
        have s': "st' = st2" "arg' = fill_out env (?arg\<lparr>a_err := e2, a_vdir := v, a_delist := (a_delist ?arg)[b := dl]\<rparr>)"
          using f \<open>\<not> is_wh_name ?n\<close> known_above[OF r0, of ?n] nk ai e0 a
          by (auto simp: fillvdir_def fill_out_def Let_def split: if_splits)
        have rs: "reading env len b K N W (st\<lparr>xsb := s\<rparr>) ?arg" using r0 by simp
        note sh = reading_shown[OF rs assms(2,3) a]
        show ?thesis
        proof (cases "e2 = 0")
          case False
          then show ?thesis using sh s' by auto
        next
          case True
          then obtain p where p: "extends [p] (st\<lparr>xsb := s\<rparr>) (a_vdir ?arg) st2 v" "de_at (vmem st2) p = (?n, ino, l_type d)"
            "reading env len b K (insert ?n N) W st2 (?arg\<lparr>a_err := e2, a_vdir := v, a_delist := (a_delist ?arg)[b := dl]\<rparr>)"
            using sh by auto
          moreover have "gives env (map (Pair b) (visible K [d])) st [p] st2"
            using ai e0 sh p(2) vis by (simp add: gives_def de_of_def)
          ultimately show ?thesis using sh s' vis w by (auto intro!: exI[of _ "[p]"])
        qed
      qed
    qed
  next
    case True
    let ?w = "drop 4 ?n"
    have vis: "visible K [d] = []" and wd: "whiteouts [d] = {?w}" using True by (auto simp: visible_def whiteouts_def)
    show ?thesis
    proof (cases "0 < b \<and> ?w \<in> W")
      case in_W: True
      then have "arg' = fill_out env ?arg \<and> st' = st"
        using f True known_wh_here[OF r0, of ?w] by (simp add: fillvdir_def fill_out_def Let_def)
      then show ?thesis using same[of 0 "xsb st"] vis wd in_W by simp
    next
      case nW: False
      obtain e ino s where ai: "(if vd_shwh env then au_ino (int b) (ucast (l_ino d)) (xsb st) else Some (0, 1, xsb st)) = Some (e, ino, s)"
        using f True known_wh_here[OF r0, of ?w] nW by (fastforce simp: fillvdir_def Let_def split: option.splits if_splits)
      show ?thesis
      proof (cases "e = 0")
        case False
        then have "arg' = fill_out env (?arg\<lparr>a_err := e\<rparr>) \<and> st' = st\<lparr>xsb := s\<rparr>"
          using f True known_wh_here[OF r0, of ?w] nW ai by (auto simp: fillvdir_def fill_out_def Let_def)
        then show ?thesis using same[of e s] False by simp
      next
        case e0: True
        obtain e2 wl st2 where a: "au_nhash_append_wh env (a_whlist ?arg ! b) ?w ino (l_type d) (int b) (st\<lparr>xsb := s\<rparr>) = (e2, wl, st2)"
          by (metis prod_cases3)
        have s': "st' = st2" "arg' = fill_out env (?arg\<lparr>a_err := e2, a_whlist := (a_whlist ?arg)[b := wl]\<rparr>)"
          using f True known_wh_here[OF r0, of ?w] nW ai e0 a
          by (auto simp: fillvdir_def fill_out_def Let_def split: if_splits)
        have rs: "reading env len b K N W (st\<lparr>xsb := s\<rparr>) ?arg" using r0 by simp
        have lw: "length ?w \<le> 251" using assms(3) unfolding name_ok_def by auto
        note sh = reading_whiteout[OF rs lw a]
        have "gives env [] st [] st2" using ai sh by (auto simp: gives_def split: if_splits)
        then show ?thesis using sh s' vis wd by (auto intro!: exI[of _ "[]"])
      qed
    qed
  qed
qed

section \<open>Many entries\<close>

text \<open>The entries \<open>ds\<close> have been read, up to an error.\<close>

definition merged :: "vd_env \<Rightarrow> nat \<Rightarrow> nat \<Rightarrow> name set \<Rightarrow> name set \<Rightarrow> name set \<Rightarrow> lde list \<Rightarrow> vd_state \<Rightarrow> fillvdir_arg \<Rightarrow>
    vd_state \<Rightarrow> fillvdir_arg \<Rightarrow> bool" where
  "merged env len b K N W ds st arg st' arg' \<longleftrightarrow>
     arg_ok len st' arg' \<and> vd_version (a_vdir arg') = vd_version (a_vdir arg) \<and>
     (\<exists>qs. extends qs st (a_vdir arg) st' (a_vdir arg') \<and>
       (a_err arg' = 0 \<longrightarrow> gives env (map (Pair b) (visible K ds)) st qs st' \<and>
         reading env len b K (N \<union> l_name ` set (visible K ds)) (W \<union> whiteouts ds) st' arg'))"

lemma fillvdir_step:
  assumes "reading env len b K N W st arg" "alloc_fresh env" "name_ok (l_name d)" "fillvdir env d b arg st = Some (arg', st')"
  shows "merged env len b K N W [d] st arg st' arg'"
  using fillvdir_one[OF assms] unfolding merged_def .

lemma merged_err: "a_err arg' \<noteq> 0 \<Longrightarrow> merged env len b K N W ds st arg st' arg' = merged env len b K N' W' es st arg st' arg'"
  by (simp add: merged_def)

lemma visible_append: "visible K (ds @ es) = visible K ds @ visible K es"
  by (simp add: visible_def)

lemma whiteouts_append: "whiteouts (ds @ es) = whiteouts ds \<union> whiteouts es"
  by (auto simp: whiteouts_def)

lemma merged_nil:
  assumes "reading env len b K N W st arg"
  shows "merged env len b K N W [] st arg st arg"
proof -
  have "arg_ok len st arg" using assms unfolding reading_def by blast
  then show ?thesis using assms unfolding merged_def
    by (auto simp: visible_def whiteouts_def intro!: exI[of _ "[]"] extends_refl)
qed

lemma merged_trans:
  assumes "merged env len b K N W ds st arg st1 arg1" "a_err arg1 = 0"
    "merged env len b K (N \<union> l_name ` set (visible K ds)) (W \<union> whiteouts ds) es st1 arg1 st2 arg2"
  shows "merged env len b K N W (ds @ es) st arg st2 arg2"
proof -
  obtain qs where q: "extends qs st (a_vdir arg) st1 (a_vdir arg1)" "gives env (map (Pair b) (visible K ds)) st qs st1"
    using assms(1,2) by (auto simp: merged_def)
  obtain rs where r: "extends rs st1 (a_vdir arg1) st2 (a_vdir arg2)"
    "a_err arg2 = 0 \<longrightarrow> gives env (map (Pair b) (visible K es)) st1 rs st2 \<and>
      reading env len b K (N \<union> l_name ` set (visible K ds) \<union> l_name ` set (visible K es)) (W \<union> whiteouts ds \<union> whiteouts es) st2 arg2"
    using assms(3) by (auto simp: merged_def)
  have "a_err arg2 = 0 \<Longrightarrow> gives env (map (Pair b) (visible K (ds @ es))) st (qs @ rs) st2"
    unfolding visible_append map_append using gives_trans[OF q(1) r(1) q(2)] r(2) by blast
  moreover have "N \<union> l_name ` set (visible K ds) \<union> l_name ` set (visible K es) = N \<union> l_name ` set (visible K (ds @ es))"
    "W \<union> whiteouts ds \<union> whiteouts es = W \<union> whiteouts (ds @ es)" by (auto simp: visible_append whiteouts_append)
  ultimately show ?thesis using assms(1,3) r(2) extends_trans[OF q(1) r(1)] unfolding merged_def by auto
qed

text \<open>One call of the lower \<^verbatim>\<open>readdir\<close>.\<close>

lemma fill_batch_merged:
  assumes "reading env len b K N W st arg" "alloc_fresh env" "\<forall>d \<in> set ds. name_ok (l_name d)"
    "fill_batch env ds b arg st = Some (arg', st')"
  shows "merged env len b K N W ds st arg st' arg'"
  using assms
proof (induction ds arbitrary: N W st arg)
  case Nil
  then show ?case using merged_nil by auto
next
  case (Cons d ds)
  obtain arg1 st1 where f: "fillvdir env d b arg st = Some (arg1, st1)"
    "if a_err arg1 \<noteq> 0 then arg' = arg1 \<and> st' = st1 else fill_batch env ds b arg1 st1 = Some (arg', st')"
    using Cons.prems(4) by (auto split: option.splits if_splits)
  have m: "merged env len b K N W [d] st arg st1 arg1" by (rule fillvdir_step[OF Cons.prems(1,2) _ f(1)]) (use Cons.prems(3) in simp)
  show ?case
  proof (cases "a_err arg1 = 0")
    case False
    then show ?thesis using f(2) m merged_err[OF False] by metis
  next
    case True
    then have "reading env len b K (N \<union> l_name ` set (visible K [d])) (W \<union> whiteouts [d]) st1 arg1" using m by (auto simp: merged_def)
    from Cons.IH[OF this Cons.prems(2)] Cons.prems(3) f(2) True
    have "merged env len b K (N \<union> l_name ` set (visible K [d])) (W \<union> whiteouts [d]) ds st1 arg1 st' arg'" by simp
    then show ?thesis using merged_trans[OF m True] by fastforce
  qed
qed

text \<open>All calls: when the loop ends without an error, everything up to the first empty call has been read.\<close>

lemma merged_err0 [simp]:
  "merged env len b K N W ds st (arg\<lparr>a_err := e\<rparr>) st' arg' = merged env len b K N W ds st arg st' arg'"
  by (simp add: merged_def)

lemma merged_set_err:
  assumes "merged env len b K N W ds st arg st' arg'" "e \<noteq> 0 \<or> a_err arg' = 0"
  shows "merged env len b K N W ds st arg st' (arg'\<lparr>a_err := e\<rparr>)"
  using assms unfolding merged_def by auto

lemma read_calls_merged:
  assumes "reading env len b K N W st arg" "alloc_fresh env" "\<forall>(ds, e) \<in> set cs. \<forall>d \<in> set ds. name_ok (l_name d)"
    "read_calls env cs b arg st = Some (err, arg', st')"
  shows "merged env len b K N W (dir_entries cs) st arg st' (arg'\<lparr>a_err := err\<rparr>)"
  using assms
proof (induction cs arbitrary: N W st arg)
  case Nil
  then show ?case using merged_set_err[OF merged_nil[of env len b K N W st "arg\<lparr>a_err := 0\<rparr>"], of 0]
    by (auto simp: dir_entries_def)
next
  case (Cons c cs)
  obtain ds e where c: "c = (ds, e)" by (cases c)
  let ?arg = "arg\<lparr>a_err := 0\<rparr>"
  have r0: "reading env len b K N W st ?arg" using Cons.prems(1) by simp
  obtain arg1 st1 where f: "fill_batch env ds b ?arg st = Some (arg1, st1)"
    using Cons.prems(4) c by (auto split: option.splits)
  have ok: "\<forall>d \<in> set ds. name_ok (l_name d)" using Cons.prems(3) c by auto
  have m: "merged env len b K N W ds st arg st1 arg1" using fill_batch_merged[OF r0 Cons.prems(2) ok f] by simp
  let ?e = "if e \<ge> 0 then a_err arg1 else e"
  show ?case
  proof (cases "?e = 0 \<and> ds \<noteq> []")
    case True
    then have e1: "a_err arg1 = 0" by (auto split: if_splits)
    then have "reading env len b K (N \<union> l_name ` set (visible K ds)) (W \<union> whiteouts ds) st1 arg1" using m by (auto simp: merged_def)
    moreover have "read_calls env cs b arg1 st1 = Some (err, arg', st')" using Cons.prems(4) c f True by (auto simp: Let_def)
    ultimately have "merged env len b K (N \<union> l_name ` set (visible K ds)) (W \<union> whiteouts ds) (dir_entries cs) st1 arg1 st' (arg'\<lparr>a_err := err\<rparr>)"
      using Cons.IH Cons.prems(2,3) by simp
    from merged_trans[OF m e1 this] show ?thesis using True c by (simp add: dir_entries_def)
  next
    case False
    then have s: "err = ?e" "arg' = arg1" "st' = st1" using Cons.prems(4) c f by (auto simp: Let_def split: if_splits)
    show ?thesis
    proof (cases "?e = 0")
      case True
      then have "dir_entries (c # cs) = ds" "a_err arg1 = 0" using False c by (auto simp: dir_entries_def split: if_splits)
      then show ?thesis using merged_set_err[OF m, of 0] s True by simp
    next
      case e: False
      have ne: "a_err (arg1\<lparr>a_err := ?e\<rparr>) \<noteq> 0" using e by simp
      have "merged env len b K N W ds st arg st1 (arg1\<lparr>a_err := ?e\<rparr>)" by (rule merged_set_err[OF m]) (use e in blast)
      then show ?thesis unfolding s using merged_err[OF ne] by blast
    qed
  qed
qed

end
