(* ===== verification/Aufs_Vdir_Union.thy ===== *)
theory Aufs_Vdir_Union
  imports Aufs_Vdir_Read
begin

text \<open>
  Reading all branches collects the entries of the union, and what the functions around it do with
  the blocks: \<^verbatim>\<open>read_vdir\<close> and \<^verbatim>\<open>au_vdir_init\<close> keep the blocks in use exactly those of the two
  directories, whatever fails.
\<close>

section \<open>All branches\<close>

lemma reading_next:
  assumes "reading env len b K N W st arg" "b + 1 < len"
  shows "reading env len (b + 1) (K \<union> N \<union> W) {} {} st arg"
proof -
  have i: "a_delist arg ! (b + 1) = au_nhash_init" "a_whlist arg ! (b + 1) = au_nhash_init" using assms by (simp_all add: reading_def)
  have "(\<exists>c < b + 1. hides env st arg c name) \<longleftrightarrow> (\<exists>c < b. hides env st arg c name) \<or> hides env st arg b name" for name
    by (auto simp: less_Suc_eq)
  then have "(\<exists>c < b + 1. hides env st arg c name) \<longleftrightarrow> name \<in> K \<union> N \<union> W" for name
    using assms(1) by (auto simp: reading_def hides_def)
  then show ?thesis using assms i refs_ok_init(2) known_wh_init by (auto simp: reading_def)
qed

text \<open>The directory has been extended by the entries \<open>ds\<close>, all of them when \<open>err\<close> is 0.\<close>

definition collected :: "vd_env \<Rightarrow> nat \<Rightarrow> int \<Rightarrow> (nat \<times> lde) list \<Rightarrow> vd_state \<Rightarrow> fillvdir_arg \<Rightarrow> vd_state \<Rightarrow> fillvdir_arg \<Rightarrow> bool" where
  "collected env len err ds st arg st' arg' \<longleftrightarrow> arg_ok len st' arg' \<and> vd_version (a_vdir arg') = vd_version (a_vdir arg) \<and>
     (\<exists>qs. extends qs st (a_vdir arg) st' (a_vdir arg') \<and> (err = 0 \<longrightarrow> gives env ds st qs st'))"

lemma collected_refl: "arg_ok len st arg \<Longrightarrow> err \<noteq> 0 \<or> ds = [] \<Longrightarrow> collected env len err ds st arg st arg"
  unfolding collected_def by (auto intro!: exI[of _ "[]"] extends_refl)

lemma collected_trans:
  assumes "collected env len 0 ds st arg st1 arg1" "collected env len err es st1 arg1 st2 arg2"
  shows "collected env len err (ds @ es) st arg st2 arg2"
proof -
  obtain qs where q: "extends qs st (a_vdir arg) st1 (a_vdir arg1)" "gives env ds st qs st1"
    using assms(1) by (auto simp: collected_def)
  obtain rs where r: "extends rs st1 (a_vdir arg1) st2 (a_vdir arg2)" "err = 0 \<longrightarrow> gives env es st1 rs st2"
    using assms(2) by (auto simp: collected_def)
  have "err = 0 \<longrightarrow> gives env (ds @ es) st (qs @ rs) st2" using gives_trans[OF q(1) r(1) q(2)] r(2) by blast
  then show ?thesis using assms extends_trans[OF q(1) r(1)] by (auto simp: collected_def)
qed

lemma collected_err: "collected env len err ds st arg st' arg' \<Longrightarrow> err \<noteq> 0 \<Longrightarrow> collected env len err es st arg st' arg'"
  by (simp add: collected_def)

lemma merged_collected:
  assumes "merged env len b K N W ds st arg st' (arg'\<lparr>a_err := err\<rparr>)"
  shows "collected env len err (map (Pair b) (visible K ds)) st arg st' arg'"
  using assms by (auto simp: merged_def collected_def)

lemma read_branches_collected:
  assumes "b + n = len" "0 < n \<longrightarrow> reading env len b K {} {} st arg" "arg_ok len st arg" "alloc_fresh env" "dir_ok hf"
    "read_branches n env hf b arg st = Some (err, arg', st')"
  shows "collected env len err (union_list K b (map (branch_entries hf) [b..<len])) st arg st' arg'"
  using assms
proof (induction n arbitrary: b K st arg)
  case 0
  then show ?case using collected_refl by auto
next
  case (Suc n)
  have bl: "b < len" and up: "[b..<len] = b # [b + 1..<len]" using Suc.prems(1) by (simp_all add: upt_rec)
  have r: "reading env len b K {} {} st arg" using Suc.prems(2) by simp
  have nx: "0 < n \<longrightarrow> reading env len (b + 1) (K \<union> N \<union> W) {} {} st1 arg1" if "reading env len b K N W st1 arg1" for N W st1 arg1
    using reading_next[OF that] Suc.prems(1) by simp
  have bn: "b + 1 + n = len" using Suc.prems(1) by simp
  show ?case
  proof (cases "hf b")
    case None
    then have "read_branches n env hf (b + 1) arg st = Some (err, arg', st')" using Suc.prems(6) by simp
    with Suc.IH[OF bn _ Suc.prems(3-5)] nx[OF r]
    have "collected env len err (union_list K (b + 1) (map (branch_entries hf) [b + 1..<len])) st arg st' arg'" by simp
    moreover have "branch_entries hf b = []" using None by (simp add: branch_entries_def)
    ultimately show ?thesis unfolding up by (simp add: visible_def whiteouts_def)
  next
    case (Some h)
    show ?thesis
    proof (cases "h_seek h = 0")
      case False
      then show ?thesis using Suc.prems(3,6) Some collected_refl by auto
    next
      case seek: True
      obtain e1 arg1 st1 where c: "read_calls env (h_calls h) b arg st = Some (e1, arg1, st1)"
        using Suc.prems(6) Some seek by (auto split: option.splits)
      have ok: "\<forall>(ds, e) \<in> set (h_calls h). \<forall>d \<in> set ds. name_ok (l_name d)" using Suc.prems(5) Some by (auto simp: dir_ok_def)
      let ?ds = "dir_entries (h_calls h)"
      have m: "merged env len b K {} {} ?ds st arg st1 (arg1\<lparr>a_err := e1\<rparr>)" by (rule read_calls_merged[OF r Suc.prems(4) ok c])
      note col = merged_collected[OF m]
      have be: "branch_entries hf b = ?ds" using Some by (simp add: branch_entries_def)
      show ?thesis
      proof (cases "e1 = 0")
        case False
        then have "err = e1" "arg' = arg1" "st' = st1" using Suc.prems(6) Some seek c by auto
        then show ?thesis using collected_err[OF col] False by simp
      next
        case True
        then have rb: "read_branches n env hf (b + 1) arg1 st1 = Some (err, arg', st')" using Suc.prems(6) Some seek c by simp
        let ?K = "K \<union> l_name ` set (visible K ?ds) \<union> whiteouts ?ds"
        have rd: "reading env len b K (l_name ` set (visible K ?ds)) (whiteouts ?ds) st1 arg1" using m True by (auto simp: merged_def)
        then have ao: "arg_ok len st1 arg1" unfolding reading_def by blast
        have "collected env len err (union_list ?K (b + 1) (map (branch_entries hf) [b + 1..<len])) st1 arg1 st' arg'"
          by (rule Suc.IH[OF bn nx[OF rd] ao Suc.prems(4,5) rb])
        from collected_trans[OF _ this] col True show ?thesis unfolding up by (simp add: be)
      qed
    qed
  qed
qed

section \<open>Whiteouts shown\<close>

lemma append_de_refs:
  assumes "filling st v" "alloc_fresh env" "name_ok nm" "refs_ok (vmem st) v dl" "append_de env v nm ino ty dl st = (err, v', dl', st')"
  shows "filling st' v' \<and> refs_ok (vmem st') v' dl' \<and> vd_version v' = vd_version v \<and> (\<exists>qs. extends qs st v st' v')"
proof -
  have nm: "0 < length nm" "length nm \<le> 255" using assms(3) by (simp_all add: name_ok_def)
  from append_de_filling[OF assms(1,2) nm assms(5)]
  have ad: "filling st' v'" "vd_version v' = vd_version v" and dj: "dl' = dl \<and> extends [] st v st' v' \<or>
     (\<exists>p. extends [p] st v st' v' \<and> de_at (vmem st') p = (nm, ino, ty) \<and> dl' = hlist_add_head (de_str p) (au_name_hash env nm) dl)"
    by auto
  from dj show ?thesis
  proof
    assume "dl' = dl \<and> extends [] st v st' v'"
    then show ?thesis using ad refs_ok_extends(1)[OF assms(4)] by blast
  next
    assume "\<exists>p. extends [p] st v st' v' \<and> de_at (vmem st') p = (nm, ino, ty) \<and> dl' = hlist_add_head (de_str p) (au_name_hash env nm) dl"
    then obtain p where p: "extends [p] st v st' v'" "de_at (vmem st') p = (nm, ino, ty)"
      "dl' = hlist_add_head (de_str p) (au_name_hash env nm) dl" by blast
    have pin: "p \<in> set (vdir_des (vmem st') v')" using p(1) by (simp add: extends_def)
    have n: "fst (de_at (vmem st') p) = nm" using p(2) by simp
    have "refs_ok (vmem st') v' dl'" unfolding p(3) by (rule refs_ok_add(1)[OF refs_ok_extends(1)[OF assms(4) p(1)] pin n])
    then show ?thesis using ad p(1) by blast
  qed
qed

lemma shwh_list_refs:
  assumes "filling st v" "alloc_fresh env" "\<forall>w \<in> set ws. length (wh_str w) \<le> 251" "refs_ok (vmem st) v dl"
    "shwh_list env ws err v dl st = (err', v', dl', st')"
  shows "filling st' v' \<and> refs_ok (vmem st') v' dl' \<and> vd_version v' = vd_version v \<and> (\<exists>qs. extends qs st v st' v')"
  using assms
proof (induction ws arbitrary: err v dl st)
  case Nil
  then show ?case by (auto intro: extends_refl)
next
  case (Cons w ws)
  obtain e1 v1 dl1 st1 where a: "append_de env v (WH_PFX @ wh_str w) (wh_ino w) (wh_type w) dl st = (e1, v1, dl1, st1)" by (metis prod_cases4)
  have nm: "name_ok (WH_PFX @ wh_str w)" using Cons.prems(3) by (simp add: name_ok_def)
  note ad = append_de_refs[OF Cons.prems(1,2) nm Cons.prems(4) a]
  show ?case
  proof (cases "e1 = 0")
    case False
    then show ?thesis using ad a Cons.prems(5) by auto
  next
    case True
    then have "shwh_list env ws e1 v1 dl1 st1 = (err', v', dl', st')" using a Cons.prems(5) by simp
    with Cons.IH[OF _ Cons.prems(2), of st1 v1 dl1] ad Cons.prems(3)
    have "filling st' v' \<and> refs_ok (vmem st') v' dl' \<and> vd_version v' = vd_version v1 \<and> (\<exists>qs. extends qs st1 v1 st' v')" by auto
    with ad show ?thesis by (metis extends_trans)
  qed
qed

lemma shwh_heads_refs:
  assumes "filling st v" "alloc_fresh env" "\<forall>h \<in> set hs. \<forall>w \<in> set h. length (wh_str w) \<le> 251" "refs_ok (vmem st) v dl"
    "shwh_heads env hs err v dl st = (err', v', dl', st')"
  shows "filling st' v' \<and> refs_ok (vmem st') v' dl' \<and> vd_version v' = vd_version v \<and> (\<exists>qs. extends qs st v st' v')"
  using assms
proof (induction hs arbitrary: err v dl st)
  case Nil
  then show ?case by (auto intro: extends_refl)
next
  case (Cons h hs)
  obtain e1 v1 dl1 st1 where a: "shwh_list env h err v dl st = (e1, v1, dl1, st1)" by (metis prod_cases4)
  have ws: "\<forall>w \<in> set h. length (wh_str w) \<le> 251" using Cons.prems(3) by simp
  note ad = shwh_list_refs[OF Cons.prems(1,2) ws Cons.prems(4) a]
  have "shwh_heads env hs e1 v1 dl1 st1 = (err', v', dl', st')" using a Cons.prems(5) by simp
  with Cons.IH[OF _ Cons.prems(2), of st1 v1 dl1] ad Cons.prems(3)
  have "filling st' v' \<and> refs_ok (vmem st') v' dl' \<and> vd_version v' = vd_version v1 \<and> (\<exists>qs. extends qs st1 v1 st' v')" by auto
  with ad show ?case by (metis extends_trans)
qed

lemma shwh_branches_collected:
  assumes "b + n = len" "arg_ok len st arg" "alloc_fresh env" "shwh_branches n env b arg st = (err, arg', st')"
  shows "arg_ok len st' arg' \<and> vd_version (a_vdir arg') = vd_version (a_vdir arg) \<and> (\<exists>qs. extends qs st (a_vdir arg) st' (a_vdir arg'))"
  using assms
proof (induction n arbitrary: b st arg)
  case 0
  then show ?case by (auto intro: extends_refl)
next
  case (Suc n)
  obtain e1 v1 dl1 st1 where a: "shwh_heads env (a_whlist arg ! b) 0 (a_vdir arg) (a_delist arg ! b) st = (e1, v1, dl1, st1)" by (metis prod_cases4)
  let ?arg = "arg\<lparr>a_vdir := v1, a_delist := (a_delist arg)[b := dl1]\<rparr>"
  have bl: "b < len" using Suc.prems(1) by simp
  have "a_whlist arg ! b \<in> set (a_whlist arg)" using Suc.prems(2) bl by (simp add: arg_ok_def)
  then have ws: "\<forall>h \<in> set (a_whlist arg ! b). \<forall>w \<in> set h. length (wh_str w) \<le> 251"
    using Suc.prems(2) unfolding arg_ok_def whs_ok_def by blast
  have h: "filling st (a_vdir arg)" "refs_ok (vmem st) (a_vdir arg) (a_delist arg ! b)"
    using Suc.prems(2) bl by (auto simp: arg_ok_def)
  note ad = shwh_heads_refs[OF h(1) Suc.prems(3) ws h(2) a]
  then obtain qs where q: "extends qs st (a_vdir arg) st1 v1" by blast
  have eq: "?arg = arg\<lparr>a_err := a_err arg, a_vdir := v1, a_delist := (a_delist arg)[b := dl1]\<rparr>" by simp
  have ok: "arg_ok len st1 ?arg" unfolding eq by (rule arg_ok_extends[OF Suc.prems(2) q]) (use ad in auto)
  show ?case
  proof (cases "e1 = 0")
    case False
    then show ?thesis using Suc.prems(4) a ok ad by auto
  next
    case True
    then have "shwh_branches n env (b + 1) ?arg st1 = (err, arg', st')" using Suc.prems(4) a by simp
    with Suc.IH[OF _ ok Suc.prems(3), of "b + 1"] Suc.prems(1)
    have "arg_ok len st' arg' \<and> vd_version (a_vdir arg') = vd_version v1 \<and> (\<exists>qs. extends qs st1 v1 st' (a_vdir arg'))" by auto
    with ad q show ?thesis by (metis extends_trans)
  qed
qed

section \<open>The whole directory\<close>

lemma do_read_vdir_spec:
  assumes "filling st v" "alloc_fresh env" "dir_ok (h_fptr file)" "fbstart file \<le> fbend file"
    "au_do_read_vdir env file v st = Some (err, v', st')"
  shows "filling st' v' \<and> vd_version v' = vd_version v \<and>
    (\<exists>qs. extends qs st v st' v' \<and> (err = 0 \<and> \<not> vd_shwh env \<longrightarrow>
       gives env (union_list {} (fbstart file) (map (branch_entries (h_fptr file)) [fbstart file..<fbend file + 1])) st qs st'))"
proof (cases "alloc_ok env (tick st) \<and> alloc_ok env (tick st + 1)")
  case False
  then have "err \<noteq> 0 \<and> v' = v \<and> (st' = st\<lparr>tick := tick st + 1\<rparr> \<or> st' = st\<lparr>tick := tick st + 2\<rparr>)"
    using assms(5) by (auto simp: au_do_read_vdir_def kmalloc_other_def Let_def split: if_splits)
  then show ?thesis using assms(1) by (auto intro!: exI[of _ "[]"] simp: extends_refl)
next
  case True
  let ?len = "fbend file + 1" and ?n = "fbend file + 1 - fbstart file"
  let ?arg = "\<lparr>a_vdir = v, a_delist = replicate ?len au_nhash_init, a_whlist = replicate ?len au_nhash_init, a_err = 0\<rparr>"
  let ?st = "st\<lparr>tick := tick st + 2\<rparr>"
  have ao: "arg_ok ?len ?st ?arg" using assms(1) refs_ok_init(1) whs_ok_init by (auto simp: arg_ok_def)
  have rd: "reading env ?len (fbstart file) {} {} {} ?st ?arg" using ao assms(4) refs_ok_init(2) known_wh_init
    by (auto simp: reading_def hides_def nth_append simp del: replicate_Suc)
  obtain e1 arg1 st1 where b: "read_branches ?n env (h_fptr file) (fbstart file) ?arg ?st = Some (e1, arg1, st1)"
    using assms(5) True by (auto simp: au_do_read_vdir_def kmalloc_other_def Let_def split: option.splits)
  have col: "collected env ?len e1 (union_list {} (fbstart file) (map (branch_entries (h_fptr file)) [fbstart file..<?len])) ?st ?arg st1 arg1"
    by (rule read_branches_collected[OF _ _ ao assms(2,3) b]) (use rd assms(4) in simp_all)
  then have c: "arg_ok ?len st1 arg1" "vd_version (a_vdir arg1) = vd_version v" by (simp_all add: collected_def)
  obtain qs where q: "extends qs st v st1 (a_vdir arg1)"
    "e1 = 0 \<longrightarrow> gives env (union_list {} (fbstart file) (map (branch_entries (h_fptr file)) [fbstart file..<?len])) st qs st1"
    using col by (auto simp: collected_def filling_tick)
  show ?thesis
  proof (cases "e1 = 0 \<and> vd_shwh env")
    case False
    then have "err = e1" "v' = a_vdir arg1" "st' = st1"
      using assms(5) True b by (auto simp: au_do_read_vdir_def kmalloc_other_def Let_def split: if_splits)
    then show ?thesis using c q by (auto simp: arg_ok_def)
  next
    case shwh: True
    obtain e2 arg2 st2 where h: "au_handle_shwh env (fbstart file) (fbend file) arg1 st1 = (e2, arg2, st2)" by (metis prod_cases3)
    have r: "err = e2" "v' = a_vdir arg2" "st' = st2"
      using assms(5) True b shwh h by (auto simp: au_do_read_vdir_def kmalloc_other_def Let_def)
    have "arg_ok ?len st2 arg2 \<and> vd_version (a_vdir arg2) = vd_version (a_vdir arg1) \<and> (\<exists>qs. extends qs st1 (a_vdir arg1) st2 (a_vdir arg2))"
    proof (cases "alloc_ok env (tick st1)")
      case False
      then have "arg2 = arg1" "st2 = st1\<lparr>tick := tick st1 + 1\<rparr>" using h by (auto simp: au_handle_shwh_def kmalloc_other_def)
      then show ?thesis using c(1) by (auto intro!: exI[of _ "[]"] simp: extends_refl)
    next
      case True
      let ?st1 = "st1\<lparr>tick := tick st1 + 1\<rparr>"
      have "shwh_branches ?n env (fbstart file) arg1 ?st1 = (e2, arg2, st2)" using h True by (simp add: au_handle_shwh_def kmalloc_other_def)
      from shwh_branches_collected[OF _ _ assms(2) this, of ?len] c(1) assms(4) show ?thesis by (auto simp: filling_tick)
    qed
    then show ?thesis using c(2) q(1) r shwh unfolding arg_ok_def by (metis extends_trans)
  qed
qed

end
