(* ===== verification/Aufs_Vdir_Init.thy ===== *)
theory Aufs_Vdir_Init
  imports Aufs_Vdir_Union
begin

text \<open>
  Who owns the blocks: the directory kept for the inode and the one kept for the open file hold
  every block that is not somebody else's, and nothing else is written, whatever fails on the way.
\<close>

section \<open>Ownership\<close>

text \<open>\<open>H\<close> are the blocks of everybody else.\<close>

definition owned :: "vd_state \<Rightarrow> u32 multiset \<Rightarrow> au_vdir list \<Rightarrow> bool" where
  "owned st H vs \<longleftrightarrow> distinct (live st) \<and> mset (live st) = H + mset (concat (map blks vs)) \<and> (\<forall>v \<in> set vs. vdir_wf st v)"

definition untouched_blks :: "u32 multiset \<Rightarrow> vd_state \<Rightarrow> vd_state \<Rightarrow> bool" where
  "untouched_blks H st st' \<longleftrightarrow> (\<forall>b \<in># H. vmem st' b = vmem st b)"

lemma untouched_refl [simp]: "vmem st' = vmem st \<Longrightarrow> untouched_blks H st st'"
  by (simp add: untouched_blks_def)

lemma untouched_trans: "untouched_blks H st st1 \<Longrightarrow> untouched_blks H st1 st2 \<Longrightarrow> untouched_blks H st st2"
  by (simp add: untouched_blks_def)

lemma owned_one: "owned st H [v] \<longleftrightarrow> distinct (live st) \<and> mset (live st) = H + mset (blks v) \<and> vdir_wf st v"
  by (simp add: owned_def)

lemma owned_split: "owned st H (vs @ ws) \<longleftrightarrow> owned st (H + mset (concat (map blks ws))) vs \<and> (\<forall>w \<in> set ws. vdir_wf st w)"
  by (auto simp: owned_def ac_simps)

lemma owned_swap: "owned st H (vs @ ws) = owned st H (ws @ vs)"
  by (auto simp: owned_def ac_simps)

lemma vdir_wf_same:
  assumes "vdir_wf st w" "\<And>b. b \<in> set (blks w) \<Longrightarrow> vmem st' b = vmem st b" "set (blks w) \<subseteq> set (live st')" "distinct (live st')"
  shows "vdir_wf st' w" "vdir_list (vmem st') w = vdir_list (vmem st) w"
proof -
  have wf: "b \<in> set (blks w) \<Longrightarrow> block_wf (vmem st) b" for b using assms(1) by (simp add: vdir_wf_def)
  note dc = des_cong[of "blks w" "vmem st" "vmem st'", OF wf assms(2)]
  show "vdir_wf st' w" using assms dc(3) by (simp add: vdir_wf_def)
  have "vdir_des (vmem st') w = vdir_des (vmem st) w" using dc(1) by (simp add: vdir_des_def)
  moreover have "q \<in> set (vdir_des (vmem st) w) \<Longrightarrow> de_at (vmem st') q = de_at (vmem st) q" for q using dc(2) by (simp add: vdir_des_def)
  ultimately show "vdir_list (vmem st') w = vdir_list (vmem st) w" by (simp add: vdir_list_def)
qed

lemma owned_others:
  assumes "owned st' (H + mset (concat (map blks ws))) vs" "untouched_blks (H + mset (concat (map blks ws))) st st'"
    "\<forall>w \<in> set ws. vdir_wf st w"
  shows "owned st' H (vs @ ws)" "w \<in> set ws \<Longrightarrow> vdir_list (vmem st') w = vdir_list (vmem st) w" "untouched_blks H st st'"
proof -
  have d: "distinct (live st')" "mset (live st') = H + mset (concat (map blks ws)) + mset (concat (map blks vs))"
    using assms(1) by (simp_all add: owned_def)
  have s: "set (live st') = set_mset H \<union> set (concat (map blks ws)) \<union> set (concat (map blks vs))" using arg_cong[OF d(2), of set_mset] by simp
  have f: "b \<in> set (concat (map blks ws)) \<Longrightarrow> vmem st' b = vmem st b" for b using assms(2) unfolding untouched_blks_def by auto
  have w: "vdir_wf st' w \<and> vdir_list (vmem st') w = vdir_list (vmem st) w" if w: "w \<in> set ws" for w
  proof -
    have m: "vmem st' b = vmem st b" if "b \<in> set (blks w)" for b using f[of b] w that by auto
    have l: "set (blks w) \<subseteq> set (live st')" using s w by auto
    show ?thesis using vdir_wf_same[OF bspec[OF assms(3) w] m l d(1)] by simp
  qed
  then show "owned st' H (vs @ ws)" using assms(1) by (simp add: owned_split)
  show "w \<in> set ws \<Longrightarrow> vdir_list (vmem st') w = vdir_list (vmem st) w" using w by simp
  show "untouched_blks H st st'" using assms(2) by (simp add: untouched_blks_def)
qed

lemma others_apart:
  assumes "distinct L" "mset L = H + mset B" "b \<in># H"
  shows "b \<notin> set B"
proof
  assume "b \<in> set B"
  then have "1 + 1 \<le> count H b + count (mset B) b" using assms(3) by (intro add_mono) simp_all
  also have "\<dots> = count (mset L) b" using assms(2) by simp
  finally show False using assms(1) by (simp add: distinct_count_atmost_1 split: if_splits)
qed

lemma extends_owned:
  assumes "extends qs st v st' v'" "filling st' v'" "owned st H [v]"
  shows "owned st' H [v']" "untouched_blks H st st'"
proof -
  obtain new where n: "blks v' = blks v @ new" "mset (live st') = mset (live st) + mset new" using assms(1) by (auto simp: extends_def)
  have d: "distinct (live st')" "vdir_wf st' v'" using assms(2) by (auto simp: filling_def vdir_wf_def)
  have m: "mset (live st') = H + mset (blks v')" using n assms(3) by (simp add: owned_one)
  then show "owned st' H [v']" using d by (simp add: owned_one)
  have "b \<in># H \<Longrightarrow> b \<notin> set (blks v')" for b by (rule others_apart[OF d(1) m])
  then show "untouched_blks H st st'" using assms(1) by (auto simp: untouched_blks_def extends_def)
qed

section \<open>Making, emptying and freeing a directory\<close>

text \<open>The directory is at its start.\<close>

definition at_start :: "au_vdir \<Rightarrow> bool" where
  "at_start v \<longleftrightarrow> vd_last_i v = 0 \<and> vd_last_p v = (hd (blks v), 0)"

lemma alloc_vdir_spec:
  assumes "distinct (live st)" "alloc_fresh env" "alloc_vdir env st = (r, st')"
  shows "case r of
      Inl e \<Rightarrow> e = - ENOMEM \<and> live st' = live st \<and> vmem st' = vmem st
    | Inr v \<Rightarrow> owned st' (mset (live st)) [v] \<and> filling st' v \<and> vdir_des (vmem st') v = [] \<and> vd_nblk v = 1 \<and>
        untouched_blks (mset (live st)) st st' \<and> at_start v"
proof -
  let ?v = "\<lparr>vd_deblk = [None], vd_nblk = 0, vd_last_i = 0, vd_last_p = (0, 0), vd_version = 0, vd_jiffy = 0\<rparr>"
  let ?st = "st\<lparr>tick := tick st + 2\<rparr>"
  show ?thesis
  proof (cases "alloc_ok env (tick st) \<and> alloc_ok env (tick st + 1)")
    case False
    then show ?thesis using assms(3) by (auto simp: alloc_vdir_def kmalloc_other_def Let_def split: if_splits)
  next
    case True
    obtain err v' st2 where a: "append_deblk env ?v ?st = (err, v', st2)" by (metis prod_cases3)
    have t: "tbl_ok ?v" "blks ?v = []" by (simp_all add: tbl_ok_def blks_def)
    note sp = append_deblk_spec[OF t(1) assms(2) a, unfolded t(2)]
    have r: "r = (if err = 0 then Inr v' else Inl err)" "st' = st2"
      using assms(3) True a by (auto simp: alloc_vdir_def kmalloc_other_def Let_def)
    show ?thesis
    proof (cases "err = 0")
      case False
      then show ?thesis using sp r by auto
    next
      case e0: True
      then obtain b where b: "b \<notin> set (live st)" "blks v' = [b]" "vd_nblk v' = 1" "vd_last_p v' = (b, 0)" "live st2 = b # live st"
        "vmem st2 = (vmem st)(b := (vmem st b)(5 := 0))" "tbl_ok v'" "vd_last_i v' = 0" using sp by auto
      have bl: "block_at (vmem st2) b [] 0" unfolding b(6) by (rule block_at_new)
      have "filling st2 v'" using b bl assms(1) by (auto simp: filling_def vdir_wf_def block_wf_def)
      moreover have "vdir_des (vmem st2) v' = []" using b(2) block_at_des[OF bl] by (simp add: vdir_des_def)
      moreover have "untouched_blks (mset (live st)) st st2" using b(1,6) by (auto simp: untouched_blks_def)
      ultimately show ?thesis using e0 r b assms(1) by (simp add: owned_one filling_def at_start_def)
    qed
  qed
qed

definition somes :: "'a option list \<Rightarrow> 'a list" where
  "somes xs = concat (map (case_option [] (\<lambda>a. [a])) xs)"

lemma somes_simps [simp]: "somes [] = []" "somes (None # xs) = somes xs" "somes (Some a # xs) = a # somes xs"
  "somes (xs @ ys) = somes xs @ somes ys"
  by (simp_all add: somes_def)

lemma somes_map [simp]: "somes (map Some xs) = xs" "somes (replicate n None) = []"
proof -
  show "somes (map Some xs) = xs" by (induction xs) simp_all
  show "somes (replicate n None) = []" by (induction n) simp_all
qed

lemma somes_all: "\<forall>x \<in> set xs. x \<noteq> None \<Longrightarrow> somes xs = map the xs"
  by (induction xs) auto

lemma kfree_mset: "mset (live (kfree_deblk p st)) = mset (live st) - mset (somes [p])" "distinct (live st) \<Longrightarrow> distinct (live (kfree_deblk p st))"
  "vmem (kfree_deblk p st) = vmem st" "tick (kfree_deblk p st) = tick st" "xsb (kfree_deblk p st) = xsb st"
  by (cases p; simp add: kfree_deblk_def mset_remove1)+

lemma free_deblks_all:
  "n \<le> length ps \<Longrightarrow> mset (live (free_deblks n ps st)) = mset (live st) - mset (somes (take n ps)) \<and>
    (distinct (live st) \<longrightarrow> distinct (live (free_deblks n ps st))) \<and> vmem (free_deblks n ps st) = vmem st"
proof (induction n arbitrary: ps st)
  case (Suc n)
  then obtain p qs where ps: "ps = p # qs" by (cases ps) auto
  then have "n \<le> length qs" using Suc.prems by simp
  from Suc.IH[OF this, of "kfree_deblk p st"] show ?case
    using ps kfree_mset[where p = p and st = st] by (cases p) auto
qed simp

lemmas free_deblks_spec = free_deblks_all[THEN conjunct1] free_deblks_all[THEN conjunct2, THEN conjunct1, rule_format]
  free_deblks_all[THEN conjunct2, THEN conjunct2]

lemma vdir_free_spec:
  assumes "owned st H [v]"
  shows "mset (live (au_vdir_free v st)) = H" "distinct (live (au_vdir_free v st))" "vmem (au_vdir_free v st) = vmem st"
proof -
  have t: "vd_nblk v \<le> length (vd_deblk v)" "\<And>i. i < vd_nblk v \<Longrightarrow> vd_deblk v ! i \<noteq> None"
    using assms by (auto simp: owned_one vdir_wf_def tbl_ok_def)
  have "somes (take (vd_nblk v) (vd_deblk v)) = blks v" unfolding blks_def
    by (rule somes_all) (use t in \<open>auto simp: in_set_conv_nth\<close>)
  then show "mset (live (au_vdir_free v st)) = H" "distinct (live (au_vdir_free v st))" "vmem (au_vdir_free v st) = vmem st"
    using free_deblks_spec[OF t(1), of st] assms by (simp_all add: au_vdir_free_def owned_one)
qed

lemma reinit_loop_spec:
  assumes "vd_nblk v = Suc k" "vd_nblk v \<le> length (vd_deblk v)" "k \<le> n" "reinit_loop n v st = (v', st')"
  shows "vd_nblk v' = 1 \<and> length (vd_deblk v') = length (vd_deblk v) \<and> vd_deblk v' ! 0 = vd_deblk v ! 0 \<and>
    mset (live st') = mset (live st) - mset (somes (drop 1 (take (Suc k) (vd_deblk v)))) \<and>
    (distinct (live st) \<longrightarrow> distinct (live st')) \<and> vmem st' = vmem st"
  using assms
proof (induction n arbitrary: k v st)
  case 0
  then show ?case by (cases "vd_deblk v") auto
next
  case (Suc n)
  show ?case
  proof (cases k)
    case 0
    then show ?thesis using Suc.prems by (cases "vd_deblk v") auto
  next
    case (Suc k')
    let ?p = "vd_deblk v ! Suc k'" and ?d = "(vd_deblk v)[Suc k' := None]"
    let ?v = "v\<lparr>vd_deblk := ?d, vd_nblk := Suc k'\<rparr>"
    have r: "reinit_loop n ?v (kfree_deblk ?p st) = (v', st')" using Suc.prems(1,4) Suc by simp
    have p: "vd_nblk ?v = Suc k'" "vd_nblk ?v \<le> length (vd_deblk ?v)" "k' \<le> n" using Suc.prems(1-3) Suc by simp_all
    note ih = Suc.IH[OF p r]
    have l: "Suc k' < length (vd_deblk v)" using Suc.prems(1,2) Suc by simp
    have "take (Suc k) (vd_deblk v) = take (Suc k') (vd_deblk v) @ [?p]" using l Suc take_Suc_conv_app_nth[of "Suc k'"] by simp
    moreover have "1 \<le> length (take (Suc k') (vd_deblk v))" using l by simp
    ultimately have "drop 1 (take (Suc k) (vd_deblk v)) = drop 1 (take (Suc k') (vd_deblk v)) @ [?p]" by (simp only: drop_append diff_is_0_eq' drop_0)
    moreover have "take (Suc k') ?d = take (Suc k') (vd_deblk v)" by simp
    ultimately show ?thesis using ih l kfree_mset[where p = "?p" and st = st] by (auto simp: add.commute)
  qed
qed

text \<open>
  Emptying a directory of which some blocks may be missing, as \<^verbatim>\<open>copy_vdir\<close> leaves it.
\<close>

lemma reinit_vdir_spec:
  assumes "0 < vd_nblk v" "vd_nblk v \<le> length (vd_deblk v)" "vd_deblk v ! 0 = Some b0" "distinct (live st)"
    "mset (live st) = H + add_mset b0 (mset (somes (drop 1 (take (vd_nblk v) (vd_deblk v)))))" "reinit_vdir v st = (err, v', st')"
  shows "err = 0 \<and> owned st' H [v'] \<and> filling st' v' \<and> vdir_des (vmem st') v' = [] \<and> vd_nblk v' = 1 \<and> blks v' = [b0] \<and>
    untouched_blks H st st' \<and> at_start v'"
proof -
  obtain k where k: "vd_nblk v = Suc k" using assms(1) by (cases "vd_nblk v") auto
  obtain v1 st1 where l: "reinit_loop (vd_nblk v) v st = (v1, st1)" by fastforce
  note sp = reinit_loop_spec[OF k assms(2) _ l]
  have v1: "vd_nblk v1 = 1" "length (vd_deblk v1) = length (vd_deblk v)" "vd_deblk v1 ! 0 = Some b0" "distinct (live st1)"
    "vmem st1 = vmem st" "mset (live st1) = H + {#b0#}" using sp assms(3,4,5) k by auto
  have r: "err = 0" "v' = v1\<lparr>vd_version := 0, vd_jiffy := 0, vd_last_i := 0, vd_last_p := (b0, 0)\<rparr>"
    "st' = st1\<lparr>vmem := (vmem st)(b0 := (vmem st b0)(5 := 0))\<rparr>"
    using assms(6) l v1(3,5) by (auto simp: reinit_vdir_def set_deblk_end_def)
  have ne: "vd_deblk v1 \<noteq> []" using v1(2) assms(1,2) by auto
  then have b: "blks v' = [b0]" "tbl_ok v'" using v1(1,3) r(2) by (cases "vd_deblk v1"; simp add: blks_def tbl_ok_def)+
  have bl: "block_at (vmem st') b0 [] 0" unfolding r(3) by (simp add: block_at_new)
  have "b0 \<notin># H" using others_apart[OF v1(4), of H "[b0]" b0] v1(6) by auto
  then have "untouched_blks H st st'" by (auto simp: untouched_blks_def r(3))
  moreover have "b0 \<in> set (live st')" using arg_cong[OF v1(6), of set_mset] r(3) by simp
  moreover have "at_start v'" unfolding at_start_def b(1) by (simp add: r(2))
  ultimately show ?thesis using r(1) b bl v1 by (auto simp: r(2) r(3) owned_one filling_def vdir_wf_def block_wf_def vdir_des_def block_at_des)
qed

section \<open>Copying\<close>

lemma de_copied:
  assumes "m' a = m b"
  shows "is_deblk_end m' (a, x) = is_deblk_end m (b, x)" "de_size m' (a, x) = de_size m (b, x)" "de_at m' (a, x) = de_at m (b, x)"
  by (simp_all add: assms is_deblk_end_def de_size_def de_at_def str_name_def str_len_def de_str_def de_ino_def de_type_def
      ld_bytes_def ld32_def ld16_def)

lemma path_copied: "m' a = m b \<Longrightarrow> path m b x ps e \<Longrightarrow> path m' a x (map (\<lambda>p. (a, snd p)) ps) e"
proof (induction ps arbitrary: x)
  case (Cons p ps)
  then have p: "p = (b, x)" "\<not> is_deblk_end m (b, x)" "x + de_size m (b, x) \<le> 512" "path m b (x + de_size m (b, x)) ps e" by auto
  show ?case using Cons.IH[OF Cons.prems(1) p(4)] p(1-3) de_copied[of m' a m b x, OF Cons.prems(1)] by simp
qed simp

lemma block_copied:
  assumes "m' a = m b" "block_at m b ps e"
  shows "block_at m' a (map (\<lambda>p. (a, snd p)) ps) e" "map (de_at m') (block_des m' a 0) = map (de_at m) (block_des m b 0)"
proof -
  have p: "path m b 0 ps e" "is_deblk_end m (b, e)" "e \<le> 512" using assms(2) by (simp_all add: block_at_def)
  show c: "block_at m' a (map (\<lambda>p. (a, snd p)) ps) e"
    using path_copied[of m' a m b, OF assms(1) p(1)] p(2,3) de_copied(1)[of m' a m b e, OF assms(1)] by (simp add: block_at_def)
  have "q \<in> set ps \<Longrightarrow> q = (b, snd q)" for q using path_in[OF p(1), of q] by (cases q) auto
  then have "q \<in> set ps \<Longrightarrow> de_at m' (a, snd q) = de_at m q" for q using de_copied(3)[of m' a m b "snd q", OF assms(1)] by metis
  then show "map (de_at m') (block_des m' a 0) = map (de_at m) (block_des m b 0)"
    using block_at_des[OF c] block_at_des[OF assms(2)] by simp
qed

text \<open>The table holds the blocks \<open>cs\<close> and nothing from there on; each is a copy of the block of the source.\<close>

definition copied :: "u32 multiset \<Rightarrow> nat \<Rightarrow> u32 list \<Rightarrow> u32 list \<Rightarrow> au_vdir \<Rightarrow> vd_state \<Rightarrow> bool" where
  "copied H N bs cs tgt st \<longleftrightarrow> vd_nblk tgt = N \<and> N \<le> length (vd_deblk tgt) \<and> length cs \<le> N \<and>
     take N (vd_deblk tgt) = map Some cs @ replicate (N - length cs) None \<and>
     distinct (live st) \<and> mset (live st) = H + mset cs \<and> (\<forall>j < length cs. vmem st (cs ! j) = vmem st (bs ! j))"

lemma copy_deblks_spec:
  assumes "copied H N bs cs tgt st" "i = length cs" "i + n = N" "alloc_fresh env" "length bs = N"
    "\<And>j. j < N \<Longrightarrow> the (vd_deblk src ! j) = bs ! j" "set bs \<subseteq> set_mset H" "copy_deblks n env i tgt src st = (ok, tgt', st')"
  shows "\<exists>ds. copied H N bs (cs @ ds) tgt' st' \<and> (ok \<longrightarrow> length (cs @ ds) = N) \<and> untouched_blks H st st' \<and>
    vd_version tgt' = vd_version tgt \<and> vd_last_i tgt' = vd_last_i tgt \<and> vd_last_p tgt' = vd_last_p tgt"
  using assms(1-3,8)
proof (induction n arbitrary: i cs tgt st)
  case 0
  then show ?case by (intro exI[of _ "[]"]) auto
next
  case (Suc n)
  have c: "vd_nblk tgt = N" "N \<le> length (vd_deblk tgt)" "take N (vd_deblk tgt) = map Some cs @ replicate (N - i) None"
    "distinct (live st)" "mset (live st) = H + mset cs" "\<And>j. j < i \<Longrightarrow> vmem st (cs ! j) = vmem st (bs ! j)"
    using Suc.prems(1,2) by (simp_all add: copied_def)
  have iN: "i < N" using Suc.prems(3) by simp
  have nth: "vd_deblk tgt ! i = None" using arg_cong[OF c(3), of "\<lambda>xs. xs ! i"] iN c(2) Suc.prems(2) by (simp add: nth_append)
  show ?case
  proof (cases "alloc_blk env (tick st) (live st)")
    case None
    then have "ok = False" "tgt' = tgt" "st' = st\<lparr>tick := tick st + 1\<rparr>"
      using Suc.prems(4) nth by (auto simp: kmalloc_deblk_def list_update_id[of "vd_deblk tgt" i, unfolded nth])
    then show ?thesis using Suc.prems(1) by (intro exI[of _ "[]"]) (simp add: copied_def)
  next
    case (Some a)
    have a: "a \<notin> set (live st)" using assms(4) Some by (auto simp: alloc_fresh_def)
    let ?tgt = "tgt\<lparr>vd_deblk := (vd_deblk tgt)[i := Some a]\<rparr>"
    let ?st = "st\<lparr>tick := tick st + 1, live := a # live st, vmem := (vmem st)(a := vmem st (bs ! i))\<rparr>"
    have r: "copy_deblks n env (i + 1) ?tgt src ?st = (ok, tgt', st')"
      using Suc.prems(4) Some assms(6)[OF iN] by (simp add: kmalloc_deblk_def)
    have lv: "set (live st) = set_mset H \<union> set cs" using arg_cong[OF c(5), of set_mset] by simp
    have na: "a \<notin># H" "a \<notin> set cs" using a lv by auto
    have rep: "replicate (N - i) None = None # replicate (N - i - 1) None" using iN by (cases "N - i") simp_all
    have tk: "take N ((vd_deblk tgt)[i := Some a]) = map Some (cs @ [a]) @ replicate (N - length (cs @ [a])) None"
      unfolding take_update_swap c(3) rep using Suc.prems(2) by (simp add: list_update_append)
    have ct: "vmem ?st ((cs @ [a]) ! j) = vmem ?st (bs ! j)" if j: "j < length (cs @ [a])" for j
    proof -
      have jn: "j < N" using j iN Suc.prems(2) by simp
      then have "bs ! j \<in># H" using assms(5,7) by (auto simp: subset_iff)
      then have ba: "bs ! j \<noteq> a" using na(1) by auto
      show ?thesis
      proof (cases "j = i")
        case True
        then show ?thesis using ba Suc.prems(2) by (simp add: nth_append)
      next
        case False
        then have ji: "j < i" using j Suc.prems(2) by simp
        then have "cs ! j \<noteq> a" using na(2) Suc.prems(2) by (metis nth_mem)
        then show ?thesis using c(6)[OF ji] ba ji Suc.prems(2) by (simp add: nth_append)
      qed
    qed
    have "copied H N bs (cs @ [a]) ?tgt ?st" unfolding copied_def using c(1,2,4,5) a iN Suc.prems(2) tk ct by simp
    from Suc.IH[OF this _ _ r] Suc.prems(2,3) obtain ds where ds: "copied H N bs (cs @ [a] @ ds) tgt' st'" "ok \<longrightarrow> length (cs @ [a] @ ds) = N"
      "untouched_blks H ?st st'" "vd_version tgt' = vd_version tgt" "vd_last_i tgt' = vd_last_i tgt" "vd_last_p tgt' = vd_last_p tgt" by auto
    have "untouched_blks H st ?st" using na(1) by (auto simp: untouched_blks_def)
    then show ?thesis using ds untouched_trans by (intro exI[of _ "[a] @ ds"]) blast
  qed
qed

lemma concat_index:
  assumes "length xs = N"
  shows "map f (concat (map g xs)) = concat (map (\<lambda>j. map f (g (xs ! j))) [0..<N])"
proof -
  have "map (\<lambda>x. map f (g x)) xs = map (\<lambda>j. map f (g (xs ! j))) [0..<N]" using assms by (simp add: list_eq_iff_nth_eq)
  then show ?thesis by (simp add: map_concat comp_def)
qed

lemma copied_wf:
  assumes "copied H N bs cs tgt st" "length cs = N" "vdir_wf st' src" "blks src = bs" "0 < N" "length bs = N"
    "\<And>b. b \<in> set bs \<Longrightarrow> vmem st b = vmem st' b"
  shows "owned st H [tgt]" "vdir_list (vmem st) tgt = vdir_list (vmem st') src" "blks tgt = cs"
proof -
  have c: "vd_nblk tgt = N" "N \<le> length (vd_deblk tgt)" "take N (vd_deblk tgt) = map Some cs" "distinct (live st)"
    "mset (live st) = H + mset cs" "\<And>j. j < N \<Longrightarrow> vmem st (cs ! j) = vmem st (bs ! j)" using assms(1,2) by (simp_all add: copied_def)
  show b: "blks tgt = cs" by (simp add: blks_def c(1,3) comp_def)
  have nth: "i < N \<Longrightarrow> vd_deblk tgt ! i = Some (cs ! i)" for i using arg_cong[OF c(3), of "\<lambda>xs. xs ! i"] assms(2) by simp
  have t: "tbl_ok tgt" using c(1,2) nth by (simp add: tbl_ok_def)
  obtain hs where "mset hs = H" using ex_mset by blast
  then have "mset (live st) = mset (hs @ cs)" using c(5) by simp
  then have d: "distinct cs" using c(4) mset_eq_imp_distinct_iff by fastforce
  have k: "block_wf (vmem st) (cs ! j) \<and> map (de_at (vmem st)) (block_des (vmem st) (cs ! j) 0) = map (de_at (vmem st')) (block_des (vmem st') (bs ! j) 0)"
    if j: "j < N" for j
  proof -
    have bj: "bs ! j \<in> set bs" using j assms(6) by simp
    then obtain ps e where p: "block_at (vmem st') (bs ! j) ps e" using assms(3,4) by (auto simp: vdir_wf_def block_wf_def)
    have "vmem st (cs ! j) = vmem st' (bs ! j)" using c(6)[OF j] assms(7)[OF bj] by simp
    from block_copied[where m' = "vmem st" and m = "vmem st'", OF this p] show ?thesis by (auto simp: block_wf_def)
  qed
  have sub: "set cs \<subseteq> set (live st)" using arg_cong[OF c(5), of set_mset] by auto
  show "owned st H [tgt]" unfolding owned_one vdir_wf_def b using c(1,4,5) t d sub assms(2,5) k by (auto simp: in_set_conv_nth)
  have "map (de_at (vmem st)) (concat (map (\<lambda>b. block_des (vmem st) b 0) cs)) =
      concat (map (\<lambda>j. map (de_at (vmem st)) (block_des (vmem st) (cs ! j) 0)) [0..<N])" by (rule concat_index[OF assms(2)])
  also have "\<dots> = concat (map (\<lambda>j. map (de_at (vmem st')) (block_des (vmem st') (bs ! j) 0)) [0..<N])"
    by (rule arg_cong[of _ _ concat], rule map_cong[OF refl]) (use k in \<open>simp only: set_upt atLeastLessThan_iff\<close>)
  also have "\<dots> = map (de_at (vmem st')) (concat (map (\<lambda>b. block_des (vmem st') b 0) bs))"
    by (rule concat_index[OF assms(6), symmetric])
  finally show "vdir_list (vmem st) tgt = vdir_list (vmem st') src" by (simp add: vdir_list_def vdir_des_def b assms(4))
qed

lemma copy_vdir_spec:
  assumes "owned st H [tgt]" "vd_nblk tgt = 1" "at_start tgt" "vdir_wf st src" "set (blks src) \<subseteq> set_mset H" "alloc_fresh env"
  shows "\<exists>err tgt' st'. copy_vdir env tgt src st = Some (err, tgt', st') \<and> owned st' H [tgt'] \<and> untouched_blks H st st' \<and> at_start tgt' \<and>
    (err = 0 \<and> vdir_list (vmem st') tgt' = vdir_list (vmem st) src \<and> vd_version tgt' = vd_version src \<or> err = - ENOMEM)"
proof -
  define N bs where "N = vd_nblk src" and "bs = blks src"
  have s: "tbl_ok src" "0 < N" "length bs = N" using assms(4) length_blks[of src] by (auto simp: vdir_wf_def N_def bs_def)
  have sb: "j < N \<Longrightarrow> the (vd_deblk src ! j) = bs ! j" for j using blks_nth[OF s(1), of j] by (simp add: N_def bs_def)
  have w: "tbl_ok tgt" "distinct (live st)" using assms(1) by (auto simp: owned_one vdir_wf_def)
  obtain t0 ts where d: "vd_deblk tgt = Some t0 # ts" using w(1) assms(2) by (cases "vd_deblk tgt") (auto simp: tbl_ok_def)
  have bt: "blks tgt = [t0]" by (simp add: blks_def assms(2) d)
  have lv: "mset (live st) = H + {#t0#}" using assms(1) bt by (simp add: owned_one)
  have nH: "t0 \<notin># H" using others_apart[OF w(2), of H "[t0]" t0] lv by auto
  have reinit: "\<exists>err tgt' st'. (case reinit_vdir v st1 of (rerr, tgt, st) \<Rightarrow> if rerr \<noteq> 0 then None else Some (- ENOMEM, tgt, st)) = Some (err, tgt', st') \<and>
      owned st' H [tgt'] \<and> untouched_blks H st st' \<and> at_start tgt' \<and> err = - ENOMEM"
    if v: "copied H n bs (t0 # cs) v st1" "0 < n" "untouched_blks H st st1" for v st1 n cs
  proof -
    obtain e v' st' where r: "reinit_vdir v st1 = (e, v', st')" by (metis prod_cases3)
    have tk: "take n (vd_deblk v) = Some t0 # map Some cs @ replicate (n - length (t0 # cs)) None" "vd_nblk v = n" "n \<le> length (vd_deblk v)"
      using v(1) by (simp_all add: copied_def)
    have h: "vd_deblk v ! 0 = Some t0" using arg_cong[OF tk(1), of "\<lambda>xs. xs ! 0"] v(2) by simp
    have m: "mset (live st1) = H + add_mset t0 (mset (somes (drop 1 (take (vd_nblk v) (vd_deblk v)))))"
      using v(1) unfolding tk(2,1) by (simp add: copied_def)
    note rs = reinit_vdir_spec[OF _ _ h _ m r]
    have "e = 0 \<and> owned st' H [v'] \<and> at_start v' \<and> untouched_blks H st1 st'"
      using rs v(1,2) tk(2,3) by (simp add: copied_def)
    then show ?thesis using r untouched_trans[OF v(3)] by simp
  qed
  have tl1: "take 1 (vd_deblk tgt) = [Some t0]" by (simp add: d)
  have c0: "copied H 1 bs' [t0] tgt' st1" if "tgt' = tgt" "live st1 = live st" "vmem st1 t0 = vmem st1 (bs' ! 0)" for tgt' st1 bs'
    using that assms(2) w(2) lv d by (simp add: copied_def)
  show ?thesis
  proof (cases "1 < N \<and> \<not> alloc_ok env (tick st)")
    case True
    let ?st = "st\<lparr>tick := tick st + 1\<rparr>"
    have e: "copy_vdir env tgt src st = (case reinit_vdir tgt ?st of (rerr, tgt, st) \<Rightarrow> if rerr \<noteq> 0 then None else Some (- ENOMEM, tgt, st))"
      using True assms(2) by (simp add: copy_vdir_def kmalloc_other_def N_def Let_def split: prod.split)
    have v: "vd_nblk tgt = 1" "vd_deblk tgt ! 0 = Some t0" "mset (live ?st) = H + add_mset t0 (mset (somes (drop 1 (take (vd_nblk tgt) (vd_deblk tgt)))))"
      using assms(2) d lv by simp_all
    obtain rerr v' st' where r: "reinit_vdir tgt ?st = (rerr, v', st')" by (metis prod_cases3)
    note rs = reinit_vdir_spec[OF _ _ v(2) _ v(3) r]
    have "rerr = 0 \<and> owned st' H [v'] \<and> at_start v' \<and> untouched_blks H ?st st'"
      using rs v(1) d w(2) by simp
    then show ?thesis unfolding e using r by (simp add: untouched_blks_def)
  next
    case False
    define tgt1 where "tgt1 = (if 1 < N then tgt\<lparr>vd_deblk := au_kzrealloc (vd_deblk tgt) 1 N\<rparr> else tgt)
      \<lparr>vd_nblk := N, vd_version := vd_version src, vd_jiffy := vd_jiffy src\<rparr>"
    define st1 where "st1 = (if 1 < N then st\<lparr>tick := tick st + 1\<rparr> else st)\<lparr>vmem := (vmem st)(t0 := vmem st (bs ! 0))\<rparr>"
    have t1: "vd_deblk tgt1 ! 0 = Some t0" "vd_nblk tgt1 = N" "vd_version tgt1 = vd_version src" "vd_last_i tgt1 = vd_last_i tgt"
      "vd_last_p tgt1 = vd_last_p tgt" by (simp_all add: tgt1_def d au_kzrealloc_def)
    have b0: "bs ! 0 \<in># H" using assms(5) s(2,3) by (auto simp: bs_def[symmetric])
    have u1: "untouched_blks H st st1" using nH by (auto simp: untouched_blks_def st1_def)
    have bne: "bs ! 0 \<noteq> t0" using b0 nH by auto
    have tk: "take N (vd_deblk tgt1) = Some t0 # replicate (N - 1) None \<and> N \<le> length (vd_deblk tgt1)"
    proof (cases "1 < N")
      case False
      then have "N = 1" using s(2) by simp
      then show ?thesis by (simp add: tgt1_def d)
    qed (simp add: tgt1_def d au_kzrealloc_def)
    have c1: "copied H N bs [t0] tgt1 st1"
      using t1(2) tk s(2) w(2) lv bne by (simp add: copied_def st1_def)
    obtain ok tgt2 st2 where cd: "copy_deblks (N - 1) env 1 tgt1 src st1 = (ok, tgt2, st2)" by (metis prod_cases3)
    have i: "(1::nat) = length [t0]" "1 + (N - 1) = N" using s(2) by simp_all
    have sH: "set bs \<subseteq> set_mset H" using assms(5) by (simp add: bs_def)
    from copy_deblks_spec[OF c1 i assms(6) s(3) sb sH cd] obtain ds where
      ds: "copied H N bs (t0 # ds) tgt2 st2" "ok \<longrightarrow> length (t0 # ds) = N" "untouched_blks H st1 st2"
        "vd_version tgt2 = vd_version tgt1" "vd_last_i tgt2 = vd_last_i tgt1" "vd_last_p tgt2 = vd_last_p tgt1" by auto
    have u2: "untouched_blks H st st2" by (rule untouched_trans[OF u1 ds(3)])
    have sb0: "the (vd_deblk src ! 0) = bs ! 0" using sb s(2) by simp
    have e: "copy_vdir env tgt src st = (if ok then Some (0, tgt2, st2) else
        (case reinit_vdir tgt2 st2 of (rerr, tgt, st) \<Rightarrow> if rerr \<noteq> 0 then None else Some (- ENOMEM, tgt, st)))"
    proof (cases "1 < N")
      case True
      then show ?thesis using False cd sb0 assms(2) t1(1)
        by (simp add: copy_vdir_def kmalloc_other_def Let_def N_def[symmetric] tgt1_def st1_def split: prod.split)
    next
      case n1: False
      then show ?thesis using cd sb0 assms(2) d
        by (simp add: copy_vdir_def kmalloc_other_def Let_def N_def[symmetric] tgt1_def st1_def split: prod.split)
    qed
    show ?thesis
    proof (cases ok)
      case True
      have fr: "b \<in> set bs \<Longrightarrow> vmem st2 b = vmem st b" for b using u2 sH by (auto simp: untouched_blks_def)
      note cw = copied_wf[OF ds(1) _ assms(4) bs_def[symmetric] s(2,3) fr]
      have "at_start tgt2" using cw(3) True ds(2,5,6) t1(4,5) assms(3) bt by (auto simp: at_start_def)
      then show ?thesis unfolding e using True cw(1,2) ds(2,4) t1(3) u2 by simp
    next
      case False
      from reinit[OF ds(1) s(2) u2] False show ?thesis unfolding e if_not_P[OF False] by blast
    qed
  qed
qed

section \<open>Reading on demand\<close>

text \<open>
  The entries of a directory are those of the list, with the numbers that asking for them one after
  the other gives, from \<open>s\<close> on.
\<close>

definition listed :: "au_sbinfo \<Rightarrow> pmem \<Rightarrow> au_vdir \<Rightarrow> (nat \<times> lde) list \<Rightarrow> au_sbinfo \<Rightarrow> bool" where
  "listed s m v ds s' \<longleftrightarrow> (\<exists>inos. assign_inos ds s = Some (inos, s') \<and> vdir_list m v = map2 de_of ds inos)"

text \<open>Nothing but reading the branches touches the numbers.\<close>

lemma append_deblk_xsb: "append_deblk env v st = (err, v', st') \<Longrightarrow> xsb st' = xsb st"
  by (auto simp: append_deblk_def kmalloc_other_def kmalloc_deblk_def Let_def split: if_splits option.splits prod.splits)

lemma alloc_vdir_xsb: "alloc_vdir env st = (r, st') \<Longrightarrow> xsb st' = xsb st"
  by (auto simp: alloc_vdir_def kmalloc_other_def Let_def dest!: append_deblk_xsb split: if_splits prod.splits)

lemma reinit_loop_xsb: "reinit_loop n v st = (v', st') \<Longrightarrow> xsb st' = xsb st"
  by (induction n v st rule: reinit_loop.induct) (auto split: if_splits simp: kfree_mset(5))

lemma reinit_vdir_xsb: "reinit_vdir v st = (err, v', st') \<Longrightarrow> xsb st' = xsb st"
  by (auto simp: reinit_vdir_def Let_def dest!: reinit_loop_xsb split: prod.splits)

lemma vdir_free_xsb: "xsb (au_vdir_free v st) = xsb st"
proof -
  have "xsb (free_deblks n ps st) = xsb st" for n ps
    by (induction n ps st rule: free_deblks.induct) (simp_all add: kfree_mset(5))
  then show ?thesis by (simp add: au_vdir_free_def)
qed

lemma copy_deblks_xsb: "copy_deblks n env i tgt src st = (ok, tgt', st') \<Longrightarrow> xsb st' = xsb st"
proof (induction n arbitrary: i tgt st)
  case (Suc n)
  then show ?case by (cases "alloc_blk env (tick st) (live st)") (auto simp: kmalloc_deblk_def Let_def dest!: Suc.IH)
qed simp

lemma copy_vdir_xsb: "copy_vdir env tgt src st = Some (err, tgt', st') \<Longrightarrow> xsb st' = xsb st"
  unfolding copy_vdir_def Let_def kmalloc_other_def
  by (auto dest!: copy_deblks_xsb reinit_vdir_xsb split: if_splits prod.splits)

lemma rewind_same [simp]:
  "blks (vd_rewind v) = blks v" "vdir_des m (vd_rewind v) = vdir_des m v" "vdir_wf st (vd_rewind v) = vdir_wf st v"
  "blks (v\<lparr>vd_version := i\<rparr>) = blks v" "vdir_des m (v\<lparr>vd_version := i\<rparr>) = vdir_des m v"
  "vdir_wf st (v\<lparr>vd_version := i\<rparr>) = vdir_wf st v" "vd_version (vd_rewind v) = vd_version v"
  by (simp_all add: vd_rewind_def blks_def vdir_des_def vdir_wf_def tbl_ok_def)

lemma owned_rewind [simp]: "owned st H [vd_rewind (v\<lparr>vd_version := i\<rparr>)] = owned st H [v]" 
    "listed s m (vd_rewind (v\<lparr>vd_version := i\<rparr>)) ds s' = listed s m v ds s'"
  by (simp_all add: owned_one listed_def vdir_list_def)

text \<open>When the branches are read again.\<close>

definition must_read :: "vd_env \<Rightarrow> dir_inode \<Rightarrow> bool \<Rightarrow> bool" where
  "must_read env inode may_read \<longleftrightarrow> (case ivdir inode of
     None \<Rightarrow> True
   | Some v \<Rightarrow> may_read \<and> (i_version inode \<noteq> vd_version v \<or> time_after (jiffies env) (vd_jiffy v + si_rdcache env)))"

definition file_union :: "au_file \<Rightarrow> (nat \<times> lde) list" where
  "file_union file = union_list {} (fbstart file) (map (branch_entries (h_fptr file)) [fbstart file..<fbend file + 1])"

lemma do_read_owned:
  assumes "owned st H [v]" "filling st v" "vdir_des (vmem st) v = []" "alloc_fresh env" "dir_ok (h_fptr file)"
    "fbstart file \<le> fbend file" "au_do_read_vdir env file v st = Some (err, v', st')"
  shows "owned st' H [v']" "untouched_blks H st st'" "err = 0 \<Longrightarrow> \<not> vd_shwh env \<Longrightarrow> listed (xsb st) (vmem st') v' (file_union file) (xsb st')"
proof -
  from do_read_vdir_spec[OF assms(2,4-7)] obtain qs where q: "filling st' v'" "extends qs st v st' v'"
    "err = 0 \<and> \<not> vd_shwh env \<longrightarrow> gives env (file_union file) st qs st'" unfolding file_union_def by blast
  show "owned st' H [v']" "untouched_blks H st st'" using extends_owned[OF q(2,1) assms(1)] by blast+
  have "vdir_des (vmem st') v' = qs" using q(2) assms(3) by (simp add: extends_def)
  then show "err = 0 \<Longrightarrow> \<not> vd_shwh env \<Longrightarrow> listed (xsb st) (vmem st') v' (file_union file) (xsb st')"
    using q(3) by (simp add: listed_def gives_def vdir_list_def)
qed

lemma owned_none: "owned st H [] \<longleftrightarrow> distinct (live st) \<and> mset (live st) = H"
  by (simp add: owned_def)

lemma reinit_owned:
  assumes "owned st H [v]" "reinit_vdir v st = (err, v', st')"
  shows "err = 0 \<and> owned st' H [v'] \<and> filling st' v' \<and> vdir_des (vmem st') v' = [] \<and> vd_nblk v' = 1 \<and> untouched_blks H st st' \<and> at_start v'"
proof -
  have w: "vdir_wf st v" "distinct (live st)" "mset (live st) = H + mset (blks v)" using assms(1) by (simp_all add: owned_one)
  then have t: "0 < vd_nblk v" "vd_nblk v \<le> length (vd_deblk v)" "\<And>i. i < vd_nblk v \<Longrightarrow> vd_deblk v ! i \<noteq> None"
    by (auto simp: vdir_wf_def tbl_ok_def)
  obtain b0 where b0: "vd_deblk v ! 0 = Some b0" using t(1,3) by blast
  have sm: "somes (take (vd_nblk v) (vd_deblk v)) = blks v" unfolding blks_def
    by (rule somes_all) (use t in \<open>auto simp: in_set_conv_nth\<close>)
  have "take (vd_nblk v) (vd_deblk v) = Some b0 # drop 1 (take (vd_nblk v) (vd_deblk v))"
    using t(1,2) b0 by (cases "vd_deblk v"; cases "vd_nblk v") auto
  then have "blks v = b0 # somes (drop 1 (take (vd_nblk v) (vd_deblk v)))" using sm by (metis somes_simps(3))
  then have "mset (live st) = H + add_mset b0 (mset (somes (drop 1 (take (vd_nblk v) (vd_deblk v)))))" using w(3) by simp
  from reinit_vdir_spec[OF t(1,2) b0 w(2) this assms(2)] show ?thesis by blast
qed

lemma read_vdir_spec:
  assumes "owned st H (somes [ivdir inode])" "alloc_fresh env" "dir_ok (h_fptr file)" "fbstart file \<le> fbend file"
    "read_vdir env file inode may_read st = Some (err, inode', st')"
  shows "owned st' H (somes [ivdir inode']) \<and> untouched_blks H st st' \<and> i_version inode' = i_version inode \<and>
    (err = 0 \<longrightarrow> (\<exists>v. ivdir inode' = Some v \<and>
       (if must_read env inode may_read
        then vd_version v = i_version inode \<and> (\<not> vd_shwh env \<longrightarrow> listed (xsb st) (vmem st') v (file_union file) (xsb st'))
        else inode' = inode \<and> st' = st)))"
proof (cases "ivdir inode")
  case None
  have d: "distinct (live st)" "mset (live st) = H" using assms(1) None by (simp_all add: owned_none)
  obtain r st1 where a: "alloc_vdir env st = (r, st1)" by fastforce
  note al = alloc_vdir_spec[OF d(1) assms(2) a]
  show ?thesis
  proof (cases r)
    case (Inl e)
    then have "err = e" "inode' = inode" "st' = st1" using assms(5) None a by (simp_all add: read_vdir_def)
    then show ?thesis using al Inl None d by (simp add: owned_none)
  next
    case (Inr v)
    then have v: "owned st1 H [v]" "filling st1 v" "vdir_des (vmem st1) v = []" "untouched_blks H st st1" using al d(2) by simp_all
    obtain e2 v2 st2 where r: "au_do_read_vdir env file v st1 = Some (e2, v2, st2)"
      using assms(5) None a Inr by (auto simp: read_vdir_def split: option.splits)
    note dr = do_read_owned[OF v(1-3) assms(2-4) r]
    show ?thesis
    proof (cases "e2 = 0")
      case True
      then have "err = 0" "inode' = inode\<lparr>ivdir := Some (vd_rewind (v2\<lparr>vd_version := i_version inode\<rparr>))\<rparr>" "st' = st2"
        using assms(5) None a Inr r by (simp_all add: read_vdir_def)
      then show ?thesis using dr True None untouched_trans[OF v(4)] alloc_vdir_xsb[OF a] by (simp add: must_read_def)
    next
      case False
      then have "err = e2" "inode' = inode" "st' = au_vdir_free v2 st2" using assms(5) None a Inr r by (simp_all add: read_vdir_def)
      then show ?thesis using vdir_free_spec[OF dr(1)] dr(2) False None v(4) by (auto simp: owned_none untouched_blks_def)
    qed
  qed
next
  case (Some v)
  have o: "owned st H [v]" using assms(1) Some by simp
  show ?thesis
  proof (cases "must_read env inode may_read")
    case False
    then have "err = 0" "inode' = inode" "st' = st" using assms(5) Some by (auto simp: read_vdir_def must_read_def)
    then show ?thesis using False assms(1) Some by simp
  next
    case True
    obtain e1 v1 st1 where ri: "reinit_vdir v st = (e1, v1, st1)" by (metis prod_cases3)
    note rs = reinit_owned[OF o ri]
    obtain e2 v2 st2 where r: "au_do_read_vdir env file v1 st1 = Some (e2, v2, st2)"
      using assms(5) Some True ri rs by (auto simp: read_vdir_def must_read_def split: option.splits)
    note dr = do_read_owned[OF _ _ _ assms(2-4) r]
    have "owned st2 H [v2]" "untouched_blks H st1 st2" "e2 = 0 \<Longrightarrow> \<not> vd_shwh env \<Longrightarrow> listed (xsb st) (vmem st2) v2 (file_union file) (xsb st2)"
      using dr[of H] rs reinit_vdir_xsb[OF ri] by simp_all
    moreover have "err = e2" "st' = st2"
      "inode' = inode\<lparr>ivdir := Some (if e2 = 0 then vd_rewind (v2\<lparr>vd_version := i_version inode\<rparr>) else v2)\<rparr>"
      using assms(5) Some True ri rs r by (auto simp: read_vdir_def must_read_def)
    ultimately show ?thesis using True rs untouched_trans[of H st st1 st2] by simp
  qed
qed

section \<open>Opening the directory for reading\<close>

lemma vdir_list_names: "vdir_list m v = vdir_list m' v' \<Longrightarrow> listed s m v ds s' = listed s m' v' ds s'"
  by (simp add: listed_def)

text \<open>The directory of the file is made anew.\<close>

definition must_copy :: "au_file \<Rightarrow> bool" where
  "must_copy file \<longleftrightarrow> (case fvdir_cache file of None \<Rightarrow> True | Some v \<Rightarrow> f_pos file = 0 \<and> vd_version v \<noteq> f_version file)"

text \<open>Copying into a directory \<open>v\<close> that is empty, beside the one of the inode.\<close>

lemma copy_beside:
  assumes "owned st H ([v] @ [src])" "vd_nblk v = 1" "at_start v" "alloc_fresh env"
  shows "\<exists>err v' st'. copy_vdir env v src st = Some (err, v', st') \<and> owned st' H ([v'] @ [src]) \<and> untouched_blks H st st' \<and>
    vdir_list (vmem st') src = vdir_list (vmem st) src \<and> at_start v' \<and>
    (err = 0 \<and> vdir_list (vmem st') v' = vdir_list (vmem st') src \<and> vd_version v' = vd_version src \<or> err = - ENOMEM)"
proof -
  let ?H = "H + mset (concat (map blks [src]))"
  have o: "owned st ?H [v]" "\<forall>w \<in> set [src]. vdir_wf st w" using assms(1) unfolding owned_split by blast+
  have sub: "set (blks src) \<subseteq> set_mset ?H" by simp
  from o(2) have w: "vdir_wf st src" by simp
  from copy_vdir_spec[OF o(1) assms(2,3) w sub assms(4)] obtain err v' st' where
    c: "copy_vdir env v src st = Some (err, v', st')" "owned st' ?H [v']" "untouched_blks ?H st st'" "at_start v'"
      "err = 0 \<and> vdir_list (vmem st') v' = vdir_list (vmem st) src \<and> vd_version v' = vd_version src \<or> err = - ENOMEM" by blast
  note oo = owned_others[OF c(2,3) o(2)]
  have "vdir_list (vmem st') src = vdir_list (vmem st) src" by (rule oo(2)) simp
  then show ?thesis using c oo(1,3) by auto
qed

lemma vdir_init_spec:
  assumes "owned st H (somes [ivdir inode] @ somes [fvdir_cache file])" "alloc_fresh env" "dir_ok (h_fptr file)" "fbstart file \<le> fbend file"
    "au_vdir_init env file inode st = Some (err, file', inode', st')"
  shows "owned st' H (somes [ivdir inode'] @ somes [fvdir_cache file']) \<and> untouched_blks H st st' \<and> f_pos file' = f_pos file \<and>
    i_version inode' = i_version inode \<and>
    (err = 0 \<longrightarrow> (\<exists>v c. ivdir inode' = Some v \<and> fvdir_cache file' = Some c \<and>
       (must_copy file \<longrightarrow> at_start c \<and> vdir_list (vmem st') c = vdir_list (vmem st') v \<and> vd_version c = vd_version v \<and>
          f_version file' = i_version inode) \<and> (\<not> must_copy file \<longrightarrow> file' = file) \<and>
       (must_read env inode (f_pos file = 0) \<and> \<not> vd_shwh env \<longrightarrow> listed (xsb st) (vmem st') v (file_union file) (xsb st'))))"
proof -
  let ?cs = "somes [fvdir_cache file]"
  let ?H = "H + mset (concat (map blks ?cs))"
  have o: "owned st ?H (somes [ivdir inode])" "\<forall>w \<in> set ?cs. vdir_wf st w" using assms(1) unfolding owned_split by blast+
  obtain e1 in1 st1 where r: "read_vdir env file inode (f_pos file = 0) st = Some (e1, in1, st1)"
    using assms(5) by (auto simp: au_vdir_init_def split: option.splits)
  note rv = read_vdir_spec[OF o(1) assms(2-4) r]
  have o1: "owned st1 ?H (somes [ivdir in1])" "untouched_blks ?H st st1" using rv by blast+
  note oo = owned_others[OF o1 o(2)]
  have sp: "untouched_blks H st st1" using oo(3) .
  show ?thesis
  proof (cases "e1 = 0")
    case False
    then have "err = e1" "file' = file" "inode' = in1" "st' = st1" using assms(5) r by (simp_all add: au_vdir_init_def)
    then show ?thesis using oo(1,3) rv False by simp
  next
    case e1: True
    then obtain v where v: "ivdir in1 = Some v" "must_read env inode (f_pos file = 0) \<and> \<not> vd_shwh env \<longrightarrow> listed (xsb st) (vmem st1) v (file_union file) (xsb st1)"
      using rv by auto
    have iv: "i_version in1 = i_version inode" using rv by blast
    have o2: "owned st1 H ([v] @ ?cs)" using oo(1) v(1) by simp
    have fin: ?thesis
      if c: "owned st2 H ([w] @ [v])" "vd_nblk w = 1" "at_start w" "untouched_blks H st st2" "vdir_list (vmem st2) v = vdir_list (vmem st1) v" "must_copy file" "xsb st2 = xsb st1"
        and rr: "\<And>e w' st3. copy_vdir env w v st2 = Some (e, w', st3) \<Longrightarrow> owned st3 H ([w'] @ [v]) \<Longrightarrow> untouched_blks H st st3 \<Longrightarrow>
          if e = 0 then err = 0 \<and> file' = file\<lparr>f_version := i_version in1, fvdir_cache := Some w'\<rparr> \<and> inode' = in1 \<and> st' = st3
          else err = e \<and> inode' = in1 \<and> f_pos file' = f_pos file \<and> owned st' H ([v] @ somes [fvdir_cache file']) \<and> vmem st' = vmem st3" for w st2
    proof -
      from copy_beside[OF c(1-3) assms(2)] obtain e w' st3 where
        k: "copy_vdir env w v st2 = Some (e, w', st3)" "owned st3 H ([w'] @ [v])" "untouched_blks H st2 st3"
          "vdir_list (vmem st3) v = vdir_list (vmem st2) v" "at_start w'"
          "e = 0 \<and> vdir_list (vmem st3) w' = vdir_list (vmem st3) v \<and> vd_version w' = vd_version v \<or> e = - ENOMEM" by blast
      have u: "untouched_blks H st st3" by (rule untouched_trans[OF c(4) k(3)])
      show ?thesis
      proof (cases "e = 0")
        case True
        have l: "listed s (vmem st3) v ds s' = listed s (vmem st1) v ds s'" for s ds s' by (rule vdir_list_names) (use k(4) c(5) in simp)
        have "xsb st3 = xsb st1" using copy_vdir_xsb[OF k(1)] c(7) by simp
        then show ?thesis using l rr[OF k(1,2) u] True k u v iv c(6) owned_swap[of st3 H "[w']" "[v]"] by auto
      next
        case False
        then show ?thesis using rr[OF k(1,2) u] u v(1) iv k(6) by (auto simp: untouched_blks_def)
      qed
    qed
    show ?thesis
    proof (cases "fvdir_cache file")
      case None
      have d: "distinct (live st1)" "mset (live st1) = H + mset (blks v)" "vdir_wf st1 v" using o2 None by (simp_all add: owned_one)
      obtain rs st2 where a: "alloc_vdir env st1 = (rs, st2)" by fastforce
      note al = alloc_vdir_spec[OF d(1) assms(2) a]
      show ?thesis
      proof (cases rs)
        case (Inl e)
        then have rs: "err = e" "file' = file" "inode' = in1" "st' = st2" using assms(5) r e1 None a by (simp_all add: au_vdir_init_def)
        have "owned st2 H [v]" using al Inl d by (simp add: owned_one vdir_wf_def)
        then show ?thesis using rs al Inl None v(1) iv sp by (simp add: untouched_blks_def)
      next
        case (Inr w)
        have w: "owned st2 (H + mset (concat (map blks [v]))) [w]" "vd_nblk w = 1" "at_start w"
          "untouched_blks (H + mset (concat (map blks [v]))) st1 st2" using al Inr d(2) by simp_all
        have vw: "\<forall>u \<in> set [v]. vdir_wf st1 u" using d(3) by simp
        note ow = owned_others[OF w(1,4) vw]
        have lv: "vdir_list (vmem st2) v = vdir_list (vmem st1) v" by (rule ow(2)) simp
        have mc: "must_copy file" using None by (simp add: must_copy_def)
        show ?thesis
        proof (rule fin[OF ow(1) w(2,3) untouched_trans[OF sp ow(3)] lv mc alloc_vdir_xsb[OF a]])
          fix e w' st3
          assume k: "copy_vdir env w v st2 = Some (e, w', st3)" and o3: "owned st3 H ([w'] @ [v])"
          have s3: "owned st3 (H + mset (concat (map blks [v]))) [w']" "vdir_wf st3 v" using o3 unfolding owned_split by simp_all
          note fr = vdir_free_spec[OF s3(1)]
          have "set_mset (mset (live (au_vdir_free w' st3))) = set_mset H \<union> set (blks v)" unfolding fr(1) by simp
          then have "set (blks v) \<subseteq> set (live (au_vdir_free w' st3))" by auto
          from vdir_wf_same(1)[OF s3(2) _ this fr(2)] fr(3) have "vdir_wf (au_vdir_free w' st3) v" by simp
          then have "owned (au_vdir_free w' st3) H [v]" using fr by (simp add: owned_one)
          then show "if e = 0 then err = 0 \<and> file' = file\<lparr>f_version := i_version in1, fvdir_cache := Some w'\<rparr> \<and> inode' = in1 \<and> st' = st3
            else err = e \<and> inode' = in1 \<and> f_pos file' = f_pos file \<and> owned st' H ([v] @ somes [fvdir_cache file']) \<and> vmem st' = vmem st3"
            using assms(5) r e1 None a Inr v(1) k fr(3) by (auto simp: au_vdir_init_def split: if_splits)
        qed
      qed
    next
      case (Some c)
      show ?thesis
      proof (cases "must_copy file")
        case False
        then have "err = 0" "file' = file" "inode' = in1" "st' = st1" using assms(5) r e1 Some by (auto simp: au_vdir_init_def must_copy_def)
        then show ?thesis using oo(1) Some v sp False iv by simp
      next
        case mc: True
        have "owned st1 H ([c] @ [v])" using o2 Some owned_swap[of st1 H "[v]" "[c]"] by simp
        then have oc: "owned st1 (H + mset (concat (map blks [v]))) [c]" "\<forall>u \<in> set [v]. vdir_wf st1 u" unfolding owned_split by blast+
        obtain e2 w st2 where ri: "reinit_vdir c st1 = (e2, w, st2)" by (metis prod_cases3)
        note rs = reinit_owned[OF oc(1) ri]
        have w: "owned st2 (H + mset (concat (map blks [v]))) [w]" "untouched_blks (H + mset (concat (map blks [v]))) st1 st2" using rs by blast+
        note ow = owned_others[OF w oc(2)]
        have lv: "vdir_list (vmem st2) v = vdir_list (vmem st1) v" by (rule ow(2)) simp
        have w2: "vd_nblk w = 1" "at_start w" using rs by blast+
        show ?thesis
        proof (rule fin[OF ow(1) w2 untouched_trans[OF sp ow(3)] lv mc reinit_vdir_xsb[OF ri]])
          fix e w' st3
          assume k: "copy_vdir env w v st2 = Some (e, w', st3)" and o3: "owned st3 H ([w'] @ [v])"
          then show "if e = 0 then err = 0 \<and> file' = file\<lparr>f_version := i_version in1, fvdir_cache := Some w'\<rparr> \<and> inode' = in1 \<and> st' = st3
            else err = e \<and> inode' = in1 \<and> f_pos file' = f_pos file \<and> owned st' H ([v] @ somes [fvdir_cache file']) \<and> vmem st' = vmem st3"
            using assms(5) r e1 Some v(1) mc ri rs owned_swap[of st3 H "[w']" "[v]"] by (auto simp: au_vdir_init_def must_copy_def split: if_splits)
        qed
      qed
    qed
  qed
qed

end
