(* ===== verification/Aufs_Vdir_Total.thy ===== *)
theory Aufs_Vdir_Total
  imports Aufs_Vdir_Init Aufs_Xino_Props
begin

text \<open>
  When memory is there and the lower filesystems do not fail, reading a directory succeeds; the
  numbers shown are those that the maps of the branches hold afterwards.
\<close>

section \<open>Numbers\<close>

text \<open>At least \<open>k\<close> more numbers can be handed out.\<close>

definition numbers_left :: "nat \<Rightarrow> au_sbinfo \<Rightarrow> bool" where
  "numbers_left k s \<longleftrightarrow> xib_ok s \<and> 0 \<le> si_xib_next_bit s \<and> si_xib_next_bit s + int k < 2147483647 \<and> xib_pages s + k < 131072"

lemma numbers_left_mono: "numbers_left k s \<Longrightarrow> j \<le> k \<Longrightarrow> numbers_left j s"
  by (auto simp: numbers_left_def)

text \<open>The branches are the same and no map entry that was set has changed.\<close>

definition keeps_numbers :: "au_sbinfo \<Rightarrow> au_sbinfo \<Rightarrow> bool" where
  "keeps_numbers s s' \<longleftrightarrow> sbend s' = sbend s \<and> br_file s' = br_file s \<and> (\<forall>g h. map_tab s g h \<noteq> 0 \<longrightarrow> map_tab s' g h = map_tab s g h)"

lemma keeps_refl [simp]: "keeps_numbers s s"
  by (simp add: keeps_numbers_def)

lemma keeps_trans: "keeps_numbers s s1 \<Longrightarrow> keeps_numbers s1 s2 \<Longrightarrow> keeps_numbers s s2"
  unfolding keeps_numbers_def by metis

lemma same_branches:
  assumes "map xi_file (si_branch s') = map xi_file (si_branch s)"
  shows "sbend s' = sbend s" "br_file s' = br_file s"
  using assms map_eq_imp_length_eq[OF assms] by (simp_all add: au_sbend_def br_file_def fun_eq_iff)

lemma au_ino_fine:
  assumes "numbers_left (Suc k) s" "int b \<le> sbend s"
  shows "\<exists>ino s'. au_ino (int b) h s = Some (0, ino, s') \<and> numbers_left k s' \<and> keeps_numbers s s' \<and>
    ino \<noteq> 0 \<and> map_tab s' (br_file s (int b)) h = ino"
proof -
  have ok: "xib_ok s" "0 \<le> si_xib_next_bit s" "si_xib_next_bit s + int (Suc k) < 2147483647" "xib_pages s + Suc k < 131072"
    using assms(1) by (simp_all add: numbers_left_def)
  have b: "0 \<le> int b" by simp
  let ?f = "br_file s (int b)"
  obtain s1 where r: "au_xino_read s (int b) h = (0, xino_entry s ?f h, s1)" "xib_ok s1" "map_frame s s1" "xino_entry s1 = xino_entry s"
    using xino_read_fine[OF ok(1) b assms(2)] by blast
  have f1: "map xi_file (si_branch s1) = map xi_file (si_branch s)" "xib_pages s1 = xib_pages s" "si_xib_next_bit s1 = si_xib_next_bit s"
    "si_xib s1 = si_xib s" using r(3) by (simp_all add: map_frame_def)
  note sb1 = same_branches[OF f1(1)]
  have t1: "map_tab s1 = map_tab s" using r(4) f1(4) by (simp add: map_tab_def fun_eq_iff)
  have e: "map_tab s ?f h = xino_entry s ?f h" using branch_file(3)[OF ok(1) b assms(2)] by (simp add: map_tab_def)
  show ?thesis
  proof (cases "xino_entry s ?f h = 0")
    case False
    then show ?thesis using r ok f1 sb1 t1 e by (auto simp: au_ino_def numbers_left_def keeps_numbers_def)
  next
    case True
    have ok1: "0 \<le> si_xib_next_bit s1" using ok(2) f1(3) by simp
    obtain n s2 where a: "au_xino_new_ino s1 = Some (11 + of_nat n, s2)" "xib_ok s2" "xib_frame s1 s2" "n < xib_pages s2 * 32768"
      "xib_pages s2 \<le> xib_pages s1 + 1" "si_xib_next_bit s2 = int_inc (si_xib_next_bit s1)"
      using new_ino_fine[OF r(2) ok1] by blast
    have "xib_pages s2 * 32768 \<le> 131071 * 32768" using a(5) ok(4) f1(2) by simp
    then have nb: "n < 131071 * 32768" using a(4) by linarith
    from number_of_bit(1)[OF nb] have nz: "(11 + of_nat n :: u32) \<noteq> 0" by auto
    have f2: "map xi_file (si_branch s2) = map xi_file (si_branch s1)" using a(3) by (simp add: xib_frame_def)
    note sb2 = same_branches[OF f2]
    have b2: "int b \<le> sbend s2" using assms(2) sb1(1) sb2(1) by simp
    obtain s' where w: "au_xino_write s2 (int b) h (11 + of_nat n) = (0, s')" "xib_ok s'" "map_frame s2 s'"
      "xino_entry s' = entry_upd (xino_entry s2) (br_file s2 (int b)) h (11 + of_nat n)"
      using xino_write_fine[OF a(2) b b2] by blast
    have f3: "map xi_file (si_branch s') = map xi_file (si_branch s2)" "xib_pages s' = xib_pages s2" "si_xib_next_bit s' = si_xib_next_bit s2"
      "si_xib s' = si_xib s2" using w(3) by (simp_all add: map_frame_def)
    note sb3 = same_branches[OF f3(1)]
    have "map_tab s' = entry_upd (map_tab s2) (br_file s2 (int b)) h (11 + of_nat n)"
      by (rule map_tab_write[OF w(4) f3(4) branch_file(3)[OF a(2) b b2]])
    then have t: "map_tab s' = entry_upd (map_tab s) ?f h (11 + of_nat n)" using map_tab_frame[OF a(3)] t1 sb1(2) sb2(2) by simp
    have "keeps_numbers s s'" using t sb1 sb2 sb3 True e by (auto simp: keeps_numbers_def entry_upd_def)
    moreover have "numbers_left k s'" using w(2) f3(2,3) a(5,6) f1(2,3) ok(2-4) by (simp add: numbers_left_def int_inc_def)
    moreover have "au_ino (int b) h s = Some (0, 11 + of_nat n, s')" using r(1) True a(1) nz w(1) by (simp add: au_ino_def)
    ultimately show ?thesis using t nz by (auto simp: entry_upd_def)
  qed
qed

lemma assign_inos_fine:
  assumes "numbers_left (length ds) s" "\<forall>(b, d) \<in> set ds. int b \<le> sbend s"
  shows "\<exists>s'. assign_inos ds s = Some (map (\<lambda>(b, d). map_tab s' (br_file s (int b)) (ucast (l_ino d))) ds, s') \<and> keeps_numbers s s' \<and>
    numbers_left 0 s' \<and> (\<forall>(b, d) \<in> set ds. map_tab s' (br_file s (int b)) (ucast (l_ino d)) \<noteq> 0)"
  using assms
proof (induction ds arbitrary: s)
  case (Cons x ds)
  obtain b d where x: "x = (b, d)" by (cases x)
  have "numbers_left (Suc (length ds)) s" "int b \<le> sbend s" using Cons.prems x by auto
  from au_ino_fine[OF this, of "ucast (l_ino d)"] obtain ino s1 where
    a: "au_ino (int b) (ucast (l_ino d)) s = Some (0, ino, s1)" "numbers_left (length ds) s1" "keeps_numbers s s1" "ino \<noteq> 0"
      "map_tab s1 (br_file s (int b)) (ucast (l_ino d)) = ino" by blast
  have k: "sbend s1 = sbend s" "br_file s1 = br_file s" using a(3) by (simp_all add: keeps_numbers_def)
  have "\<forall>(b, d) \<in> set ds. int b \<le> sbend s1" using Cons.prems(2) k(1) by auto
  from Cons.IH[OF a(2) this] obtain s' where
    s': "assign_inos ds s1 = Some (map (\<lambda>(b, d). map_tab s' (br_file s (int b)) (ucast (l_ino d))) ds, s')" "keeps_numbers s1 s'"
      "numbers_left 0 s'" "\<forall>(b, d) \<in> set ds. map_tab s' (br_file s (int b)) (ucast (l_ino d)) \<noteq> 0" unfolding k(2) by blast
  have "map_tab s' (br_file s (int b)) (ucast (l_ino d)) = ino" using s'(2) a(4,5) unfolding keeps_numbers_def by metis
  then show ?case using x a s' keeps_trans[OF a(3) s'(2)] by (intro exI[of _ s']) simp
qed simp

section \<open>Memory\<close>

text \<open>Requests are granted, blocks as long as fewer than \<open>M\<close> are in use.\<close>

definition mem_fine :: "nat \<Rightarrow> vd_env \<Rightarrow> bool" where
  "mem_fine M env \<longleftrightarrow> alloc_fresh env \<and> (\<forall>t. alloc_ok env t) \<and> (\<forall>t L. length L < M \<longrightarrow> alloc_blk env t L \<noteq> None)"

lemma append_deblk_total:
  assumes "mem_fine M env" "length (live st) < M" "append_deblk env v st = (err, v', st')"
  shows "err = 0 \<and> length (live st') = length (live st) + 1"
proof -
  obtain a where "alloc_blk env (tick st + 1) (live st) = Some a" "alloc_ok env (tick st)" using assms(1,2) unfolding mem_fine_def by blast
  then show ?thesis using assms(3) by (auto simp: append_deblk_def kmalloc_other_def kmalloc_deblk_def set_deblk_end_def Let_def)
qed

lemma append_de_total:
  assumes "mem_fine M env" "length (live st) + 1 < M" "append_de env v name ino ty dl st = (err, v', dl', st')"
  shows "err = 0 \<and> length (live st') \<le> length (live st) + 2"
proof -
  let ?sz = "calc_size (length name)"
  have ok: "alloc_ok env t" for t using assms(1) by (simp add: mem_fine_def)
  obtain e1 v1 st1 where a1: "(if ?sz > 512 - snd (vd_last_p v) then append_deblk env v st else (0, v, st)) = (e1, v1, st1)"
    by (metis prod_cases3)
  have f1: "e1 = 0 \<and> length (live st1) \<le> length (live st) + 1"
  proof (cases "?sz > 512 - snd (vd_last_p v)")
    case True
    then show ?thesis using append_deblk_total[OF assms(1), of st v e1 v1 st1] a1 assms(2) by auto
  qed (use a1 in auto)
  obtain e2 m where m: "set_deblk_end (fst (vd_last_p v1), snd (vd_last_p v1) + ?sz) (st_de (vd_last_p v1) ino ty name (vmem st1)) = (e2, m)" by fastforce
  let ?st2 = "st1\<lparr>tick := tick st1 + 1, vmem := m\<rparr>" and ?v2 = "v1\<lparr>vd_last_p := (fst (vd_last_p v1), snd (vd_last_p v1) + ?sz)\<rparr>"
  have r: "(if e2 \<noteq> 0 then append_deblk env ?v2 ?st2 else (0, ?v2, ?st2)) = (err, v', st')"
    using assms(3) a1 f1 m ok by (auto simp: append_de_def kmalloc_other_def Let_def split: prod.splits)
  show ?thesis
  proof (cases "e2 = 0")
    case True
    then show ?thesis using r f1 by auto
  next
    case False
    then show ?thesis using r append_deblk_total[OF assms(1), of ?st2 ?v2 err v' st'] f1 assms(2) by auto
  qed
qed

section \<open>Reading\<close>

text \<open>\<open>k\<close> more entries can be taken.\<close>

definition room :: "nat \<Rightarrow> nat \<Rightarrow> nat \<Rightarrow> vd_state \<Rightarrow> bool" where
  "room M bend k st \<longleftrightarrow> numbers_left k (xsb st) \<and> int bend \<le> sbend (xsb st) \<and> length (live st) + 2 * k < M"

lemma room_mono: "room M bend k st \<Longrightarrow> j \<le> k \<Longrightarrow> room M bend j st"
  by (auto simp: room_def intro: numbers_left_mono)

lemma fillvdir_total:
  assumes "mem_fine M env" "\<not> vd_shwh env" "room M bend (Suc k) st" "b \<le> bend"
  shows "\<exists>arg' st'. fillvdir env d b arg st = Some (arg', st') \<and> a_err arg' = 0 \<and> room M bend k st' \<and>
    length (live st') \<le> length (live st) + 2"
proof -
  have k: "room M bend k st" using room_mono[OF assms(3)] by simp
  have nl: "numbers_left (Suc k) (xsb st)" "int b \<le> sbend (xsb st)" using assms(3,4) by (auto simp: room_def)
  have ok: "alloc_ok env t" for t using assms(1) by (simp add: mem_fine_def)
  obtain ino s' where a: "au_ino (int b) (ucast (l_ino d)) (xsb st) = Some (0, ino, s')" "numbers_left k s'" "keeps_numbers (xsb st) s'"
    using au_ino_fine[OF nl] by blast
  obtain e2 v dl st2 where ad: "append_de env (a_vdir arg) (l_name d) ino (l_type d) (a_delist arg ! b) (st\<lparr>xsb := s'\<rparr>) = (e2, v, dl, st2)"
    by (metis prod_cases4)
  have lM: "length (live (st\<lparr>xsb := s'\<rparr>)) + 1 < M" using assms(3) by (simp add: room_def)
  note at = append_de_total[OF assms(1) lM ad]
  have x2: "xsb st2 = s'"
    using ad ok by (auto simp: append_de_def kmalloc_other_def Let_def dest!: append_deblk_xsb split: if_splits prod.splits)
  have sb: "sbend s' = sbend (xsb st)" using a(3) by (simp add: keeps_numbers_def)
  have r2: "room M bend k st2" using at x2 a(2) sb assms(3) by (simp add: room_def)
  show ?thesis
  proof (cases "is_wh_name (l_name d)")
    case True
    then show ?thesis using k assms(2) ok
      by (simp add: fillvdir_def au_nhash_append_wh_def kmalloc_other_def Let_def room_def)
  next
    case False
    then show ?thesis using k at r2 a(1) ad by (simp add: fillvdir_def Let_def)
  qed
qed

lemma fill_batch_total:
  assumes "mem_fine M env" "\<not> vd_shwh env" "room M bend (length ds + k) st" "b \<le> bend" "a_err arg = 0"
  shows "\<exists>arg' st'. fill_batch env ds b arg st = Some (arg', st') \<and> a_err arg' = 0 \<and> room M bend k st' \<and>
    length (live st') \<le> length (live st) + 2 * length ds"
  using assms(3,5)
proof (induction ds arbitrary: arg st)
  case (Cons d ds)
  have "room M bend (Suc (length ds + k)) st" using Cons.prems(1) by simp
  from fillvdir_total[OF assms(1,2) this assms(4)] obtain arg1 st1 where
    f: "fillvdir env d b arg st = Some (arg1, st1)" "a_err arg1 = 0" "room M bend (length ds + k) st1" "length (live st1) \<le> length (live st) + 2" by blast
  from Cons.IH[OF f(3,2)] f show ?case by fastforce
qed simp

definition calls_size :: "(lde list \<times> int) list \<Rightarrow> nat" where
  "calls_size cs = sum_list (map (\<lambda>c. length (fst c)) cs)"

lemma read_calls_total:
  assumes "mem_fine M env" "\<not> vd_shwh env" "room M bend (calls_size cs + k) st" "b \<le> bend" "\<forall>c \<in> set cs. 0 \<le> snd c"
  shows "\<exists>arg' st'. read_calls env cs b arg st = Some (0, arg', st') \<and> room M bend k st' \<and>
    length (live st') \<le> length (live st) + 2 * calls_size cs"
  using assms(3,5)
proof (induction cs arbitrary: arg st)
  case Nil
  then show ?case by (simp add: calls_size_def)
next
  case (Cons c cs)
  obtain ds e where c: "c = (ds, e)" by (cases c)
  have sz: "calls_size (c # cs) = length ds + calls_size cs" by (simp add: calls_size_def c)
  have r: "room M bend (length ds + (calls_size cs + k)) st" using Cons.prems(1) unfolding sz by (simp add: add.assoc)
  have a0: "a_err (arg\<lparr>a_err := 0\<rparr>) = 0" by simp
  from fill_batch_total[OF assms(1,2) r assms(4) a0] obtain arg1 st1 where
    f: "fill_batch env ds b (arg\<lparr>a_err := 0\<rparr>) st = Some (arg1, st1)" "a_err arg1 = 0" "room M bend (calls_size cs + k) st1"
      "length (live st1) \<le> length (live st) + 2 * length ds" by blast
  have e: "0 \<le> e" using Cons.prems(2) c by simp
  show ?case
  proof (cases "ds = []")
    case True
    then have "read_calls env (c # cs) b arg st = Some (0, arg1, st1)" using c f(1,2) e by simp
    then show ?thesis using room_mono[OF f(3), of k] f(4) sz by auto
  next
    case False
    then have "read_calls env (c # cs) b arg st = read_calls env cs b arg1 st1" using c f(1,2) e by simp
    moreover have "\<forall>c \<in> set cs. 0 \<le> snd c" using Cons.prems(2) by simp
    from Cons.IH[OF f(3) this, of arg1] obtain arg2 st2 where
      "read_calls env cs b arg1 st1 = Some (0, arg2, st2)" "room M bend k st2" "length (live st2) \<le> length (live st1) + 2 * calls_size cs" by blast
    ultimately show ?thesis using f(4) sz by auto
  qed
qed

text \<open>The lower directories answer without an error; how many entries they give.\<close>

definition dir_fine :: "(nat \<Rightarrow> h_dir option) \<Rightarrow> bool" where
  "dir_fine hf \<longleftrightarrow> (\<forall>b h. hf b = Some h \<longrightarrow> h_seek h = 0 \<and> (\<forall>c \<in> set (h_calls h). 0 \<le> snd c))"

definition branch_size :: "(nat \<Rightarrow> h_dir option) \<Rightarrow> nat \<Rightarrow> nat" where
  "branch_size hf b = (case hf b of None \<Rightarrow> 0 | Some h \<Rightarrow> calls_size (h_calls h))"

definition dir_size :: "(nat \<Rightarrow> h_dir option) \<Rightarrow> nat \<Rightarrow> nat \<Rightarrow> nat" where
  "dir_size hf b n = sum_list (map (branch_size hf) [b..<b + n])"

lemma dir_size_Suc: "dir_size hf b (Suc n) = branch_size hf b + dir_size hf (b + 1) n"
  unfolding dir_size_def by (subst upt_rec) simp

lemma read_branches_total:
  assumes "mem_fine M env" "\<not> vd_shwh env" "room M bend (dir_size hf b n + k) st" "b + n \<le> bend + 1" "dir_fine hf"
  shows "\<exists>arg' st'. read_branches n env hf b arg st = Some (0, arg', st') \<and> room M bend k st' \<and>
    length (live st') \<le> length (live st) + 2 * dir_size hf b n"
  using assms(3,4)
proof (induction n arbitrary: b arg st)
  case 0
  then show ?case by (simp add: dir_size_def)
next
  case (Suc n)
  have b: "b \<le> bend" "b + 1 + n \<le> bend + 1" using Suc.prems(2) by simp_all
  show ?case
  proof (cases "hf b")
    case None
    then have "dir_size hf b (Suc n) = dir_size hf (b + 1) n" by (simp add: dir_size_Suc branch_size_def)
    then show ?thesis using Suc.IH[OF _ b(2), of st arg] Suc.prems(1) None by simp
  next
    case (Some h)
    have h: "h_seek h = 0" "\<forall>c \<in> set (h_calls h). 0 \<le> snd c" using assms(5) Some by (auto simp: dir_fine_def)
    have sz: "dir_size hf b (Suc n) = calls_size (h_calls h) + dir_size hf (b + 1) n" using Some by (simp add: dir_size_Suc branch_size_def)
    have r: "room M bend (calls_size (h_calls h) + (dir_size hf (b + 1) n + k)) st" using Suc.prems(1) unfolding sz by (simp add: add.assoc)
    from read_calls_total[OF assms(1,2) r b(1) h(2), of arg] obtain arg1 st1 where
      c: "read_calls env (h_calls h) b arg st = Some (0, arg1, st1)" "room M bend (dir_size hf (b + 1) n + k) st1"
        "length (live st1) \<le> length (live st) + 2 * calls_size (h_calls h)" by blast
    from Suc.IH[OF c(2) b(2), of arg1] obtain arg2 st2 where
      "read_branches n env hf (b + 1) arg1 st1 = Some (0, arg2, st2)" "room M bend k st2"
      "length (live st2) \<le> length (live st1) + 2 * dir_size hf (b + 1) n" by blast
    then show ?thesis using Some h(1) c sz by auto
  qed
qed

lemma do_read_vdir_total:
  assumes "mem_fine M env" "\<not> vd_shwh env" "dir_fine (h_fptr file)" "fbstart file \<le> fbend file"
    "room M (fbend file) (dir_size (h_fptr file) (fbstart file) (fbend file + 1 - fbstart file) + k) st"
  shows "\<exists>v' st'. au_do_read_vdir env file v st = Some (0, v', st') \<and> room M (fbend file) k st' \<and>
    length (live st') \<le> length (live st) + 2 * dir_size (h_fptr file) (fbstart file) (fbend file + 1 - fbstart file)"
proof -
  let ?st = "st\<lparr>tick := tick st + 2\<rparr>" and ?n = "fbend file + 1 - fbstart file"
  have r: "room M (fbend file) (dir_size (h_fptr file) (fbstart file) ?n + k) ?st" using assms(5) by (simp add: room_def)
  have n: "fbstart file + ?n \<le> fbend file + 1" using assms(4) by simp
  have ok: "alloc_ok env t" for t using assms(1) by (simp add: mem_fine_def)
  let ?arg = "\<lparr>a_vdir = v, a_delist = replicate (fbend file + 1) au_nhash_init, a_whlist = replicate (fbend file + 1) au_nhash_init, a_err = 0\<rparr>"
  from read_branches_total[OF assms(1,2) r n assms(3), of ?arg] obtain arg' st' where
    "read_branches ?n env (h_fptr file) (fbstart file) ?arg ?st = Some (0, arg', st')" "room M (fbend file) k st'"
    "length (live st') \<le> length (live ?st) + 2 * dir_size (h_fptr file) (fbstart file) ?n" by blast
  then show ?thesis using ok assms(2) by (simp add: au_do_read_vdir_def kmalloc_other_def Let_def)
qed

end
