(* ===== verification/Aufs_Vdir_Props.thy ===== *)
theory Aufs_Vdir_Props
  imports Aufs_Vdir_Total
begin

text \<open>
  What reading a directory of the union shows, who owns its blocks, and how the entries are handed
  out over several calls.
\<close>

section \<open>Reading succeeds\<close>

lemma kfree_length: "length (live (kfree_deblk p st)) \<le> length (live st)"
  by (cases p) (auto simp: kfree_deblk_def length_remove1)

lemma reinit_length: "reinit_vdir v st = (err, v', st') \<Longrightarrow> length (live st') \<le> length (live st)"
proof -
  have l: "reinit_loop n v st = (v', st') \<Longrightarrow> length (live st') \<le> length (live st)" for n v st v' st'
    by (induction n v st rule: reinit_loop.induct) (auto split: if_splits intro: le_trans[OF _ kfree_length])
  show "reinit_vdir v st = (err, v', st') \<Longrightarrow> length (live st') \<le> length (live st)"
    by (auto simp: reinit_vdir_def Let_def dest!: l split: prod.splits)
qed

lemma alloc_vdir_total:
  assumes "mem_fine M env" "length (live st) < M"
  shows "\<exists>v st'. alloc_vdir env st = (Inr v, st') \<and> length (live st') = length (live st) + 1"
proof -
  let ?v = "\<lparr>vd_deblk = [None], vd_nblk = 0, vd_last_i = 0, vd_last_p = (0, 0), vd_version = 0, vd_jiffy = 0\<rparr>"
  obtain e v st' where a: "append_deblk env ?v (st\<lparr>tick := tick st + 2\<rparr>) = (e, v, st')" by (metis prod_cases3)
  have "alloc_ok env t" for t using assms(1) by (simp add: mem_fine_def)
  then show ?thesis using append_deblk_total[OF assms(1) _ a] a assms(2) by (simp add: alloc_vdir_def kmalloc_other_def)
qed

lemma copy_deblks_total:
  assumes "mem_fine M env" "length (live st) + n \<le> M"
  shows "fst (copy_deblks n env i tgt src st)"
  using assms(2)
proof (induction n arbitrary: i tgt st)
  case (Suc n)
  then obtain a where a: "alloc_blk env (tick st) (live st) = Some a" using assms(1) unfolding mem_fine_def by fastforce
  have "length (a # live st) + n \<le> M" using Suc.prems by simp
  then show ?case using a Suc.IH by (simp add: kmalloc_deblk_def)
qed simp

lemma copy_vdir_total:
  assumes "mem_fine M env" "length (live st) + vd_nblk src \<le> M" "copy_vdir env tgt src st = Some (err, tgt', st')"
  shows "err = 0"
proof (rule ccontr)
  assume ne: "err \<noteq> 0"
  have ao: "alloc_ok env t" for t using assms(1) by (simp add: mem_fine_def)
  have c: "copy_deblks (vd_nblk src - 1) env 1 v src s \<noteq> (False, v', s')" if "live s = live st" for v s v' s'
    using copy_deblks_total[OF assms(1), of s "vd_nblk src - 1" 1 v src] assms(2) that by (cases "copy_deblks (vd_nblk src - 1) env 1 v src s") auto
  show False using assms(3) ne ao c unfolding copy_vdir_def Let_def kmalloc_other_def
    by (auto split: if_splits prod.splits)
qed

lemma nblk_live: "vdir_wf st v \<Longrightarrow> vd_nblk v \<le> length (live st)"
  using length_blks[of v] card_mono[of "set (live st)" "set (blks v)"] unfolding vdir_wf_def
  by (metis List.finite_set distinct_card)

lemma read_vdir_total:
  assumes "owned st H (somes [ivdir inode])" "mem_fine M env" "\<not> vd_shwh env" "dir_fine (h_fptr file)" "fbstart file \<le> fbend file"
    "must_read env inode may_read" "int (fbend file) \<le> sbend (xsb st)"
    "numbers_left (dir_size (h_fptr file) (fbstart file) (fbend file + 1 - fbstart file)) (xsb st)"
    "length (live st) + 2 * dir_size (h_fptr file) (fbstart file) (fbend file + 1 - fbstart file) + 1 < M"
  shows "\<exists>inode' st'. read_vdir env file inode may_read st = Some (0, inode', st') \<and>
    length (live st') \<le> length (live st) + 2 * dir_size (h_fptr file) (fbstart file) (fbend file + 1 - fbstart file) + 1"
proof -
  let ?k = "dir_size (h_fptr file) (fbstart file) (fbend file + 1 - fbstart file)"
  have rm: "room M (fbend file) (?k + 0) st1" if "xsb st1 = xsb st" "length (live st1) \<le> length (live st) + 1" for st1
    using assms(7-9) that by (simp add: room_def)
  show ?thesis
  proof (cases "ivdir inode")
    case None
    obtain v st1 where a: "alloc_vdir env st = (Inr v, st1)" "length (live st1) = length (live st) + 1"
      using alloc_vdir_total[OF assms(2), of st] assms(9) by auto
    from do_read_vdir_total[OF assms(2-5) rm, of st1 v] alloc_vdir_xsb[OF a(1)] a(2)
    show ?thesis using None a by (fastforce simp: read_vdir_def)
  next
    case (Some v)
    have o: "owned st H [v]" using assms(1) Some by simp
    obtain e1 v1 st1 where ri: "reinit_vdir v st = (e1, v1, st1)" by (metis prod_cases3)
    have l: "length (live st1) \<le> length (live st)" "e1 = 0" using reinit_length[OF ri] reinit_owned[OF o ri] by simp_all
    from do_read_vdir_total[OF assms(2-5) rm, of st1 v1] reinit_vdir_xsb[OF ri] l
    obtain v2 st2 where "au_do_read_vdir env file v1 st1 = Some (0, v2, st2)" "length (live st2) \<le> length (live st1) + 2 * ?k" by auto
    then show ?thesis using Some assms(6) ri l by (fastforce simp: read_vdir_def must_read_def)
  qed
qed

section \<open>What is shown\<close>

lemma dir_entries_size: "length (dir_entries cs) \<le> calls_size cs"
  by (induction cs) (auto simp: dir_entries_def calls_size_def)

lemma branch_entries_size: "length (branch_entries hf b) \<le> branch_size hf b"
  by (auto simp: branch_entries_def branch_size_def dir_entries_size split: option.split)

lemma union_size: "length (union_list K b dss) \<le> sum_list (map length dss)"
proof (induction dss arbitrary: K b)
  case (Cons ds dss)
  have "length (visible K ds) \<le> length ds" by (simp add: visible_def)
  then show ?case using Cons[of "K \<union> l_name ` set (visible K ds) \<union> whiteouts ds" "b + 1"] by simp
qed simp

lemma file_union_size:
  assumes "fbstart file \<le> fbend file"
  shows "length (file_union file) \<le> dir_size (h_fptr file) (fbstart file) (fbend file + 1 - fbstart file)"
proof -
  let ?bs = "[fbstart file..<fbend file + 1]"
  have "length (file_union file) \<le> sum_list (map (\<lambda>b. length (branch_entries (h_fptr file) b)) ?bs)"
    unfolding file_union_def using union_size[of "{}" "fbstart file" "map (branch_entries (h_fptr file)) ?bs"] by (simp add: comp_def)
  also have "\<dots> \<le> sum_list (map (branch_size (h_fptr file)) ?bs)" by (rule sum_list_mono) (rule branch_entries_size)
  finally show ?thesis using assms by (simp add: dir_size_def)
qed

lemma union_branches: "(c, d) \<in> set (union_list K b dss) \<Longrightarrow> b \<le> c \<and> c < b + length dss"
  by (induction dss arbitrary: K b) fastforce+

text \<open>A name is shown when a branch has it and no branch above whites it out; no name is shown twice.\<close>

lemma union_shown:
  "n \<in> (l_name \<circ> snd) ` set (union_list K b dss) \<longleftrightarrow>
    n \<notin> K \<and> (\<exists>i < length dss. n \<in> l_name ` set (dss ! i) \<and> \<not> is_wh_name n \<and> (\<forall>j < i. n \<notin> whiteouts (dss ! j)))"
proof (induction dss arbitrary: K b)
  case (Cons ds dss)
  have ex: "(\<exists>i < Suc m. P i) \<longleftrightarrow> P 0 \<or> (\<exists>i < m. P (Suc i))" for P m by (auto simp: less_Suc_eq_0_disj)
  have al: "(\<forall>j < Suc m. Q j) \<longleftrightarrow> Q 0 \<and> (\<forall>j < m. Q (Suc j))" for Q m by (auto simp: less_Suc_eq_0_disj)
  have v: "n \<in> l_name ` set (visible K ds) \<longleftrightarrow> n \<in> l_name ` set ds \<and> \<not> is_wh_name n \<and> n \<notin> K" by (auto simp: visible_def)
  have "n \<in> (l_name \<circ> snd) ` set (union_list K b (ds # dss)) \<longleftrightarrow> n \<in> l_name ` set (visible K ds) \<or>
      n \<in> (l_name \<circ> snd) ` set (union_list (K \<union> l_name ` set (visible K ds) \<union> whiteouts ds) (b + 1) dss)"
    by (force simp: image_Un)
  then show ?case unfolding Cons.IH length_Cons ex al nth_Cons_0 nth_Cons_Suc using v by blast
qed simp

lemma union_distinct:
  assumes "\<forall>ds \<in> set dss. distinct (map l_name ds)"
  shows "distinct (map (l_name \<circ> snd) (union_list K b dss))"
  using assms
proof (induction dss arbitrary: K b)
  case (Cons ds dss)
  let ?K = "K \<union> l_name ` set (visible K ds) \<union> whiteouts ds"
  have 1: "distinct (map l_name (visible K ds))" using Cons.prems by (auto simp: visible_def distinct_map_filter)
  have 2: "n \<in> (l_name \<circ> snd) ` set (union_list ?K (b + 1) dss) \<Longrightarrow> n \<notin> l_name ` set (visible K ds)" for n
    unfolding union_shown by blast
  have 3: "map (l_name \<circ> snd) (map (Pair b) (visible K ds)) = map l_name (visible K ds)" by simp
  have 4: "distinct (map (l_name \<circ> snd) (union_list ?K (b + 1) dss))" by (rule Cons.IH) (use Cons.prems in simp)
  have "l_name ` set (visible K ds) \<inter> (l_name \<circ> snd) ` set (union_list ?K (b + 1) dss) = {}" using 2 by blast
  then show ?case using 1 4 by (simp only: union_list.simps map_append 3 distinct_append set_map)
qed simp

section \<open>The listing of an open directory\<close>

text \<open>Memory for reading a directory once and for the copy, when \<open>k\<close> entries at most are given.\<close>

definition mem_for :: "nat \<Rightarrow> nat \<Rightarrow> vd_state \<Rightarrow> bool" where
  "mem_for M k st \<longleftrightarrow> 2 * (length (live st) + 2 * k + 2) \<le> M"

definition listing_size :: "au_file \<Rightarrow> nat" where
  "listing_size f = dir_size (h_fptr f) (fbstart f) (fbend f + 1 - fbstart f)"

text \<open>Nothing stands in the way of reading the directory \<open>f\<close>, and it is to be read.\<close>

definition can_read :: "nat \<Rightarrow> vd_env \<Rightarrow> au_file \<Rightarrow> dir_inode \<Rightarrow> vd_state \<Rightarrow> bool" where
  "can_read M env f inode st \<longleftrightarrow> mem_fine M env \<and> \<not> vd_shwh env \<and> dir_ok (h_fptr f) \<and> dir_fine (h_fptr f) \<and>
     fbstart f \<le> fbend f \<and> int (fbend f) \<le> sbend (xsb st) \<and> numbers_left (listing_size f) (xsb st) \<and>
     mem_for M (listing_size f) st \<and> must_read env inode (f_pos f = 0) \<and> must_copy f"

lemma vdir_init_total:
  assumes "owned st H (somes [ivdir inode] @ somes [fvdir_cache f])" "can_read M env f inode st"
  shows "\<exists>f' inode' st'. au_vdir_init env f inode st = Some (0, f', inode', st')"
proof -
  let ?cs = "somes [fvdir_cache f]" and ?k = "listing_size f"
  let ?H = "H + mset (concat (map blks ?cs))"
  have c: "mem_fine M env" "\<not> vd_shwh env" "dir_ok (h_fptr f)" "dir_fine (h_fptr f)" "fbstart f \<le> fbend f"
    "int (fbend f) \<le> sbend (xsb st)" "numbers_left ?k (xsb st)" "must_read env inode (f_pos f = 0)" "must_copy f"
    "2 * (length (live st) + 2 * ?k + 2) \<le> M" using assms(2) by (simp_all add: can_read_def mem_for_def)
  have af: "alloc_fresh env" using c(1) by (simp add: mem_fine_def)
  have o: "owned st ?H (somes [ivdir inode])" "\<forall>w \<in> set ?cs. vdir_wf st w" using assms(1) unfolding owned_split by blast+
  have l: "length (live st) + 2 * ?k + 1 < M" using c(10) by simp
  from read_vdir_total[OF o(1) c(1,2,4,5,8) c(6) c(7)[unfolded listing_size_def] l[unfolded listing_size_def]]
  obtain in1 st1 where r: "read_vdir env f inode (f_pos f = 0) st = Some (0, in1, st1)" "length (live st1) \<le> length (live st) + 2 * ?k + 1"
    unfolding listing_size_def by blast
  note rv = read_vdir_spec[OF o(1) af c(3,5) r(1)]
  then obtain v where v: "ivdir in1 = Some v" by auto
  have o1: "owned st1 ?H (somes [ivdir in1])" "untouched_blks ?H st st1" using rv by blast+
  have o2: "owned st1 H ([v] @ ?cs)" using owned_others(1)[OF o1 o(2)] v by simp
  have wv: "vdir_wf st1 v" "distinct (live st1)" using o2 by (simp_all add: owned_def)
  have nb: "vd_nblk v \<le> length (live st1)" by (rule nblk_live[OF wv(1)])
  have copy: "\<exists>w' st3. copy_vdir env w v st2 = Some (0, w', st3)"
    if "owned st2 H ([w] @ [v])" "vd_nblk w = 1" "at_start w" "length (live st2) \<le> length (live st1) + 1" for w st2
  proof -
    from copy_beside[OF that(1-3) af] obtain e w' st3 where k: "copy_vdir env w v st2 = Some (e, w', st3)" by blast
    have "length (live st2) + vd_nblk v \<le> M" using that(4) nb r(2) c(10) by simp
    from copy_vdir_total[OF c(1) this k] k show ?thesis by simp
  qed
  show ?thesis
  proof (cases "fvdir_cache f")
    case None
    have d: "mset (live st1) = H + mset (blks v)" using o2 None by (simp add: owned_one)
    obtain w st2 where a: "alloc_vdir env st1 = (Inr w, st2)" "length (live st2) = length (live st1) + 1"
      using alloc_vdir_total[OF c(1), of st1] r(2) l by auto
    have w: "owned st2 (H + mset (concat (map blks [v]))) [w]" "untouched_blks (H + mset (concat (map blks [v]))) st1 st2"
      "vd_nblk w = 1" "at_start w" using alloc_vdir_spec[OF wv(2) af a(1)] d by simp_all
    have vw: "\<forall>u \<in> set [v]. vdir_wf st1 u" using wv(1) by simp
    obtain w' st3 where "copy_vdir env w v st2 = Some (0, w', st3)"
      using copy[OF owned_others(1)[OF w(1,2) vw] w(3,4)] a(2) by auto
    then show ?thesis using r(1) None a(1) v by (simp add: au_vdir_init_def)
  next
    case (Some u)
    have "owned st1 H ([u] @ [v])" using o2 Some owned_swap[of st1 H "[v]" "[u]"] by simp
    then have oc: "owned st1 (H + mset (concat (map blks [v]))) [u]" "\<forall>u \<in> set [v]. vdir_wf st1 u" unfolding owned_split by blast+
    obtain e2 w st2 where ri: "reinit_vdir u st1 = (e2, w, st2)" by (metis prod_cases3)
    note rs = reinit_owned[OF oc(1) ri]
    have w: "owned st2 (H + mset (concat (map blks [v]))) [w]" "untouched_blks (H + mset (concat (map blks [v]))) st1 st2"
      "vd_nblk w = 1" "at_start w" "e2 = 0" using rs by blast+
    obtain w' st3 where "copy_vdir env w v st2 = Some (0, w', st3)"
      using copy[OF owned_others(1)[OF w(1,2) oc(2)] w(3,4)] reinit_length[OF ri] by auto
    then show ?thesis using r(1) Some ri v w(5) c(9) by (simp add: au_vdir_init_def must_copy_def)
  qed
qed

lemma map2_same: "map2 f xs (map g xs) = map (\<lambda>x. f x (g x)) xs"
  by (induction xs) simp_all

text \<open>
  The entries of an open directory: those of the union, in order, each with the number that the map
  of its branch holds for it.
\<close>

definition union_listing :: "au_file \<Rightarrow> au_sbinfo \<Rightarrow> au_sbinfo \<Rightarrow> (name \<times> u32 \<times> u8) list" where
  "union_listing f s s' =
     map (\<lambda>(b, d). (l_name d, map_tab s' (br_file s (int b)) (ucast (l_ino d)), l_type d)) (file_union f)"

lemma readdir_listing:
  assumes "owned st H (somes [ivdir inode] @ somes [fvdir_cache f])" "can_read M env f inode st"
  shows "\<exists>f' inode' st' c v. au_vdir_init env f inode st = Some (0, f', inode', st') \<and> fvdir_cache f' = Some c \<and> ivdir inode' = Some v \<and>
    vdir_list (vmem st') c = union_listing f (xsb st) (xsb st') \<and> at_start c \<and> f_pos f' = f_pos f \<and> vdir_wf st' c \<and>
    owned st' H ([v] @ [c]) \<and> untouched_blks H st st'"
proof -
  obtain f' inode' st' where i: "au_vdir_init env f inode st = Some (0, f', inode', st')" using vdir_init_total[OF assms] by blast
  have c: "alloc_fresh env" "\<not> vd_shwh env" "dir_ok (h_fptr f)" "fbstart f \<le> fbend f" "int (fbend f) \<le> sbend (xsb st)"
    "numbers_left (listing_size f) (xsb st)" "must_read env inode (f_pos f = 0)" "must_copy f"
    using assms(2) by (simp_all add: can_read_def mem_fine_def)
  from vdir_init_spec[OF assms(1) c(1,3,4) i] c(2,7,8) obtain v w where
    v: "fvdir_cache f' = Some w" "vdir_list (vmem st') w = vdir_list (vmem st') v" "listed (xsb st) (vmem st') v (file_union f) (xsb st')"
      "at_start w" "f_pos f' = f_pos f" "ivdir inode' = Some v" "owned st' H ([v] @ [w])" "untouched_blks H st st'" by auto
  have n: "numbers_left (length (file_union f)) (xsb st)"
    by (rule numbers_left_mono[OF c(6)]) (use file_union_size[OF c(4)] in \<open>simp add: listing_size_def\<close>)
  have b: "\<forall>(b, d) \<in> set (file_union f). int b \<le> sbend (xsb st)"
    using union_branches[of _ _ "{}" "fbstart f" "map (branch_entries (h_fptr f)) [fbstart f..<fbend f + 1]"] c(4,5)
    by (fastforce simp: file_union_def)
  let ?ino = "\<lambda>(b, d). map_tab (xsb st') (br_file (xsb st) (int b)) (ucast (l_ino d))"
  have "vdir_list (vmem st') v = map2 de_of (file_union f) (map ?ino (file_union f))"
    using assign_inos_fine[OF n b] v(3) by (auto simp: listed_def)
  then have "vdir_list (vmem st') w = map (\<lambda>x. de_of x (?ino x)) (file_union f)"
    using v(2) map2_same[of de_of "file_union f" ?ino] by simp
  then have "vdir_list (vmem st') w = union_listing f (xsb st) (xsb st')" by (simp add: union_listing_def de_of_def case_prod_beta)
  moreover have "vdir_wf st' w" using v(7) by (simp add: owned_def)
  ultimately show ?thesis using i v by blast
qed

section \<open>Who owns the blocks\<close>

text \<open>
  C37: whatever fails while a directory is opened for reading, every block is in the table of the inode or of the
  file, once, or was somebody else's before; nothing is leaked or freed twice, and no byte of a block of
  somebody else changes.
\<close>

theorem vdir_owns_blocks:
  assumes "owned st H (somes [ivdir inode] @ somes [fvdir_cache f])" "alloc_fresh env" "dir_ok (h_fptr f)" "fbstart f \<le> fbend f"
    "au_vdir_init env f inode st = Some (err, f', inode', st')"
  shows "owned st' H (somes [ivdir inode'] @ somes [fvdir_cache f']) \<and> untouched_blks H st st'"
  using vdir_init_spec[OF assms] by blast

text \<open>An example: two branches, the upper with a whiteout; a block of somebody else is in use.\<close>

definition demo_vd_env :: vd_env where
  "demo_vd_env = \<lparr>alloc_blk = (\<lambda>t L. find (\<lambda>a. a \<notin> set L) (map of_nat [0..<length L + 1])), alloc_ok = (\<lambda>_. True),
     full_name_hash = length, jiffies = 5, si_rdcache = 10, vd_shwh = False\<rparr>"

definition demo_dirs :: "nat \<Rightarrow> h_dir option" where
  "demo_dirs = (\<lambda>b.
     if b = 0 then Some \<lparr>h_seek = 0, h_calls = [([\<lparr>l_name = [46], l_ino = 2, l_type = 4\<rparr>, \<lparr>l_name = [97], l_ino = 7, l_type = 8\<rparr>,
       \<lparr>l_name = WH_PFX @ [98], l_ino = 9, l_type = 8\<rparr>], 0), ([], 0)]\<rparr>
     else if b = 1 then Some \<lparr>h_seek = 0, h_calls = [([\<lparr>l_name = [46], l_ino = 2, l_type = 4\<rparr>, \<lparr>l_name = [97], l_ino = 3, l_type = 8\<rparr>], 0),
       ([\<lparr>l_name = [98], l_ino = 4, l_type = 8\<rparr>, \<lparr>l_name = [99], l_ino = 5, l_type = 8\<rparr>], 0), ([], 0)]\<rparr>
     else None)"

definition demo_file :: au_file where
  "demo_file = \<lparr>f_pos = 0, f_version = 0, fbstart = 0, fbend = 1, h_fptr = demo_dirs, fvdir_cache = None\<rparr>"

definition demo_sb2 :: au_sbinfo where
  "demo_sb2 = (let s = demo_sb (replicate 4096 0) []
     in s\<lparr>si_branch := si_branch s @ [(hd (si_branch s))\<lparr>xi_file := Some 2\<rparr>], xfiles := xfiles s @ [last (xfiles s)]\<rparr>)"

definition demo_vd_state :: vd_state where
  "demo_vd_state = \<lparr>vmem = (\<lambda>_ _. 0), live = [7], tick = 0, xsb = demo_sb2\<rparr>"

definition demo_inode :: dir_inode where
  "demo_inode = \<lparr>i_version = 3, ivdir = None\<rparr>"

lemma demo_sb2_ok: "xib_ok demo_sb2" "xib_pages demo_sb2 = 1" "sbend demo_sb2 = 1" "si_xib_next_bit demo_sb2 = 0"
proof -
  show "sbend demo_sb2 = 1" "si_xib_next_bit demo_sb2 = 0" by (simp_all add: demo_sb2_def demo_sb_def au_sbend_def)
  show "xib_pages demo_sb2 = 1" by (simp add: demo_sb2_def demo_sb_def xib_pages_def i_size_def file_at_def)
  have "xib_wf demo_sb2" by (simp add: xib_wf_def demo_sb2_def demo_sb_def i_size_def file_at_def xib_pages_def maps_ok_def)
  then show "xib_ok demo_sb2" unfolding xib_ok_wf by (simp add: fine_def) (simp add: demo_sb2_def demo_sb_def io_fine_def)
qed

lemma demo_env_fine: "mem_fine 100 demo_vd_env"
proof -
  have "find (\<lambda>a. a \<notin> set L) (map of_nat [0..<length L + 1]) \<noteq> None" if l: "length L < 100" for L :: "u32 list"
  proof
    assume "find (\<lambda>a. a \<notin> set L) (map of_nat [0..<length L + 1]) = None"
    then have s: "(of_nat :: nat \<Rightarrow> u32) ` {0..<length L + 1} \<subseteq> set L" unfolding find_None_iff set_map set_upt by blast
    have "inj_on (of_nat :: nat \<Rightarrow> u32) {0..<length L + 1}"
      by (rule inj_onI) (use l in \<open>auto simp: word_of_nat_eq_iff take_bit_nat_eq_self\<close>)
    then have "length L + 1 \<le> card (set L)" using card_mono[OF _ s] by (simp add: card_image)
    then show False using card_length[of L] by simp
  qed
  then show ?thesis by (auto simp: mem_fine_def demo_vd_env_def alloc_fresh_def find_Some_iff)
qed

lemma demo_can_read: "can_read 100 demo_vd_env demo_file demo_inode demo_vd_state"
  "owned demo_vd_state {#7#} (somes [ivdir demo_inode] @ somes [fvdir_cache demo_file])"
proof -
  have up: "[0..<2] = [0, 1::nat]" by (simp add: upt_rec)
  have k: "listing_size demo_file = 7"
    by (simp add: listing_size_def dir_size_def demo_file_def demo_dirs_def branch_size_def calls_size_def up numeral_2_eq_2[symmetric])
  have d: "dir_ok demo_dirs" "dir_fine demo_dirs" by (auto simp: dir_ok_def dir_fine_def demo_dirs_def name_ok_def split: if_splits)
  have n: "numbers_left 7 demo_sb2" using demo_sb2_ok by (simp add: numbers_left_def)
  show "can_read 100 demo_vd_env demo_file demo_inode demo_vd_state"
    using demo_env_fine k d n demo_sb2_ok(3)
    by (simp add: can_read_def demo_file_def demo_vd_state_def mem_for_def must_read_def must_copy_def demo_inode_def demo_vd_env_def)
  show "owned demo_vd_state {#7#} (somes [ivdir demo_inode] @ somes [fvdir_cache demo_file])"
    by (simp add: owned_def demo_vd_state_def demo_inode_def demo_file_def)
qed

lemma whiteouts_simps: "whiteouts [] = {}"
  "whiteouts (d # ds) = (if is_wh_name (l_name d) then insert (drop 4 (l_name d)) (whiteouts ds) else whiteouts ds)"
  by (auto simp: whiteouts_def)

lemma demo_union: "map (l_name \<circ> snd) (file_union demo_file) = [[46], [97], [99]]"
proof -
  have up: "[0..<2] = [0, 1::nat]" by (simp add: upt_rec)
  show ?thesis
    by (simp add: file_union_def demo_file_def demo_dirs_def branch_entries_def dir_entries_def up numeral_2_eq_2[symmetric]
      visible_def whiteouts_simps is_wh_name_def WH_PFX_def AUFS_WH_PFX_def)
qed

theorem vdir_owns_blocks_witness:
  "\<exists>f' inode' st'. au_vdir_init demo_vd_env demo_file demo_inode demo_vd_state = Some (0, f', inode', st') \<and>
     owned st' {#7#} (somes [ivdir inode'] @ somes [fvdir_cache f']) \<and> untouched_blks {#7#} demo_vd_state st'"
proof -
  obtain f' inode' st' where i: "au_vdir_init demo_vd_env demo_file demo_inode demo_vd_state = Some (0, f', inode', st')"
    using vdir_init_total[OF demo_can_read(2,1)] by blast
  have c: "alloc_fresh demo_vd_env" "dir_ok (h_fptr demo_file)" "fbstart demo_file \<le> fbend demo_file"
    using demo_can_read(1) by (simp_all add: can_read_def mem_fine_def)
  show ?thesis using vdir_owns_blocks[OF demo_can_read(2) c i] i by blast
qed

end
