(* ===== verification/Aufs_Vdir_Fill.thy ===== *)
theory Aufs_Vdir_Fill
  imports Aufs_Vdir_Props
begin

text \<open>
  Handing out the entries: what one call delivers and where the next goes on, whatever the caller's
  buffer takes; seeking to an entry; and reading a directory of the union in several calls.
\<close>

section \<open>The entries that are left\<close>

definition block_dents :: "pmem \<Rightarrow> nat \<Rightarrow> u32 \<Rightarrow> nat \<Rightarrow> dent list" where
  "block_dents m i b x = map (\<lambda>p. dent_at m p (AuSize_DEBLK * i + snd p)) (block_des m b x)"

text \<open>From the place \<open>x\<close> in block \<open>i\<close> on.\<close>

definition left_dents :: "pmem \<Rightarrow> u32 option list \<Rightarrow> nat \<Rightarrow> nat \<Rightarrow> nat \<Rightarrow> dent list" where
  "left_dents m bs n i x =
     block_dents m i (the (bs ! i)) x @ concat (map (\<lambda>j. block_dents m j (the (bs ! j)) 0) [i + 1..<n])"

definition dents_left :: "pmem \<Rightarrow> au_vdir \<Rightarrow> dent list" where
  "dents_left m v = left_dents m (vd_deblk v) (vd_nblk v) (vd_last_i v) (snd (vd_last_p v))"

definition all_dents :: "pmem \<Rightarrow> au_vdir \<Rightarrow> dent list" where
  "all_dents m v = left_dents m (vd_deblk v) (vd_nblk v) 0 0"

lemma block_dents_end: "is_deblk_end m (b, x) \<Longrightarrow> block_dents m i b x = []"
  by (simp add: block_dents_def block_des.simps[of m b x])

lemma block_dents_next: "\<not> is_deblk_end m (b, x) \<Longrightarrow>
    block_dents m i b x = dent_at m (b, x) (AuSize_DEBLK * i + x) # block_dents m i b (x + calc_size (str_len m (de_str (b, x))))"
  by (simp add: block_dents_def block_des.simps[of m b x] de_size_def)

lemma left_next: "i + 1 < n \<Longrightarrow> is_deblk_end m (the (bs ! i), x) \<Longrightarrow> left_dents m bs n i x = left_dents m bs n (i + 1) 0"
  by (simp add: left_dents_def block_dents_end upt_conv_Cons)

lemma left_end: "\<not> i + 1 < n \<Longrightarrow> is_deblk_end m (the (bs ! i), x) \<Longrightarrow> left_dents m bs n i x = []"
  by (simp add: left_dents_def block_dents_end)

lemma left_entry: "\<not> is_deblk_end m (the (bs ! i), x) \<Longrightarrow>
    left_dents m bs n i x = dent_at m (the (bs ! i), x) (AuSize_DEBLK * i + x) #
      left_dents m bs n i (x + calc_size (str_len m (de_str (the (bs ! i), x))))"
  by (simp add: left_dents_def block_dents_next)

definition dent_data :: "dent \<Rightarrow> name \<times> u32 \<times> u8" where
  "dent_data d = (d_name d, d_ino d, d_type d)"

lemma all_dents_list:
  assumes "tbl_ok v" "0 < vd_nblk v"
  shows "map dent_data (all_dents m v) = vdir_list m v"
proof -
  have b: "map dent_data (block_dents m i b x) = map (de_at m) (block_des m b x)" for i b x
    by (simp add: block_dents_def dent_data_def dent_at_def de_at_def)
  have l: "left_dents m bs n 0 0 = concat (map (\<lambda>j. block_dents m j (the (bs ! j)) 0) [0..<n])" if "0 < n" for bs n
    using that by (simp add: left_dents_def upt_conv_Cons)
  have "blks v = map (\<lambda>j. the (vd_deblk v ! j)) [0..<vd_nblk v]"
    by (rule nth_equalityI) (simp_all add: length_blks[OF assms(1)] blks_nth[OF assms(1)])
  then show ?thesis using assms(2)
    by (simp add: all_dents_def l vdir_list_def vdir_des_def map_concat comp_def b)
qed

section \<open>One call\<close>

lemma fill_loop_spec:
  assumes "fill_loop m f bs n i x pos taken = ((i', x'), pos', taken')" "pos = AuSize_DEBLK * i + x" "i < n"
  shows "pos' = AuSize_DEBLK * i' + x' \<and> i' < n \<and> (\<exists>ds. taken' = taken @ ds \<and> left_dents m bs n i x = ds @ left_dents m bs n i' x' \<and>
    (left_dents m bs n i' x' \<noteq> [] \<longrightarrow> f taken' (hd (left_dents m bs n i' x')) \<noteq> 0))"
  using assms
proof (induction m f bs n i x pos taken rule: fill_loop.induct)
  case (1 m f bs n i x pos taken)
  let ?p = "(the (bs ! i), x)"
  note F = "1.prems"(1)[unfolded fill_loop.simps[of m f bs n i x] Let_def]
  show ?case
  proof (cases "is_deblk_end m ?p")
    case e: True
    show ?thesis
    proof (cases "i + 1 < n")
      case True
      then show ?thesis using "1.IH"(2)[OF refl _ True] F e left_next[OF True e] by simp
    next
      case False
      then show ?thesis using F e "1.prems" left_end[OF False e] by simp
    qed
  next
    case e: False
    note le = left_entry[of m bs i x n, OF e]
    show ?thesis
    proof (cases "f taken (dent_at m ?p pos) = 0")
      case True
      have "fill_loop m f bs n i (x + calc_size (str_len m (de_str ?p))) (pos + calc_size (str_len m (de_str ?p))) (taken @ [dent_at m ?p pos]) =
          ((i', x'), pos', taken')" using F e True by simp
      from "1.IH"(1)[OF refl e refl refl _ this] True "1.prems"(2,3) obtain ds where
        d: "pos' = AuSize_DEBLK * i' + x' \<and> i' < n" "taken' = (taken @ [dent_at m ?p pos]) @ ds"
          "left_dents m bs n i (x + calc_size (str_len m (de_str ?p))) = ds @ left_dents m bs n i' x'"
          "left_dents m bs n i' x' \<noteq> [] \<longrightarrow> f taken' (hd (left_dents m bs n i' x')) \<noteq> 0" by auto
      have "left_dents m bs n i x = (dent_at m ?p pos # ds) @ left_dents m bs n i' x'" unfolding le d(3) using "1.prems"(2) by simp
      then show ?thesis using d by (intro conjI exI[of _ "dent_at m ?p pos # ds"]) simp_all
    next
      case False
      then have "i' = i" "x' = x" "pos' = pos" "taken' = taken" using F e by simp_all
      then show ?thesis using "1.prems"(2,3) le False by simp
    qed
  qed
qed

lemma fill_loop_pos:
  "fill_loop m f bs n i x pos taken = (ix', pos', taken') \<Longrightarrow> 0 < pos \<or> length taken < length taken' \<Longrightarrow> 0 < pos'"
proof (induction m f bs n i x pos taken rule: fill_loop.induct)
  case (1 m f bs n i x pos taken)
  let ?p = "(the (bs ! i), x)"
  note F = "1.prems"(1)[unfolded fill_loop.simps[of m f bs n i x] Let_def]
  show ?case
  proof (cases "is_deblk_end m ?p")
    case e: True
    show ?thesis using "1.IH"(2)[OF refl _ _, of] F e "1.prems"(2) by (auto split: if_splits)
  next
    case e: False
    show ?thesis using "1.IH"(1)[OF refl e refl refl] F e "1.prems"(2) by (auto split: if_splits simp: calc_size_pos)
  qed
qed

text \<open>The file is at a place of the directory it keeps.\<close>

definition placed :: "au_file \<Rightarrow> bool" where
  "placed f \<longleftrightarrow> (\<exists>v. fvdir_cache f = Some v \<and> f_pos f = calc_offset v \<and> vd_last_i v < vd_nblk v \<and>
     fst (vd_last_p v) = the (vd_deblk v ! vd_last_i v))"

definition file_left :: "pmem \<Rightarrow> au_file \<Rightarrow> dent list" where
  "file_left m f = dents_left m (the (fvdir_cache f))"

definition same_dir :: "au_vdir \<Rightarrow> au_vdir \<Rightarrow> bool" where
  "same_dir v w \<longleftrightarrow> vd_deblk w = vd_deblk v \<and> vd_nblk w = vd_nblk v \<and> vd_version w = vd_version v"

lemma fill_from:
  assumes "seek_vdir m (f_pos f) (the (fvdir_cache f)) = Some (True, v)" "vd_last_i v < vd_nblk v"
    "f_pos f = calc_offset v"
  shows "\<exists>ts f'. au_vdir_fill_de m filldir f = Some (ts, f') \<and> dents_left m v = ts @ file_left m f' \<and>
    placed f' \<and> same_dir v (the (fvdir_cache f')) \<and> (file_left m f' \<noteq> [] \<longrightarrow> filldir ts (hd (file_left m f')) \<noteq> 0) \<and>
    (\<exists>c. f' = f\<lparr>f_pos := f_pos f', fvdir_cache := Some c\<rparr>) \<and> (0 < f_pos f \<or> ts \<noteq> [] \<longrightarrow> 0 < f_pos f')"
proof -
  obtain i x pos ts where l: "fill_loop m filldir (vd_deblk v) (vd_nblk v) (vd_last_i v) (snd (vd_last_p v)) (f_pos f) [] = ((i, x), pos, ts)"
    by (metis prod_cases3 surj_pair)
  let ?c = "v\<lparr>vd_last_i := i, vd_last_p := (the (vd_deblk v ! i), x)\<rparr>"
  have p: "f_pos f = AuSize_DEBLK * vd_last_i v + snd (vd_last_p v)" using assms(3) by (simp add: calc_offset_def)
  note s = fill_loop_spec[OF l p assms(2)]
  have "au_vdir_fill_de m filldir f = Some (ts, f\<lparr>f_pos := pos, fvdir_cache := Some ?c\<rparr>)"
    using assms(1) l by (simp add: au_vdir_fill_de_def)
  then show ?thesis using s fill_loop_pos[OF l] by (auto simp: dents_left_def file_left_def placed_def calc_offset_def same_dir_def)
qed

lemma fill_placed:
  assumes "placed f"
  shows "\<exists>ts f'. au_vdir_fill_de m filldir f = Some (ts, f') \<and> file_left m f = ts @ file_left m f' \<and>
    placed f' \<and> same_dir (the (fvdir_cache f)) (the (fvdir_cache f')) \<and>
    (file_left m f' \<noteq> [] \<longrightarrow> filldir ts (hd (file_left m f')) \<noteq> 0) \<and> (\<exists>c. f' = f\<lparr>f_pos := f_pos f', fvdir_cache := Some c\<rparr>) \<and>
    (0 < f_pos f \<or> ts \<noteq> [] \<longrightarrow> 0 < f_pos f')"
proof -
  obtain v where v: "fvdir_cache f = Some v" "f_pos f = calc_offset v" "vd_last_i v < vd_nblk v" using assms by (auto simp: placed_def)
  have "seek_vdir m (f_pos f) (the (fvdir_cache f)) = Some (True, v)" using v by (simp add: seek_vdir_def)
  from fill_from[OF this v(3,2), of filldir] show ?thesis using v(1) by (simp add: file_left_def)
qed

section \<open>Several calls\<close>

text \<open>The caller asks again and again, each time with another buffer.\<close>

fun readdir_calls :: "vd_env \<Rightarrow> (dent list \<Rightarrow> dent \<Rightarrow> int) list \<Rightarrow> au_file \<Rightarrow> dir_inode \<Rightarrow> vd_state \<Rightarrow>
    (dent list list \<times> au_file \<times> dir_inode \<times> vd_state) option" where
  "readdir_calls env [] f inode st = Some ([], f, inode, st)"
| "readdir_calls env (g # gs) f inode st =
     (case aufs_readdir env g f inode st of
        None \<Rightarrow> None
      | Some (err, ts, f, inode, st) \<Rightarrow>
          if err \<noteq> 0 then None
          else map_option (\<lambda>(tss, r). (ts # tss, r)) (readdir_calls env gs f inode st))"

lemma init_again:
  assumes "0 < f_pos f" "fvdir_cache f \<noteq> None" "ivdir inode \<noteq> None"
  shows "au_vdir_init env f inode st = Some (0, f, inode, st)"
  using assms by (auto simp: au_vdir_init_def read_vdir_def)

lemma placed_pos: "placed f \<Longrightarrow> f_pos f = calc_offset (the (fvdir_cache f)) \<and> fvdir_cache f \<noteq> None"
  by (auto simp: placed_def)

text \<open>Every buffer has room for one entry.\<close>

definition takes_one :: "(dent list \<Rightarrow> dent \<Rightarrow> int) \<Rightarrow> bool" where
  "takes_one g \<longleftrightarrow> (\<forall>d. g [] d = 0)"

lemma calls_placed:
  assumes "placed f" "0 < f_pos f" "ivdir inode \<noteq> None" "\<forall>g \<in> set gs. takes_one g"
  shows "\<exists>tss f'. readdir_calls env gs f inode st = Some (tss, f', inode, st) \<and>
    file_left (vmem st) f = concat tss @ file_left (vmem st) f' \<and> length (file_left (vmem st) f') \<le> length (file_left (vmem st) f) - length gs"
  using assms(1,2,4)
proof (induction gs arbitrary: f)
  case (Cons g gs)
  from fill_placed[OF Cons.prems(1), of "vmem st" g] obtain ts f1 where f1: "au_vdir_fill_de (vmem st) g f = Some (ts, f1)"
    "file_left (vmem st) f = ts @ file_left (vmem st) f1" "placed f1" "file_left (vmem st) f1 \<noteq> [] \<longrightarrow> g ts (hd (file_left (vmem st) f1)) \<noteq> 0"
    "0 < f_pos f1" using Cons.prems(2) by blast
  have r: "aufs_readdir env g f inode st = Some (0, ts, f1, inode, st)"
    using init_again[OF Cons.prems(2) _ assms(3)] placed_pos[OF Cons.prems(1)] f1(1) by (simp add: aufs_readdir_def)
  have ne: "file_left (vmem st) f1 \<noteq> [] \<longrightarrow> ts \<noteq> []" using f1(4) Cons.prems(3) by (auto simp: takes_one_def)
  from Cons.IH[OF f1(3,5)] Cons.prems(3) obtain tss f' where t: "readdir_calls env gs f1 inode st = Some (tss, f', inode, st)"
    "file_left (vmem st) f1 = concat tss @ file_left (vmem st) f'" "length (file_left (vmem st) f') \<le> length (file_left (vmem st) f1) - length gs" by auto
  have "length (file_left (vmem st) f1) - length gs \<le> length (file_left (vmem st) f) - length (g # gs)" using f1(2) ne by (cases "file_left (vmem st) f1") (auto simp: neq_Nil_conv)
  then show ?case using r t f1(2) by auto
qed simp

text \<open>
  C36: a directory read from its start in several calls, each with a buffer of any size that has room for one
  entry: no call fails, the calls deliver the entries of the union one after the other, none twice and
  none left out, and after as many calls as there are entries all have been delivered.
\<close>

theorem readdir_delivers_union:
  assumes "owned st H (somes [ivdir inode] @ somes [fvdir_cache f])" "can_read M env f inode st" "f_pos f = 0"
    "file_union f \<noteq> []" "\<forall>g \<in> set gs. takes_one g" "gs \<noteq> []"
  shows "\<exists>tss rest f' inode' st'. readdir_calls env gs f inode st = Some (tss, f', inode', st') \<and>
    map dent_data (concat tss) @ rest = union_listing f (xsb st) (xsb st') \<and>
    (length (file_union f) \<le> length gs \<longrightarrow> rest = [])"
proof -
  from readdir_listing[OF assms(1,2)] obtain f1 in1 st1 c v where i: "au_vdir_init env f inode st = Some (0, f1, in1, st1)"
    "fvdir_cache f1 = Some c" "ivdir in1 = Some v" "vdir_list (vmem st1) c = union_listing f (xsb st) (xsb st1)" "at_start c"
    "f_pos f1 = 0" "vdir_wf st1 c" using assms(3) by metis
  obtain g hs where gs: "gs = g # hs" using assms(6) by (cases gs) auto
  have w: "tbl_ok c" "0 < vd_nblk c" using i(7) by (simp_all add: vdir_wf_def)
  have hd: "hd (blks c) = the (vd_deblk c ! 0)" using blks_nth[OF w] length_blks[OF w(1)] w(2) by (cases "blks c") auto
  have p: "placed f1" using i(2,5,6) w(2) hd by (simp add: placed_def at_start_def calc_offset_def)
  have al: "file_left (vmem st1) f1 = all_dents (vmem st1) c" using i(2,5) by (simp add: file_left_def dents_left_def all_dents_def at_start_def)
  have dl: "map dent_data (file_left (vmem st1) f1) = union_listing f (xsb st) (xsb st1)"
    unfolding al all_dents_list[OF w] by (rule i(4))
  have len: "length (file_left (vmem st1) f1) = length (file_union f)" using arg_cong[OF dl, of length] by (simp add: union_listing_def)
  from fill_placed[OF p, of "vmem st1" g] obtain ts f2 where f2: "au_vdir_fill_de (vmem st1) g f1 = Some (ts, f2)"
    "file_left (vmem st1) f1 = ts @ file_left (vmem st1) f2" "placed f2" "file_left (vmem st1) f2 \<noteq> [] \<longrightarrow> g ts (hd (file_left (vmem st1) f2)) \<noteq> 0"
    "0 < f_pos f1 \<or> ts \<noteq> [] \<longrightarrow> 0 < f_pos f2" by blast
  have ts: "ts \<noteq> []" using f2(2,4) len assms(4,5) gs by (cases "file_left (vmem st1) f2 = []") (auto simp: takes_one_def)
  have r: "aufs_readdir env g f inode st = Some (0, ts, f2, in1, st1)" using i(1) f2(1) by (simp add: aufs_readdir_def)
  have hs: "\<forall>g \<in> set hs. takes_one g" and iv: "ivdir in1 \<noteq> None" using assms(5) gs i(3) by auto
  from calls_placed[OF f2(3) _ iv hs] f2(5) ts obtain tss f3 where t: "readdir_calls env hs f2 in1 st1 = Some (tss, f3, in1, st1)"
    "file_left (vmem st1) f2 = concat tss @ file_left (vmem st1) f3" "length (file_left (vmem st1) f3) \<le> length (file_left (vmem st1) f2) - length hs" by blast
  have a: "map dent_data (concat (ts # tss)) @ map dent_data (file_left (vmem st1) f3) = union_listing f (xsb st) (xsb st1)"
    unfolding dl[symmetric] f2(2) t(2) by simp
  have "length (file_union f) \<le> length gs \<longrightarrow> map dent_data (file_left (vmem st1) f3) = []"
    using arg_cong[OF f2(2), of length] len t(3) ts gs by (cases ts) auto
  moreover have "readdir_calls env gs f inode st = Some (ts # tss, f3, in1, st1)" using gs r t(1) by simp
  ultimately show ?thesis using a by blast
qed

lemma listing_names: "map fst (union_listing f s s') = map (l_name \<circ> snd) (file_union f)"
  by (simp add: union_listing_def case_prod_beta)

theorem readdir_delivers_union_witness:
  "\<exists>tss f' inode' st'. readdir_calls demo_vd_env (replicate 3 (\<lambda>ts d. if ts = [] then 0 else - 22)) demo_file demo_inode demo_vd_state =
     Some (tss, f', inode', st') \<and> map d_name (concat tss) = [[46], [97], [99]]"
proof -
  let ?g = "\<lambda>(ts :: dent list) (d :: dent). if ts = [] then 0 else - 22 :: int"
  have n: "length (file_union demo_file) = 3" using arg_cong[OF demo_union, of length] by simp
  have g: "f_pos demo_file = 0" "file_union demo_file \<noteq> []" "\<forall>g \<in> set (replicate 3 ?g). takes_one g" "replicate 3 ?g \<noteq> []"
    using n by (auto simp: demo_file_def takes_one_def)
  from readdir_delivers_union[OF demo_can_read(2,1) g] obtain tss rest f' inode' st' where
    r: "readdir_calls demo_vd_env (replicate 3 ?g) demo_file demo_inode demo_vd_state = Some (tss, f', inode', st')"
      "map dent_data (concat tss) @ rest = union_listing demo_file (xsb demo_vd_state) (xsb st')" "rest = []" using n by auto
  have "map fst (map dent_data (concat tss)) = [[46], [97], [99]]"
    using arg_cong[OF r(2), of "map fst"] r(3) demo_union by (simp add: listing_names)
  then show ?thesis using r(1) by (auto simp: dent_data_def comp_def)
qed

end
