(* ===== verification/Aufs_Vdir_Seek.thy ===== *)
theory Aufs_Vdir_Seek
  imports Aufs_Vdir_Fill
begin

text \<open>Moving to a position of an open directory (\<^verbatim>\<open>seek_vdir\<close>).\<close>

section \<open>The place of an entry\<close>

lemma path_more:
  assumes "block_wf m b" "path m b 0 qs x" "\<not> is_deblk_end m (b, x)"
  shows "path m b 0 (qs @ [(b, x)]) (x + de_size m (b, x))"
proof -
  obtain ps e where p: "block_at m b ps e" using assms(1) by (auto simp: block_wf_def)
  have "ps = qs @ (b, x) # block_des m b (x + de_size m (b, x))"
    using block_at_des[OF p] path_des[OF assms(2)] assms(3) by (simp add: block_des.simps[of m b x])
  then have "path m b 0 (qs @ (b, x) # block_des m b (x + de_size m (b, x))) e" using p by (simp add: block_at_def)
  then show ?thesis using assms(2) by (auto simp: path_append)
qed

text \<open>Every entry left has a place that is reached through the entries of its block.\<close>

lemma left_place:
  fixes pos :: nat and taken :: "dent list"
  assumes "left_dents m bs n i x = pre @ d # post" "i < n" "path m (the (bs ! i)) 0 qs x" "\<forall>j < n. block_wf m (the (bs ! j))"
  shows "\<exists>j y rs. j < n \<and> d_pos d = AuSize_DEBLK * j + y \<and> \<not> is_deblk_end m (the (bs ! j), y) \<and>
    path m (the (bs ! j)) 0 rs y \<and> left_dents m bs n j y = d # post"
  using assms
proof (induction m "\<lambda>(_ :: dent list) (_ :: dent). 0 :: int" bs n i x pos taken arbitrary: pre qs rule: fill_loop.induct)
  case (1 m bs n i x pos taken)
  let ?b = "the (bs ! i)"
  show ?case
  proof (cases "is_deblk_end m (?b, x)")
    case e: True
    show ?thesis
    proof (cases "i + 1 < n")
      case True
      have "path m (the (bs ! (i + 1))) 0 [] 0" by simp
      moreover have "left_dents m bs n (i + 1) 0 = pre @ d # post" using left_next[OF True e] "1.prems"(1) by metis
      ultimately show ?thesis using "1.hyps"(2)[OF refl _ True _ True _ "1.prems"(4)] e by blast
    next
      case False
      then show ?thesis using "1.prems"(1) left_end[OF False e] by simp
    qed
  next
    case e: False
    note le = left_entry[of m bs i x n, OF e]
    show ?thesis
    proof (cases pre)
      case Nil
      then have "d_pos d = AuSize_DEBLK * i + x" using "1.prems"(1) le by (auto simp: dent_at_def)
      then show ?thesis using "1.prems" Nil e by auto
    next
      case (Cons q pre')
      have "path m ?b 0 (qs @ [(?b, x)]) (x + de_size m (?b, x))" by (rule path_more) (use "1.prems" e in auto)
      moreover have "left_dents m bs n i (x + de_size m (?b, x)) = pre' @ d # post" using "1.prems"(1) le Cons by (simp add: de_size_def)
      ultimately show ?thesis using "1.hyps"(1)[OF refl e] "1.prems"(2,4) by (auto simp: de_size_def)
    qed
  qed
qed

lemma seek_block_reach:
  "path m b x qs y \<Longrightarrow> \<not> is_deblk_end m (b, y) \<Longrightarrow> seek_block m b x offset (offset + (y - x)) = (y, offset + (y - x))"
proof (induction qs arbitrary: x offset)
  case Nil
  then show ?case by (simp add: seek_block.simps)
next
  case (Cons q qs)
  then have q: "q = (b, x)" "\<not> is_deblk_end m (b, x)" "path m b (x + de_size m (b, x)) qs y" by auto
  have le: "x + de_size m (b, x) \<le> y" "0 < de_size m (b, x)" using path_le[OF q(3)] by (simp_all add: de_size_def calc_size_pos)
  then have "offset < offset + (y - x)" by simp
  then have "seek_block m b x offset (offset + (y - x)) = seek_block m b (x + de_size m (b, x)) (offset + de_size m (b, x)) (offset + (y - x))"
    using q(2) by (subst seek_block.simps) (simp only: de_size_def Let_def simp_thms if_True)
  then show ?case using Cons.IH[OF q(3) Cons.prems(2), of "offset + de_size m (b, x)"] le by simp
qed

lemma to_int_small: "n < 2147483648 \<Longrightarrow> to_int n = int n"
  by (simp add: to_int_def signed_of_nat signed_take_bit_int_eq_self)

lemma to_int_negative:
  assumes "2147483648 \<le> n" "n < 4294967296"
  shows "to_int n < 0"
proof -
  have "take_bit 32 (int n + 2147483648) = take_bit 32 (int n - 2147483648)"
    by (simp add: take_bit_eq_mod mod_eq_dvd_iff)
  also have "\<dots> = int n - 2147483648" by (rule take_bit_int_eq_self) (use assms in auto)
  finally show ?thesis using assms by (simp add: to_int_def signed_of_nat signed_take_bit_eq_take_bit_shift)
qed

section \<open>Seeking\<close>

text \<open>The position of an entry leads to the entry, wherever the file was before.\<close>

lemma seek_entry:
  assumes "vdir_wf st c" "vd_nblk c < 2147483648" "vd_last_i c < vd_nblk c" "snd (vd_last_p c) \<le> AuSize_DEBLK"
    "all_dents (vmem st) c = pre @ d # post"
  shows "\<exists>v. seek_vdir (vmem st) (d_pos d) c = Some (True, v) \<and> same_dir c v \<and> vd_last_i v < vd_nblk v \<and> d_pos d = calc_offset v \<and>
    dents_left (vmem st) v = d # post"
proof -
  let ?m = "vmem st" and ?n = "vd_nblk c" and ?bs = "vd_deblk c"
  have t: "tbl_ok c" "0 < ?n" using assms(1) by (simp_all add: vdir_wf_def)
  have w: "\<forall>j < ?n. block_wf ?m (the (?bs ! j))"
    using assms(1) blks_nth[OF t(1)] length_blks[OF t(1)] by (metis nth_mem vdir_wf_def)
  have p0: "path ?m (the (?bs ! 0)) 0 [] 0" by simp
  from left_place[OF assms(5)[unfolded all_dents_def] t(2) p0 w] obtain j y rs where
    j: "j < ?n" "d_pos d = AuSize_DEBLK * j + y" "\<not> is_deblk_end ?m (the (?bs ! j), y)" "path ?m (the (?bs ! j)) 0 rs y"
      "left_dents ?m ?bs ?n j y = d # post" by blast
  have y: "y < 512" by (rule not_end_in_block[OF j(3)])
  show ?thesis
  proof (cases "d_pos d = calc_offset c")
    case True
    then have e: "512 * j + y = 512 * vd_last_i c + snd (vd_last_p c)" using j(2) by (simp add: calc_offset_def)
    have "dents_left ?m c = d # post"
    proof (cases "snd (vd_last_p c) = 512")
      case at_end: True
      then have e': "512 * j + y = 512 * (vd_last_i c + 1)" using e by simp
      have k: "j = vd_last_i c + 1" using arg_cong[OF e', of "\<lambda>n. n div 512"] y by simp
      have "y = 0" using e' unfolding k by simp
      note k = k this
      have "is_deblk_end ?m (the (?bs ! vd_last_i c), 512)" by (simp add: is_deblk_end_def)
      from left_next[OF _ this] show ?thesis using k j(1,5) at_end by (simp add: dents_left_def)
    next
      case False
      then have "snd (vd_last_p c) < 512" using assms(4) by simp
      then have k: "j = vd_last_i c" using arg_cong[OF e, of "\<lambda>n. n div 512"] y by simp
      have "y = snd (vd_last_p c)" using e unfolding k by simp
      note k = k this
      show ?thesis using j(5) unfolding k by (simp add: dents_left_def)
    qed
    then show ?thesis using True assms(3) by (simp add: seek_vdir_def same_dir_def)
  next
    case ne: False
    show ?thesis
    proof (cases "d_pos d = 0")
      case True
      then have "j = 0" "y = 0" using j(2) by simp_all
      then show ?thesis using ne True j(5) t(2)
        by (simp add: seek_vdir_def same_dir_def vd_rewind_def calc_offset_def dents_left_def)
    next
      case False
      have dv: "d_pos d div 512 = j" using j(2) y by simp
      have ti: "to_int j = int j" by (rule to_int_small) (use j(1) assms(2) in simp)
      obtain k where k: "?n - j = Suc k" using j(1) by (metis Suc_diff_Suc)
      have "seek_block ?m (the (?bs ! j)) 0 (j * 512) (d_pos d) = (y, d_pos d)"
        using seek_block_reach[OF j(4,3), of "j * 512"] j(2) by (simp add: mult.commute)
      then have "seek_blocks (?n - j) ?m (vd_rewind c) j (d_pos d) = Some (j, the (?bs ! j), y)"
        using j(3) unfolding k by (simp add: vd_rewind_def)
      then have "seek_vdir ?m (d_pos d) c = Some (True, (vd_rewind c)\<lparr>vd_last_i := j, vd_last_p := (the (?bs ! j), y)\<rparr>)"
        using ne False dv ti j(1) by (simp add: seek_vdir_def vd_rewind_def)
      then show ?thesis using j by (simp add: same_dir_def vd_rewind_def calc_offset_def dents_left_def)
    qed
  qed
qed

text \<open>
  C38: a position that was given out with an entry leads back to it: reading from there delivers that entry and
  those after it, wherever the file was before.
\<close>

theorem seek_returns_to_entry:
  assumes "fvdir_cache f = Some c" "vdir_wf st c" "vd_nblk c < 2147483648" "vd_last_i c < vd_nblk c" "snd (vd_last_p c) \<le> AuSize_DEBLK"
    "all_dents (vmem st) c = pre @ d # post"
  shows "\<exists>ts f'. au_vdir_fill_de (vmem st) g (f\<lparr>f_pos := d_pos d\<rparr>) = Some (ts, f') \<and>
    ts @ file_left (vmem st) f' = d # post \<and> (g [] d = 0 \<longrightarrow> ts \<noteq> [])"
proof -
  from seek_entry[OF assms(2-6)] obtain v where v: "seek_vdir (vmem st) (d_pos d) c = Some (True, v)" "vd_last_i v < vd_nblk v"
    "d_pos d = calc_offset v" "dents_left (vmem st) v = d # post" by blast
  have s: "seek_vdir (vmem st) (f_pos (f\<lparr>f_pos := d_pos d\<rparr>)) (the (fvdir_cache (f\<lparr>f_pos := d_pos d\<rparr>))) = Some (True, v)"
    using v(1) assms(1) by simp
  from fill_from[OF s v(2)] v(3) obtain ts f' where "au_vdir_fill_de (vmem st) g (f\<lparr>f_pos := d_pos d\<rparr>) = Some (ts, f')"
    "dents_left (vmem st) v = ts @ file_left (vmem st) f'" "file_left (vmem st) f' \<noteq> [] \<longrightarrow> g ts (hd (file_left (vmem st) f')) \<noteq> 0" by fastforce
  moreover have "ts = [] \<Longrightarrow> hd (file_left (vmem st) f') = d \<and> file_left (vmem st) f' \<noteq> []" using calculation(2) v(4) by (metis append_Nil list.distinct(1) list.sel(1))
  ultimately show ?thesis using v(4) by (intro exI[of _ ts] exI[of _ f'] conjI) auto
qed

text \<open>A directory of one block with two entries.\<close>

definition demo_block :: pmem where
  "demo_block b = (\<lambda>_. 0)(0 := 4, 4 := 8, 5 := 1, 6 := 97, 8 := 5, 12 := 8, 13 := 1, 14 := 98)"

definition demo_dir :: au_vdir where
  "demo_dir = \<lparr>vd_deblk = [Some 1], vd_nblk = 1, vd_last_i = 0, vd_last_p = (1, 16), vd_version = 0, vd_jiffy = 0\<rparr>"

lemma demo_block_at: "block_at demo_block 1 [(1, 0), (1, 8)] 16" "block_des demo_block 1 0 = [(1, 0), (1, 8)]"
proof -
  show "block_at demo_block 1 [(1, 0), (1, 8)] 16"
    by (simp add: block_at_def is_deblk_end_def str_len_def de_str_def demo_block_def de_size_def calc_size_def)
  then show "block_des demo_block 1 0 = [(1, 0), (1, 8)]" by (rule block_at_des)
qed

theorem seek_returns_to_entry_witness:
  "\<exists>ts f'. au_vdir_fill_de demo_block (\<lambda>ts d. if ts = [] then 0 else - 22)
       (demo_file\<lparr>fvdir_cache := Some demo_dir, f_pos := 8\<rparr>) = Some (ts, f') \<and> map d_name ts = [[98]]"
proof -
  let ?st = "\<lparr>vmem = demo_block, live = [1], tick = 0, xsb = demo_sb2\<rparr>" and ?f = "demo_file\<lparr>fvdir_cache := Some demo_dir\<rparr>"
  let ?g = "\<lambda>(ts :: dent list) (d :: dent). if ts = [] then 0 else - 22 :: int"
  have w: "vdir_wf ?st demo_dir" using demo_block_at(1) by (auto simp: vdir_wf_def tbl_ok_def blks_def demo_dir_def block_wf_def)
  have a: "all_dents (vmem ?st) demo_dir = [dent_at demo_block (1, 0) 0] @ dent_at demo_block (1, 8) 8 # []"
    by (simp add: all_dents_def left_dents_def block_dents_def demo_dir_def demo_block_at(2))
  have d: "d_pos (dent_at demo_block (1, 8) 8) = 8" "d_name (dent_at demo_block (1, 8) 8) = [98]"
    by (simp_all add: dent_at_def str_name_def str_len_def de_str_def demo_block_def ld_bytes_def)
  have "vd_nblk demo_dir < 2147483648" "vd_last_i demo_dir < vd_nblk demo_dir" "snd (vd_last_p demo_dir) \<le> 512" by (simp_all add: demo_dir_def)
  from seek_returns_to_entry[OF _ w this a, of ?f ?g] obtain ts f' where
    r: "au_vdir_fill_de demo_block ?g (?f\<lparr>f_pos := 8\<rparr>) = Some (ts, f')" "ts @ file_left demo_block f' = [dent_at demo_block (1, 8) 8]" "ts \<noteq> []"
    using d(1) by auto
  have "ts = [dent_at demo_block (1, 8) 8]" using r(2,3) by (cases ts) auto
  then show ?thesis using r(1) d(2) by (auto simp: demo_file_def)
qed

text \<open>
  C39: the number of a block is kept in an \<^verbatim>\<open>int\<close>: a position of two to the 40 or more (up to twice that, where
  the number repeats) becomes a negative index, which passes the test against the number of blocks, and
  the table of blocks is read before its start. No smaller position does.
\<close>

theorem seek_negative_index:
  assumes "pos < 2199023255552"
  shows "seek_vdir m pos v = None \<longleftrightarrow> pos \<noteq> calc_offset v \<and> 1099511627776 \<le> pos"
proof (cases "1099511627776 \<le> pos")
  case True
  then have "to_int (pos div 512) < 0" by (intro to_int_negative) (use assms in auto)
  then show ?thesis using True by (auto simp: seek_vdir_def Let_def)
next
  case False
  then have "to_int (pos div 512) = int (pos div 512)" by (intro to_int_small) auto
  then show ?thesis using False by (auto simp: seek_vdir_def Let_def split: option.splits)
qed

theorem seek_negative_index_witness: "seek_vdir demo_block 1099511627776 demo_dir = None"
  using seek_negative_index[of 1099511627776 demo_block demo_dir] by (simp add: demo_dir_def calc_offset_def)

end
