(* ===== verification/Spec2Isabelle.thy ===== *)
theory Spec2Isabelle
  imports Ramzswap_Props Aufs_Xino_Refs Aufs_Xino_Restore Aufs_Wbr_Props Aufs_Refresh Aufs_Vdir_Seek
begin

text \<open>
  A verification library for the C code of the kernel-patches repository.
\<close>

end
